(* ===== verification/Js_Number.thy ===== *)
theory Js_Number imports Complex_Main begin

text \<open>
  The numbers of the program. A TypeScript \<open>number\<close> is modelled as a finite real, one of the two
  infinities or NaN, with the comparison and arithmetic rules of the language: every comparison
  with NaN is false, an operation on NaN is NaN, and \<open>Infinity - Infinity\<close> is NaN. Finite
  arithmetic is exact: rounding to 53 bits and the sign of zero are not modelled.
  Numerals, \<open>+\<close>, \<open>-\<close>, \<open>*\<close>, \<open>/\<close>, \<open><\<close> and \<open>\<le>\<close> are instantiated at this
  type, so a definition over it reads like the source expression.
\<close>

section \<open>The number type\<close>

datatype jsnum = Fin real | PosInf | NegInf | NaN

named_theorems num_unfold \<open>unfolding rules for the standard numeric predicates\<close>

instantiation jsnum :: "{zero, one, plus, uminus, minus, times, inverse, ord}"
begin

definition zero_jsnum :: jsnum where
  "zero_jsnum = Fin 0"

definition one_jsnum :: jsnum where
  "one_jsnum = Fin 1"

fun plus_jsnum :: "jsnum \<Rightarrow> jsnum \<Rightarrow> jsnum" where
  "plus_jsnum NaN _ = NaN"
| "plus_jsnum _ NaN = NaN"
| "plus_jsnum (Fin a) (Fin b) = Fin (a + b)"
| "plus_jsnum PosInf NegInf = NaN"
| "plus_jsnum NegInf PosInf = NaN"
| "plus_jsnum PosInf _ = PosInf"
| "plus_jsnum _ PosInf = PosInf"
| "plus_jsnum NegInf _ = NegInf"
| "plus_jsnum _ NegInf = NegInf"

fun uminus_jsnum :: "jsnum \<Rightarrow> jsnum" where
  "uminus_jsnum (Fin a) = Fin (- a)"
| "uminus_jsnum PosInf = NegInf"
| "uminus_jsnum NegInf = PosInf"
| "uminus_jsnum NaN = NaN"

definition minus_jsnum :: "jsnum \<Rightarrow> jsnum \<Rightarrow> jsnum" where
  "minus_jsnum a b = a + (- b)"

fun times_jsnum :: "jsnum \<Rightarrow> jsnum \<Rightarrow> jsnum" where
  "times_jsnum NaN _ = NaN"
| "times_jsnum _ NaN = NaN"
| "times_jsnum (Fin a) (Fin b) = Fin (a * b)"
| "times_jsnum (Fin a) PosInf = (if a = 0 then NaN else if 0 < a then PosInf else NegInf)"
| "times_jsnum (Fin a) NegInf = (if a = 0 then NaN else if 0 < a then NegInf else PosInf)"
| "times_jsnum PosInf (Fin b) = (if b = 0 then NaN else if 0 < b then PosInf else NegInf)"
| "times_jsnum NegInf (Fin b) = (if b = 0 then NaN else if 0 < b then NegInf else PosInf)"
| "times_jsnum PosInf PosInf = PosInf"
| "times_jsnum PosInf NegInf = NegInf"
| "times_jsnum NegInf PosInf = NegInf"
| "times_jsnum NegInf NegInf = PosInf"

fun inverse_jsnum :: "jsnum \<Rightarrow> jsnum" where
  "inverse_jsnum (Fin a) = (if a = 0 then PosInf else Fin (1 / a))"
| "inverse_jsnum PosInf = Fin 0"
| "inverse_jsnum NegInf = Fin 0"
| "inverse_jsnum NaN = NaN"

fun divide_jsnum :: "jsnum \<Rightarrow> jsnum \<Rightarrow> jsnum" where
  "divide_jsnum (Fin a) (Fin b) = (if b = 0 then Fin a * PosInf else Fin (a / b))"
| "divide_jsnum a b = a * inverse b"

fun less_eq_jsnum :: "jsnum \<Rightarrow> jsnum \<Rightarrow> bool" where
  "less_eq_jsnum NaN _ = False"
| "less_eq_jsnum _ NaN = False"
| "less_eq_jsnum NegInf _ = True"
| "less_eq_jsnum _ PosInf = True"
| "less_eq_jsnum (Fin a) (Fin b) = (a \<le> b)"
| "less_eq_jsnum _ _ = False"

fun less_jsnum :: "jsnum \<Rightarrow> jsnum \<Rightarrow> bool" where
  "less_jsnum NaN _ = False"
| "less_jsnum _ NaN = False"
| "less_jsnum (Fin a) (Fin b) = (a < b)"
| "less_jsnum NegInf NegInf = False"
| "less_jsnum NegInf _ = True"
| "less_jsnum PosInf _ = False"
| "less_jsnum _ PosInf = True"
| "less_jsnum _ NegInf = False"

instance ..

end

lemma fin_minus [simp]: "Fin a - Fin b = Fin (a - b)"
  by (simp add: minus_jsnum_def)

lemma zero_fin [simp]: "(0::jsnum) = Fin 0"
  by (rule zero_jsnum_def)

lemma one_fin [simp]: "(1::jsnum) = Fin 1"
  by (rule one_jsnum_def)

lemma minus_nan [simp]: "a - NaN = NaN" "NaN - a = NaN"
  by (cases a; simp add: minus_jsnum_def)+

lemma minus_posinf [simp]: "Fin a - PosInf = NegInf" "PosInf - Fin a = PosInf"
  by (simp_all add: minus_jsnum_def)

lemma minus_neginf [simp]: "Fin a - NegInf = PosInf" "NegInf - Fin a = NegInf"
  by (simp_all add: minus_jsnum_def)

lemma minus_inf_inf [simp]: "PosInf - PosInf = NaN" "NegInf - NegInf = NaN"
    "PosInf - NegInf = PosInf" "NegInf - PosInf = NegInf"
  by (simp_all add: minus_jsnum_def)

lemma plus_nan [simp]: "a + NaN = NaN" "NaN + a = (NaN :: jsnum)"
  by (cases a; simp)+

lemma le_nan [simp]: "\<not> a \<le> NaN" "\<not> NaN \<le> a"
  by (cases a; simp)+

lemma less_nan [simp]: "\<not> a < NaN" "\<not> NaN < a"
  by (cases a; simp)+

instance jsnum :: semigroup_add
proof
  fix a b c :: jsnum
  show "a + b + c = a + (b + c)"
    by (cases a; cases b; cases c) auto
qed

instance jsnum :: numeral ..

lemma numeral_fin [simp]: "(numeral n :: jsnum) = Fin (numeral n)"
proof (induction n)
  case One
  show ?case by (simp only: numeral_One one_fin)
next
  case (Bit0 n)
  then show ?case by (simp only: numeral.simps(2) plus_jsnum.simps)
next
  case (Bit1 n)
  then show ?case by (simp only: numeral.simps(3) plus_jsnum.simps one_fin)
qed

lemma le_fin_cases: "a \<le> Fin b \<Longrightarrow> a = NegInf \<or> (\<exists>x. a = Fin x \<and> x \<le> b)"
  by (cases a) auto

lemma less_imp_le_num: "(a::jsnum) < b \<Longrightarrow> a \<le> b"
  by (cases a; cases b) auto

lemma le_trans_num: "(a::jsnum) \<le> b \<Longrightarrow> b \<le> c \<Longrightarrow> a \<le> c"
  by (cases a; cases b; cases c) auto

lemma not_le_num: "a \<noteq> NaN \<Longrightarrow> b \<noteq> NaN \<Longrightarrow> \<not> a \<le> b \<longleftrightarrow> b < (a::jsnum)"
  by (cases a; cases b) auto

lemma not_less_num: "a \<noteq> NaN \<Longrightarrow> b \<noteq> NaN \<Longrightarrow> \<not> a < b \<longleftrightarrow> b \<le> (a::jsnum)"
  by (cases a; cases b) auto

section \<open>The numeric operations of the standard library\<close>

text \<open>Equality \<open>===\<close> of numbers, which fails on NaN.\<close>

definition num_eq :: "jsnum \<Rightarrow> jsnum \<Rightarrow> bool" where
  "num_eq a b \<longleftrightarrow> a = b \<and> a \<noteq> NaN"

fun is_finite :: "jsnum \<Rightarrow> bool" where
  "is_finite (Fin _) = True"
| "is_finite _ = False"

fun is_integer :: "jsnum \<Rightarrow> bool" where
  "is_integer (Fin x) = (of_int \<lfloor>x\<rfloor> = x)"
| "is_integer _ = False"

definition max_safe :: real where
  "max_safe = 9007199254740991"

fun is_safe_integer :: "jsnum \<Rightarrow> bool" where
  "is_safe_integer (Fin x) = (of_int \<lfloor>x\<rfloor> = x \<and> \<bar>x\<bar> \<le> max_safe)"
| "is_safe_integer _ = False"

fun js_floor :: "jsnum \<Rightarrow> jsnum" where
  "js_floor (Fin x) = Fin (of_int \<lfloor>x\<rfloor>)"
| "js_floor a = a"

fun js_ceil :: "jsnum \<Rightarrow> jsnum" where
  "js_ceil (Fin x) = Fin (of_int \<lceil>x\<rceil>)"
| "js_ceil a = a"

fun js_trunc :: "jsnum \<Rightarrow> jsnum" where
  "js_trunc (Fin x) = Fin (if 0 \<le> x then of_int \<lfloor>x\<rfloor> else of_int \<lceil>x\<rceil>)"
| "js_trunc a = a"

text \<open>\<open>Math.round\<close> rounds a half up.\<close>

fun js_round :: "jsnum \<Rightarrow> jsnum" where
  "js_round (Fin x) = Fin (of_int \<lfloor>x + 1 / 2\<rfloor>)"
| "js_round a = a"

fun js_abs :: "jsnum \<Rightarrow> jsnum" where
  "js_abs (Fin x) = Fin \<bar>x\<bar>"
| "js_abs NaN = NaN"
| "js_abs _ = PosInf"

definition js_min :: "jsnum \<Rightarrow> jsnum \<Rightarrow> jsnum" where
  "js_min a b = (if a = NaN \<or> b = NaN then NaN else if a \<le> b then a else b)"

definition js_max :: "jsnum \<Rightarrow> jsnum \<Rightarrow> jsnum" where
  "js_max a b = (if a = NaN \<or> b = NaN then NaN else if a \<le> b then b else a)"

fun js_cos :: "jsnum \<Rightarrow> jsnum" where
  "js_cos (Fin x) = Fin (cos x)"
| "js_cos _ = NaN"

fun js_sin :: "jsnum \<Rightarrow> jsnum" where
  "js_sin (Fin x) = Fin (sin x)"
| "js_sin _ = NaN"

fun js_sqrt :: "jsnum \<Rightarrow> jsnum" where
  "js_sqrt (Fin x) = (if 0 \<le> x then Fin (sqrt x) else NaN)"
| "js_sqrt PosInf = PosInf"
| "js_sqrt _ = NaN"

fun js_hypot :: "jsnum \<Rightarrow> jsnum \<Rightarrow> jsnum" where
  "js_hypot (Fin x) (Fin y) = Fin (sqrt (x * x + y * y))"
| "js_hypot a b = (if a = PosInf \<or> a = NegInf \<or> b = PosInf \<or> b = NegInf then PosInf else NaN)"

definition js_pi :: jsnum where
  "js_pi = Fin pi"

text \<open>The largest of a list of numbers, \<open>Math.max(...xs)\<close>.\<close>

definition js_max_list :: "jsnum list \<Rightarrow> jsnum" where
  "js_max_list xs = foldl js_max NegInf xs"

definition js_min_list :: "jsnum list \<Rightarrow> jsnum" where
  "js_min_list xs = foldl js_min PosInf xs"

section \<open>Facts\<close>

lemma js_min_fin [simp]: "js_min (Fin a) (Fin b) = Fin (min a b)"
  by (simp add: js_min_def min_def)

lemma js_max_fin [simp]: "js_max (Fin a) (Fin b) = Fin (max a b)"
  by (simp add: js_max_def max_def)

lemma js_max_nan [simp]: "js_max NaN b = NaN" "js_max a NaN = NaN"
  by (simp_all add: js_max_def)

lemma js_min_nan [simp]: "js_min NaN b = NaN" "js_min a NaN = NaN"
  by (simp_all add: js_min_def)

lemma num_eq_fin [simp]: "num_eq (Fin a) (Fin b) \<longleftrightarrow> a = b"
  by (simp add: num_eq_def)

lemma num_eq_nan [simp]: "\<not> num_eq NaN a" "\<not> num_eq a NaN"
  by (auto simp: num_eq_def)

lemma is_finite_iff [num_unfold]: "is_finite a \<longleftrightarrow> (\<exists>x. a = Fin x)"
  by (cases a) auto

lemma is_finiteE: "is_finite a \<Longrightarrow> (\<And>x. a = Fin x \<Longrightarrow> P) \<Longrightarrow> P"
  by (cases a) auto

lemma is_safe_integer_int: "\<bar>i\<bar> \<le> 9007199254740991 \<Longrightarrow> is_safe_integer (Fin (of_int i))"
  by (simp add: max_safe_def flip: of_int_abs)

lemma is_safe_of_int [simp]: "is_safe_integer (Fin (of_int i)) \<longleftrightarrow> \<bar>i\<bar> \<le> 9007199254740991"
proof -
  have "\<bar>of_int i :: real\<bar> \<le> max_safe \<longleftrightarrow> of_int \<bar>i\<bar> \<le> (of_int 9007199254740991 :: real)"
    by (simp add: max_safe_def)
  then show ?thesis by (simp only: of_int_le_iff) simp
qed

lemma is_safe_numeral [simp]:
  "is_safe_integer (Fin (numeral n)) \<longleftrightarrow> (numeral n :: int) \<le> 9007199254740991"
  "is_safe_integer (Fin (- numeral n)) \<longleftrightarrow> (numeral n :: int) \<le> 9007199254740991"
  "is_safe_integer (Fin 0)" "is_safe_integer (Fin 1)"
  using is_safe_of_int [of "numeral n"] is_safe_of_int [of "- numeral n"] is_safe_of_int [of 0]
    is_safe_of_int [of 1]
  by (simp_all del: is_safe_of_int)

declare is_safe_integer.simps(1) [simp del]

lemma is_safe_integerE:
  assumes "is_safe_integer a"
  obtains i where "a = Fin (of_int i)" "\<bar>i\<bar> \<le> 9007199254740991"
proof (cases a)
  case (Fin x)
  from assms have "of_int \<lfloor>x\<rfloor> = x \<and> \<bar>x\<bar> \<le> max_safe"
    unfolding Fin is_safe_integer.simps .
  then have x: "x = of_int \<lfloor>x\<rfloor>" and b: "\<bar>x\<bar> \<le> 9007199254740991"
    unfolding max_safe_def by metis+
  from b have "\<bar>of_int \<lfloor>x\<rfloor> :: real\<bar> \<le> of_int 9007199254740991"
    by (subst x [symmetric]) simp
  then have "\<bar>\<lfloor>x\<rfloor>\<bar> \<le> 9007199254740991"
    by (simp only: of_int_abs [symmetric] of_int_le_iff)
  with Fin x that show ?thesis by metis
qed (use assms in auto)

lemma is_safe_integer_finite: "is_safe_integer a \<Longrightarrow> is_finite a"
  by (cases a) auto

lemma is_integerE:
  assumes "is_integer a"
  obtains i where "a = Fin (of_int i)"
proof (cases a)
  case (Fin x)
  from assms have "of_int \<lfloor>x\<rfloor> = x"
    unfolding Fin is_integer.simps .
  with Fin that show ?thesis by metis
qed (use assms in simp_all)

lemma is_integer_int [simp]: "is_integer (Fin (of_int i))"
  by simp

lemma js_max_cases: "js_max a b = a \<or> js_max a b = b"
  by (cases a; cases b) (auto simp: js_max_def)

lemma js_max_ge1: "a \<noteq> NaN \<Longrightarrow> b \<noteq> NaN \<Longrightarrow> a \<le> js_max a b"
  by (cases a; cases b) (auto simp: js_max_def)

lemma js_max_ge2: "a \<noteq> NaN \<Longrightarrow> b \<noteq> NaN \<Longrightarrow> b \<le> js_max a b"
  by (cases a; cases b) (auto simp: js_max_def)

lemma foldl_js_max_ge:
  assumes "NaN \<notin> set xs" and "a \<noteq> NaN"
  shows "foldl js_max a xs \<noteq> NaN \<and> a \<le> foldl js_max a xs \<and> (\<forall>x\<in>set xs. x \<le> foldl js_max a xs)"
  using assms
proof (induction xs arbitrary: a)
  case Nil
  then show ?case by (cases a) auto
next
  case (Cons x xs)
  have n: "js_max a x \<noteq> NaN"
    using Cons.prems js_max_cases [of a x] by auto
  have "a \<le> js_max a x" "x \<le> js_max a x"
    using Cons.prems by (auto intro: js_max_ge1 js_max_ge2)
  with Cons.IH [OF _ n] Cons.prems show ?case
    by (auto intro: le_trans_num)
qed

lemma foldl_js_max_in: "foldl js_max a xs = a \<or> foldl js_max a xs \<in> set xs"
proof (induction xs arbitrary: a)
  case (Cons x xs)
  then show ?case
    using js_max_cases [of a x] by (metis foldl_Cons insert_iff list.simps(15))
qed simp

text \<open>The maximum of a nonempty list of finite numbers is one of them and bounds them all.\<close>

lemma js_max_list_finite:
  assumes "xs \<noteq> []" and "\<forall>x\<in>set xs. is_finite x"
  shows "js_max_list xs \<in> set xs \<and> (\<forall>x\<in>set xs. x \<le> js_max_list xs)"
proof -
  have nan: "NaN \<notin> set xs"
    using assms(2) by auto
  have ge: "\<forall>x\<in>set xs. x \<le> js_max_list xs"
    using foldl_js_max_ge [OF nan, of NegInf] by (simp add: js_max_list_def)
  have "js_max_list xs \<noteq> NegInf"
  proof
    assume h: "js_max_list xs = NegInf"
    from assms(1) have "hd xs \<in> set xs" by simp
    with ge assms(2) h have "is_finite (hd xs)" "hd xs \<le> NegInf" by auto
    then show False by (cases "hd xs") auto
  qed
  with foldl_js_max_in [of NegInf xs] ge show ?thesis
    by (auto simp: js_max_list_def)
qed

section \<open>Reading accepted values\<close>

fun num_floor :: "jsnum \<Rightarrow> int" where
  "num_floor (Fin x) = \<lfloor>x\<rfloor>"
| "num_floor _ = 0"

fun num_real :: "jsnum \<Rightarrow> real" where
  "num_real (Fin x) = x"
| "num_real _ = 0"

definition opt_default :: "'a option \<Rightarrow> 'a \<Rightarrow> 'a" where
  "opt_default x d = (case x of None \<Rightarrow> d | Some y \<Rightarrow> y)"

end
