(* ===== verification/Js_Value.thy ===== *)
theory Js_Value imports Js_Number "HOL-Library.List_Lexorder" "HOL-Library.Char_ord" begin

text \<open>
  Untrusted values of the language: what \<open>JSON.parse\<close> or a database read gives the code as
  \<open>unknown\<close>. \<open>typeof\<close> and \<open>Array.isArray\<close> tests are the constructors, a property read of a missing
  key is \<open>JUndef\<close>. Strings are lists of characters.
\<close>

section \<open>Values\<close>

datatype jsval =
    JUndef
  | JNull
  | JBool bool
  | JNum jsnum
  | JStr string
  | JArr "jsval list"
  | JObj "(string \<times> jsval) list"

fun obj_get :: "(string \<times> jsval) list \<Rightarrow> string \<Rightarrow> jsval" where
  "obj_get [] k = JUndef"
| "obj_get ((j, v) # o') k = (if j = k then v else obj_get o' k)"

text \<open>\<open>value.key\<close> on an object; a primitive or an array has none of the properties the code reads.\<close>

fun js_prop :: "jsval \<Rightarrow> string \<Rightarrow> jsval" where
  "js_prop (JObj fs) k = obj_get fs k"
| "js_prop _ k = JUndef"

fun truthy :: "jsval \<Rightarrow> bool" where
  "truthy JUndef = False"
| "truthy JNull = False"
| "truthy (JBool b) = b"
| "truthy (JNum x) = (x \<noteq> NaN \<and> \<not> num_eq x 0)"
| "truthy (JStr s) = (s \<noteq> [])"
| "truthy _ = True"

fun is_record :: "jsval \<Rightarrow> bool" where
  "is_record (JObj _) = True"
| "is_record _ = False"

text \<open>\<open>a ?? b\<close>.\<close>

definition nullish :: "jsval \<Rightarrow> jsval \<Rightarrow> jsval" where
  "nullish a b = (if a = JUndef \<or> a = JNull then b else a)"

fun num_of :: "jsval \<Rightarrow> jsnum option" where
  "num_of (JNum x) = Some x"
| "num_of _ = None"

fun str_of :: "jsval \<Rightarrow> string option" where
  "str_of (JStr s) = Some s"
| "str_of _ = None"

lemma num_of_some [simp]: "num_of v = Some x \<longleftrightarrow> v = JNum x"
  by (cases v) auto

lemma str_of_some [simp]: "str_of v = Some x \<longleftrightarrow> v = JStr x"
  by (cases v) auto

lemma obj_get_map_of: "obj_get fs k = (case map_of fs k of None \<Rightarrow> JUndef | Some v \<Rightarrow> v)"
  by (induction fs) auto

text \<open>\<open>Number(v)\<close>; the parse of a string or an array is the parameter.\<close>

fun js_number :: "(jsval \<Rightarrow> jsnum) \<Rightarrow> jsval \<Rightarrow> jsnum" where
  "js_number parse JUndef = NaN"
| "js_number parse JNull = 0"
| "js_number parse (JBool b) = (if b then 1 else 0)"
| "js_number parse (JNum x) = x"
| "js_number parse (JObj _) = NaN"
| "js_number parse v = parse v"

section \<open>Strings\<close>

definition js_space :: "char \<Rightarrow> bool" where
  "js_space c \<longleftrightarrow> of_char c \<in> {9, 10, 11, 12, 13, 32, 160 :: nat}"

definition js_trim :: "string \<Rightarrow> string" where
  "js_trim s = rev (dropWhile js_space (rev (dropWhile js_space s)))"

definition char_lower :: "char \<Rightarrow> char" where
  "char_lower c = (let n = of_char c :: nat in if 65 \<le> n \<and> n \<le> 90 then char_of (n + 32) else c)"

definition char_upper :: "char \<Rightarrow> char" where
  "char_upper c = (let n = of_char c :: nat in if 97 \<le> n \<and> n \<le> 122 then char_of (n - 32) else c)"

definition is_digit :: "char \<Rightarrow> bool" where
  "is_digit c \<longleftrightarrow> 48 \<le> (of_char c :: nat) \<and> (of_char c :: nat) \<le> 57"

definition is_upper :: "char \<Rightarrow> bool" where
  "is_upper c \<longleftrightarrow> 65 \<le> (of_char c :: nat) \<and> (of_char c :: nat) \<le> 90"

definition is_lower :: "char \<Rightarrow> bool" where
  "is_lower c \<longleftrightarrow> 97 \<le> (of_char c :: nat) \<and> (of_char c :: nat) \<le> 122"

text \<open>\<open>string.includes\<close> and \<open>string.startsWith\<close>.\<close>

fun starts_with :: "'a list \<Rightarrow> 'a list \<Rightarrow> bool" where
  "starts_with xs [] = True"
| "starts_with [] (y # ys) = False"
| "starts_with (x # xs) (y # ys) = (x = y \<and> starts_with xs ys)"

fun js_includes :: "'a list \<Rightarrow> 'a list \<Rightarrow> bool" where
  "js_includes [] ys = (ys = [])"
| "js_includes (x # xs) ys = (starts_with (x # xs) ys \<or> js_includes xs ys)"

lemma starts_with_iff: "starts_with xs ys \<longleftrightarrow> (\<exists>zs. xs = ys @ zs)"
  by (induction xs ys rule: starts_with.induct) auto

lemma includes_iff: "js_includes xs ys \<longleftrightarrow> (\<exists>us vs. xs = us @ ys @ vs)"
proof (induction xs)
  case (Cons x xs)
  show ?case
  proof
    assume "js_includes (x # xs) ys"
    then consider "starts_with (x # xs) ys" | "js_includes xs ys" by auto
    then show "\<exists>us vs. x # xs = us @ ys @ vs"
    proof cases
      case 1
      then show ?thesis using starts_with_iff append_Nil by metis
    next
      case 2
      then show ?thesis using Cons by (metis append_Cons)
    qed
  next
    assume "\<exists>us vs. x # xs = us @ ys @ vs"
    then obtain us vs where e: "x # xs = us @ ys @ vs" by blast
    show "js_includes (x # xs) ys"
    proof (cases us)
      case Nil
      with e have "starts_with (x # xs) ys" using starts_with_iff [of "x # xs" ys] by simp
      then show ?thesis by simp
    next
      case (Cons u us')
      with e Cons.IH show ?thesis by auto
    qed
  qed
qed auto

end
