(* ===== verification/Boarding.thy ===== *)
theory Boarding imports Js_Value begin

text \<open>
  The boarding policy (\<open>services/boardingPolicy.ts\<close>): boarding codes, the order of the chosen stops, and
  the validation of the live position and of the passenger's. Random bytes are the argument of
  \<open>generate_boarding_code\<close>.
\<close>

section \<open>Codes\<close>

definition boarding_code_length :: nat where "boarding_code_length = 8"

definition boarding_alphabet :: string where
  "boarding_alphabet = ''ABCDEFGHJKLMNPQRSTUVWXYZ23456789''"

definition is_boarding_code :: "string \<Rightarrow> bool" where
  "is_boarding_code s \<longleftrightarrow> length s = boarding_code_length \<and> (\<forall>c\<in>set s. c \<in> set boarding_alphabet)"

fun normalize_boarding_code :: "jsval \<Rightarrow> string option" where
  "normalize_boarding_code (JStr s) = (let n = filter (\<lambda>c. \<not> (js_space c \<or> c = CHR ''-'')) (map char_upper s) in
     if is_boarding_code n then Some n else None)"
| "normalize_boarding_code _ = None"

definition generate_boarding_code :: "nat list \<Rightarrow> unit + string" where
  "generate_boarding_code bytes = (if length bytes < boarding_code_length then Inl ()
     else Inr (map (\<lambda>b. boarding_alphabet ! (b mod length boarding_alphabet)) (take boarding_code_length bytes)))"

definition boarding_codes_match :: "jsval \<Rightarrow> jsval \<Rightarrow> bool" where
  "boarding_codes_match expected candidate = (case (normalize_boarding_code expected, normalize_boarding_code candidate) of
     (Some l, Some r) \<Rightarrow> l = r | _ \<Rightarrow> False)"

section \<open>Stops and positions\<close>

definition safe_id_char :: "char \<Rightarrow> bool" where
  "safe_id_char c \<longleftrightarrow> is_upper c \<or> is_lower c \<or> is_digit c \<or> c = CHR ''_'' \<or> c = CHR ''-''"

definition safe_id :: "string \<Rightarrow> bool" where
  "safe_id s \<longleftrightarrow> 1 \<le> length s \<and> length s \<le> 128 \<and> (\<forall>c\<in>set s. safe_id_char c)"

fun stop_id :: "jsval \<Rightarrow> string option" where
  "stop_id v = (case js_prop v ''id'' of JStr s \<Rightarrow> if safe_id s then Some s else None | _ \<Rightarrow> None)"

fun index_of :: "'a \<Rightarrow> 'a list \<Rightarrow> nat option" where
  "index_of x [] = None"
| "index_of x (y # ys) = (if x = y then Some 0 else map_option Suc (index_of x ys))"

datatype direction = Forward | Reverse

fun validate_stop_selection :: "jsval \<Rightarrow> jsval \<Rightarrow> jsval \<Rightarrow> direction \<Rightarrow> (string \<times> string) option" where
  "validate_stop_selection (JArr stops) (JStr boarding) (JStr alighting) dir =
    (if length stops < 2 \<or> \<not> safe_id boarding \<or> \<not> safe_id alighting then None
     else (let ids = map stop_id stops; ids = (if dir = Reverse then rev ids else ids) in
       case (index_of (Some boarding) ids, index_of (Some alighting) ids) of
         (Some i, Some j) \<Rightarrow> if j \<le> i then None else Some (boarding, alighting)
       | _ \<Rightarrow> None))"
| "validate_stop_selection _ _ _ _ = None"

record boarding_target =
  bt_session :: string
  bt_bus :: string
  bt_route :: string

definition latitude_ok :: "jsnum \<Rightarrow> bool" where
  "latitude_ok x \<longleftrightarrow> is_finite x \<and> \<not> x < - 90 \<and> \<not> x > 90"

definition longitude_ok :: "jsnum \<Rightarrow> bool" where
  "longitude_ok x \<longleftrightarrow> is_finite x \<and> \<not> x < - 180 \<and> \<not> x > 180"

definition validate_live_boarding_projection ::
    "(jsval \<Rightarrow> jsnum) \<Rightarrow> jsval \<Rightarrow> boarding_target \<Rightarrow> jsnum \<Rightarrow> (jsnum \<times> jsnum) option" where
  "validate_live_boarding_projection parse live e now =
    (if \<not> truthy live \<or> js_prop live ''sessionId'' \<noteq> JStr (bt_session e) \<or> js_prop live ''busId'' \<noteq> JStr (bt_bus e)
        \<or> js_prop live ''routeId'' \<noteq> JStr (bt_route e) \<or> js_prop live ''status'' \<noteq> JStr ''active''
        \<or> js_prop live ''deviceState'' = JStr ''offline'' \<or> js_prop live ''motionState'' = JStr ''uncertain'' then None
     else case (js_prop live ''lat'', js_prop live ''lng'') of
       (JNum lat, JNum lng) \<Rightarrow> (let timestamp = js_number parse (js_prop live ''timestamp'') in
         if \<not> latitude_ok lat \<or> \<not> longitude_ok lng \<or> \<not> is_finite timestamp \<or> timestamp > now + 10000 \<or> now - timestamp > 60000
         then None else Some (lat, lng))
     | _ \<Rightarrow> None)"

fun validate_passenger_position :: "jsval \<Rightarrow> jsval \<Rightarrow> jsval \<Rightarrow> (jsnum \<times> jsnum \<times> jsnum) option" where
  "validate_passenger_position (JNum lat) (JNum lng) (JNum accuracy) =
    (if \<not> latitude_ok lat \<or> \<not> longitude_ok lng \<or> \<not> is_finite accuracy \<or> accuracy < 0 \<or> accuracy > 100 then None
     else Some (lat, lng, accuracy))"
| "validate_passenger_position _ _ _ = None"

section \<open>Facts\<close>

lemma alphabet_length: "length boarding_alphabet = 32"
  by (simp add: boarding_alphabet_def)

lemma alphabet_plain: "c \<in> set boarding_alphabet \<Longrightarrow> char_upper c = c \<and> \<not> js_space c \<and> c \<noteq> CHR ''-''"
  by (auto simp: boarding_alphabet_def char_upper_def js_space_def Let_def)

lemma normalize_code: "is_boarding_code s \<Longrightarrow> normalize_boarding_code (JStr s) = Some s"
proof -
  assume s: "is_boarding_code s"
  then have "map char_upper s = s" "filter (\<lambda>c. \<not> (js_space c \<or> c = CHR ''-'')) s = s"
    using alphabet_plain by (auto simp: is_boarding_code_def filter_id_conv intro!: map_idI)
  with s show ?thesis by simp
qed

lemma normalize_is_code: "normalize_boarding_code v = Some s \<Longrightarrow> is_boarding_code s"
  by (cases v) (auto simp: Let_def split: if_splits)

lemma generate_is_code: "generate_boarding_code bytes = Inr s \<Longrightarrow> is_boarding_code s"
  by (auto simp: generate_boarding_code_def is_boarding_code_def alphabet_length split: if_splits)

lemma index_of_some: "index_of x xs = Some i \<longleftrightarrow> i < length xs \<and> xs ! i = x \<and> (\<forall>j<i. xs ! j \<noteq> x)"
proof (induction xs arbitrary: i)
  case (Cons y ys)
  show ?case
  proof (cases i)
    case 0
    then show ?thesis using Cons by auto
  next
    case (Suc k)
    then show ?thesis using Cons [of k] by (auto simp: less_Suc_eq_0_disj)
  qed
qed simp

lemma index_of_mem: "x \<in> set xs \<Longrightarrow> \<exists>i. index_of x xs = Some i"
  by (induction xs) auto

section \<open>Properties\<close>

text \<open>Boarding codes survive how people type them: a generated code, written in lower case and with
  hyphens or spaces anywhere, matches itself, and two codes match only when they normalise to the
  same valid code; every valid code can be generated.\<close>

theorem boarding_code_roundtrip:
  assumes "generate_boarding_code bytes = Inr code" "filter (\<lambda>c. \<not> (js_space c \<or> c = CHR ''-'')) (map char_upper typed) = code"
  shows "boarding_codes_match (JStr code) (JStr typed) \<and> is_boarding_code code \<and>
    (\<forall>v. boarding_codes_match (JStr code) v \<longrightarrow> normalize_boarding_code v = Some code) \<and>
    (\<forall>c. is_boarding_code c \<longrightarrow> (\<exists>bs. (\<forall>b\<in>set bs. b < 256) \<and> generate_boarding_code bs = Inr c))"
proof -
  have code: "is_boarding_code code" using assms(1) by (rule generate_is_code)
  have self: "normalize_boarding_code (JStr code) = Some code" by (rule normalize_code [OF code])
  have "normalize_boarding_code (JStr typed) = Some code" using assms(2) code by simp
  with self have m: "boarding_codes_match (JStr code) (JStr typed)" by (simp add: boarding_codes_match_def del: normalize_boarding_code.simps)
  have only: "normalize_boarding_code v = Some code" if "boarding_codes_match (JStr code) v" for v
    using that self by (simp add: boarding_codes_match_def del: normalize_boarding_code.simps split: option.splits)
  have onto: "\<exists>bs. (\<forall>b\<in>set bs. b < 256) \<and> generate_boarding_code bs = Inr c" if "is_boarding_code c" for c
  proof -
    have "\<exists>b<32. boarding_alphabet ! b = x" if "x \<in> set boarding_alphabet" for x
      using that alphabet_length by (metis in_set_conv_nth)
    then obtain f where f: "f x < 32 \<and> boarding_alphabet ! f x = x" if "x \<in> set boarding_alphabet" for x by metis
    have "generate_boarding_code (map f c) = Inr c"
      using that f by (auto simp: generate_boarding_code_def is_boarding_code_def alphabet_length intro!: map_idI)
    moreover have "\<forall>b\<in>set (map f c). b < 256" using that f by (fastforce simp: is_boarding_code_def)
    ultimately show ?thesis by blast
  qed
  show ?thesis using m code only onto by blast
qed

theorem boarding_code_roundtrip_witness:
  "boarding_codes_match (JStr ''ABCDEFGH'') (JStr ''abcd-efgh'')"
proof -
  have "generate_boarding_code [0, 1, 2, 3, 4, 5, 6, 7] = Inr ''ABCDEFGH''"
    by (simp add: generate_boarding_code_def boarding_code_length_def boarding_alphabet_def)
  moreover have "filter (\<lambda>c. \<not> (js_space c \<or> c = CHR ''-'')) (map char_upper ''abcd-efgh'') = ''ABCDEFGH''"
    by code_simp
  ultimately show ?thesis using boarding_code_roundtrip by blast
qed

text \<open>A trip is boarded before it is left: an accepted selection names two stops of the route whose
  first occurrences are in the order of travel, for the reversed route as well; and every pair of
  safe identifiers in that order is accepted.\<close>

theorem stop_selection_in_travel_order:
  "validate_stop_selection (JArr stops) (JStr b) (JStr a) dir = Some p \<longleftrightarrow>
    p = (b, a) \<and> 2 \<le> length stops \<and> safe_id a \<and> safe_id b \<and>
    (\<exists>i j. i < j \<and> j < length stops \<and>
      (let ids = (if dir = Reverse then rev (map stop_id stops) else map stop_id stops) in
        ids ! i = Some b \<and> ids ! j = Some a \<and> (\<forall>k<i. ids ! k \<noteq> Some b) \<and> (\<forall>k<j. ids ! k \<noteq> Some a)))"
proof -
  define ids where "ids = (if dir = Reverse then rev (map stop_id stops) else map stop_id stops)"
  have len: "length ids = length stops" by (simp add: ids_def)
  have v: "validate_stop_selection (JArr stops) (JStr b) (JStr a) dir =
      (if length stops < 2 \<or> \<not> safe_id b \<or> \<not> safe_id a then None
       else case (index_of (Some b) ids, index_of (Some a) ids) of
         (Some i, Some j) \<Rightarrow> if j \<le> i then None else Some (b, a) | _ \<Rightarrow> None)"
    by (simp add: ids_def Let_def)
  have eq: "(\<exists>i j. index_of (Some b) ids = Some i \<and> index_of (Some a) ids = Some j \<and> i < j) \<longleftrightarrow>
      (\<exists>i j. i < j \<and> j < length stops \<and> ids ! i = Some b \<and> ids ! j = Some a \<and> (\<forall>k<i. ids ! k \<noteq> Some b) \<and> (\<forall>k<j. ids ! k \<noteq> Some a))"
    unfolding index_of_some len by (meson less_trans)
  show ?thesis unfolding v Let_def ids_def [symmetric] eq [symmetric]
    by (auto split: option.splits if_splits)
qed

theorem stop_selection_in_travel_order_witness:
  "validate_stop_selection (JArr [JObj [(''id'', JStr ''p'')], JObj [(''id'', JStr ''q'')]]) (JStr ''q'') (JStr ''p'') Reverse = Some (''q'', ''p'')"
proof -
  have ids: "safe_id ''p''" "safe_id ''q''" by (simp_all add: safe_id_def safe_id_char_def is_lower_def)
  then have "rev (map stop_id [JObj [(''id'', JStr ''p'')], JObj [(''id'', JStr ''q'')]]) = [Some ''q'', Some ''p'']" by simp
  with ids show ?thesis unfolding stop_selection_in_travel_order Let_def
    by (intro conjI exI [of _ "0::nat"] exI [of _ "1::nat"]) (simp_all add: less_Suc_eq)
qed

end
