(* ===== verification/Chat.thy ===== *)
theory Chat imports Js_Value "HOL-Library.Multiset" begin

text \<open>
  Chat moderation (\<open>services/chatRateLimit.ts\<close>): the rolling rate limit on the stored times of a
  user's messages, and the masking of prohibited terms. \<open>chat_send\<close> is the transaction of
  \<open>routes/sessions.ts\<close> that checks its own clock and stores the window \<open>evaluateChatRate\<close> returns with
  the store's timestamp of the message it admits.
  The Unicode classes and the dictionary are parameters of the masking: a term is the list of the
  character classes of its letters.
\<close>

section \<open>Rate limit\<close>

definition max_messages_per_hour :: nat where "max_messages_per_hour = 60"
definition max_messages_per_minute :: nat where "max_messages_per_minute = 10"
definition min_gap_ms :: real where "min_gap_ms = 3000"
definition hour_ms :: real where "hour_ms = 60 * 60 * 1000"
definition minute_ms :: real where "minute_ms = 60 * 1000"

lemmas chat_constants = max_messages_per_hour_def max_messages_per_minute_def min_gap_ms_def hour_ms_def minute_ms_def

record chat_doc =
  cd_sent_at :: "jsnum list option"
  cd_last_sent_at :: "jsnum option"
  cd_window_started_at :: "jsnum option"
  cd_count :: "jsnum option"

datatype denial = Hourly | Burst | Cooldown

datatype chat_check = Allowed "real list" | Denied denial real

definition finite_real :: "jsnum option \<Rightarrow> real option" where
  "finite_real x = (case x of Some (Fin r) \<Rightarrow> Some r | _ \<Rightarrow> None)"

definition slice_last :: "nat \<Rightarrow> 'a list \<Rightarrow> 'a list" where
  "slice_last n xs = drop (length xs - n) xs"

text \<open>\<open>Number(existing.count) || 1\<close>, then clamped.\<close>

definition legacy_count :: "jsnum option \<Rightarrow> jsnum" where
  "legacy_count c = js_max 1 (js_min 60 (case c of None \<Rightarrow> 1 | Some x \<Rightarrow> if x = NaN \<or> num_eq x 0 then 1 else x))"

text \<open>The stored times and the last one. \<open>Inl\<close> is the \<open>RangeError\<close> of \<open>Array(count - 1)\<close> for a count that
  is not an integer.\<close>

definition stored_times :: "chat_doc option \<Rightarrow> real \<Rightarrow> unit + (real list \<times> real option)" where
  "stored_times doc now = (case doc of None \<Rightarrow> Inr ([], None)
    | Some d \<Rightarrow> (case cd_sent_at d of
        Some ts \<Rightarrow> (let sent = map num_real (filter is_finite ts);
            previous = slice_last max_messages_per_hour
              (sort (sent @ (case finite_real (cd_last_sent_at d) of None \<Rightarrow> [] | Some l \<Rightarrow> [l]))) in
          Inr (previous, if previous = [] then None else Some (last previous)))
      | None \<Rightarrow> (case (finite_real (cd_window_started_at d), finite_real (cd_last_sent_at d)) of
          (Some w, Some l) \<Rightarrow> (let count = legacy_count (cd_count d) in
            if now - w < hour_ms then
              (if is_integer count then Inr (replicate (nat (num_floor count) - 1) w @ [l], Some l) else Inl ())
            else Inr ([], Some l))
        | _ \<Rightarrow> Inr ([], None))))"

definition check_times :: "real list \<Rightarrow> real option \<Rightarrow> real \<Rightarrow> chat_check" where
  "check_times previous last_sent now = (case last_sent of None \<Rightarrow> Allowed []
    | Some l \<Rightarrow> (let gap = now - l; hourly = filter (\<lambda>t. now - t < hour_ms) previous;
          burst = filter (\<lambda>t. now - t < minute_ms) hourly in
        if gap < min_gap_ms then Denied Cooldown (min min_gap_ms (min_gap_ms - gap))
        else if length hourly \<ge> max_messages_per_hour then Denied Hourly (hour_ms - (now - hd hourly))
        else if length burst \<ge> max_messages_per_minute then Denied Burst (minute_ms - (now - hd burst))
        else Allowed hourly))"

definition evaluate_chat_rate :: "chat_doc option \<Rightarrow> real \<Rightarrow> unit + chat_check" where
  "evaluate_chat_rate doc now = (case stored_times doc now of Inl _ \<Rightarrow> Inl ()
    | Inr (previous, last_sent) \<Rightarrow> Inr (check_times previous last_sent now))"

text \<open>One send of \<open>routes/sessions.ts\<close>: the check reads the clock of the server that runs the transaction
  (\<open>now\<close>), and what it stores as the last time is the server timestamp of the store (\<open>stamp\<close>), which
  nothing ties to that clock. The stored times are timestamps read back by \<open>toMillis\<close>, whole
  milliseconds, which \<open>new Date\<close> keeps.\<close>

definition chat_send :: "chat_doc option \<Rightarrow> real \<Rightarrow> real \<Rightarrow> bool \<times> chat_doc option" where
  "chat_send doc now stamp = (case evaluate_chat_rate doc now of
      Inr (Allowed next') \<Rightarrow> (True, Some \<lparr>cd_sent_at = Some (map Fin next'), cd_last_sent_at = Some (Fin stamp),
        cd_window_started_at = None, cd_count = None\<rparr>)
    | _ \<Rightarrow> (False, doc))"

text \<open>The document after a series of sends, each with its clock and its stamp, and the stamps of the
  accepted ones: the user's whole history, which no document holds.\<close>

fun chat_after :: "chat_doc option \<Rightarrow> real list \<Rightarrow> (real \<times> real) list \<Rightarrow> chat_doc option \<times> real list" where
  "chat_after doc sent [] = (doc, sent)"
| "chat_after doc sent ((now, stamp) # ts) = (case chat_send doc now stamp of
    (ok, doc') \<Rightarrow> chat_after doc' (if ok then sent @ [stamp] else sent) ts)"

text \<open>The policy on the full history, with the hour shortened by \<open>\<sigma>\<close>.\<close>

definition within_policy :: "real \<Rightarrow> real list \<Rightarrow> real \<Rightarrow> bool" where
  "within_policy \<sigma> sent now \<longleftrightarrow> (\<forall>t\<in>set sent. min_gap_ms \<le> now - t) \<and>
    length (filter (\<lambda>t. now - t < hour_ms - \<sigma>) sent) < max_messages_per_hour \<and>
    length (filter (\<lambda>t. now - t < minute_ms) sent) < max_messages_per_minute"

text \<open>What the document keeps of the history: all of it but times that were an hour old at an earlier
  check.\<close>

definition chat_inv :: "chat_doc option \<Rightarrow> real list \<Rightarrow> real list \<Rightarrow> bool" where
  "chat_inv doc sent clocks \<longleftrightarrow> (case doc of None \<Rightarrow> sent = []
    | Some d \<Rightarrow> (\<exists>ts l D. d = \<lparr>cd_sent_at = Some (map Fin ts), cd_last_sent_at = Some (Fin l),
          cd_window_started_at = None, cd_count = None\<rparr> \<and> length ts < max_messages_per_hour \<and>
        mset sent = mset (ts @ [l]) + D \<and> (\<forall>t\<in>#D. \<exists>c\<in>set clocks. hour_ms \<le> c - t)))"

lemma sort_not_nil: "sort (xs @ [x]) \<noteq> []"
  by (metis append_is_Nil_conv list.distinct(1) mset_sort mset_zero_iff)

lemma length_filter_imp: "(\<And>x. P x \<Longrightarrow> Q x) \<Longrightarrow> length (filter P xs) \<le> length (filter Q xs)"
  by (induction xs) (auto intro: le_SucI)

lemma stored_times_window:
  assumes "length ts < max_messages_per_hour"
  shows "stored_times (Some \<lparr>cd_sent_at = Some (map Fin ts), cd_last_sent_at = Some (Fin l),
      cd_window_started_at = None, cd_count = None\<rparr>) now = Inr (sort (ts @ [l]), Some (last (sort (ts @ [l]))))"
proof -
  define previous where "previous = sort (ts @ [l])"
  have "map num_real (filter is_finite (map Fin ts)) = ts" by (induction ts) auto
  moreover have "slice_last max_messages_per_hour previous = previous"
    using assms unfolding previous_def slice_last_def by (simp only: length_sort) simp
  moreover have "previous \<noteq> []" unfolding previous_def by (rule sort_not_nil)
  ultimately show ?thesis
    by (simp only: stored_times_def finite_real_def Let_def option.case jsnum.case chat_doc.simps previous_def [symmetric] if_False)
qed

lemma within_policy_mset: "mset xs = mset ys \<Longrightarrow> within_policy \<sigma> xs now = within_policy \<sigma> ys now"
proof -
  assume m: "mset xs = mset ys"
  have "length (filter P xs) = length (filter P ys)" for P
    using arg_cong [OF m, of "\<lambda>M. size (filter_mset P M)"] by (simp flip: mset_filter)
  with mset_eq_setD [OF m] show ?thesis unfolding within_policy_def by simp
qed

text \<open>The check on a sorted window is the policy on that window.\<close>

lemma check_times_window:
  assumes "sorted previous" "previous \<noteq> []"
  shows "check_times previous (Some (last previous)) now = Allowed (filter (\<lambda>t. now - t < hour_ms) previous)
      \<and> within_policy 0 previous now
    \<or> (\<exists>d r. check_times previous (Some (last previous)) now = Denied d r) \<and> \<not> within_policy 0 previous now"
proof -
  have "(\<forall>t\<in>set previous. min_gap_ms \<le> now - t) \<longleftrightarrow> min_gap_ms \<le> now - last previous"
  proof
    assume "min_gap_ms \<le> now - last previous"
    moreover have "t \<le> last previous" if "t \<in> set previous" for t
      using assms that by (cases previous rule: rev_cases) (auto simp: sorted_append)
    ultimately show "\<forall>t\<in>set previous. min_gap_ms \<le> now - t" by force
  qed (use assms in auto)
  moreover have "filter (\<lambda>t. now - t < minute_ms) (filter (\<lambda>t. now - t < hour_ms) previous)
      = filter (\<lambda>t. now - t < minute_ms) previous"
    by (induction previous) (auto simp: chat_constants)
  ultimately show ?thesis
    by (auto simp: check_times_def within_policy_def Let_def not_less not_le simp del: filter_filter)
qed

lemma chat_send_window:
  assumes "length ts < max_messages_per_hour"
  shows "chat_send (Some \<lparr>cd_sent_at = Some (map Fin ts), cd_last_sent_at = Some (Fin l),
      cd_window_started_at = None, cd_count = None\<rparr>) now stamp =
    (if within_policy 0 (ts @ [l]) now
     then (True, Some \<lparr>cd_sent_at = Some (map Fin (filter (\<lambda>t. now - t < hour_ms) (sort (ts @ [l])))),
       cd_last_sent_at = Some (Fin stamp), cd_window_started_at = None, cd_count = None\<rparr>)
     else (False, Some \<lparr>cd_sent_at = Some (map Fin ts), cd_last_sent_at = Some (Fin l),
       cd_window_started_at = None, cd_count = None\<rparr>))"
proof -
  define previous where "previous = sort (ts @ [l])"
  have "sorted previous" "previous \<noteq> []" unfolding previous_def by (simp_all only: sorted_sort sort_not_nil not_False_eq_True)
  note check = check_times_window [OF this, of now]
  have "within_policy 0 previous now = within_policy 0 (ts @ [l]) now"
    unfolding previous_def by (rule within_policy_mset) (rule mset_sort)
  with check show ?thesis
    unfolding chat_send_def evaluate_chat_rate_def stored_times_window [OF assms] previous_def [symmetric] by auto
qed

lemma chat_send_first: "chat_send None now stamp = (True, Some \<lparr>cd_sent_at = Some [], cd_last_sent_at = Some (Fin stamp),
    cd_window_started_at = None, cd_count = None\<rparr>)"
  by (simp add: chat_send_def evaluate_chat_rate_def stored_times_def check_times_def)

lemma chat_inv_send:
  assumes "chat_inv doc sent clocks" "chat_send doc now stamp = (ok, doc')"
  shows "chat_inv doc' (if ok then sent @ [stamp] else sent) (clocks @ [now])"
proof (cases doc)
  case None
  with assms show ?thesis by (auto simp: chat_inv_def chat_send_first chat_constants)
next
  case (Some d)
  with assms(1) obtain ts l D where d: "d = \<lparr>cd_sent_at = Some (map Fin ts), cd_last_sent_at = Some (Fin l),
      cd_window_started_at = None, cd_count = None\<rparr>" "length ts < max_messages_per_hour"
    and D: "mset sent = mset (ts @ [l]) + D" "\<forall>t\<in>#D. \<exists>c\<in>set clocks. hour_ms \<le> c - t"
    by (auto simp: chat_inv_def)
  note send = assms(2) [unfolded Some d(1) chat_send_window [OF d(2)]]
  show ?thesis
  proof (cases "within_policy 0 (ts @ [l]) now")
    case False
    with send d D show ?thesis by (fastforce simp: chat_inv_def)
  next
    case True
    let ?w = "filter (\<lambda>t. now - t < hour_ms) (sort (ts @ [l]))"
    let ?D = "D + mset (filter (\<lambda>t. \<not> now - t < hour_ms) (ts @ [l]))"
    have w: "mset ?w = filter_mset (\<lambda>t. now - t < hour_ms) (mset (ts @ [l]))"
      by (simp only: mset_filter mset_sort)
    then have "length ?w = length (filter (\<lambda>t. now - t < hour_ms) (ts @ [l]))"
      by (simp only: mset_filter [symmetric] size_mset [symmetric])
    then have "length ?w < max_messages_per_hour" using True by (simp add: within_policy_def)
    moreover have "mset (sent @ [stamp]) = mset (?w @ [stamp]) + ?D"
      using D(1) multiset_partition [of "mset (ts @ [l])" "\<lambda>t. now - t < hour_ms"]
      by (simp only: mset_append [of sent] mset_append [of ?w] w mset_filter union_assoc) (simp add: ac_simps)
    moreover have "\<forall>t\<in>#?D. \<exists>c\<in>set (clocks @ [now]). hour_ms \<le> c - t" using D(2) by (auto split: if_splits)
    moreover have "ok" "doc' = Some \<lparr>cd_sent_at = Some (map Fin ?w), cd_last_sent_at = Some (Fin stamp),
        cd_window_started_at = None, cd_count = None\<rparr>"
      using send True by (simp_all only: if_True prod.inject)
    ultimately show ?thesis unfolding chat_inv_def by (simp only: option.case if_True) blast
  qed
qed

lemma chat_inv_after:
  "chat_inv doc sent clocks \<Longrightarrow> chat_after doc sent ts = (doc', sent') \<Longrightarrow> chat_inv doc' sent' (clocks @ map fst ts)"
proof (induction ts arbitrary: doc sent clocks)
  case (Cons c ts)
  obtain now stamp where c: "c = (now, stamp)" by (cases c)
  obtain ok d where s: "chat_send doc now stamp = (ok, d)" by (cases "chat_send doc now stamp")
  from Cons.IH [OF chat_inv_send [OF Cons.prems(1) s]] Cons.prems(2) show ?case by (simp add: c s)
qed simp

text \<open>The window decides as the history does, when the clock has gone back by at most \<open>\<sigma>\<close> since any
  earlier check.\<close>

lemma chat_inv_policy:
  assumes "chat_inv doc sent clocks" "\<forall>c\<in>set clocks. c - \<sigma> \<le> now" "\<sigma> \<le> hour_ms - minute_ms" "0 \<le> \<sigma>"
  shows "(fst (chat_send doc now stamp) \<longrightarrow> within_policy \<sigma> sent now) \<and>
    (within_policy 0 sent now \<longrightarrow> fst (chat_send doc now stamp))"
proof (cases doc)
  case None
  with assms(1) show ?thesis by (simp add: chat_inv_def chat_send_first within_policy_def chat_constants)
next
  case (Some d)
  with assms(1) obtain ts l D where d: "d = \<lparr>cd_sent_at = Some (map Fin ts), cd_last_sent_at = Some (Fin l),
      cd_window_started_at = None, cd_count = None\<rparr>" "length ts < max_messages_per_hour"
    and D: "mset sent = mset (ts @ [l]) + D" "\<forall>t\<in>#D. \<exists>c\<in>set clocks. hour_ms \<le> c - t"
    by (auto simp: chat_inv_def)
  have old: "hour_ms - \<sigma> \<le> now - t" if "t \<in># D" for t using that D(2) assms(2) by force
  obtain ds where ds: "mset ds = D" by (metis ex_mset)
  have m: "mset sent = mset ((ts @ [l]) @ ds)" using D(1) ds by simp
  have old': "hour_ms - \<sigma> \<le> now - t" "minute_ms \<le> now - t" "min_gap_ms \<le> now - t" if "t \<in> set ds" for t
    using old [of t] that ds assms(3) by (auto simp: chat_constants)
  have none: "filter (\<lambda>t. now - t < hour_ms - \<sigma>) ds = []" "filter (\<lambda>t. now - t < minute_ms) ds = []"
    using old' by (auto simp: filter_empty_conv not_less)
  have "length (filter (\<lambda>t. now - t < hour_ms - \<sigma>) (ts @ [l])) \<le> length (filter (\<lambda>t. now - t < hour_ms) (ts @ [l]))"
    using assms(4) by (intro length_filter_imp) auto
  then have "within_policy 0 (ts @ [l]) now \<longrightarrow> within_policy \<sigma> ((ts @ [l]) @ ds) now"
    using old' none unfolding within_policy_def by auto
  moreover have "within_policy 0 ((ts @ [l]) @ ds) now \<longrightarrow> within_policy 0 (ts @ [l]) now"
    unfolding within_policy_def by auto
  ultimately show ?thesis
    by (simp add: Some d(1) chat_send_window [OF d(2)] within_policy_mset [OF m])
qed

section \<open>Masking\<close>

text \<open>The backward arrays of \<open>censorText\<close>, one entry per position and one past the end; an entry is the
  position after a match starting there. \<open>None\<close> is the \<open>-1\<close> of the source.\<close>

definition terminal_ends :: "('c \<Rightarrow> bool) \<Rightarrow> 'c list \<Rightarrow> nat option list" where
  "terminal_ends word cs = map (\<lambda>i. if i < length cs \<and> word (cs ! i) then None else Some i) [0..<Suc (length cs)]"

fun repeated_ends :: "('c \<Rightarrow> bool) \<Rightarrow> 'c list \<Rightarrow> nat option list \<Rightarrow> nat option list" where
  "repeated_ends accepts (c # cs) (f # fs) = (let r = repeated_ends accepts cs fs in
     (if accepts c then (if hd r \<noteq> None then hd r else hd fs) else None) # r)"
| "repeated_ends accepts _ _ = [None]"

fun separated_ends :: "('c \<Rightarrow> bool) \<Rightarrow> 'c list \<Rightarrow> nat option list \<Rightarrow> nat option list" where
  "separated_ends sep (c # cs) (r # rs) = (let s = separated_ends sep cs rs in (if sep c \<and> hd s \<noteq> None then hd s else r) # s)"
| "separated_ends sep _ _ = [None]"

fun later_stages :: "('c \<Rightarrow> bool) \<Rightarrow> ('c \<Rightarrow> bool) \<Rightarrow> ('c \<Rightarrow> bool) list \<Rightarrow> 'c list \<Rightarrow> nat option list" where
  "later_stages sep word [] cs = terminal_ends word cs"
| "later_stages sep word (v # vs) cs = separated_ends sep cs (repeated_ends v cs (later_stages sep word vs cs))"

fun term_ends :: "('c \<Rightarrow> bool) \<Rightarrow> ('c \<Rightarrow> bool) \<Rightarrow> ('c \<Rightarrow> bool) list \<Rightarrow> 'c list \<Rightarrow> nat option list" where
  "term_ends sep word [] cs = terminal_ends word cs"
| "term_ends sep word (v # vs) cs = repeated_ends v cs (later_stages sep word vs cs)"

definition eligible :: "('c \<Rightarrow> bool) list \<Rightarrow> 'c list \<Rightarrow> bool" where
  "eligible pattern cs \<longleftrightarrow> (\<forall>v\<in>set pattern. \<exists>c\<in>set cs. v c)"

definition all_ends :: "('c \<Rightarrow> bool) \<Rightarrow> ('c \<Rightarrow> bool) \<Rightarrow> ('c \<Rightarrow> bool) list list \<Rightarrow> 'c list \<Rightarrow> nat option list list" where
  "all_ends sep word patterns cs = map (\<lambda>p. term_ends sep word p cs) (filter (\<lambda>p. eligible p cs) patterns)"

fun first_end :: "nat option list list \<Rightarrow> nat \<Rightarrow> nat option" where
  "first_end [] i = None"
| "first_end (e # es) i = (if e ! i \<noteq> None then e ! i else first_end es i)"

text \<open>The output loop; every round moves on, so as many rounds as characters are enough.\<close>

fun mask_from :: "nat \<Rightarrow> 'c list \<Rightarrow> ('c \<Rightarrow> bool) \<Rightarrow> 'c list \<Rightarrow> nat option list list \<Rightarrow> nat \<Rightarrow> 'c list" where
  "mask_from 0 stars word cs ends i = []"
| "mask_from (Suc fuel) stars word cs ends i = (if i \<ge> length cs then []
    else (case (if i = 0 \<or> \<not> word (cs ! (i - 1)) then first_end ends i else None) of
      Some e \<Rightarrow> stars @ mask_from fuel stars word cs ends e
    | None \<Rightarrow> cs ! i # mask_from fuel stars word cs ends (i + 1)))"

definition censor_text :: "('c \<Rightarrow> bool) \<Rightarrow> ('c \<Rightarrow> bool) \<Rightarrow> ('c \<Rightarrow> bool) list list \<Rightarrow> 'c list \<Rightarrow> 'c list \<Rightarrow> 'c list" where
  "censor_text sep word patterns stars cs = mask_from (length cs) stars word cs (all_ends sep word patterns cs) 0"

text \<open>What an occurrence is: each letter one or more times, separators between the letters, and no word
  character after it. \<open>occurs\<close> relates the text from a position to the text after the occurrence.\<close>

definition run_of :: "('c \<Rightarrow> bool) \<Rightarrow> 'c list \<Rightarrow> 'c list \<Rightarrow> bool" where
  "run_of P w r \<longleftrightarrow> (\<exists>us. w = us @ r \<and> (\<forall>c\<in>set us. P c))"

fun occurs_later :: "('c \<Rightarrow> bool) \<Rightarrow> ('c \<Rightarrow> bool) \<Rightarrow> ('c \<Rightarrow> bool) list \<Rightarrow> 'c list \<Rightarrow> 'c list \<Rightarrow> bool" where
  "occurs_later sep word [] w r \<longleftrightarrow> w = r \<and> (r = [] \<or> \<not> word (hd r))"
| "occurs_later sep word (v # vs) w r \<longleftrightarrow>
     (\<exists>a b. run_of sep w a \<and> run_of v a b \<and> b \<noteq> a \<and> occurs_later sep word vs b r)"

fun occurs :: "('c \<Rightarrow> bool) \<Rightarrow> ('c \<Rightarrow> bool) \<Rightarrow> ('c \<Rightarrow> bool) list \<Rightarrow> 'c list \<Rightarrow> 'c list \<Rightarrow> bool" where
  "occurs sep word [] w r \<longleftrightarrow> occurs_later sep word [] w r"
| "occurs sep word (v # vs) w r \<longleftrightarrow> (\<exists>b. run_of v w b \<and> b \<noteq> w \<and> occurs_later sep word vs b r)"

text \<open>An array holds for the text \<open>w\<close>, of a text of length \<open>n\<close>, the ends of the relation \<open>R\<close>.\<close>

definition good_end :: "nat \<Rightarrow> ('c list \<Rightarrow> 'c list \<Rightarrow> bool) \<Rightarrow> 'c list \<Rightarrow> nat option \<Rightarrow> bool" where
  "good_end n R w x = (case x of None \<Rightarrow> (\<forall>r. \<not> R w r) | Some e \<Rightarrow> (\<exists>r. R w r \<and> e + length r = n))"

fun holds_ends :: "nat \<Rightarrow> ('c list \<Rightarrow> 'c list \<Rightarrow> bool) \<Rightarrow> 'c list \<Rightarrow> nat option list \<Rightarrow> bool" where
  "holds_ends n R [] xs = (\<exists>x. xs = [x] \<and> good_end n R [] x)"
| "holds_ends n R (c # cs) xs = (\<exists>x ys. xs = x # ys \<and> good_end n R (c # cs) x \<and> holds_ends n R cs ys)"

lemma holds_ends_nth:
  "holds_ends n R cs xs \<Longrightarrow> length xs = Suc (length cs) \<and> (\<forall>i\<le>length cs. good_end n R (drop i cs) (xs ! i))"
proof (induction cs arbitrary: xs)
  case (Cons c cs)
  then obtain x ys where x: "xs = x # ys" "good_end n R (c # cs) x" "holds_ends n R cs ys" by auto
  have "good_end n R (drop i (c # cs)) (xs ! i)" if "i \<le> length (c # cs)" for i
    using Cons.IH [OF x(3)] x that by (cases i) auto
  with Cons.IH [OF x(3)] x show ?case by auto
qed auto

lemma holds_ends_hd: "holds_ends n R cs xs \<Longrightarrow> good_end n R cs (hd xs)"
  by (cases cs) auto

lemma run_of_simps:
  "run_of P [] r \<longleftrightarrow> r = []" "run_of P (c # cs) r \<longleftrightarrow> r = c # cs \<or> P c \<and> run_of P cs r"
  by (force simp: run_of_def Cons_eq_append_conv)+

definition repeat_then :: "('c \<Rightarrow> bool) \<Rightarrow> ('c list \<Rightarrow> 'c list \<Rightarrow> bool) \<Rightarrow> 'c list \<Rightarrow> 'c list \<Rightarrow> bool" where
  "repeat_then v R w r \<longleftrightarrow> (\<exists>b. run_of v w b \<and> b \<noteq> w \<and> R b r)"

definition skip_then :: "('c \<Rightarrow> bool) \<Rightarrow> ('c list \<Rightarrow> 'c list \<Rightarrow> bool) \<Rightarrow> 'c list \<Rightarrow> 'c list \<Rightarrow> bool" where
  "skip_then sep R w r \<longleftrightarrow> (\<exists>a. run_of sep w a \<and> R a r)"

lemma run_of_length: "run_of P w r \<Longrightarrow> length r \<le> length w"
  by (auto simp: run_of_def)

lemma repeat_then_simps:
  "\<not> repeat_then v R [] r" "repeat_then v R (c # cs) r \<longleftrightarrow> v c \<and> (repeat_then v R cs r \<or> R cs r)"
proof -
  show "\<not> repeat_then v R [] r" by (simp add: repeat_then_def run_of_simps)
  have ne: "run_of v cs b \<Longrightarrow> b \<noteq> c # cs" for b using run_of_length [of v cs b] by auto
  have self: "run_of v cs cs" by (cases cs) (simp_all add: run_of_simps)
  show "repeat_then v R (c # cs) r \<longleftrightarrow> v c \<and> (repeat_then v R cs r \<or> R cs r)"
  proof
    assume "repeat_then v R (c # cs) r"
    then obtain b where "v c" "run_of v cs b" "R b r" by (auto simp: repeat_then_def run_of_simps)
    then show "v c \<and> (repeat_then v R cs r \<or> R cs r)" by (cases "b = cs") (auto simp: repeat_then_def)
  next
    assume r: "v c \<and> (repeat_then v R cs r \<or> R cs r)"
    then obtain b where "run_of v cs b" "R b r" using self by (auto simp: repeat_then_def)
    with r ne show "repeat_then v R (c # cs) r" by (auto simp: repeat_then_def run_of_simps)
  qed
qed

lemma skip_then_simps:
  "skip_then sep R [] r \<longleftrightarrow> R [] r" "skip_then sep R (c # cs) r \<longleftrightarrow> R (c # cs) r \<or> sep c \<and> skip_then sep R cs r"
  by (auto simp: skip_then_def run_of_simps)

lemma repeated_ends_holds: "holds_ends n R cs fs \<Longrightarrow> holds_ends n (repeat_then v R) cs (repeated_ends v cs fs)"
proof (induction cs arbitrary: fs)
  case Nil
  then show ?case by (auto simp: good_end_def repeat_then_simps)
next
  case (Cons c cs)
  then obtain f gs where fs: "fs = f # gs" "holds_ends n R cs gs" by auto
  let ?r = "repeated_ends v cs gs"
  have ih: "holds_ends n (repeat_then v R) cs ?r" using Cons.IH fs(2) by blast
  have "good_end n (repeat_then v R) (c # cs) (if v c then (if hd ?r \<noteq> None then hd ?r else hd gs) else None)"
    using holds_ends_hd [OF ih] holds_ends_hd [OF fs(2)]
    by (auto simp: good_end_def repeat_then_simps split: option.splits)
  with ih fs show ?case by (simp add: Let_def)
qed

lemma separated_ends_holds:
  assumes "\<And>r. \<not> R [] r"
  shows "holds_ends n R cs rs \<Longrightarrow> holds_ends n (skip_then sep R) cs (separated_ends sep cs rs)"
proof (induction cs arbitrary: rs)
  case Nil
  with assms show ?case by (auto simp: good_end_def skip_then_simps)
next
  case (Cons c cs)
  then obtain r qs where rs: "rs = r # qs" "good_end n R (c # cs) r" "holds_ends n R cs qs" by auto
  let ?s = "separated_ends sep cs qs"
  have ih: "holds_ends n (skip_then sep R) cs ?s" using Cons.IH rs(3) by blast
  have "good_end n (skip_then sep R) (c # cs) (if sep c \<and> hd ?s \<noteq> None then hd ?s else r)"
    using holds_ends_hd [OF ih] rs(2) by (auto simp: good_end_def skip_then_simps split: option.splits)
  with ih rs show ?case by (simp add: Let_def)
qed

lemma terminal_ends_holds:
  "holds_ends (k + length cs) (\<lambda>w r. w = r \<and> (r = [] \<or> \<not> word (hd r))) cs
    (map (\<lambda>i. if i < length cs \<and> word (cs ! i) then None else Some (k + i)) [0..<Suc (length cs)])"
proof (induction cs arbitrary: k)
  case (Cons c cs)
  have up: "map (\<lambda>i. if i < length (c # cs) \<and> word ((c # cs) ! i) then None else Some (k + i)) [0..<Suc (length (c # cs))] =
      (if word c then None else Some k) # map (\<lambda>i. if i < length cs \<and> word (cs ! i) then None else Some (Suc k + i)) [0..<Suc (length cs)]"
    by (simp add: upt_conv_Cons map_Suc_upt [symmetric] del: upt_Suc)
  have "good_end (k + length (c # cs)) (\<lambda>w r. w = r \<and> (r = [] \<or> \<not> word (hd r))) (c # cs) (if word c then None else Some k)"
    by (auto simp: good_end_def)
  with Cons.IH [of "Suc k"] show ?case unfolding up by (simp del: upt_Suc)
qed (simp add: good_end_def)

lemma occurs_later_rel:
  "occurs_later sep word (v # vs) = skip_then sep (repeat_then v (occurs_later sep word vs))"
  "occurs sep word (v # vs) = repeat_then v (occurs_later sep word vs)"
  by (auto simp: skip_then_def repeat_then_def fun_eq_iff)

lemma later_stages_holds: "holds_ends (length cs) (occurs_later sep word vs) cs (later_stages sep word vs cs)"
proof (induction vs)
  case Nil
  have "occurs_later sep word [] = (\<lambda>w r. w = r \<and> (r = [] \<or> \<not> word (hd r)))" by (auto simp: fun_eq_iff)
  with terminal_ends_holds [of 0 cs word] show ?case by (simp add: terminal_ends_def del: upt_Suc cong: if_cong)
next
  case (Cons v vs)
  show ?case unfolding occurs_later_rel later_stages.simps
    by (intro separated_ends_holds repeated_ends_holds Cons) (simp add: repeat_then_simps)
qed

lemma term_ends_holds: "holds_ends (length cs) (occurs sep word p) cs (term_ends sep word p cs)"
proof (cases p)
  case Nil
  have "occurs sep word [] = occurs_later sep word []" by (auto simp: fun_eq_iff)
  with Nil later_stages_holds [of cs sep word "[]"] show ?thesis by simp
next
  case (Cons v vs)
  show ?thesis unfolding Cons occurs_later_rel term_ends.simps
    by (intro repeated_ends_holds later_stages_holds)
qed

lemma occurs_later_eligible: "occurs_later sep word p w r \<Longrightarrow> \<forall>v\<in>set p. \<exists>c\<in>set w. v c"
proof (induction p arbitrary: w)
  case (Cons v vs)
  then obtain a b where "run_of sep w a" "run_of v a b" "b \<noteq> a" "occurs_later sep word vs b r" by auto
  with Cons.IH show ?case by (fastforce simp: run_of_def)
qed simp

lemma occurs_eligible: "occurs sep word p w r \<Longrightarrow> \<forall>v\<in>set p. \<exists>c\<in>set w. v c"
proof (cases p)
  case (Cons v vs)
  assume "occurs sep word p w r"
  then obtain b where "run_of v w b" "b \<noteq> w" "occurs_later sep word vs b r" using Cons by auto
  with occurs_later_eligible [of sep word vs b r] Cons show ?thesis by (fastforce simp: run_of_def)
qed simp

lemma first_end_some: "first_end es i = Some e \<Longrightarrow> \<exists>x\<in>set es. x ! i = Some e"
  by (induction es) (auto split: if_splits)

lemma first_end_none: "first_end es i = None \<longleftrightarrow> (\<forall>x\<in>set es. x ! i = None)"
  by (induction es) auto

section \<open>Properties\<close>

text \<open>C14. The stored window is enough, although the document forgets old messages and its times are the
  store's stamps and not the clock the check reads. Take any series of sends from an empty document, each
  with its own clock reading and any stamp, in which the clock never falls more than \<open>\<sigma>\<close> behind an earlier
  reading, \<open>\<sigma>\<close> being at most 59 minutes. A message is then accepted only when, over the stamps of
  \<^emph>\<open>all\<close> messages of the user accepted so far, each is at least three seconds back on the clock of the
  check, fewer than ten are less than a minute back and fewer than sixty are less than an hour minus \<open>\<sigma>\<close>
  back; and it is accepted whenever that holds with the full hour. So for a clock that never goes back
  (\<open>\<sigma> = 0\<close>) the admission is exactly the policy on the whole history.\<close>

theorem chat_limits_exact:
  assumes "chat_after None [] earlier = (doc, sent)"
    and "sorted_wrt (\<lambda>a b. a - \<sigma> \<le> b) (map fst earlier @ [now])" "0 \<le> \<sigma>" "\<sigma> \<le> hour_ms - minute_ms"
  shows "(fst (chat_send doc now stamp) \<longrightarrow> within_policy \<sigma> sent now) \<and>
    (within_policy 0 sent now \<longrightarrow> fst (chat_send doc now stamp))"
proof -
  have "chat_inv doc sent ([] @ map fst earlier)" using assms(1) by (rule chat_inv_after [rotated]) (simp add: chat_inv_def)
  with assms(2,3,4) show ?thesis by (intro chat_inv_policy [where clocks = "map fst earlier"]) (auto simp: sorted_wrt_append)
qed

text \<open>The second stamp is 50 ms behind its check; the third message, 2.9 s after it, is refused and the
  fourth accepted.\<close>

theorem chat_limits_exact_witness:
  "chat_after None [] [(0, 20), (4000, 3950), (6850, 6860)] = chat_after None [] [(0, 20), (4000, 3950)] \<and>
   fst (chat_send (fst (chat_after None [] [(0, 20), (4000, 3950), (6850, 6860)])) 7000 6990)"
proof -
  let ?d = "\<lambda>ts l. Some \<lparr>cd_sent_at = Some (map Fin ts), cd_last_sent_at = Some (Fin l), cd_window_started_at = None, cd_count = None\<rparr>"
  have s2: "chat_send (?d [] 20) 4000 3950 = (True, ?d [20] 3950)"
    using chat_send_window [of "[]" 20 4000 3950] by (simp add: within_policy_def chat_constants)
  have a: "chat_after None [] [(0, 20), (4000, 3950)] = (?d [20] 3950, [20, 3950])"
    using s2 by (simp add: chat_send_first)
  have "\<not> fst (chat_send (?d [20] 3950) 6850 6860)"
    using chat_limits_exact [OF a, of 0 6850 6860] by (simp add: within_policy_def chat_constants)
  then have s3: "chat_send (?d [20] 3950) 6850 6860 = (False, ?d [20] 3950)"
    using chat_send_window [of "[20]" 3950 6850 6860] by (simp add: chat_constants split: if_splits)
  have b: "chat_after None [] [(0, 20), (4000, 3950), (6850, 6860)] = (?d [20] 3950, [20, 3950])"
    using s2 s3 by (simp add: chat_send_first)
  have "fst (chat_send (?d [20] 3950) 7000 6990)"
    using chat_limits_exact [OF b, of 0 7000 6990] by (simp add: within_policy_def chat_constants)
  with a b show ?thesis by simp
qed

text \<open>C15. The backward scan finds every prohibited term: the table has an entry at a position exactly
  when some term of the dictionary occurs there, with repeated letters and separators between them,
  and the entry is the end of such an occurrence.\<close>

theorem censor_scan_exact:
  assumes "i \<le> length cs"
  shows "(first_end (all_ends sep word patterns cs) i = None \<longleftrightarrow> (\<forall>p\<in>set patterns. \<forall>r. \<not> occurs sep word p (drop i cs) r)) \<and>
    (\<forall>e. first_end (all_ends sep word patterns cs) i = Some e \<longrightarrow>
      (\<exists>p\<in>set patterns. \<exists>r. occurs sep word p (drop i cs) r \<and> e + length r = length cs))"
proof -
  have good: "good_end (length cs) (occurs sep word p) (drop i cs) (term_ends sep word p cs ! i)" for p
    using holds_ends_nth [OF term_ends_holds] assms by blast
  have el: "eligible p cs" if "occurs sep word p (drop i cs) r" for p r
    using occurs_eligible [OF that] in_set_dropD [of _ i cs] unfolding eligible_def by blast
  have "first_end (all_ends sep word patterns cs) i = None \<longleftrightarrow> (\<forall>p\<in>set patterns. eligible p cs \<longrightarrow> term_ends sep word p cs ! i = None)"
    by (auto simp: first_end_none all_ends_def)
  moreover have "term_ends sep word p cs ! i = None \<longleftrightarrow> (\<forall>r. \<not> occurs sep word p (drop i cs) r)" for p
    using good [of p] by (auto simp: good_end_def split: option.splits)
  moreover have "\<exists>p\<in>set patterns. \<exists>r. occurs sep word p (drop i cs) r \<and> e + length r = length cs"
    if "first_end (all_ends sep word patterns cs) i = Some e" for e
  proof -
    from first_end_some [OF that] obtain p where "p \<in> set patterns" "term_ends sep word p cs ! i = Some e"
      by (auto simp: all_ends_def)
    with good [of p] show ?thesis by (auto simp: good_end_def)
  qed
  ultimately show ?thesis using el by blast
qed

theorem censor_scan_exact_witness:
  "first_end (all_ends (\<lambda>c. c = (1::nat)) (\<lambda>c. c \<noteq> 1) [[(\<lambda>c. c = 2), (\<lambda>c. c = 3)]] [2, 1, 3, 3]) 0 \<noteq> None"
proof -
  have "occurs_later (\<lambda>c. c = (1::nat)) (\<lambda>c. c \<noteq> 1) [\<lambda>c. c = 3] [1, 3, 3] []"
    unfolding occurs_later.simps(2) by (rule exI [of _ "[3, 3]"], rule exI [of _ "[]"]) (simp add: run_of_simps)
  then have "occurs (\<lambda>c. c = (1::nat)) (\<lambda>c. c \<noteq> 1) [(\<lambda>c. c = 2), (\<lambda>c. c = 3)] (drop 0 [2, 1, 3, 3]) []"
    unfolding occurs.simps(2) by (intro exI [of _ "[1, 3, 3]"]) (simp add: run_of_simps)
  moreover have "(0::nat) \<le> length [2, 1, 3, 3 :: nat]" by simp
  ultimately show ?thesis
    using censor_scan_exact [of 0 "[2, 1, 3, 3]" "\<lambda>c. c = (1::nat)" "\<lambda>c. c \<noteq> 1" "[[(\<lambda>c. c = 2), (\<lambda>c. c = 3)]]"]
    by (metis list.set_intros(1))
qed

end
