(* ===== verification/Geo.thy ===== *)
theory Geo imports Js_Value begin

text \<open>
  Distances and motion plausibility (\<open>lib/geo.ts\<close>, \<open>lib/telemetryMotion.ts\<close>): the haversine distance,
  the bounded error budget of a fix, the travel envelope between two fixes, and the judgement
  of one fix after an outage; the rule over the fixes of a bus is in \<open>Telemetry_State\<close>. The locale \<open>pseudo_distance\<close> is what the reducers rely on.
\<close>

section \<open>Haversine distance\<close>

record position =
  pos_lat :: jsnum
  pos_lng :: jsnum

fun js_atan2 :: "jsnum \<Rightarrow> jsnum \<Rightarrow> jsnum" where
  "js_atan2 (Fin y) (Fin x) = Fin (if 0 < x then arctan (y / x)
     else if x < 0 then (if 0 \<le> y then arctan (y / x) + pi else arctan (y / x) - pi)
     else if 0 < y then pi / 2 else if y < 0 then - pi / 2 else 0)"
| "js_atan2 _ _ = NaN"

definition to_radians :: "jsnum \<Rightarrow> jsnum" where
  "to_radians d = d * js_pi / 180"

definition haversine_meters :: "position \<Rightarrow> position \<Rightarrow> jsnum" where
  "haversine_meters a b = (if \<not> (\<forall>x\<in>set [pos_lat a, pos_lng a, pos_lat b, pos_lng b]. is_finite x)
      \<or> js_abs (pos_lat a) > 90 \<or> js_abs (pos_lat b) > 90 \<or> js_abs (pos_lng a) > 180 \<or> js_abs (pos_lng b) > 180
    then PosInf
    else (let delta_lat = to_radians (pos_lat b - pos_lat a); delta_lng = to_radians (pos_lng b - pos_lng a);
        sin_lat = js_sin (delta_lat / 2); sin_lng = js_sin (delta_lng / 2);
        haversine = sin_lat * sin_lat + js_cos (to_radians (pos_lat a)) * js_cos (to_radians (pos_lat b)) * sin_lng * sin_lng;
        bounded = js_min 1 (js_max 0 haversine) in
      6371000 * 2 * js_atan2 (js_sqrt bounded) (js_sqrt (1 - bounded))))"

definition valid_position :: "position \<Rightarrow> bool" where
  "valid_position p \<longleftrightarrow> is_finite (pos_lat p) \<and> is_finite (pos_lng p) \<and> js_abs (pos_lat p) \<le> 90 \<and> js_abs (pos_lng p) \<le> 180"

definition hav_term :: "real \<Rightarrow> real \<Rightarrow> real \<Rightarrow> real \<Rightarrow> real" where
  "hav_term a b c d = sin ((c - a) * pi / 360) * sin ((c - a) * pi / 360) +
     cos (a * pi / 180) * cos (c * pi / 180) * sin ((d - b) * pi / 360) * sin ((d - b) * pi / 360)"

lemma hav_term_sym: "hav_term a b c d = hav_term c d a b"
proof -
  have "(c - a) * pi / 360 = - ((a - c) * pi / 360)" "(d - b) * pi / 360 = - ((b - d) * pi / 360)"
    by (simp_all add: field_simps)
  then have "sin ((c - a) * pi / 360) = - sin ((a - c) * pi / 360)"
    "sin ((d - b) * pi / 360) = - sin ((b - d) * pi / 360)"
    by (metis sin_minus)+
  then show ?thesis by (simp add: hav_term_def mult.commute)
qed

definition bounded_hav :: "real \<Rightarrow> real" where
  "bounded_hav h = min 1 (max 0 h)"

definition arc :: "real \<Rightarrow> real" where
  "arc h = (if 0 < sqrt (1 - h) then arctan (sqrt h / sqrt (1 - h)) else pi / 2)"

lemma bounded_hav: "0 \<le> bounded_hav h" "bounded_hav h \<le> 1" "bounded_hav 0 = 0"
  by (simp_all add: bounded_hav_def)

lemma arc_bounds: "0 \<le> h \<Longrightarrow> 0 \<le> arc h" "arc h \<le> pi / 2" "arc 0 = 0"
  using arctan_ubound [of "sqrt h / sqrt (1 - h)"] by (auto simp: arc_def)

lemma haversine_valid:
  assumes "valid_position p" "valid_position q"
  obtains a b c d where "p = \<lparr>pos_lat = Fin a, pos_lng = Fin b\<rparr>" "q = \<lparr>pos_lat = Fin c, pos_lng = Fin d\<rparr>"
    "haversine_meters p q = Fin (12742000 * arc (bounded_hav (hav_term a b c d)))"
proof -
  from assms obtain a b c d where p: "p = \<lparr>pos_lat = Fin a, pos_lng = Fin b\<rparr>" "q = \<lparr>pos_lat = Fin c, pos_lng = Fin d\<rparr>"
    by (cases p; cases q) (auto simp: valid_position_def elim!: is_finiteE)
  define h where "h = bounded_hav (hav_term a b c d)"
  have h: "0 \<le> h" "h \<le> 1" using bounded_hav by (simp_all add: h_def)
  have "js_atan2 (js_sqrt (Fin h)) (js_sqrt (1 - Fin h)) = Fin (arc h)"
  proof (cases "h = 1")
    case True
    then show ?thesis by (simp add: arc_def)
  next
    case False
    with h have "h < 1" by simp
    with h show ?thesis by (auto simp: arc_def)
  qed
  moreover have "haversine_meters p q = (let bounded = js_min 1 (js_max 0 (Fin (hav_term a b c d))) in
      6371000 * 2 * js_atan2 (js_sqrt bounded) (js_sqrt (1 - bounded)))"
    using assms p by (auto simp: haversine_meters_def valid_position_def to_radians_def js_pi_def
        hav_term_def Let_def)
  moreover have "js_min 1 (js_max 0 (Fin (hav_term a b c d))) = Fin h"
    by (simp add: h_def bounded_hav_def)
  ultimately have "haversine_meters p q = Fin (12742000 * arc h)" by (simp only: Let_def) simp
  with p that show thesis by (simp add: h_def)
qed

lemma not_le_abs: "is_finite x \<Longrightarrow> js_abs x > Fin n \<longleftrightarrow> \<not> js_abs x \<le> Fin n"
  by (cases x) auto

lemma haversine_invalid: "\<not> (valid_position p \<and> valid_position q) \<Longrightarrow> haversine_meters p q = PosInf"
  by (auto simp: haversine_meters_def valid_position_def not_le_abs)

text \<open>What the policies use of the distance: it is symmetric, never negative or NaN, zero from a
  place to itself and infinite for an invalid coordinate.\<close>

locale pseudo_distance =
  fixes dist_fn :: "'p \<Rightarrow> 'p \<Rightarrow> jsnum" and valid :: "'p \<Rightarrow> bool" and bound :: real
  assumes dist_finite: "valid p \<Longrightarrow> valid q \<Longrightarrow> \<exists>d. dist_fn p q = Fin d \<and> 0 \<le> d \<and> d \<le> bound"
    and dist_infinite: "\<not> (valid p \<and> valid q) \<Longrightarrow> dist_fn p q = PosInf"
    and dist_sym: "dist_fn p q = dist_fn q p"
    and dist_self: "valid p \<Longrightarrow> dist_fn p p = 0"
begin

lemma dist_cases: "(\<exists>d. dist_fn p q = Fin d \<and> 0 \<le> d) \<or> dist_fn p q = PosInf"
  using dist_finite dist_infinite by metis

lemma dist_not_nan: "dist_fn p q \<noteq> NaN"
  using dist_cases [of p q] by auto

lemma dist_nonneg: "0 \<le> dist_fn p q"
  using dist_cases [of p q] by auto

lemma near_valid: "dist_fn p q \<le> Fin r \<Longrightarrow> valid p \<and> valid q"
  using dist_infinite [of p q] by (cases "valid p \<and> valid q") auto

lemma dist_zero_le: "dist_fn p p = 0 \<Longrightarrow> dist_fn p p \<le> dist_fn p q"
  using dist_nonneg [of p q] by simp

end

interpretation hav: pseudo_distance haversine_meters valid_position "6371000 * pi"
proof
  fix p q :: position
  show "\<exists>d. haversine_meters p q = Fin d \<and> 0 \<le> d \<and> d \<le> 6371000 * pi" if "valid_position p" "valid_position q"
  proof -
    from that obtain a b c d where "haversine_meters p q = Fin (12742000 * arc (bounded_hav (hav_term a b c d)))"
      by (rule haversine_valid)
    moreover have "0 \<le> arc (bounded_hav (hav_term a b c d))" "arc (bounded_hav (hav_term a b c d)) \<le> pi / 2"
      using arc_bounds bounded_hav by blast+
    ultimately show ?thesis by simp
  qed
  show "haversine_meters p q = PosInf" if "\<not> (valid_position p \<and> valid_position q)"
    using that by (rule haversine_invalid)
  show "haversine_meters p q = haversine_meters q p"
  proof (cases "valid_position p \<and> valid_position q")
    case True
    then obtain a b c d where 1: "p = \<lparr>pos_lat = Fin a, pos_lng = Fin b\<rparr>" "q = \<lparr>pos_lat = Fin c, pos_lng = Fin d\<rparr>"
      "haversine_meters p q = Fin (12742000 * arc (bounded_hav (hav_term a b c d)))" by (metis haversine_valid)
    from True obtain a' b' c' d' where 2: "q = \<lparr>pos_lat = Fin a', pos_lng = Fin b'\<rparr>" "p = \<lparr>pos_lat = Fin c', pos_lng = Fin d'\<rparr>"
      "haversine_meters q p = Fin (12742000 * arc (bounded_hav (hav_term a' b' c' d')))" by (metis haversine_valid)
    from 1 2 show ?thesis by (simp add: hav_term_sym)
  next
    case False
    then have "\<not> (valid_position q \<and> valid_position p)" by blast
    with False haversine_invalid show ?thesis by metis
  qed
  show "haversine_meters p p = 0" if "valid_position p"
  proof -
    from that that obtain a b c d where "p = \<lparr>pos_lat = Fin a, pos_lng = Fin b\<rparr>" "p = \<lparr>pos_lat = Fin c, pos_lng = Fin d\<rparr>"
      "haversine_meters p p = Fin (12742000 * arc (bounded_hav (hav_term a b c d)))" by (rule haversine_valid)
    then show ?thesis by (simp add: hav_term_def bounded_hav(3) arc_bounds(3))
  qed
qed

section \<open>Fix quality and the travel envelope\<close>

definition gnss_hdop_max :: jsnum where "gnss_hdop_max = 4"

definition gnss_stationary_speed_kmh :: jsnum where "gnss_stationary_speed_kmh = 5 / 2"

definition telemetry_max_transition_gap_ms :: jsnum where "telemetry_max_transition_gap_ms = 60000"

definition telemetry_reacquire_after_ms :: jsnum where "telemetry_reacquire_after_ms = 300000"

lemmas motion_constants = gnss_hdop_max_def gnss_stationary_speed_kmh_def telemetry_max_transition_gap_ms_def
  telemetry_reacquire_after_ms_def

definition clamp :: "jsnum \<Rightarrow> jsnum \<Rightarrow> jsnum \<Rightarrow> jsnum" where
  "clamp v lo hi = js_max lo (js_min hi v)"

definition adaptive_gnss_error_meters :: "jsnum option \<Rightarrow> jsnum \<Rightarrow> jsnum \<Rightarrow> jsnum \<Rightarrow> jsnum option \<Rightarrow> jsnum" where
  "adaptive_gnss_error_meters gps_hdop speed previous_speed elapsed accuracy =
    (let hdop = opt_default gps_hdop NaN;
      hdop_error = (if is_finite hdop \<and> 0 \<le> hdop \<and> hdop \<le> 99 then 15 + hdop * 7 else 50);
      reported = opt_default accuracy NaN;
      quality = (if is_finite reported \<and> 0 \<le> reported then reported else hdop_error);
      stationary = js_max (js_max speed previous_speed) 0 \<le> gnss_stationary_speed_kmh;
      multipath = (if stationary then 10 else 0);
      gap = clamp (js_max 0 (elapsed - 10000) / 2000) 0 10 in
    clamp (quality + multipath + gap) 15 50)"

record motion_sample =
  ms_position :: position
  ms_speed :: jsnum
  ms_timestamp :: jsnum
  ms_gps_hdop :: "jsnum option"

definition within_travel_envelope :: "motion_sample \<Rightarrow> motion_sample \<Rightarrow> jsnum \<Rightarrow> bool" where
  "within_travel_envelope previous next' elapsed =
    (let maximum_speed = clamp (js_max (js_max (ms_speed previous) (ms_speed next')) 0) 0 200;
      budget = js_max (adaptive_gnss_error_meters (ms_gps_hdop previous) (ms_speed previous) (ms_speed next') elapsed None)
        (adaptive_gnss_error_meters (ms_gps_hdop next') (ms_speed next') (ms_speed previous) elapsed None);
      reachable = budget + (maximum_speed / (36 / 10)) * (elapsed / 1000) in
    haversine_meters (ms_position previous) (ms_position next') \<le> reachable)"

definition is_plausible_telemetry_transition :: "motion_sample option \<Rightarrow> motion_sample \<Rightarrow> bool" where
  "is_plausible_telemetry_transition previous next' = (case previous of
      None \<Rightarrow> True
    | Some p \<Rightarrow> (let gap = js_max 0 (ms_timestamp next' - ms_timestamp p) in
        if gap > telemetry_reacquire_after_ms then True
        else within_travel_envelope p next' (js_min telemetry_max_transition_gap_ms gap)))"

section \<open>Reacquisition after an outage\<close>

record qualified_sample =
  qs_motion :: motion_sample
  qs_state :: string

definition usable_reacquisition_fix :: "qualified_sample \<Rightarrow> bool" where
  "usable_reacquisition_fix s = (let m = qs_motion s in
    is_finite (pos_lat (ms_position m)) \<and> js_abs (pos_lat (ms_position m)) \<le> 90 \<and>
    is_finite (pos_lng (ms_position m)) \<and> js_abs (pos_lng (ms_position m)) \<le> 180 \<and>
    is_finite (ms_speed m) \<and> 0 \<le> ms_speed m \<and> ms_speed m \<le> 200 \<and>
    is_safe_integer (ms_timestamp m) \<and>
    (case ms_gps_hdop m of None \<Rightarrow> False | Some h \<Rightarrow> is_finite h \<and> 0 \<le> h \<and> h \<le> gnss_hdop_max) \<and>
    (qs_state s = ''moving'' \<or> qs_state s = ''stopped''))"

record outage_evidence =
  oe_count :: jsnum
  oe_started_at :: jsnum

text \<open>The fields of the stored raw location, \<open>None\<close> when one has the wrong type.\<close>

definition read_candidate :: "jsval \<Rightarrow> qualified_sample option" where
  "read_candidate raw = (case (js_prop raw ''lat'', js_prop raw ''lng'', js_prop raw ''speed'', js_prop raw ''sampledAt'',
      js_prop raw ''motionState'', js_prop raw ''gpsHdop'') of
    (JNum lat, JNum lng, JNum speed, JNum at', JStr st, JNum h) \<Rightarrow>
      Some \<lparr>qs_motion = \<lparr>ms_position = \<lparr>pos_lat = lat, pos_lng = lng\<rparr>, ms_speed = speed, ms_timestamp = at',
        ms_gps_hdop = Some h\<rparr>, qs_state = st\<rparr>
  | _ \<Rightarrow> None)"

definition is_object :: "jsval \<Rightarrow> bool" where
  "is_object v = (case v of JObj _ \<Rightarrow> True | JArr _ \<Rightarrow> True | _ \<Rightarrow> False)"

text \<open>\<open>pending.count\<close> and \<open>pending.startedAt\<close> as numbers, NaN when they are not.\<close>

fun evidence_num :: "jsval \<Rightarrow> jsnum" where
  "evidence_num (JNum x) = x"
| "evidence_num _ = NaN"

definition evaluate_outage_reacquisition ::
    "motion_sample option \<Rightarrow> qualified_sample \<Rightarrow> jsval \<Rightarrow> jsval \<Rightarrow> bool \<times> outage_evidence option" where
  "evaluate_outage_reacquisition previous next' prior_raw evidence = (case previous of
    None \<Rightarrow> (False, None)
  | Some p \<Rightarrow> if \<not> usable_reacquisition_fix next' then (False, None)
    else (let now = ms_timestamp (qs_motion next'); gap = now - ms_timestamp p in
      if gap \<le> telemetry_max_transition_gap_ms \<or> gap > telemetry_reacquire_after_ms
        \<or> \<not> within_travel_envelope p (qs_motion next') gap then (False, None)
      else (let first = (False, Some \<lparr>oe_count = 1, oe_started_at = now\<rparr>) in
        if \<not> is_object prior_raw \<or> \<not> is_object evidence then first
        else case read_candidate prior_raw of
          None \<Rightarrow> first
        | Some c \<Rightarrow> (let at' = ms_timestamp (qs_motion c); candidate_gap = now - at';
              count = evidence_num (js_prop evidence ''count''); started = evidence_num (js_prop evidence ''startedAt'') in
            if \<not> usable_reacquisition_fix c \<or> candidate_gap < 500 \<or> candidate_gap > 5000
              \<or> \<not> is_plausible_telemetry_transition (Some (qs_motion c)) (qs_motion next')
              \<or> (\<not> num_eq count 1 \<and> \<not> num_eq count 2)
              \<or> \<not> is_safe_integer started \<or> started \<le> ms_timestamp p \<or> started > at'
              \<or> (num_eq count 1 \<and> \<not> num_eq started at')
              \<or> (num_eq count 2 \<and> (at' - started < 500 \<or> at' - started > 5000))
            then first
            else if num_eq count 2 then (True, None)
            else (False, Some \<lparr>oe_count = 2, oe_started_at = started\<rparr>)))))"

text \<open>The stored form of the evidence.\<close>

definition encode_evidence :: "outage_evidence option \<Rightarrow> jsval" where
  "encode_evidence e = (case e of None \<Rightarrow> JUndef
     | Some e \<Rightarrow> JObj [(''count'', JNum (oe_count e)), (''startedAt'', JNum (oe_started_at e))])"

definition outage_fix :: "motion_sample \<Rightarrow> qualified_sample \<Rightarrow> bool" where
  "outage_fix p s \<longleftrightarrow> usable_reacquisition_fix s \<and>
    (let gap = ms_timestamp (qs_motion s) - ms_timestamp p in gap > 60000 \<and> gap \<le> 300000 \<and>
      within_travel_envelope p (qs_motion s) gap)"

definition coherent :: "qualified_sample \<Rightarrow> qualified_sample \<Rightarrow> bool" where
  "coherent a b \<longleftrightarrow> usable_reacquisition_fix a \<and> (let gap = ms_timestamp (qs_motion b) - ms_timestamp (qs_motion a) in
     500 \<le> gap \<and> gap \<le> 5000 \<and> is_plausible_telemetry_transition (Some (qs_motion a)) (qs_motion b))"

lemma usable_time: "usable_reacquisition_fix s \<Longrightarrow> \<exists>t. ms_timestamp (qs_motion s) = Fin t"
  by (auto simp: usable_reacquisition_fix_def Let_def elim!: is_safe_integerE)

lemma evaluate_outage_cases:
  assumes "evaluate_outage_reacquisition (Some p) s raw ev = (acc, pend)" "ms_timestamp p = Fin t0"
  shows "acc = False \<and> pend = None \<or>
    outage_fix p s \<and> (acc = False \<and> pend = Some \<lparr>oe_count = 1, oe_started_at = ms_timestamp (qs_motion s)\<rparr> \<or>
     (\<exists>c count started. read_candidate raw = Some c \<and> coherent c s \<and> js_prop ev ''count'' = JNum count \<and>
       js_prop ev ''startedAt'' = JNum started \<and>
       (num_eq count 1 \<and> num_eq started (ms_timestamp (qs_motion c)) \<and> acc = False \<and> pend = Some \<lparr>oe_count = 2, oe_started_at = started\<rparr> \<or>
        num_eq count 2 \<and> 500 \<le> ms_timestamp (qs_motion c) - started \<and> acc)))"
proof (cases "usable_reacquisition_fix s")
  case False
  with assms show ?thesis by (simp add: evaluate_outage_reacquisition_def)
next
  case True
  then obtain t where t: "ms_timestamp (qs_motion s) = Fin t" using usable_time by blast
  show ?thesis
  proof (cases "outage_fix p s")
    case False
    with True assms t have "acc = False \<and> pend = None"
      by (auto simp: evaluate_outage_reacquisition_def outage_fix_def Let_def motion_constants split: if_splits)
    then show ?thesis by blast
  next
    case fix': True
    show ?thesis
    proof (cases "acc = False \<and> pend = Some \<lparr>oe_count = 1, oe_started_at = ms_timestamp (qs_motion s)\<rparr>")
      case False
      with assms True fix' t obtain c where c: "read_candidate raw = Some c" "usable_reacquisition_fix c"
        by (auto simp: evaluate_outage_reacquisition_def outage_fix_def Let_def motion_constants
            split: if_splits option.splits)
      then obtain u where u: "ms_timestamp (qs_motion c) = Fin u" using usable_time by blast
      let ?n = "evidence_num (js_prop ev ''count'')" and ?st = "evidence_num (js_prop ev ''startedAt'')"
      from False assms True fix' t c u have
        checks: "\<not> t - u < 500 \<and> \<not> t - u > 5000 \<and> is_plausible_telemetry_transition (Some (qs_motion c)) (qs_motion s) \<and>
          is_safe_integer ?st \<and> (num_eq ?n 1 \<or> num_eq ?n 2) \<and> (num_eq ?n 1 \<longrightarrow> num_eq ?st (Fin u)) \<and>
          (num_eq ?n 2 \<longrightarrow> \<not> Fin u - ?st < 500)"
        and res: "(acc, pend) = (if num_eq ?n 2 then (True, None) else (False, Some \<lparr>oe_count = 2, oe_started_at = ?st\<rparr>))"
        by (auto simp: evaluate_outage_reacquisition_def outage_fix_def Let_def motion_constants split: if_splits)
      from checks obtain v where v: "?st = Fin v" by (auto elim!: is_safe_integerE)
      have "js_prop ev ''count'' = JNum ?n" using checks by (cases "js_prop ev ''count''") auto
      moreover have "js_prop ev ''startedAt'' = JNum ?st" using v by (cases "js_prop ev ''startedAt''") auto
      moreover have "coherent c s" using checks c t u by (simp add: coherent_def Let_def)
      moreover have "num_eq ?n 2 \<Longrightarrow> \<not> num_eq ?n 1" by (cases ?n) (auto simp: num_eq_def)
      ultimately show ?thesis using fix' c(1) checks res u v by (auto split: if_splits)
    qed (use fix' in blast)
  qed
qed

lemma adaptive_error_bounds:
  assumes "e \<noteq> NaN"
  shows "15 \<le> adaptive_gnss_error_meters h v w e a \<and> adaptive_gnss_error_meters h v w e a \<le> 50"
proof -
  have "js_max 0 (e - 10000) / 2000 \<noteq> NaN"
    using assms by (cases e) (auto simp: js_max_def)
  moreover have "\<exists>g. clamp x 0 10 = Fin g" if "x \<noteq> NaN" for x
    using that by (cases x) (auto simp: clamp_def js_max_def js_min_def)
  ultimately have gap: "\<exists>g. clamp (js_max 0 (e - 10000) / 2000) 0 10 = Fin g" by blast
  have "\<exists>q. (if is_finite y \<and> 0 \<le> y then y else if is_finite x \<and> 0 \<le> x \<and> x \<le> 99 then 15 + x * 7 else 50) = Fin q" for x y
    by (cases x; cases y) auto
  then obtain q where "(if is_finite (opt_default a NaN) \<and> 0 \<le> opt_default a NaN then opt_default a NaN
      else if is_finite (opt_default h NaN) \<and> 0 \<le> opt_default h NaN \<and> opt_default h NaN \<le> 99 then 15 + opt_default h NaN * 7 else 50) = Fin q"
    by blast
  with gap show ?thesis by (auto simp: adaptive_gnss_error_meters_def Let_def clamp_def)
qed

section \<open>Properties\<close>

definition null_island :: position where
  "null_island = \<lparr>pos_lat = 0, pos_lng = 0\<rparr>"

definition demo_fix :: "real \<Rightarrow> qualified_sample" where
  "demo_fix t = \<lparr>qs_motion = \<lparr>ms_position = null_island, ms_speed = 20, ms_timestamp = Fin t, ms_gps_hdop = Some 1\<rparr>, qs_state = ''moving''\<rparr>"

text \<open>The distance is symmetric, zero from a valid place to itself, between zero and half the
  earth's circumference on valid coordinates, and infinite otherwise, never NaN: no comparison with
  a radius can succeed for an invalid coordinate.\<close>

theorem haversine_sound:
  "haversine_meters p q = haversine_meters q p \<and>
   (haversine_meters p q \<le> Fin r \<longrightarrow> valid_position p \<and> valid_position q) \<and>
   (valid_position p \<and> valid_position q \<longrightarrow> 0 \<le> haversine_meters p q \<and> haversine_meters p q \<le> Fin (6371000 * pi)) \<and>
   (valid_position p \<longrightarrow> haversine_meters p p = 0)"
  using hav.dist_sym [of p q] hav.near_valid [of p q r] hav.dist_finite [of p q] hav.dist_self [of p]
  by auto

theorem haversine_sound_witness: "haversine_meters null_island null_island = 0"
  using haversine_sound [of null_island null_island 0] by (simp add: null_island_def valid_position_def)

text \<open>An outage of at most five minutes cannot teleport a bus: a transition accepted within that
  time spans at most 50 metres of receiver error plus one minute at 200 km/h, whatever speeds and
  precision are reported.\<close>

theorem short_outage_bounded:
  assumes "is_plausible_telemetry_transition (Some p) q" "ms_timestamp p = Fin t" "ms_timestamp q = Fin u"
    "u - t \<le> 300000"
  shows "\<exists>d. haversine_meters (ms_position p) (ms_position q) = Fin d \<and> d \<le> 50 + 200 / (36 / 10) * 60"
proof -
  define g where "g = min 60000 (max 0 (u - t))"
  have g: "0 \<le> g" "g \<le> 60000" by (simp_all add: g_def)
  have "within_travel_envelope p q (Fin g)"
    using assms by (auto simp: is_plausible_telemetry_transition_def motion_constants Let_def g_def split: if_splits)
  moreover obtain b where b: "js_max (adaptive_gnss_error_meters (ms_gps_hdop p) (ms_speed p) (ms_speed q) (Fin g) None)
      (adaptive_gnss_error_meters (ms_gps_hdop q) (ms_speed q) (ms_speed p) (Fin g) None) = Fin b" "b \<le> 50"
    using adaptive_error_bounds [of "Fin g" "ms_gps_hdop p" "ms_speed p" "ms_speed q" None]
      adaptive_error_bounds [of "Fin g" "ms_gps_hdop q" "ms_speed q" "ms_speed p" None]
    by (cases "adaptive_gnss_error_meters (ms_gps_hdop p) (ms_speed p) (ms_speed q) (Fin g) None";
        cases "adaptive_gnss_error_meters (ms_gps_hdop q) (ms_speed q) (ms_speed p) (Fin g) None") auto
  ultimately have le: "haversine_meters (ms_position p) (ms_position q) \<le>
      Fin b + clamp (js_max (js_max (ms_speed p) (ms_speed q)) 0) 0 200 / (36 / 10) * (Fin g / 1000)"
    by (simp add: within_travel_envelope_def Let_def)
  obtain v where v: "clamp (js_max (js_max (ms_speed p) (ms_speed q)) 0) 0 200 = Fin v" "v \<le> 200" "0 \<le> v"
  proof -
    have "clamp x 0 200 = NaN \<or> (\<exists>v. clamp x 0 200 = Fin v \<and> v \<le> 200 \<and> 0 \<le> v)" for x
      by (cases x) (auto simp: clamp_def js_max_def js_min_def)
    moreover have "clamp (js_max (js_max (ms_speed p) (ms_speed q)) 0) 0 200 \<noteq> NaN" using le by auto
    ultimately show thesis using that by blast
  qed
  have "v / (36 / 10) * (g / 1000) \<le> 200 / (36 / 10) * 60"
    using v g by (intro mult_mono) auto
  moreover obtain d where "haversine_meters (ms_position p) (ms_position q) = Fin d"
    using le v hav.dist_cases [of "ms_position p" "ms_position q"] by auto
  ultimately show ?thesis using le v b by auto
qed

theorem short_outage_bounded_witness:
  "\<exists>d. haversine_meters null_island null_island = Fin d \<and> d \<le> 50 + 200 / (36 / 10) * 60"
proof -
  have "is_plausible_telemetry_transition (Some (qs_motion (demo_fix 0))) (qs_motion (demo_fix 1000))"
    using hav.dist_self [of null_island]
    by (simp add: is_plausible_telemetry_transition_def within_travel_envelope_def adaptive_gnss_error_meters_def
        motion_constants demo_fix_def clamp_def opt_default_def null_island_def valid_position_def)
  from short_outage_bounded [OF this] show ?thesis by (simp add: demo_fix_def)
qed

end
