(* ===== verification/Polyline.thy ===== *)
theory Polyline imports Geo "HOL-Library.Word" begin

text \<open>
  The encoded polyline of a route (\<open>lib/polylineUtils.ts\<close>), over UTF-16 code units. The bitwise
  operators of the language work on 32-bit two's complement integers, so the coordinate differences
  are \<open>32 word\<close>s with the arithmetic right shift; reading stops with an error on a byte outside the
  alphabet, after more than seven groups of five bits, at a truncated coordinate and at a coordinate
  out of range.
\<close>

unbundle bit_operations_syntax

section \<open>Decoding\<close>

type_synonym units = "16 word list"

datatype polyline_error = Invalid_Encoding | Truncated_Encoding | Invalid_Coordinates

text \<open>\<open>~(result >> 1)\<close> or \<open>result >> 1\<close>, by the sign in the lowest bit.\<close>

definition unzigzag :: "32 word \<Rightarrow> int" where
  "unzigzag result = sint (if result AND 1 \<noteq> 0 then NOT (signed_drop_bit 1 result) else signed_drop_bit 1 result)"

fun decode_coordinate :: "units \<Rightarrow> 32 word \<Rightarrow> nat \<Rightarrow> polyline_error + (int \<times> units)" where
  "decode_coordinate [] result shift = Inl Truncated_Encoding"
| "decode_coordinate (u # us) result shift =
    (let byte = uint u - 63 in
     if byte < 0 \<or> byte > 63 \<or> shift > 30 then Inl Invalid_Encoding
     else let result' = result OR push_bit shift (word_of_int byte AND 0x1f) in
       if byte < 0x20 then Inr (unzigzag result', us)
       else decode_coordinate us result' (shift + 5))"

lemma decode_coordinate_shorter: "decode_coordinate us r s = Inr (v, us') \<Longrightarrow> length us' < length us"
proof (induction us r s rule: decode_coordinate.induct)
  case (2 u us r s)
  then show ?case by (force simp: Let_def split: if_splits)
qed simp

definition decoded_point :: "int \<Rightarrow> int \<Rightarrow> position" where
  "decoded_point lat lng = \<lparr>pos_lat = Fin (of_int lat) / 100000, pos_lng = Fin (of_int lng) / 100000\<rparr>"

definition in_world :: "position \<Rightarrow> bool" where
  "in_world p \<longleftrightarrow> \<not> (\<not> is_finite (pos_lat p) \<or> \<not> is_finite (pos_lng p) \<or> js_abs (pos_lat p) > 90 \<or> js_abs (pos_lng p) > 180)"

function decode_from :: "units \<Rightarrow> int \<Rightarrow> int \<Rightarrow> polyline_error + position list" where
  "decode_from us lat lng = (if us = [] then Inr [] else
    (case decode_coordinate us 0 0 of
      Inl e \<Rightarrow> Inl e
    | Inr (dlat, us') \<Rightarrow> (case decode_coordinate us' 0 0 of
        Inl e \<Rightarrow> Inl e
      | Inr (dlng, us'') \<Rightarrow>
          (let lat' = lat + dlat; lng' = lng + dlng; point = decoded_point lat' lng' in
           if \<not> in_world point then Inl Invalid_Coordinates
           else (case decode_from us'' lat' lng' of
               Inl e \<Rightarrow> Inl e
             | Inr coords \<Rightarrow> Inr (point # coords))))))"
  by auto

termination
  by (relation "measure (\<lambda>(us, _). length us)") (auto dest!: decode_coordinate_shorter)

declare decode_from.simps [simp del]

definition decode_polyline :: "units \<Rightarrow> polyline_error + position list" where
  "decode_polyline encoded = decode_from encoded 0 0"

section \<open>Encoding\<close>

text \<open>The operand of a bitwise operator: truncated and taken modulo \<open>2 ^ 32\<close>; zero when not finite.\<close>

fun to_int32 :: "jsnum \<Rightarrow> 32 word" where
  "to_int32 (Fin x) = word_of_int (if 0 \<le> x then \<lfloor>x\<rfloor> else \<lceil>x\<rceil>)"
| "to_int32 _ = 0"

definition zigzag :: "jsnum \<Rightarrow> 32 word" where
  "zigzag d = (if d < 0 then NOT (push_bit 1 (to_int32 d)) else push_bit 1 (to_int32 d))"

text \<open>The loop \<open>while (d >= 0x20)\<close> compares as a signed integer.\<close>

function encode_groups :: "32 word \<Rightarrow> units" where
  "encode_groups d = (if sint d \<ge> 0x20
    then word_of_int (sint (0x20 OR (d AND 0x1f)) + 63) # encode_groups (signed_drop_bit 5 d)
    else [word_of_int (sint d + 63)])"
  by auto

termination
proof (relation "measure (\<lambda>d. nat (sint d))")
  fix d :: "32 word"
  assume d: "0x20 \<le> sint d"
  have "sint (signed_drop_bit 5 d) = sint d div 32" by (simp add: sint_signed_drop_bit_eq drop_bit_eq_div)
  with d show "(signed_drop_bit 5 d, d) \<in> measure (\<lambda>d. nat (sint d))" by simp
qed simp

declare encode_groups.simps [simp del]

fun encode_from :: "jsnum \<Rightarrow> jsnum \<Rightarrow> position list \<Rightarrow> units" where
  "encode_from prev_lat prev_lng [] = []"
| "encode_from prev_lat prev_lng (coord # coords) =
    (let lat = js_round (pos_lat coord * 100000); lng = js_round (pos_lng coord * 100000) in
     encode_groups (zigzag (lat - prev_lat)) @ encode_groups (zigzag (lng - prev_lng)) @ encode_from lat lng coords)"

definition encode_polyline :: "position list \<Rightarrow> units" where
  "encode_polyline coords = encode_from 0 0 coords"

section \<open>The nearest vertex\<close>

definition squared_distance :: "position \<Rightarrow> position \<Rightarrow> jsnum" where
  "squared_distance p q = (let d_lat = pos_lat p - pos_lat q; d_lng = pos_lng p - pos_lng q in d_lat * d_lat + d_lng * d_lng)"

definition closest_step :: "position list \<Rightarrow> position \<Rightarrow> jsnum \<times> nat \<Rightarrow> nat \<Rightarrow> jsnum \<times> nat" where
  "closest_step coords target = (\<lambda>(min_dist, min_idx) i. (let d = squared_distance (coords ! i) target in
     if d < min_dist then (d, i) else (min_dist, min_idx)))"

definition closest_polyline_index :: "position list \<Rightarrow> position \<Rightarrow> nat" where
  "closest_polyline_index coords target = snd (foldl (closest_step coords target) (PosInf, 0) [0..<length coords])"

section \<open>Reading back one coordinate\<close>

lemma sint_of_int32: "- 2147483648 \<le> n \<Longrightarrow> n < 2147483648 \<Longrightarrow> sint (word_of_int n :: 32 word) = n"
  by (simp add: int_word_sint)

lemma disjoint_bits:
  assumes "take_bit s r = (r :: int)"
  shows "r AND push_bit s m = 0"
proof (rule bit_eqI)
  fix n
  have "bit r n = (n < s \<and> bit r n)" by (subst assms [symmetric]) (simp add: bit_take_bit_iff)
  then show "bit (r AND push_bit s m) n = bit 0 n" by (auto simp: bit_and_iff bit_push_bit_iff)
qed

lemma or_disjoint:
  assumes "0 \<le> r" "r < 2 ^ s"
  shows "word_of_int r OR push_bit s (word_of_int m) = (word_of_int (r + m * 2 ^ s) :: 32 word)"
proof -
  have "take_bit s r = r" using assms by (simp add: take_bit_int_eq_self)
  then have "r AND push_bit s m = 0" by (rule disjoint_bits)
  then have "r OR push_bit s m = r + push_bit s m" by (simp add: disjunctive_add_eq_or)
  moreover have "push_bit s (word_of_int m) = (word_of_int (push_bit s m) :: 32 word)" by (simp add: push_bit_eq_mult)
  ultimately show ?thesis by (simp only: word_wi_log_defs push_bit_eq_mult)
qed

lemma mask5: "word_of_int n AND 0x1f = (word_of_int (n mod 32) :: 32 word)"
proof -
  have "n AND 31 = n mod 32" using take_bit_eq_mask [of 5 n] by (simp add: take_bit_eq_mod mask_eq_exp_minus_1)
  then have "word_of_int n AND word_of_int 31 = (word_of_int (n mod 32) :: 32 word)" by (simp only: word_wi_log_defs)
  then show ?thesis by simp
qed

text \<open>One group: the unit written and the byte it is read back as.\<close>

lemma group_unit:
  assumes "0 \<le> n"
  shows "sint (0x20 OR (word_of_int n AND 0x1f) :: 32 word) = 32 + n mod 32"
proof -
  have "word_of_int (n mod 32) OR push_bit 5 (word_of_int 1) = (word_of_int (n mod 32 + 1 * 2 ^ 5) :: 32 word)"
    using assms by (intro or_disjoint) auto
  then have "0x20 OR (word_of_int n AND 0x1f) = (word_of_int (32 + n mod 32) :: 32 word)"
    by (simp add: mask5 or.commute add.commute)
  moreover have "n mod 32 < 32" "0 \<le> n mod 32" by auto
  ultimately show ?thesis by (simp only: sint_of_int32)
qed

lemma signed_drop_int32:
  assumes "- 2147483648 \<le> n" "n < 2147483648"
  shows "signed_drop_bit k (word_of_int n) = (word_of_int (n div 2 ^ k) :: 32 word)"
proof -
  have a: "n div 2 ^ k < 2147483648"
  proof (cases "0 \<le> n")
    case True
    then have "n div 2 ^ k \<le> n" using zdiv_mono2 [of n 1 "2 ^ k"] by simp
    then show ?thesis using assms by linarith
  next
    case False
    then have "n div 2 ^ k < 0" by (subst pos_imp_zdiv_neg_iff) auto
    then show ?thesis by linarith
  qed
  have "- 2147483648 * 2 ^ k \<le> (- 2147483648 :: int) * 1" by (intro mult_left_mono_neg) auto
  then have "- 2147483648 * 2 ^ k \<le> n" using assms by linarith
  then have "- 2147483648 \<le> n div 2 ^ k" using zdiv_mono1 [of "- 2147483648 * 2 ^ k" n "2 ^ k"] nonzero_mult_div_cancel_right [of "2 ^ k :: int" "- 2147483648"] by auto
  then have "sint (word_of_int (n div 2 ^ k) :: 32 word) = n div 2 ^ k" using a by (rule sint_of_int32)
  moreover have "sint (signed_drop_bit k (word_of_int n) :: 32 word) = n div 2 ^ k"
    using assms by (simp add: sint_signed_drop_bit_eq drop_bit_eq_div sint_of_int32)
  ultimately show ?thesis by (intro signed_word_eqI [where ?'a = int]) simp
qed

lemma uint_unit: "0 \<le> k \<Longrightarrow> k < 65536 \<Longrightarrow> uint (word_of_int k :: 16 word) = k"
  by (simp add: uint_word_of_int)

lemma decode_groups:
  "0 \<le> n \<Longrightarrow> s = 0 \<or> 1 \<le> n \<Longrightarrow> 0 \<le> r \<Longrightarrow> r < 2 ^ s \<Longrightarrow> n * 2 ^ s + r < 2147483648 \<Longrightarrow>
    decode_coordinate (encode_groups (word_of_int n) @ rest) (word_of_int r) s =
      Inr (unzigzag (word_of_int (r + n * 2 ^ s)), rest)"
proof (induction "nat n" arbitrary: n r s rule: less_induct)
  case less
  have s: "s \<le> 30"
  proof (cases "s = 0")
    case False
    with less.prems have "2 ^ s \<le> n * 2 ^ s" by simp
    then have "2 ^ s < (2147483648 :: int)" using less.prems(3,5) by linarith
    then have "2 ^ s < (2 ^ 31 :: int)" by simp
    then show ?thesis using power_strict_increasing_iff [of "2 :: int" s 31] by simp
  qed simp
  have "n * 1 \<le> n * 2 ^ s" using less.prems(1) by (intro mult_left_mono) simp_all
  then have n: "n < 2147483648" using less.prems by simp
  have sn: "sint (word_of_int n :: 32 word) = n" using less.prems n by (simp add: sint_of_int32)
  have m: "0 \<le> n mod 32" "n mod 32 < 32" by auto
  show ?case
  proof (cases "n < 32")
    case True
    have "uint (word_of_int (n + 63) :: 16 word) = n + 63" using True less.prems by (intro uint_unit) auto
    moreover have "n mod 32 = n" using True less.prems by simp
    ultimately show ?thesis using True less.prems s sn
      by (simp add: encode_groups.simps [of "word_of_int n"] Let_def mask5 or_disjoint)
  next
    case False
    have u: "uint (word_of_int (sint (0x20 OR (word_of_int n AND 0x1f) :: 32 word) + 63) :: 16 word) = 95 + n mod 32"
      using less.prems m by (simp only: group_unit) (subst uint_unit, auto)
    have d: "signed_drop_bit 5 (word_of_int n) = (word_of_int (n div 32) :: 32 word)"
      using less.prems n signed_drop_int32 [of n 5] by simp
    have e: "encode_groups (word_of_int n) = word_of_int (sint (0x20 OR (word_of_int n AND 0x1f) :: 32 word) + 63) # encode_groups (word_of_int (n div 32))"
      using False sn by (subst encode_groups.simps) (simp add: d)
    have p: "n * 2 ^ s = n div 32 * 2 ^ (s + 5) + n mod 32 * 2 ^ s"
    proof -
      have "n * 2 ^ s = (n div 32 * 32 + n mod 32) * 2 ^ s" by (simp only: div_mult_mod_eq)
      also have "\<dots> = n div 32 * 2 ^ (s + 5) + n mod 32 * 2 ^ s" by (simp only: distrib_right power_add) simp
      finally show ?thesis .
    qed
    have "n mod 32 * 2 ^ s \<le> 31 * 2 ^ s" using m by (intro mult_right_mono) auto
    moreover have "2 ^ (s + 5) = 32 * (2 ^ s :: int)" by (simp add: power_add)
    ultimately have r': "0 \<le> r + n mod 32 * 2 ^ s" "r + n mod 32 * 2 ^ s < 2 ^ (s + 5)" using less.prems(3,4) m by (simp, linarith)
    have "decode_coordinate (encode_groups (word_of_int (n div 32)) @ rest) (word_of_int (r + n mod 32 * 2 ^ s)) (s + 5) =
        Inr (unzigzag (word_of_int (r + n mod 32 * 2 ^ s + n div 32 * 2 ^ (s + 5))), rest)"
      using False less.prems p r' by (intro less.hyps) auto
    moreover have "r + n mod 32 * 2 ^ s + n div 32 * 2 ^ (s + 5) = r + n * 2 ^ s" using p by simp
    moreover have "word_of_int (95 + n mod 32 - 63) AND 0x1f = (word_of_int (n mod 32) :: 32 word)" by (subst mask5) simp
    moreover have "\<not> (95 + n mod 32 - 63 < 0 \<or> 95 + n mod 32 - 63 > 63 \<or> s > 30)" "\<not> 95 + n mod 32 - 63 < 0x20" using s m by linarith+
    ultimately show ?thesis using or_disjoint [OF less.prems(3,4), of "n mod 32"]
      by (simp only: e append_Cons decode_coordinate.simps Let_def u if_False)
  qed
qed

section \<open>Round trip\<close>

lemma unzigzag_zigzag:
  assumes "\<bar>n\<bar> < 1073741824"
  shows "zigzag (Fin (of_int n)) = word_of_int (if n < 0 then - 2 * n - 1 else 2 * n)"
    "unzigzag (zigzag (Fin (of_int n))) = n"
proof -
  have p: "push_bit 1 (word_of_int n) = (word_of_int (2 * n) :: 32 word)" by (simp add: push_bit_eq_mult mult.commute)
  have nn: "NOT (word_of_int (2 * n)) = (word_of_int (- 2 * n - 1) :: 32 word)"
    by (simp only: word_wi_log_defs not_int_def) simp
  have t: "to_int32 (Fin (of_int n)) = word_of_int n" by simp
  show z: "zigzag (Fin (of_int n)) = word_of_int (if n < 0 then - 2 * n - 1 else 2 * n)"
    by (simp only: zigzag_def t p nn) simp
  have lsb: "word_of_int k AND 1 = (word_of_int (k mod 2) :: 32 word)" for k
  proof -
    have "word_of_int k AND word_of_int 1 = (word_of_int (k AND 1) :: 32 word)" by (simp only: word_wi_log_defs)
    then show ?thesis by (simp add: and_one_eq)
  qed
  show "unzigzag (zigzag (Fin (of_int n))) = n"
  proof (cases "n < 0")
    case True
    have m: "(- 2 * n - 1) mod 2 = 1" "(- 2 * n - 1) div 2 ^ 1 = - n - 1" by simp_all presburger+
    have "signed_drop_bit 1 (word_of_int (- 2 * n - 1)) = (word_of_int ((- 2 * n - 1) div 2 ^ 1) :: 32 word)"
      using True assms by (intro signed_drop_int32) auto
    then have "unzigzag (word_of_int (- 2 * n - 1)) = sint (NOT (word_of_int (- n - 1) :: 32 word))"
      by (simp only: unzigzag_def lsb m word_of_int_1 if_True one_neq_zero not_False_eq_True)
    also have "NOT (word_of_int (- n - 1)) = (word_of_int n :: 32 word)" by (simp only: word_wi_log_defs not_int_def) simp
    finally show ?thesis using z True assms by (simp add: sint_of_int32)
  next
    case False
    have m: "2 * n mod 2 = 0" "2 * n div 2 ^ 1 = n" by simp_all
    have "signed_drop_bit 1 (word_of_int (2 * n)) = (word_of_int (2 * n div 2 ^ 1) :: 32 word)"
      using False assms by (intro signed_drop_int32) auto
    then have "unzigzag (word_of_int (2 * n)) = sint (word_of_int n :: 32 word)"
      by (simp only: unzigzag_def lsb m word_of_int_0 if_False simp_thms)
    also have "\<dots> = n" using assms by (simp add: sint_of_int32)
    finally have "unzigzag (word_of_int (2 * n)) = n" .
    then show ?thesis using z False by simp
  qed
qed

text \<open>The two differences of one point read back exactly.\<close>

lemma decode_zigzag:
  assumes "\<bar>n\<bar> < 1073741824"
  shows "decode_coordinate (encode_groups (zigzag (Fin (of_int n))) @ rest) 0 0 = Inr (n, rest)"
proof -
  define k where "k = (if n < 0 then - 2 * n - 1 else 2 * n)"
  have z: "zigzag (Fin (of_int n)) = word_of_int k" using unzigzag_zigzag(1) [OF assms] by (simp only: k_def)
  have "0 \<le> k" "k < 2147483648" using assms by (auto simp: k_def)
  then have "decode_coordinate (encode_groups (word_of_int k) @ rest) (word_of_int 0) 0 = Inr (unzigzag (word_of_int (0 + k * 2 ^ 0)), rest)"
    by (intro decode_groups) auto
  then show ?thesis using unzigzag_zigzag(2) [OF assms] z by simp
qed

text \<open>A coordinate on the grid of 1e-5 degrees.\<close>

definition grid :: "real \<Rightarrow> int" where
  "grid x = \<lfloor>x * 100000 + 1 / 2\<rfloor>"

definition snap :: "position \<Rightarrow> position" where
  "snap p = \<lparr>pos_lat = js_round (pos_lat p * 100000) / 100000, pos_lng = js_round (pos_lng p * 100000) / 100000\<rparr>"

lemma grid_bound: "\<bar>x\<bar> \<le> of_int b \<Longrightarrow> \<bar>grid x\<bar> \<le> b * 100000"
  unfolding grid_def by (simp add: abs_le_iff) linarith

lemma encode_nonempty: "encode_groups d \<noteq> []"
  by (subst encode_groups.simps) simp

lemma decode_encode_from:
  assumes "\<forall>p\<in>set coords. valid_position p" "\<bar>a\<bar> \<le> 9000000" "\<bar>b\<bar> \<le> 18000000"
  shows "decode_from (encode_from (Fin (of_int a)) (Fin (of_int b)) coords) a b = Inr (map snap coords)"
  using assms
proof (induction coords arbitrary: a b)
  case (Cons p coords)
  from Cons.prems(1) obtain x y where p: "p = \<lparr>pos_lat = Fin x, pos_lng = Fin y\<rparr>" "\<bar>x\<bar> \<le> 90" "\<bar>y\<bar> \<le> 180"
    by (cases p) (auto simp: valid_position_def elim!: is_finiteE)
  define a' b' where "a' = grid x" and "b' = grid y"
  have ab: "\<bar>a'\<bar> \<le> 9000000" "\<bar>b'\<bar> \<le> 18000000" using grid_bound [of x 90] grid_bound [of y 180] p by (auto simp: a'_def b'_def)
  have r: "js_round (pos_lat p * 100000) = Fin (of_int a')" "js_round (pos_lng p * 100000) = Fin (of_int b')"
    using p by (simp_all add: a'_def b'_def grid_def)
  have s: "snap p = decoded_point a' b'" using r by (simp add: snap_def decoded_point_def)
  have w: "in_world (decoded_point a' b')" using ab by (auto simp: in_world_def decoded_point_def abs_le_iff)
  have la: "decode_coordinate (encode_groups (zigzag (Fin (of_int (a' - a)))) @ r) 0 0 = Inr (a' - a, r)" for r
    using ab Cons.prems by (intro decode_zigzag) linarith
  have lb: "decode_coordinate (encode_groups (zigzag (Fin (of_int (b' - b)))) @ r) 0 0 = Inr (b' - b, r)" for r
    using ab Cons.prems by (intro decode_zigzag) linarith
  have e: "encode_from (Fin (of_int a)) (Fin (of_int b)) (p # coords) =
      encode_groups (zigzag (Fin (of_int (a' - a)))) @ encode_groups (zigzag (Fin (of_int (b' - b)))) @
        encode_from (Fin (of_int a')) (Fin (of_int b')) coords"
    by (simp only: encode_from.simps r Let_def fin_minus of_int_diff)
  have IH: "decode_from (encode_from (Fin (of_int a')) (Fin (of_int b')) coords) a' b' = Inr (map snap coords)"
    using Cons.prems ab by (intro Cons.IH) auto
  show ?case unfolding e
    by (subst decode_from.simps) (simp add: encode_nonempty la lb w IH s Let_def del: of_int_diff)
qed (simp add: decode_from.simps)

lemma snap_near: "js_abs (js_round (Fin x * 100000) / 100000 - Fin x) \<le> 1 / 200000"
proof -
  have "\<bar>of_int \<lfloor>x * 100000 + 1 / 2\<rfloor> - x * 100000\<bar> \<le> 1 / 2" by linarith
  then have "\<bar>of_int \<lfloor>x * 100000 + 1 / 2\<rfloor> / 100000 - x\<bar> \<le> 1 / 200000" by linarith
  then show ?thesis by simp
qed

lemma snap_grid:
  assumes "valid_position p"
  shows "js_round (pos_lat (snap p) * 100000) = js_round (pos_lat p * 100000)"
    "js_round (pos_lng (snap p) * 100000) = js_round (pos_lng p * 100000)"
  using assms by (cases p; auto simp: valid_position_def snap_def elim!: is_finiteE)+

text \<open>C16. Polylines survive storage: decoding what \<open>encodePolyline\<close> wrote succeeds for every path on the
  globe and gives each point back rounded to five decimals, so never further than half of 1e-5
  degrees from where it was in either coordinate, and writing the path again changes nothing.\<close>

theorem polyline_roundtrip:
  assumes "\<forall>p\<in>set coords. valid_position p"
  shows "\<exists>back. decode_polyline (encode_polyline coords) = Inr back \<and> length back = length coords \<and>
    (\<forall>i<length coords. js_abs (pos_lat (back ! i) - pos_lat (coords ! i)) \<le> 1 / 200000 \<and>
      js_abs (pos_lng (back ! i) - pos_lng (coords ! i)) \<le> 1 / 200000) \<and>
    encode_polyline back = encode_polyline coords"
proof -
  have d: "decode_polyline (encode_polyline coords) = Inr (map snap coords)"
    using assms decode_encode_from [of coords 0 0] by (simp add: decode_polyline_def encode_polyline_def)
  have "js_abs (pos_lat (snap p) - pos_lat p) \<le> 1 / 200000 \<and> js_abs (pos_lng (snap p) - pos_lng p) \<le> 1 / 200000"
    if "valid_position p" for p
    using that snap_near by (cases p) (auto simp: valid_position_def snap_def simp del: js_round.simps times_jsnum.simps divide_jsnum.simps elim!: is_finiteE)
  moreover have "encode_from a b (map snap coords) = encode_from a b coords" for a b
    using assms by (induction coords arbitrary: a b) (simp_all add: snap_grid [simplified] Let_def)
  ultimately show ?thesis using assms d by (auto simp: encode_polyline_def)
qed

theorem polyline_roundtrip_witness:
  "\<exists>back. decode_polyline (encode_polyline [\<lparr>pos_lat = 38, pos_lng = -120\<rparr>, \<lparr>pos_lat = 41, pos_lng = -121\<rparr>]) = Inr back \<and> length back = 2"
  using polyline_roundtrip [of "[\<lparr>pos_lat = 38, pos_lng = -120\<rparr>, \<lparr>pos_lat = 41, pos_lng = -121\<rparr>]"]
  by (auto simp: valid_position_def)

end
