(* ===== verification/Route_Matching.thy ===== *)
theory Route_Matching imports Polyline begin

text \<open>
  Matching a fix against the geometry of a route (\<open>services/routeMatching.ts\<close>): headings, the
  projection on a segment, the binary search over cumulative distances that narrows the scan, the
  scored scan itself, and the adherence decision. The counters of work and the cache of cumulative
  distances do not change a result and are left out.
\<close>

section \<open>Constants and types\<close>

definition route_match_distance_m :: jsnum where "route_match_distance_m = 45"
definition off_route_distance_m :: jsnum where "off_route_distance_m = 60"
definition off_route_confirmation_samples :: jsnum where "off_route_confirmation_samples = 2"
definition strong_off_route_distance_m :: jsnum where "strong_off_route_distance_m = 120"
definition plausible_progress_max_anchor_age_ms :: jsnum where "plausible_progress_max_anchor_age_ms = 10000"
definition plausible_progress_slack_kmh :: jsnum where "plausible_progress_slack_kmh = 15"

lemmas match_constants = route_match_distance_m_def off_route_distance_m_def off_route_confirmation_samples_def
  strong_off_route_distance_m_def plausible_progress_max_anchor_age_ms_def plausible_progress_slack_kmh_def

definition plausible_progress_bound :: "jsnum \<Rightarrow> jsnum \<Rightarrow> jsnum \<Rightarrow> jsnum option" where
  "plausible_progress_bound elapsed_ms speed_kmh position_uncertainty_m =
    (if \<not> is_finite elapsed_ms \<or> elapsed_ms \<le> 0 \<or> elapsed_ms > plausible_progress_max_anchor_age_ms then None
     else (let speed = (if is_finite speed_kmh then js_max 0 speed_kmh else 0) in
       Some ((speed + plausible_progress_slack_kmh) / (36 / 10) * elapsed_ms / 1000 + js_max 0 position_uncertainty_m)))"

datatype adherence_state = On_Route | Possible_Off_Route | Off_Route | Rerouting | On_New_Route

record previous_match =
  pm_segment_index :: int
  pm_along_route_distance_m :: jsnum

record route_match =
  rm_point :: position
  rm_segment_index :: nat
  rm_segment_fraction :: jsnum
  rm_distance_to_route_m :: jsnum
  rm_along_route_distance_m :: jsnum
  rm_heading_difference :: "jsnum option"
  rm_match_confidence :: jsnum
  rm_is_ambiguous :: bool

record adherence_decision =
  ad_route_state :: adherence_state
  ad_off_route_sample_count :: jsnum
  ad_should_reroute :: bool

section \<open>Headings and projection\<close>

definition clamp01 :: "jsnum \<Rightarrow> jsnum" where
  "clamp01 value = js_max 0 (js_min 1 value)"

text \<open>The remainder \<open>a % b\<close>, with the sign of the dividend.\<close>

fun js_rem :: "jsnum \<Rightarrow> jsnum \<Rightarrow> jsnum" where
  "js_rem (Fin a) (Fin b) = (if b = 0 then NaN else (let q = a / b in Fin (a - b * (if 0 \<le> q then of_int \<lfloor>q\<rfloor> else of_int \<lceil>q\<rceil>))))"
| "js_rem (Fin a) PosInf = Fin a"
| "js_rem (Fin a) NegInf = Fin a"
| "js_rem _ _ = NaN"

definition angular_difference :: "jsnum \<Rightarrow> jsnum \<Rightarrow> jsnum" where
  "angular_difference left right = js_abs (js_rem (left - right + 540) 360 - 180)"

definition segment_heading :: "position \<Rightarrow> position \<Rightarrow> jsnum" where
  "segment_heading start end_point = (let lat1 = to_radians (pos_lat start); lat2 = to_radians (pos_lat end_point);
      delta_lng = to_radians (pos_lng end_point - pos_lng start);
      y = js_sin delta_lng * js_cos lat2;
      x = js_cos lat1 * js_sin lat2 - js_sin lat1 * js_cos lat2 * js_cos delta_lng in
    js_rem (js_atan2 y x * (180 / js_pi) + 360) 360)"

definition trajectory_heading :: "position list \<Rightarrow> jsnum \<Rightarrow> jsnum option" where
  "trajectory_heading points minimum_displacement_m =
    (if length points < 2 then None
     else (let first = hd points; final = last points in
       if haversine_meters first final \<ge> minimum_displacement_m then Some (segment_heading first final) else None))"

record projection =
  pr_point :: position
  pr_distance_m :: jsnum
  pr_fraction :: jsnum

definition earth_radius_m :: jsnum where
  "earth_radius_m = 6371000"

definition project_to_segment :: "position \<Rightarrow> position \<Rightarrow> position \<Rightarrow> projection" where
  "project_to_segment point start end_point =
    (let to_rad = js_pi / 180; to_deg = 180 / js_pi;
      scale = js_max (1 / 100) (js_cos (pos_lat point * to_rad));
      local_x = (\<lambda>p. (pos_lng p - pos_lng point) * to_rad * earth_radius_m * scale);
      local_y = (\<lambda>p. (pos_lat p - pos_lat point) * to_rad * earth_radius_m);
      sx = local_x start; sy = local_y start;
      dx = local_x end_point - sx; dy = local_y end_point - sy;
      length_squared = dx * dx + dy * dy;
      fraction = (if num_eq length_squared 0 then 0 else js_max 0 (js_min 1 (- (sx * dx + sy * dy) / length_squared)));
      x = sx + fraction * dx; y = sy + fraction * dy in
    \<lparr>pr_point = \<lparr>pos_lat = pos_lat point + y / earth_radius_m * to_deg,
       pos_lng = pos_lng point + x / (earth_radius_m * scale) * to_deg\<rparr>,
     pr_distance_m = js_hypot x y, pr_fraction = fraction\<rparr>)"

section \<open>Cumulative distances\<close>

fun cumulative_from :: "jsnum \<Rightarrow> position list \<Rightarrow> jsnum list" where
  "cumulative_from acc (p # q # path) = acc # cumulative_from (acc + haversine_meters p q) (q # path)"
| "cumulative_from acc [p] = [acc]"
| "cumulative_from acc [] = []"

definition cumulative_distances :: "position list \<Rightarrow> jsnum list" where
  "cumulative_distances path = cumulative_from 0 path"

text \<open>The binary search: the first index whose value is at least the bound, or above it.\<close>

function distance_bound_loop :: "jsnum list \<Rightarrow> jsnum \<Rightarrow> bool \<Rightarrow> nat \<Rightarrow> nat \<Rightarrow> nat" where
  "distance_bound_loop values bound upper low high =
    (if low < high
     then (let middle = low + (high - low) div 2 in
       if values ! middle < bound \<or> (upper \<and> num_eq (values ! middle) bound)
       then distance_bound_loop values bound upper (middle + 1) high
       else distance_bound_loop values bound upper low middle)
     else low)"
  by auto

termination
  by (relation "measure (\<lambda>(_, _, _, low, high). high - low)") auto

declare distance_bound_loop.simps [simp del]

definition distance_bound :: "jsnum list \<Rightarrow> jsnum \<Rightarrow> bool \<Rightarrow> nat" where
  "distance_bound values bound upper = distance_bound_loop values bound upper 0 (length values)"

definition segments_are_continuous :: "jsnum list \<Rightarrow> nat \<Rightarrow> nat \<Rightarrow> bool" where
  "segments_are_continuous cumulative left right = (let lower = min left right; upper = max left right in
     upper - lower \<le> 1 \<or> num_eq (cumulative ! upper) (cumulative ! (lower + 1)))"

definition point_along_path :: "position list \<Rightarrow> jsnum list \<Rightarrow> jsnum \<Rightarrow> position" where
  "point_along_path path cumulative distance_m =
    (let i = min (length path - 2) (distance_bound cumulative distance_m True - 1);
      len = cumulative ! (i + 1) - cumulative ! i;
      fraction = (if len > 0 then clamp01 ((distance_m - cumulative ! i) / len) else 0);
      p = path ! i; q = path ! (i + 1) in
    \<lparr>pos_lat = pos_lat p + (pos_lat q - pos_lat p) * fraction, pos_lng = pos_lng p + (pos_lng q - pos_lng p) * fraction\<rparr>)"

section \<open>Matching\<close>

record match_query =
  mq_raw_point :: position
  mq_path :: "position list"
  mq_heading :: "jsnum option"
  mq_previous :: "previous_match option"
  mq_uncertainty_m :: jsnum
  mq_max_change_m :: "jsnum option"
  mq_plausible_m :: "jsnum option"

definition number_epsilon :: jsnum where
  "number_epsilon = Fin (1 / 2 ^ 52)"

definition search_range :: "match_query \<Rightarrow> jsnum list \<Rightarrow> nat \<times> nat" where
  "search_range q cumulative = (case (mq_previous q, mq_max_change_m q) of
      (Some previous, Some change) \<Rightarrow> (let along = pm_along_route_distance_m previous in
        if is_finite along \<and> is_finite change \<and> change \<ge> 0 \<and> is_finite (last cumulative)
        then (let pad = number_epsilon * js_max (js_max 1 (js_abs along)) change * 4;
            minimum = along - change - pad; maximum = along + change + pad in
          (distance_bound cumulative minimum False - 1,
           min (length (mq_path q) - 1) (distance_bound cumulative maximum True)))
        else (0, length (mq_path q) - 1))
    | _ \<Rightarrow> (0, length (mq_path q) - 1))"

definition ambiguity_window :: "match_query \<Rightarrow> jsnum" where
  "ambiguity_window q = js_max 6 (js_min 12 (js_max 0 (mq_uncertainty_m q) * (1 / 4)))"

definition prior_point :: "match_query \<Rightarrow> jsnum list \<Rightarrow> position option" where
  "prior_point q cumulative = (case (mq_previous q, mq_plausible_m q) of
      (Some previous, Some plausible) \<Rightarrow>
        (if is_finite plausible then Some (point_along_path (mq_path q) cumulative (pm_along_route_distance_m previous)) else None)
    | _ \<Rightarrow> None)"

record candidate =
  ca_segment_index :: nat
  ca_score :: jsnum
  ca_point :: position
  ca_along :: jsnum
  ca_fraction :: jsnum
  ca_distance :: jsnum
  ca_heading_difference :: "jsnum option"

text \<open>One segment of the scan; \<open>None\<close> is the \<open>continue\<close> of the progress gate.\<close>

definition score_segment :: "match_query \<Rightarrow> jsnum list \<Rightarrow> nat \<Rightarrow> candidate option" where
  "score_segment q cumulative i =
    (let path = mq_path q; proj = project_to_segment (mq_raw_point q) (path ! i) (path ! (i + 1));
      along = cumulative ! i + pr_fraction proj * (cumulative ! (i + 1) - cumulative ! i) in
     if (case (mq_previous q, mq_max_change_m q) of
         (Some previous, Some change) \<Rightarrow> js_abs (along - pm_along_route_distance_m previous) > change | _ \<Rightarrow> False) then None
     else (let heading_difference = map_option (\<lambda>h. angular_difference h (segment_heading (path ! i) (path ! (i + 1)))) (mq_heading q);
        backwards = (case mq_previous q of Some p \<Rightarrow> js_max 0 (pm_along_route_distance_m p - along - 15) | None \<Rightarrow> 0);
        jump = (case mq_previous q of Some p \<Rightarrow> js_max 0 (Fin (of_int \<bar>int i - pm_segment_index p\<bar>) - 25) | None \<Rightarrow> 0);
        progress = (case mq_previous q of Some p \<Rightarrow> along - pm_along_route_distance_m p | None \<Rightarrow> 0);
        unexplained = (case prior_point q cumulative of
            Some prior \<Rightarrow> js_max 0 (js_min (progress - js_max 0 (opt_default (mq_plausible_m q) NaN))
              (progress - haversine_meters prior (pr_point proj) - ambiguity_window q))
          | None \<Rightarrow> 0);
        score = pr_distance_m proj + opt_default heading_difference 0 * (28 / 100) + backwards * 2 + unexplained + jump * 3 in
      Some \<lparr>ca_segment_index = i, ca_score = score, ca_point = pr_point proj, ca_along = along,
        ca_fraction = pr_fraction proj, ca_distance = pr_distance_m proj, ca_heading_difference = heading_difference\<rparr>))"

definition scan_step :: "match_query \<Rightarrow> jsnum list \<Rightarrow> candidate option \<times> candidate list \<Rightarrow> nat \<Rightarrow> candidate option \<times> candidate list" where
  "scan_step q cumulative = (\<lambda>(best, candidates) i. (case score_segment q cumulative i of
      None \<Rightarrow> (best, candidates)
    | Some c \<Rightarrow> ((case best of None \<Rightarrow> Some c | Some b \<Rightarrow> (if ca_score c < ca_score b then Some c else Some b)), candidates @ [c])))"

definition competing_score :: "match_query \<Rightarrow> jsnum list \<Rightarrow> candidate list \<Rightarrow> candidate \<Rightarrow> jsnum" where
  "competing_score q cumulative candidates best = foldl (\<lambda>s c.
      if \<not> segments_are_continuous cumulative (ca_segment_index c) (ca_segment_index best) \<and>
        js_abs (ca_along c - ca_along best) > haversine_meters (ca_point c) (ca_point best) + ambiguity_window q
      then js_min s (ca_score c) else s) PosInf candidates"

text \<open>\<open>Number(x.toFixed(3))\<close>.\<close>

definition to_fixed3 :: "jsnum \<Rightarrow> jsnum" where
  "to_fixed3 x = js_round (x * 1000) / 1000"

definition finish_match :: "match_query \<Rightarrow> jsnum list \<Rightarrow> candidate list \<Rightarrow> candidate \<Rightarrow> route_match" where
  "finish_match q cumulative candidates best =
    (let competing = competing_score q cumulative candidates best;
      ambiguous = (is_finite competing \<and> competing - ca_score best \<le> ambiguity_window q);
      distance_confidence = clamp01 (1 - ca_distance best / off_route_distance_m);
      heading_confidence = (case ca_heading_difference best of None \<Rightarrow> 65 / 100 | Some d \<Rightarrow> clamp01 (1 - d / 120));
      continuity_confidence = (case mq_previous q of
          Some p \<Rightarrow> clamp01 (1 - Fin (of_int \<bar>int (ca_segment_index best) - pm_segment_index p\<bar>) / 30) *
            (if js_max 0 (pm_along_route_distance_m p - ca_along best - 15) > 0 then 1 / 4 else 1)
        | None \<Rightarrow> 65 / 100) in
    \<lparr>rm_point = ca_point best, rm_segment_index = ca_segment_index best, rm_segment_fraction = ca_fraction best,
     rm_distance_to_route_m = ca_distance best, rm_along_route_distance_m = ca_along best,
     rm_heading_difference = ca_heading_difference best,
     rm_match_confidence = to_fixed3 ((distance_confidence * (55 / 100) + heading_confidence * (25 / 100) + continuity_confidence * (20 / 100)) *
       (if ambiguous then 55 / 100 else 1)),
     rm_is_ambiguous = ambiguous\<rparr>)"

text \<open>The scan of a range of segments, and the match of the code, which narrows the range first.\<close>

definition match_over :: "match_query \<Rightarrow> nat \<times> nat \<Rightarrow> route_match option" where
  "match_over q segs = (let cumulative = cumulative_distances (mq_path q) in
    (case foldl (scan_step q cumulative) (None, []) [fst segs..<snd segs] of
      (None, _) \<Rightarrow> None
    | (Some best, candidates) \<Rightarrow> Some (finish_match q cumulative candidates best)))"

definition match_route_position :: "match_query \<Rightarrow> route_match option" where
  "match_route_position q = (if length (mq_path q) < 2 then None
    else match_over q (search_range q (cumulative_distances (mq_path q))))"

section \<open>Adherence\<close>

definition evaluate_route_adherence :: "adherence_state option \<Rightarrow> jsnum \<Rightarrow> route_match option \<Rightarrow> bool \<Rightarrow> adherence_decision" where
  "evaluate_route_adherence previous_state previous_samples m reliably_moving =
    (if (case m of Some r \<Rightarrow> \<not> rm_is_ambiguous r \<and> rm_distance_to_route_m r \<le> route_match_distance_m \<and>
          rm_match_confidence r \<ge> 45 / 100 | None \<Rightarrow> False)
     then \<lparr>ad_route_state = (if previous_state = Some On_New_Route then On_New_Route else On_Route),
       ad_off_route_sample_count = 0, ad_should_reroute = False\<rparr>
     else if (case m of Some r \<Rightarrow> rm_is_ambiguous r | None \<Rightarrow> False) \<or> \<not> reliably_moving
     then \<lparr>ad_route_state = (if previous_state = Some Rerouting then Rerouting else Possible_Off_Route),
       ad_off_route_sample_count = previous_samples, ad_should_reroute = False\<rparr>
     else (let strong = (case m of Some r \<Rightarrow> rm_distance_to_route_m r \<ge> strong_off_route_distance_m | None \<Rightarrow> False);
        count = js_min off_route_confirmation_samples (if strong then off_route_confirmation_samples else previous_samples + 1);
        confirmed = count \<ge> off_route_confirmation_samples in
      \<lparr>ad_route_state = (if confirmed \<and> previous_state = Some Rerouting then Rerouting
          else if confirmed then Off_Route else Possible_Off_Route),
       ad_off_route_sample_count = count, ad_should_reroute = confirmed \<and> previous_state \<noteq> Some Rerouting\<rparr>))"

section \<open>The binary search\<close>

definition below_bound :: "real \<Rightarrow> bool \<Rightarrow> real \<Rightarrow> bool" where
  "below_bound b upper x \<longleftrightarrow> x < b \<or> upper \<and> x = b"

lemma distance_bound_loop:
  assumes "sorted vs" "high \<le> length vs" "low \<le> high" "\<forall>j<low. below_bound b upper (vs ! j)" "\<forall>j<length vs. high \<le> j \<longrightarrow> \<not> below_bound b upper (vs ! j)"
  shows "distance_bound_loop (map Fin vs) (Fin b) upper low high \<le> length vs \<and>
    (\<forall>j<distance_bound_loop (map Fin vs) (Fin b) upper low high. below_bound b upper (vs ! j)) \<and>
    (\<forall>j<length vs. distance_bound_loop (map Fin vs) (Fin b) upper low high \<le> j \<longrightarrow> \<not> below_bound b upper (vs ! j))"
  using assms
proof (induction "high - low" arbitrary: low high rule: less_induct)
  case less
  show ?case
  proof (cases "low < high")
    case True
    define m where "m = low + (high - low) div 2"
    have m: "low \<le> m" "m < high" "m < length vs" using True less.prems(2) by (auto simp: m_def)
    have at: "map Fin vs ! m = Fin (vs ! m)" using m by simp
    show ?thesis
    proof (cases "below_bound b upper (vs ! m)")
      case b: True
      have u: "distance_bound_loop (map Fin vs) (Fin b) upper low high = distance_bound_loop (map Fin vs) (Fin b) upper (m + 1) high"
        using True b at by (subst distance_bound_loop.simps) (simp add: m_def [symmetric] below_bound_def)
      have "below_bound b upper (vs ! j)" if "j < m + 1" for j
        using b sorted_nth_mono [OF less.prems(1), of j m] m that by (force simp: below_bound_def)
      then show ?thesis unfolding u using less.prems m by (intro less.hyps) auto
    next
      case b: False
      have u: "distance_bound_loop (map Fin vs) (Fin b) upper low high = distance_bound_loop (map Fin vs) (Fin b) upper low m"
        using True b at by (subst distance_bound_loop.simps) (auto simp: m_def [symmetric] below_bound_def)
      have "\<not> below_bound b upper (vs ! j)" if "j < length vs" "m \<le> j" for j
        using b sorted_nth_mono [OF less.prems(1), of m j] that by (force simp: below_bound_def)
      then show ?thesis unfolding u using less.prems m by (intro less.hyps) auto
    qed
  next
    case False
    then have "distance_bound_loop (map Fin vs) (Fin b) upper low high = low" by (subst distance_bound_loop.simps) simp
    then show ?thesis using less.prems False by auto
  qed
qed

lemma distance_bound:
  assumes "sorted vs"
  shows "\<forall>j<distance_bound (map Fin vs) (Fin b) False. vs ! j < b" "\<forall>j<length vs. distance_bound (map Fin vs) (Fin b) True \<le> j \<longrightarrow> b < vs ! j"
    "distance_bound (map Fin vs) (Fin b) upper \<le> length vs"
proof -
  show "\<forall>j<distance_bound (map Fin vs) (Fin b) False. vs ! j < b"
    using distance_bound_loop [OF assms, of "length vs" 0 b False] by (simp add: distance_bound_def below_bound_def)
  show "\<forall>j<length vs. distance_bound (map Fin vs) (Fin b) True \<le> j \<longrightarrow> b < vs ! j"
    using distance_bound_loop [OF assms, of "length vs" 0 b True] by (force simp: distance_bound_def below_bound_def)
  show "distance_bound (map Fin vs) (Fin b) upper \<le> length vs"
    using distance_bound_loop [OF assms, of "length vs" 0 b upper] by (simp add: distance_bound_def)
qed

section \<open>Finite paths\<close>

lemma length_cumulative [simp]: "length (cumulative_from s path) = length path"
  by (induction s path rule: cumulative_from.induct) simp_all

lemma cumulative_infinite: "path \<noteq> [] \<Longrightarrow> last (cumulative_from PosInf path) = PosInf"
proof (induction path)
  case (Cons p path)
  then show ?case
  proof (cases path)
    case (Cons q ps)
    have "PosInf + haversine_meters p q = PosInf" using hav.dist_cases [of p q] by auto
    with Cons Cons.IH show ?thesis by (simp add: last_conv_nth)
  qed simp
qed simp

lemma cumulative_finite:
  assumes "path \<noteq> []" "is_finite (last (cumulative_from (Fin s) path))"
  shows "\<exists>cs. cumulative_from (Fin s) path = map Fin cs \<and> sorted cs \<and> (\<forall>c\<in>set cs. s \<le> c) \<and>
    (2 \<le> length path \<longrightarrow> (\<forall>p\<in>set path. valid_position p))"
  using assms
proof (induction path arbitrary: s)
  case (Cons p path)
  show ?case
  proof (cases path)
    case Nil
    then show ?thesis by (intro exI [of _ "[s]"]) simp
  next
    case c: (Cons q ps)
    have last: "last (cumulative_from (Fin s) (p # path)) = last (cumulative_from (Fin s + haversine_meters p q) path)"
      using c by (cases ps) simp_all
    have v: "valid_position p \<and> valid_position q"
    proof (rule ccontr)
      assume "\<not> (valid_position p \<and> valid_position q)"
      then have "haversine_meters p q = PosInf" by (rule haversine_invalid)
      then show False using last Cons.prems c cumulative_infinite [of path] by simp
    qed
    then obtain d where d: "haversine_meters p q = Fin d" "0 \<le> d" using hav.dist_finite by blast
    obtain cs where cs: "cumulative_from (Fin (s + d)) path = map Fin cs" "sorted cs" "\<forall>c\<in>set cs. s + d \<le> c"
      "2 \<le> length path \<longrightarrow> (\<forall>p\<in>set path. valid_position p)"
      using Cons.IH [of "s + d"] Cons.prems last c d by auto
    have "cumulative_from (Fin s) (p # path) = map Fin (s # cs)" using cs(1) c d by simp
    moreover have "\<forall>p\<in>set path. valid_position p" using cs(4) c v by (cases ps) auto
    ultimately show ?thesis using cs d v by (intro exI [of _ "s # cs"]) force
  qed
qed simp

section \<open>Projections of finite points\<close>

lemma project_fraction:
  assumes "is_finite (pos_lat r)" "is_finite (pos_lng r)" "valid_position p" "valid_position q"
  shows "\<exists>f. pr_fraction (project_to_segment r p q) = Fin f \<and> 0 \<le> f \<and> f \<le> 1"
proof -
  obtain a b c d e g where v: "r = \<lparr>pos_lat = Fin a, pos_lng = Fin b\<rparr>" "p = \<lparr>pos_lat = Fin c, pos_lng = Fin d\<rparr>" "q = \<lparr>pos_lat = Fin e, pos_lng = Fin g\<rparr>"
    using assms by (cases r; cases p; cases q) (auto simp: valid_position_def elim!: is_finiteE)
  have "\<exists>f. (if num_eq (Fin l) 0 then 0 else js_max 0 (js_min 1 (- Fin n / Fin l))) = Fin f \<and> 0 \<le> f \<and> f \<le> 1" for l n
    by auto
  then show ?thesis by (simp add: project_to_segment_def v Let_def js_pi_def earth_radius_m_def)
qed

section \<open>The narrowed scan\<close>

lemma filter_upt: "filter (\<lambda>i. a \<le> i \<and> i < b) [0..<n] = [a..<min b n]"
proof (induction n)
  case (Suc n)
  then show ?case by (cases "n < b") (auto simp: min_def le_Suc_eq)
qed simp

lemma foldl_filter:
  assumes "\<And>s i. i \<in> set is \<Longrightarrow> \<not> P i \<Longrightarrow> f s i = s"
  shows "foldl f s is = foldl f s (filter P is)"
  using assms by (induction "is" arbitrary: s) auto

text \<open>Outside the narrowed range the progress gate rejects the segment.\<close>

lemma along_between:
  assumes "is_finite (pos_lat r)" "is_finite (pos_lng r)" "valid_position p" "valid_position q" "x \<le> y"
  shows "\<exists>a. Fin x + pr_fraction (project_to_segment r p q) * (Fin y - Fin x) = Fin a \<and> x \<le> a \<and> a \<le> y"
proof -
  obtain f where f: "pr_fraction (project_to_segment r p q) = Fin f" "0 \<le> f" "f \<le> 1" using project_fraction [OF assms(1-4)] by blast
  have "f * (y - x) \<le> 1 * (y - x)" using f assms(5) by (intro mult_right_mono) auto
  moreover have "0 \<le> f * (y - x)" using f assms(5) by simp
  ultimately show ?thesis using f(1) by simp
qed

lemma score_outside:
  assumes raw: "is_finite (pos_lat (mq_raw_point q))" "is_finite (pos_lng (mq_raw_point q))"
    and prev: "mq_previous q = Some previous" "mq_max_change_m q = Some change"
    and fin: "is_finite (pm_along_route_distance_m previous)" "is_finite change" "change \<ge> 0" "is_finite (last cumulative)"
    and cum: "cumulative = cumulative_distances (mq_path q)"
    and i: "i < length (mq_path q) - 1" "\<not> (fst (search_range q cumulative) \<le> i \<and> i < snd (search_range q cumulative))"
  shows "score_segment q cumulative i = None"
proof -
  have ne: "mq_path q \<noteq> []" "2 \<le> length (mq_path q)" using i(1) by auto
  obtain cs where cs: "cumulative = map Fin cs" "sorted cs" "\<forall>p\<in>set (mq_path q). valid_position p"
    using cumulative_finite [OF ne(1), of 0] fin(4) ne(2) cum by (auto simp: cumulative_distances_def)
  have len: "length cs = length (mq_path q)" using cs(1) cum by (metis cumulative_distances_def length_cumulative length_map)
  obtain a c where ac: "pm_along_route_distance_m previous = Fin a" "change = Fin c" "0 \<le> c" using fin by (auto elim!: is_finiteE)
  define pad where "pad = 1 / 2 ^ 52 * max (max 1 \<bar>a\<bar>) c * 4"
  have pad: "0 \<le> pad" unfolding pad_def by simp
  have pad_eq: "number_epsilon * Fin (max (max 1 \<bar>a\<bar>) c) * Fin 4 = Fin pad" by (simp add: pad_def number_epsilon_def)
  have range: "search_range q cumulative = (distance_bound cumulative (Fin (a - c - pad)) False - 1,
      min (length (mq_path q) - 1) (distance_bound cumulative (Fin (a + c + pad)) True))"
    using prev ac fin(4) unfolding search_range_def by (simp add: Let_def pad_eq del: times_jsnum.simps)
  define x y where "x = cs ! i" and "y = cs ! (i + 1)"
  have xy: "cumulative ! i = Fin x" "cumulative ! (i + 1) = Fin y" "x \<le> y"
    using cs len i(1) by (auto simp: x_def y_def intro!: sorted_nth_mono)
  obtain l where l: "Fin x + pr_fraction (project_to_segment (mq_raw_point q) (mq_path q ! i) (mq_path q ! (i + 1))) * (Fin y - Fin x) = Fin l"
    "x \<le> l" "l \<le> y"
    using along_between [OF raw _ _ xy(3)] cs(3) i(1) by (metis (no_types, lifting) add_diff_cancel_right' less_diff_conv nth_mem trans_less_add1)
  from i(2) range consider "i + 1 < distance_bound cumulative (Fin (a - c - pad)) False" | "distance_bound cumulative (Fin (a + c + pad)) True \<le> i"
    using i(1) by fastforce
  then have "c < \<bar>l - a\<bar>"
  proof cases
    case 1
    then have "y < a - c - pad" using distance_bound(1) [OF cs(2)] cs(1) y_def by blast
    then show ?thesis using l(3) pad by linarith
  next
    case 2
    then have "a + c + pad < x" using distance_bound(2) [OF cs(2)] cs(1) len i(1) x_def by auto
    then show ?thesis using l(2) pad by linarith
  qed
  then show ?thesis using prev ac l(1) unfolding score_segment_def xy
    by (simp add: Let_def del: plus_jsnum.simps)
qed

text \<open>C19. Narrowing the search changes nothing: for every fix with finite coordinates, every path and
  every previous match, the match found by the binary search over cumulative distances is the match
  of the scan of the whole path, with the same candidates, score, ambiguity and confidence.\<close>

theorem bounded_match_is_full_scan:
  assumes "is_finite (pos_lat (mq_raw_point q))" "is_finite (pos_lng (mq_raw_point q))" "2 \<le> length (mq_path q)"
  shows "match_route_position q = match_over q (0, length (mq_path q) - 1)"
proof -
  define cum where "cum = cumulative_distances (mq_path q)"
  define n where "n = length (mq_path q) - 1"
  have full: "snd (search_range q cum) \<le> n" unfolding search_range_def n_def by (auto simp: Let_def split: option.splits)
  have skip: "scan_step q cum s i = s"
    if i: "i \<in> set [0..<n]" "\<not> (fst (search_range q cum) \<le> i \<and> i < snd (search_range q cum))" for s i
  proof -
    obtain previous change where g: "mq_previous q = Some previous" "mq_max_change_m q = Some change"
      "is_finite (pm_along_route_distance_m previous)" "is_finite change" "change \<ge> 0" "is_finite (last cum)"
      using i by (auto simp: search_range_def n_def Let_def split: option.splits if_splits)
    then have "score_segment q cum i = None"
      using i assms(1,2) cum_def n_def by (intro score_outside) auto
    then show ?thesis by (simp add: scan_step_def split: prod.split)
  qed
  have "foldl (scan_step q cum) (None, []) [0..<n] =
      foldl (scan_step q cum) (None, []) (filter (\<lambda>i. fst (search_range q cum) \<le> i \<and> i < snd (search_range q cum)) [0..<n])"
    using skip by (intro foldl_filter) blast
  then have "foldl (scan_step q cum) (None, []) [0..<n] = foldl (scan_step q cum) (None, []) [fst (search_range q cum)..<snd (search_range q cum)]"
    using full by (simp only: filter_upt min_absorb1)
  then show ?thesis using assms(3) by (simp add: match_route_position_def match_over_def cum_def n_def Let_def)
qed

theorem bounded_match_is_full_scan_witness:
  "match_route_position \<lparr>mq_raw_point = \<lparr>pos_lat = 0, pos_lng = 0\<rparr>,
      mq_path = [\<lparr>pos_lat = 0, pos_lng = 0\<rparr>, \<lparr>pos_lat = 0, pos_lng = 1\<rparr>, \<lparr>pos_lat = 0, pos_lng = 2\<rparr>], mq_heading = None,
      mq_previous = Some \<lparr>pm_segment_index = 0, pm_along_route_distance_m = 10\<rparr>, mq_uncertainty_m = 25,
      mq_max_change_m = Some 50, mq_plausible_m = None\<rparr> =
    match_over \<lparr>mq_raw_point = \<lparr>pos_lat = 0, pos_lng = 0\<rparr>,
      mq_path = [\<lparr>pos_lat = 0, pos_lng = 0\<rparr>, \<lparr>pos_lat = 0, pos_lng = 1\<rparr>, \<lparr>pos_lat = 0, pos_lng = 2\<rparr>], mq_heading = None,
      mq_previous = Some \<lparr>pm_segment_index = 0, pm_along_route_distance_m = 10\<rparr>, mq_uncertainty_m = 25,
      mq_max_change_m = Some 50, mq_plausible_m = None\<rparr> (0, 2)"
  by (subst bounded_match_is_full_scan) (simp_all add: numeral_2_eq_2)

section \<open>Adherence needs evidence\<close>

text \<open>A reroute is asked for only while the bus is reliably moving and not already rerouting, on a fix
  at least 120 m from the route or on the second unmatched fix in a row; the count never passes two.\<close>

lemma reroute_needs_evidence:
  assumes "ad_should_reroute (evaluate_route_adherence state (Fin n) m moving)"
  shows "moving \<and> state \<noteq> Some Rerouting \<and> (\<forall>r. m = Some r \<longrightarrow> \<not> rm_is_ambiguous r) \<and>
    ((\<exists>r. m = Some r \<and> rm_distance_to_route_m r \<ge> 120) \<or> 1 \<le> n)"
  using assms by (auto simp: evaluate_route_adherence_def match_constants Let_def split: if_splits option.splits)

lemma adherence_count_bounded:
  "n \<le> 2 \<Longrightarrow> ad_off_route_sample_count (evaluate_route_adherence state (Fin n) m moving) \<le> 2"
  by (auto simp: evaluate_route_adherence_def match_constants Let_def split: option.splits)

lemma matched_fix_clears:
  assumes "m = Some r" "\<not> rm_is_ambiguous r" "rm_distance_to_route_m r \<le> 45" "rm_match_confidence r \<ge> 45 / 100"
  shows "ad_off_route_sample_count (evaluate_route_adherence state n m moving) = 0" "\<not> ad_should_reroute (evaluate_route_adherence state n m moving)"
  using assms by (simp_all add: evaluate_route_adherence_def match_constants)

end
