(* ===== verification/Ride_Direction.thy ===== *)
theory Ride_Direction imports Boarding Route_Matching begin

text \<open>
  The direction of a ride (\<open>lib/rideDirection.ts\<close>, \<open>lib/automaticRideDirection.ts\<close>,
  \<open>services/departureDirection.ts\<close>): reading it from a record, inferring it from a stopped fix at one
  endpoint, readiness for the return trip, and recovering it from a sustained departure.
\<close>

section \<open>The direction of a record\<close>

fun normalize_ride_direction :: "jsval \<Rightarrow> direction option" where
  "normalize_ride_direction (JStr s) = (if s = ''forward'' then Some Forward else if s = ''reverse'' then Some Reverse else None)"
| "normalize_ride_direction _ = None"

definition is_ride_direction :: "jsval \<Rightarrow> bool" where
  "is_ride_direction v \<longleftrightarrow> v = JStr ''forward'' \<or> v = JStr ''reverse''"

definition stops_in_ride_direction :: "'s list \<Rightarrow> direction \<Rightarrow> 's list" where
  "stops_in_ride_direction stops direction = (if direction = Reverse then rev stops else stops)"

record direction_counts =
  dc_forward :: nat
  dc_reverse :: nat
  dc_unresolved :: nat
  dc_total :: nat

definition count_ride :: "direction_counts \<Rightarrow> jsval \<Rightarrow> direction_counts" where
  "count_ride c ride = (let c' = c\<lparr>dc_total := dc_total c + 1\<rparr> in
    (case normalize_ride_direction (js_prop ride ''direction'') of
      Some Forward \<Rightarrow> c'\<lparr>dc_forward := dc_forward c' + 1\<rparr>
    | Some Reverse \<Rightarrow> c'\<lparr>dc_reverse := dc_reverse c' + 1\<rparr>
    | None \<Rightarrow> c'\<lparr>dc_unresolved := dc_unresolved c' + 1\<rparr>))"

definition count_rides_by_direction :: "jsval list \<Rightarrow> direction_counts" where
  "count_rides_by_direction rides = foldl count_ride \<lparr>dc_forward = 0, dc_reverse = 0, dc_unresolved = 0, dc_total = 0\<rparr> rides"

section \<open>Inference at an endpoint\<close>

definition endpoint_geofence_m :: jsnum where "endpoint_geofence_m = 10"
definition turnaround_arrival_radius_m :: jsnum where "turnaround_arrival_radius_m = 75"
definition turnaround_telemetry_max_age_ms :: jsnum where "turnaround_telemetry_max_age_ms = 60000"
definition direction_inference_max_hdop :: jsnum where "direction_inference_max_hdop = 4"
definition direction_inference_max_future_ms :: jsnum where "direction_inference_max_future_ms = 10000"

lemmas direction_constants = endpoint_geofence_m_def turnaround_arrival_radius_m_def turnaround_telemetry_max_age_ms_def
  direction_inference_max_hdop_def direction_inference_max_future_ms_def

record direction_telemetry =
  dt_now :: jsnum
  dt_timestamp :: jsnum
  dt_motion_state :: jsval
  dt_gps_hdop :: jsval
  dt_position :: position

definition valid_coordinate :: "position \<Rightarrow> bool" where
  "valid_coordinate p \<longleftrightarrow> is_finite (pos_lat p) \<and> is_finite (pos_lng p)"

definition infer_ride_direction_at_endpoint :: "position list \<Rightarrow> position \<Rightarrow> jsnum \<Rightarrow> direction option" where
  "infer_ride_direction_at_endpoint stops p radius =
    (if length stops < 2 \<or> \<not> valid_coordinate p \<or> \<not> valid_coordinate (hd stops) \<or> \<not> valid_coordinate (last stops) \<or>
        \<not> is_finite radius \<or> radius \<le> 0 then None
     else (let near_forward_origin = haversine_meters p (hd stops) \<le> radius;
        near_reverse_origin = haversine_meters p (last stops) \<le> radius in
      if near_forward_origin = near_reverse_origin then None
      else Some (if near_reverse_origin then Reverse else Forward)))"

text \<open>\<open>typeof gpsHdop === "number"\<close>, finite and at most the limit.\<close>

definition precise_hdop :: "jsval \<Rightarrow> bool" where
  "precise_hdop v = (case v of JNum h \<Rightarrow> is_finite h \<and> h \<ge> 0 \<and> h \<le> direction_inference_max_hdop | _ \<Rightarrow> False)"

definition infer_ride_direction_from_telemetry :: "position list \<Rightarrow> direction_telemetry \<Rightarrow> jsnum \<Rightarrow> direction option" where
  "infer_ride_direction_from_telemetry stops t radius =
    (if \<not> is_finite (dt_now t) \<or> \<not> is_finite (dt_timestamp t) \<or>
        dt_timestamp t > dt_now t + direction_inference_max_future_ms \<or>
        dt_now t - dt_timestamp t > turnaround_telemetry_max_age_ms \<or>
        dt_motion_state t \<noteq> JStr ''stopped'' \<or> \<not> precise_hdop (dt_gps_hdop t) then None
     else infer_ride_direction_at_endpoint stops (dt_position t) radius)"

fun opposite_ride_direction :: "direction \<Rightarrow> direction" where
  "opposite_ride_direction Forward = Reverse"
| "opposite_ride_direction Reverse = Forward"

record turnaround_input =
  tu_now :: jsnum
  tu_telemetry_timestamp :: jsnum
  tu_eligible_at :: jsnum
  tu_minimum_sample_timestamp :: "jsnum option"
  tu_motion_state :: jsval
  tu_gps_hdop :: jsval
  tu_position :: position
  tu_destination :: position

definition minimum_sample :: "turnaround_input \<Rightarrow> jsnum" where
  "minimum_sample u = (case tu_minimum_sample_timestamp u of Some m \<Rightarrow> (if is_finite m then m else tu_eligible_at u) | None \<Rightarrow> tu_eligible_at u)"

definition automatic_turnaround_is_ready :: "turnaround_input \<Rightarrow> jsnum \<Rightarrow> bool" where
  "automatic_turnaround_is_ready u radius \<longleftrightarrow>
     is_finite (tu_now u) \<and> is_finite (tu_telemetry_timestamp u) \<and> is_finite (tu_eligible_at u) \<and> tu_eligible_at u > 0 \<and>
     tu_now u \<ge> tu_eligible_at u \<and> tu_telemetry_timestamp u \<ge> minimum_sample u \<and>
     tu_telemetry_timestamp u \<le> tu_now u + 10000 \<and>
     tu_now u - tu_telemetry_timestamp u \<le> turnaround_telemetry_max_age_ms \<and>
     tu_motion_state u = JStr ''stopped'' \<and> precise_hdop (tu_gps_hdop u) \<and>
     valid_coordinate (tu_position u) \<and> valid_coordinate (tu_destination u) \<and>
     is_finite radius \<and> radius > 0 \<and> haversine_meters (tu_position u) (tu_destination u) \<le> radius"

section \<open>Recovery from a departure\<close>

record departure_sample =
  ds_at :: position
  ds_timestamp :: jsnum

definition max_departure_backstep_m :: jsnum where "max_departure_backstep_m = 5 / 2"

definition bad_sample :: "departure_sample list \<Rightarrow> jsnum \<Rightarrow> nat \<Rightarrow> bool" where
  "bad_sample samples now i = (let point = samples ! i in
     \<not> is_finite (pos_lat (ds_at point)) \<or> \<not> is_finite (pos_lng (ds_at point)) \<or> \<not> is_finite (ds_timestamp point) \<or>
     now - ds_timestamp point > 60000 \<or> ds_timestamp point > now + 10000 \<or>
     (i > 0 \<and> (ds_timestamp point \<le> ds_timestamp (samples ! (i - 1)) \<or>
        haversine_meters (ds_at point) (ds_at (samples ! (i - 1))) > 250)))"

definition match_plain :: "position \<Rightarrow> position list \<Rightarrow> jsnum option \<Rightarrow> route_match option" where
  "match_plain point path heading = match_route_position \<lparr>mq_raw_point = point, mq_path = path, mq_heading = heading,
     mq_previous = None, mq_uncertainty_m = 25, mq_max_change_m = None, mq_plausible_m = None\<rparr>"

definition bad_departure_match :: "route_match \<Rightarrow> route_match option \<Rightarrow> bool" where
  "bad_departure_match next_match m = (case m of None \<Rightarrow> True
    | Some r \<Rightarrow> rm_is_ambiguous r \<or> rm_distance_to_route_m r > 15 \<or> rm_match_confidence r < 70 / 100 \<or>
        (case rm_heading_difference r of None \<Rightarrow> True | Some d \<Rightarrow> d > 35) \<or>
        rm_along_route_distance_m r > rm_along_route_distance_m next_match + 10)"

fun no_backstep :: "jsnum \<Rightarrow> jsnum list \<Rightarrow> bool" where
  "no_backstep furthest [] = True"
| "no_backstep furthest (a # as) = (if a < furthest - max_departure_backstep_m then False else no_backstep (js_max furthest a) as)"

definition departs_along :: "departure_sample list \<Rightarrow> jsnum \<Rightarrow> position list \<Rightarrow> position \<Rightarrow> bool" where
  "departs_along samples heading path next_stop = (case match_plain next_stop path None of
      None \<Rightarrow> False
    | Some next_match \<Rightarrow> (if rm_is_ambiguous next_match \<or> rm_distance_to_route_m next_match > 20 then False
        else (let matches = map (\<lambda>s. match_plain (ds_at s) path (Some heading)) samples in
          if list_ex (bad_departure_match next_match) matches then False
          else (let along = map (\<lambda>m. rm_along_route_distance_m (the m)) matches in
            no_backstep (hd along) along \<and> last along - hd along \<ge> 30))))"

definition infer_departure_direction ::
    "departure_sample list \<Rightarrow> position list \<Rightarrow> position list \<Rightarrow> position list \<Rightarrow> jsnum \<Rightarrow> direction option" where
  "infer_departure_direction samples stops forward_path reverse_path now =
    (if length samples < 3 \<or> length stops < 2 \<or> list_ex (bad_sample samples now) [0..<length samples] then None
     else if ds_timestamp (last samples) - ds_timestamp (hd samples) < 2000 then None
     else (case trajectory_heading (map ds_at samples) 30 of
        None \<Rightarrow> None
      | Some heading \<Rightarrow>
        (let candidates = filter (\<lambda>d. departs_along samples heading (if d = Forward then forward_path else reverse_path)
            (if d = Forward then stops ! 1 else stops ! (length stops - 2))) [Forward, Reverse] in
         if length candidates = 1 then Some (hd candidates) else None)))"

section \<open>The bounded proof of a departure\<close>

definition sample_of :: "jsval \<Rightarrow> departure_sample option" where
  "sample_of v = (case (js_prop v ''lat'', js_prop v ''lng'', js_prop v ''timestamp'') of
      (JNum a, JNum b, JNum t) \<Rightarrow> (if is_finite a \<and> is_finite b \<and> is_finite t
        then Some \<lparr>ds_at = \<lparr>pos_lat = a, pos_lng = b\<rparr>, ds_timestamp = t\<rparr> else None)
    | _ \<Rightarrow> None)"

definition kept_samples :: "jsval \<Rightarrow> string \<Rightarrow> departure_sample \<Rightarrow> departure_sample list" where
  "kept_samples previous ctx sample = (case js_prop previous ''samples'' of
      JArr vs \<Rightarrow> (if js_prop previous ''context'' = JStr ctx
        then filter (\<lambda>p. ds_timestamp p < ds_timestamp sample \<and> ds_timestamp sample - ds_timestamp p \<le> 60000) (List.map_filter sample_of vs)
        else [])
    | _ \<Rightarrow> [])"

definition departure_samples :: "jsval \<Rightarrow> string \<Rightarrow> departure_sample \<Rightarrow> bool \<Rightarrow> string \<times> departure_sample list" where
  "departure_samples previous ctx sample reliable_moving =
    (let valid = (if reliable_moving then kept_samples previous ctx sample else []);
      samples = (if length valid > 7 then hd valid # drop (length valid - 6) valid else valid) in
    (ctx, if reliable_moving \<and> (samples = [] \<or> ds_timestamp sample - ds_timestamp (last samples) \<ge> 2000)
       then samples @ [sample] else samples))"

section \<open>Facts\<close>

lemma normalize_iff [simp]: "is_ride_direction v \<longleftrightarrow> normalize_ride_direction v \<noteq> None"
  by (cases v rule: normalize_ride_direction.cases) (auto simp: is_ride_direction_def)

lemma opposite_involution [simp]: "opposite_ride_direction (opposite_ride_direction d) = d"
  by (cases d) simp_all

lemma stops_opposite: "stops_in_ride_direction stops (opposite_ride_direction d) = rev (stops_in_ride_direction stops d)"
  by (cases d) (simp_all add: stops_in_ride_direction_def)

lemma counts_exact:
  "count_rides_by_direction rides = \<lparr>dc_forward = length (filter (\<lambda>r. normalize_ride_direction (js_prop r ''direction'') = Some Forward) rides),
     dc_reverse = length (filter (\<lambda>r. normalize_ride_direction (js_prop r ''direction'') = Some Reverse) rides),
     dc_unresolved = length (filter (\<lambda>r. normalize_ride_direction (js_prop r ''direction'') = None) rides), dc_total = length rides\<rparr>"
  unfolding count_rides_by_direction_def
  by (induction rides rule: rev_induct) (auto simp: count_ride_def Let_def split: option.splits direction.splits)

text \<open>The inference is symmetric: reversing the route reverses the answer, so no direction is preferred.\<close>

lemma inference_symmetric:
  "infer_ride_direction_at_endpoint (rev stops) p r = map_option opposite_ride_direction (infer_ride_direction_at_endpoint stops p r)"
proof (cases "length stops < 2")
  case False
  then have "stops \<noteq> []" by auto
  then show ?thesis by (auto simp: infer_ride_direction_at_endpoint_def hd_rev last_rev Let_def)
qed (simp add: infer_ride_direction_at_endpoint_def)

lemma inference_needs_one_endpoint:
  "infer_ride_direction_at_endpoint stops p r = Some d \<Longrightarrow>
    haversine_meters p (hd (stops_in_ride_direction stops d)) \<le> r \<and>
    \<not> haversine_meters p (last (stops_in_ride_direction stops d)) \<le> r"
  by (cases "stops = []") (auto simp: infer_ride_direction_at_endpoint_def stops_in_ride_direction_def hd_rev last_rev Let_def split: if_splits)

lemma departure_samples_bounded:
  "length (snd (departure_samples previous ctx sample moving)) \<le> 8"
  by (simp add: departure_samples_def Let_def)

end
