(* ===== verification/Telemetry_Payload.thy ===== *)
theory Telemetry_Payload imports Js_Value "HOL-Library.Multiset" begin

text \<open>
  The validation of a device's telemetry sample (\<open>services/telemetryPayload.ts\<close>): three closed
  schemas, the range of every field, the freshness window and the clamping of a fast device clock.
  \<open>JSON.parse\<close> is a parameter of \<open>parse_telemetry_payload\<close>: \<open>None\<close> when it throws.
\<close>

section \<open>Schemas\<close>

definition telemetry_fields :: "string list" where
  "telemetry_fields = [''deviceSentAt'', ''gpsHdop'', ''heading'', ''lat'', ''lng'', ''motionState'', ''seq'', ''speed'', ''timestamp'']"

definition previous_sequenced_telemetry_fields :: "string list" where
  "previous_sequenced_telemetry_fields = [''deviceSentAt'', ''heading'', ''lat'', ''lng'', ''motionState'', ''seq'', ''speed'', ''timestamp'']"

definition legacy_telemetry_fields :: "string list" where
  "legacy_telemetry_fields = [''heading'', ''lat'', ''lng'', ''motionState'', ''speed'', ''timestamp'']"

lemmas schema_defs = telemetry_fields_def previous_sequenced_telemetry_fields_def legacy_telemetry_fields_def

record telemetry_payload =
  tp_lat :: jsnum
  tp_lng :: jsnum
  tp_speed :: jsnum
  tp_heading :: jsnum
  tp_gps_hdop :: "jsnum option"
  tp_motion_state :: string
  tp_seq :: jsnum
  tp_device_sent_at :: jsnum
  tp_timestamp :: jsnum
  tp_device_timestamp :: "jsnum option"

definition motion_states :: "string list" where
  "motion_states = [''moving'', ''stopped'', ''uncertain'']"

section \<open>Parsing\<close>

text \<open>The tests of the source: each is a \<open>typeof\<close> test followed by the bounds.\<close>

fun in_range :: "jsnum \<Rightarrow> jsnum \<Rightarrow> jsval \<Rightarrow> bool" where
  "in_range lo hi (JNum x) = (is_finite x \<and> \<not> x < lo \<and> \<not> x > hi)"
| "in_range lo hi _ = False"

fun heading_ok :: "jsval \<Rightarrow> bool" where
  "heading_ok (JNum x) = (is_finite x \<and> \<not> x < 0 \<and> \<not> x \<ge> 360)"
| "heading_ok _ = False"

fun motion_ok :: "jsval \<Rightarrow> bool" where
  "motion_ok (JStr s) = (s \<in> set motion_states)"
| "motion_ok _ = False"

fun seq_ok :: "jsval \<Rightarrow> bool" where
  "seq_ok (JNum x) = (is_safe_integer x \<and> \<not> x \<le> 0 \<and> \<not> x > 4294967295)"
| "seq_ok _ = False"

fun safe_in_range :: "jsnum \<Rightarrow> jsnum \<Rightarrow> jsval \<Rightarrow> bool" where
  "safe_in_range lo hi (JNum x) = (is_safe_integer x \<and> \<not> x < lo \<and> \<not> x > hi)"
| "safe_in_range lo hi _ = False"

fun the_num :: "jsval \<Rightarrow> jsnum" where
  "the_num (JNum x) = x"
| "the_num _ = NaN"

fun the_str :: "jsval \<Rightarrow> string" where
  "the_str (JStr s) = s"
| "the_str _ = []"

definition parse_telemetry_value :: "jsval \<Rightarrow> jsnum \<Rightarrow> string + telemetry_payload" where
  "parse_telemetry_value v now = (case v of
    JObj fs \<Rightarrow> (let keys = sort (map fst fs);
        sequenced = (keys = telemetry_fields);
        previous = (keys = previous_sequenced_telemetry_fields);
        legacy = (keys = legacy_telemetry_fields);
        get = obj_get fs in
      if \<not> sequenced \<and> \<not> previous \<and> \<not> legacy then Inl ''unexpected_fields''
      else if \<not> in_range (- 90) 90 (get ''lat'') then Inl ''invalid_lat''
      else if \<not> in_range (- 180) 180 (get ''lng'') then Inl ''invalid_lng''
      else if \<not> in_range 0 200 (get ''speed'') then Inl ''invalid_speed''
      else if \<not> heading_ok (get ''heading'') then Inl ''invalid_heading''
      else if sequenced \<and> \<not> in_range 0 99 (get ''gpsHdop'') then Inl ''invalid_gps_hdop''
      else if \<not> motion_ok (get ''motionState'') then Inl ''invalid_motion_state''
      else if (sequenced \<or> previous) \<and> \<not> seq_ok (get ''seq'') then Inl ''invalid_sequence''
      else if \<not> safe_in_range (now - 60000) (now + 10000) (get ''timestamp'') then Inl ''stale_or_invalid_timestamp''
      else if (sequenced \<or> previous) \<and> \<not> safe_in_range (the_num (get ''timestamp'')) (now + 10000) (get ''deviceSentAt'')
      then Inl ''invalid_device_sent_at''
      else (let timestamp = the_num (get ''timestamp''); accepted = js_min timestamp now in
        Inr \<lparr>tp_lat = the_num (get ''lat''), tp_lng = the_num (get ''lng''), tp_speed = the_num (get ''speed''),
          tp_heading = the_num (get ''heading''),
          tp_gps_hdop = (if sequenced then Some (the_num (get ''gpsHdop'')) else None),
          tp_motion_state = the_str (get ''motionState''),
          tp_seq = (if sequenced \<or> previous then the_num (get ''seq'') else 1),
          tp_device_sent_at = (if sequenced \<or> previous then js_min (the_num (get ''deviceSentAt'')) now else accepted),
          tp_timestamp = accepted,
          tp_device_timestamp = (if timestamp > accepted then Some timestamp else None)\<rparr>))
  | _ \<Rightarrow> Inl ''invalid_shape'')"

definition parse_telemetry_payload ::
    "(char list \<Rightarrow> jsval option) \<Rightarrow> char list \<Rightarrow> jsnum \<Rightarrow> string + telemetry_payload" where
  "parse_telemetry_payload json_parse payload now = (if payload = [] \<or> length payload > 512 then Inl ''payload_size''
    else case json_parse payload of
      None \<Rightarrow> Inl ''invalid_json''
    | Some v \<Rightarrow> parse_telemetry_value v now)"

text \<open>The device's side of the contract: a sample of the current schema.\<close>

definition encode_sequenced :: "telemetry_payload \<Rightarrow> jsval" where
  "encode_sequenced p = JObj [(''lat'', JNum (tp_lat p)), (''lng'', JNum (tp_lng p)), (''speed'', JNum (tp_speed p)),
     (''heading'', JNum (tp_heading p)), (''gpsHdop'', JNum (case tp_gps_hdop p of None \<Rightarrow> 0 | Some h \<Rightarrow> h)),
     (''motionState'', JStr (tp_motion_state p)), (''seq'', JNum (tp_seq p)),
     (''deviceSentAt'', JNum (tp_device_sent_at p)),
     (''timestamp'', JNum (case tp_device_timestamp p of None \<Rightarrow> tp_timestamp p | Some d \<Rightarrow> d))]"

section \<open>Facts\<close>

lemma in_rangeD: "in_range lo hi v \<Longrightarrow> lo \<noteq> NaN \<Longrightarrow> hi \<noteq> NaN \<Longrightarrow>
    is_finite (the_num v) \<and> lo \<le> the_num v \<and> the_num v \<le> hi"
  by (cases v) (auto simp: not_less_num elim!: is_finiteE)

lemma safe_in_rangeD: "safe_in_range lo hi v \<Longrightarrow> lo \<noteq> NaN \<Longrightarrow> hi \<noteq> NaN \<Longrightarrow>
    is_safe_integer (the_num v) \<and> lo \<le> the_num v \<and> the_num v \<le> hi"
  by (cases v) (auto simp: not_less_num elim!: is_safe_integerE)

lemma heading_okD: "heading_ok v \<Longrightarrow> 0 \<le> the_num v \<and> the_num v < 360"
  by (cases v) (auto elim!: is_finiteE)

lemma seq_okD: "seq_ok v \<Longrightarrow> is_safe_integer (the_num v) \<and> 0 < the_num v \<and> the_num v \<le> 4294967295"
  by (cases v) (auto elim!: is_safe_integerE)

lemma motion_okD: "motion_ok v \<Longrightarrow> the_str v \<in> set motion_states"
  by (cases v) auto

lemma parse_telemetryE:
  assumes "parse_telemetry_value v now = Inr p"
  obtains fs where "v = JObj fs"
    "sort (map fst fs) \<in> {telemetry_fields, previous_sequenced_telemetry_fields, legacy_telemetry_fields}"
    "in_range (- 90) 90 (obj_get fs ''lat'')" "in_range (- 180) 180 (obj_get fs ''lng'')"
    "in_range 0 200 (obj_get fs ''speed'')" "heading_ok (obj_get fs ''heading'')"
    "sort (map fst fs) = telemetry_fields \<Longrightarrow> in_range 0 99 (obj_get fs ''gpsHdop'')"
    "motion_ok (obj_get fs ''motionState'')"
    "safe_in_range (now - 60000) (now + 10000) (obj_get fs ''timestamp'')"
    "sort (map fst fs) \<noteq> legacy_telemetry_fields \<Longrightarrow> seq_ok (obj_get fs ''seq'')"
    "sort (map fst fs) \<noteq> legacy_telemetry_fields \<Longrightarrow>
       safe_in_range (the_num (obj_get fs ''timestamp'')) (now + 10000) (obj_get fs ''deviceSentAt'')"
    "tp_lat p = the_num (obj_get fs ''lat'')" "tp_lng p = the_num (obj_get fs ''lng'')"
    "tp_speed p = the_num (obj_get fs ''speed'')" "tp_heading p = the_num (obj_get fs ''heading'')"
    "tp_gps_hdop p = (if sort (map fst fs) = telemetry_fields then Some (the_num (obj_get fs ''gpsHdop'')) else None)"
    "tp_motion_state p = the_str (obj_get fs ''motionState'')"
    "tp_timestamp p = js_min (the_num (obj_get fs ''timestamp'')) now"
    "tp_device_timestamp p = (if the_num (obj_get fs ''timestamp'') > js_min (the_num (obj_get fs ''timestamp'')) now
       then Some (the_num (obj_get fs ''timestamp'')) else None)"
    "tp_seq p = (if sort (map fst fs) = legacy_telemetry_fields then 1 else the_num (obj_get fs ''seq''))"
    "tp_device_sent_at p = (if sort (map fst fs) = legacy_telemetry_fields then tp_timestamp p
       else js_min (the_num (obj_get fs ''deviceSentAt'')) now)"
proof -
  from assms obtain fs where fs: "v = JObj fs"
    by (cases v) (auto simp: parse_telemetry_value_def)
  have ne: "telemetry_fields \<noteq> previous_sequenced_telemetry_fields" "telemetry_fields \<noteq> legacy_telemetry_fields"
    "previous_sequenced_telemetry_fields \<noteq> legacy_telemetry_fields"
    by (simp_all add: schema_defs)
  note p = assms [unfolded fs parse_telemetry_value_def Let_def jsval.case]
  show thesis
    using p ne by (intro that [OF fs]) (auto split: if_splits)
qed

lemma obj_get_perm:
  assumes "mset fs = mset gs" "distinct (map fst fs)"
  shows "obj_get fs k = obj_get gs k"
proof -
  have "mset (map fst fs) = mset (map fst gs)" using assms(1) by simp
  with assms(2) have "distinct (map fst gs)" using mset_eq_imp_distinct_iff by blast
  then have "map_of fs = map_of gs"
    using map_of_inject_set [of fs gs] assms mset_eq_setD [OF assms(1)] by blast
  then show ?thesis by (simp add: obj_get_map_of)
qed

lemma sort_perm: "mset xs = mset ys \<Longrightarrow> sorted ys \<Longrightarrow> sort xs = ys"
  by (rule properties_for_sort) simp_all

lemma schemas_sorted: "sorted telemetry_fields" "distinct telemetry_fields"
  by (simp_all add: schema_defs)

fun obj_fields :: "jsval \<Rightarrow> (string \<times> jsval) list" where
  "obj_fields (JObj fs) = fs"
| "obj_fields _ = []"

text \<open>A sample a server with clock \<open>now\<close> can hold: what the first property gives, with the raw capture
  time kept exactly when it is ahead of the clock.\<close>

definition telemetry_wf :: "real \<Rightarrow> telemetry_payload \<Rightarrow> bool" where
  "telemetry_wf now p \<longleftrightarrow> - 90 \<le> tp_lat p \<and> tp_lat p \<le> 90 \<and> - 180 \<le> tp_lng p \<and> tp_lng p \<le> 180 \<and>
    0 \<le> tp_speed p \<and> tp_speed p \<le> 200 \<and> 0 \<le> tp_heading p \<and> tp_heading p < 360 \<and>
    (case tp_gps_hdop p of None \<Rightarrow> True | Some h \<Rightarrow> 0 \<le> h \<and> h \<le> 99) \<and> tp_motion_state p \<in> set motion_states \<and>
    is_safe_integer (tp_seq p) \<and> 0 < tp_seq p \<and> tp_seq p \<le> 4294967295 \<and>
    Fin (now - 60000) \<le> tp_timestamp p \<and> tp_timestamp p \<le> tp_device_sent_at p \<and> tp_device_sent_at p \<le> Fin now \<and>
    (case tp_device_timestamp p of None \<Rightarrow> True | Some d \<Rightarrow> tp_timestamp p = Fin now \<and> Fin now < d \<and> d \<le> Fin (now + 10000))"

text \<open>A sample as a device sends it to a server with clock \<open>now\<close>: its times may be up to ten seconds
  ahead, and it has one capture time. What the server makes of them is \<open>clamp_sample\<close>.\<close>

definition sendable :: "real \<Rightarrow> telemetry_payload \<Rightarrow> bool" where
  "sendable now p \<longleftrightarrow> - 90 \<le> tp_lat p \<and> tp_lat p \<le> 90 \<and> - 180 \<le> tp_lng p \<and> tp_lng p \<le> 180 \<and>
    0 \<le> tp_speed p \<and> tp_speed p \<le> 200 \<and> 0 \<le> tp_heading p \<and> tp_heading p < 360 \<and>
    (case tp_gps_hdop p of None \<Rightarrow> True | Some h \<Rightarrow> 0 \<le> h \<and> h \<le> 99) \<and> tp_motion_state p \<in> set motion_states \<and>
    is_safe_integer (tp_seq p) \<and> 0 < tp_seq p \<and> tp_seq p \<le> 4294967295 \<and>
    is_safe_integer (tp_timestamp p) \<and> is_safe_integer (tp_device_sent_at p) \<and> tp_device_timestamp p = None \<and>
    Fin (now - 60000) \<le> tp_timestamp p \<and> tp_timestamp p \<le> tp_device_sent_at p \<and> tp_device_sent_at p \<le> Fin (now + 10000)"

definition clamp_sample :: "jsnum \<Rightarrow> telemetry_payload \<Rightarrow> telemetry_payload" where
  "clamp_sample now p = p\<lparr>tp_timestamp := js_min (tp_timestamp p) now, tp_device_sent_at := js_min (tp_device_sent_at p) now,
    tp_device_timestamp := (if now < tp_timestamp p then Some (tp_timestamp p) else None)\<rparr>"

lemma between_fin: "Fin a \<le> x \<Longrightarrow> x \<le> Fin b \<Longrightarrow> is_finite x"
  by (cases x) simp_all

lemma encode_obj: "encode_sequenced p = JObj (obj_fields (encode_sequenced p))"
  by (simp add: encode_sequenced_def)

section \<open>Properties\<close>

definition demo_sample :: telemetry_payload where
  "demo_sample = \<lparr>tp_lat = Fin 17, tp_lng = Fin 78, tp_speed = 20, tp_heading = 90, tp_gps_hdop = Some 1,
    tp_motion_state = ''moving'', tp_seq = 7, tp_device_sent_at = 1000001, tp_timestamp = 1000000,
    tp_device_timestamp = Some 1000001\<rparr>"

text \<open>An accepted sample has every field in its documented range, whatever was received: latitude,
  longitude, speed, heading and precision are finite and in range, the sequence number is a positive
  32-bit integer, neither time is later than the server's clock or older than a minute, and the raw
  capture time is kept exactly when it is up to ten seconds ahead of that clock.\<close>

theorem telemetry_accepted_ranges:
  assumes "parse_telemetry_value v (Fin now) = Inr p"
  shows "telemetry_wf now p"
proof -
  from assms obtain fs where "v = JObj fs"
    and t: "in_range (- 90) 90 (obj_get fs ''lat'')" "in_range (- 180) 180 (obj_get fs ''lng'')"
      "in_range 0 200 (obj_get fs ''speed'')" "heading_ok (obj_get fs ''heading'')"
      "sort (map fst fs) = telemetry_fields \<Longrightarrow> in_range 0 99 (obj_get fs ''gpsHdop'')"
      "motion_ok (obj_get fs ''motionState'')"
      "safe_in_range (Fin now - 60000) (Fin now + 10000) (obj_get fs ''timestamp'')"
      "sort (map fst fs) \<noteq> legacy_telemetry_fields \<Longrightarrow> seq_ok (obj_get fs ''seq'')"
      "sort (map fst fs) \<noteq> legacy_telemetry_fields \<Longrightarrow>
         safe_in_range (the_num (obj_get fs ''timestamp'')) (Fin now + 10000) (obj_get fs ''deviceSentAt'')"
    and p: "tp_lat p = the_num (obj_get fs ''lat'')" "tp_lng p = the_num (obj_get fs ''lng'')"
      "tp_speed p = the_num (obj_get fs ''speed'')" "tp_heading p = the_num (obj_get fs ''heading'')"
      "tp_gps_hdop p = (if sort (map fst fs) = telemetry_fields then Some (the_num (obj_get fs ''gpsHdop'')) else None)"
      "tp_motion_state p = the_str (obj_get fs ''motionState'')"
      "tp_timestamp p = js_min (the_num (obj_get fs ''timestamp'')) (Fin now)"
      "tp_seq p = (if sort (map fst fs) = legacy_telemetry_fields then 1 else the_num (obj_get fs ''seq''))"
      "tp_device_sent_at p = (if sort (map fst fs) = legacy_telemetry_fields then tp_timestamp p
         else js_min (the_num (obj_get fs ''deviceSentAt'')) (Fin now))"
      "tp_device_timestamp p = (if the_num (obj_get fs ''timestamp'') > js_min (the_num (obj_get fs ''timestamp'')) (Fin now)
         then Some (the_num (obj_get fs ''timestamp'')) else None)"
    by (rule parse_telemetryE) blast
  have pos: "- 90 \<le> tp_lat p \<and> tp_lat p \<le> 90" "- 180 \<le> tp_lng p \<and> tp_lng p \<le> 180"
    "0 \<le> tp_speed p \<and> tp_speed p \<le> 200" "0 \<le> tp_heading p \<and> tp_heading p < 360"
    using in_rangeD [OF t(1)] in_rangeD [OF t(2)] in_rangeD [OF t(3)] heading_okD [OF t(4)] p by simp_all
  have opt: "case tp_gps_hdop p of None \<Rightarrow> True | Some h \<Rightarrow> 0 \<le> h \<and> h \<le> 99" "tp_motion_state p \<in> set motion_states"
    using in_rangeD [OF t(5)] motion_okD [OF t(6)] p by auto
  have seq: "is_safe_integer (tp_seq p)" "0 < tp_seq p" "tp_seq p \<le> 4294967295"
    using seq_okD [OF t(8)] p(8) is_safe_of_int [of 1] by (auto split: if_splits)
  obtain x where x: "the_num (obj_get fs ''timestamp'') = Fin x" "now - 60000 \<le> x" "x \<le> now + 10000"
    using safe_in_rangeD [OF t(7)] by (auto elim!: is_safe_integerE)
  have "Fin (now - 60000) \<le> tp_timestamp p \<and> tp_timestamp p \<le> tp_device_sent_at p \<and> tp_device_sent_at p \<le> Fin now"
  proof (cases "sort (map fst fs) = legacy_telemetry_fields")
    case True
    then show ?thesis using x p by simp
  next
    case False
    obtain y where "the_num (obj_get fs ''deviceSentAt'') = Fin y" "x \<le> y"
      using safe_in_rangeD [OF t(9) [OF False]] x(1) by (auto elim!: is_safe_integerE)
    then show ?thesis using False x p by simp
  qed
  moreover have "case tp_device_timestamp p of None \<Rightarrow> True
      | Some d \<Rightarrow> tp_timestamp p = Fin now \<and> Fin now < d \<and> d \<le> Fin (now + 10000)"
    using p x by auto
  ultimately show ?thesis using pos opt seq unfolding telemetry_wf_def by blast
qed

theorem telemetry_accepted_ranges_witness:
  "telemetry_wf 1000000 (demo_sample\<lparr>tp_device_sent_at := 1000000\<rparr>)"
  by (rule telemetry_accepted_ranges [of "encode_sequenced demo_sample"])
    (simp add: parse_telemetry_value_def encode_sequenced_def demo_sample_def schema_defs motion_states_def Let_def)

text \<open>C7. The schemas are closed: an accepted value is an object whose keys are exactly those of one of
  the three firmware contracts, each once.\<close>

theorem telemetry_closed_schema:
  assumes "parse_telemetry_value v now = Inr p"
  shows "\<exists>fs F. v = JObj fs \<and> F \<in> {telemetry_fields, previous_sequenced_telemetry_fields, legacy_telemetry_fields} \<and>
    mset (map fst fs) = mset F \<and> distinct (map fst fs)"
proof -
  from assms obtain fs where fs: "v = JObj fs"
    "sort (map fst fs) \<in> {telemetry_fields, previous_sequenced_telemetry_fields, legacy_telemetry_fields}"
    by (rule parse_telemetryE)
  moreover have "mset (sort (map fst fs)) = mset (map fst fs)" by (rule mset_sort)
  moreover have "distinct (map fst fs) \<longleftrightarrow> distinct (sort (map fst fs))" by simp
  moreover have "distinct (sort (map fst fs))" using fs(2) by (auto simp: schema_defs simp del: distinct_sort)
  ultimately show ?thesis by metis
qed

theorem telemetry_closed_schema_witness:
  "distinct (map fst (obj_fields (encode_sequenced demo_sample)))"
proof -
  have "parse_telemetry_value (encode_sequenced demo_sample) 1000000 = Inr (demo_sample\<lparr>tp_device_sent_at := 1000000\<rparr>)"
    by (simp add: parse_telemetry_value_def encode_sequenced_def demo_sample_def schema_defs motion_states_def Let_def)
  from telemetry_closed_schema [OF this] show ?thesis by auto
qed

text \<open>C8. Round trip, for a sample in range as a device sends it, with a precision, whose capture and send
  times are at most a minute behind and at most ten seconds ahead of the server's clock: its nine fields,
  in any order, are accepted, and what is held is that sample with both times clamped to the server's
  clock. A sample that is not ahead of the clock comes back unchanged; of one that is, everything but
  the times is unchanged and the capture time sent is kept as the device timestamp.\<close>

theorem telemetry_roundtrip:
  assumes "sendable now p" "tp_gps_hdop p = Some h" "mset fs = mset (obj_fields (encode_sequenced p))"
  shows "parse_telemetry_value (JObj fs) (Fin now) = Inr (clamp_sample (Fin now) p) \<and>
    (tp_device_sent_at p \<le> Fin now \<longrightarrow> clamp_sample (Fin now) p = p) \<and>
    opt_default (tp_device_timestamp (clamp_sample (Fin now) p)) (tp_timestamp (clamp_sample (Fin now) p)) = tp_timestamp p"
proof -
  note wf = assms(1) [unfolded sendable_def]
  have keys: "mset (map fst fs) = mset telemetry_fields"
    using arg_cong [OF assms(3), of "image_mset fst"] by (simp add: encode_sequenced_def telemetry_fields_def)
  then have sort: "sort (map fst fs) = telemetry_fields" using schemas_sorted(1) by (rule sort_perm)
  have "distinct (map fst fs)" using keys schemas_sorted(2) mset_eq_imp_distinct_iff by blast
  note get = obj_get_perm [OF assms(3) this]
  have fin: "is_finite (tp_lat p)" "is_finite (tp_lng p)" "is_finite (tp_speed p)" "is_finite (tp_heading p)" "is_finite h"
    using wf assms(2) by (auto intro: between_fin less_imp_le_num)
  have gets: "obj_get fs ''lat'' = JNum (tp_lat p)" "obj_get fs ''lng'' = JNum (tp_lng p)"
    "obj_get fs ''speed'' = JNum (tp_speed p)" "obj_get fs ''heading'' = JNum (tp_heading p)"
    "obj_get fs ''gpsHdop'' = JNum h" "obj_get fs ''motionState'' = JStr (tp_motion_state p)"
    "obj_get fs ''seq'' = JNum (tp_seq p)" "obj_get fs ''deviceSentAt'' = JNum (tp_device_sent_at p)"
    "obj_get fs ''timestamp'' = JNum (tp_timestamp p)"
    using assms(2) wf by (simp_all add: get encode_sequenced_def)
  obtain t where t: "tp_timestamp p = Fin t" using wf by (auto elim!: is_safe_integerE)
  obtain d where d: "tp_device_sent_at p = Fin d" using wf by (auto elim!: is_safe_integerE)
  have times: "now - 60000 \<le> t" "t \<le> d" "d \<le> now + 10000" using wf t d by auto
  have tests: "in_range (- 90) 90 (JNum (tp_lat p))" "in_range (- 180) 180 (JNum (tp_lng p))" "in_range 0 200 (JNum (tp_speed p))"
    "heading_ok (JNum (tp_heading p))" "in_range 0 99 (JNum h)" "motion_ok (JStr (tp_motion_state p))"
    "seq_ok (JNum (tp_seq p))" "safe_in_range (Fin now - 60000) (Fin now + 10000) (JNum (tp_timestamp p))"
    "safe_in_range (tp_timestamp p) (Fin now + 10000) (JNum (tp_device_sent_at p))"
    using wf assms(2) fin t d times by (auto elim!: is_finiteE is_safe_integerE)
  have "parse_telemetry_value (JObj fs) (Fin now) = Inr \<lparr>tp_lat = tp_lat p, tp_lng = tp_lng p, tp_speed = tp_speed p,
      tp_heading = tp_heading p, tp_gps_hdop = Some h, tp_motion_state = tp_motion_state p, tp_seq = tp_seq p,
      tp_device_sent_at = Fin (min d now), tp_timestamp = Fin (min t now),
      tp_device_timestamp = (if now < t then Some (Fin t) else None)\<rparr>"
    using tests t d times by (auto simp: parse_telemetry_value_def sort gets)
  also have "\<dots> = Inr (clamp_sample (Fin now) p)" using t d assms(2) by (cases p) (auto simp: clamp_sample_def)
  finally have "parse_telemetry_value (JObj fs) (Fin now) = Inr (clamp_sample (Fin now) p)" .
  moreover have "tp_device_sent_at p \<le> Fin now \<longrightarrow> clamp_sample (Fin now) p = p"
    using t d times wf by (cases p) (auto simp: clamp_sample_def)
  ultimately show ?thesis using t by (auto simp: clamp_sample_def opt_default_def)
qed

text \<open>A sample stamped five milliseconds ahead of the clock, its fields reversed.\<close>

theorem telemetry_roundtrip_witness:
  "parse_telemetry_value (JObj (rev (obj_fields (encode_sequenced (demo_sample\<lparr>tp_device_timestamp := None\<rparr>))))) 999995 =
    Inr (demo_sample\<lparr>tp_timestamp := 999995, tp_device_sent_at := 999995, tp_device_timestamp := Some 1000000\<rparr>)"
proof -
  have s: "sendable 999995 (demo_sample\<lparr>tp_device_timestamp := None\<rparr>)"
    by (simp add: demo_sample_def sendable_def motion_states_def)
  from telemetry_roundtrip [OF s, of 1 "rev (obj_fields (encode_sequenced (demo_sample\<lparr>tp_device_timestamp := None\<rparr>)))"]
  show ?thesis by (simp add: demo_sample_def clamp_sample_def)
qed

text \<open>Clamping a fast clock keeps the order of capture: the raw time, or the timestamp where it was
  not clamped, orders any two accepted samples as their devices stamped them, although both
  timestamps are at most the server's clock.\<close>

theorem telemetry_clamp_keeps_order:
  assumes "parse_telemetry_value v (Fin now) = Inr p" "parse_telemetry_value w (Fin now') = Inr q"
  shows "opt_default (tp_device_timestamp p) (tp_timestamp p) < opt_default (tp_device_timestamp q) (tp_timestamp q)
    \<longleftrightarrow> the_num (js_prop v ''timestamp'') < the_num (js_prop w ''timestamp'')"
proof -
  have raw: "opt_default (tp_device_timestamp r) (tp_timestamp r) = the_num (js_prop u ''timestamp'')"
    if parsed: "parse_telemetry_value u (Fin n) = Inr r" for u r n
  proof -
    from parsed obtain fs where u: "u = JObj fs"
      and "safe_in_range (Fin n - 60000) (Fin n + 10000) (obj_get fs ''timestamp'')"
      and p: "tp_timestamp r = js_min (the_num (obj_get fs ''timestamp'')) (Fin n)"
      "tp_device_timestamp r = (if the_num (obj_get fs ''timestamp'') > js_min (the_num (obj_get fs ''timestamp'')) (Fin n)
         then Some (the_num (obj_get fs ''timestamp'')) else None)"
      by (rule parse_telemetryE) blast
    then obtain x where "the_num (obj_get fs ''timestamp'') = Fin x"
      using safe_in_rangeD [of "Fin n - 60000" "Fin n + 10000" "obj_get fs ''timestamp''"] by (auto elim!: is_safe_integerE)
    with u p show ?thesis by (auto simp: opt_default_def)
  qed
  show ?thesis by (simp add: raw [OF assms(1)] raw [OF assms(2)])
qed

theorem telemetry_clamp_keeps_order_witness:
  "opt_default (Some (Fin 1000001)) (Fin 1000000) < opt_default (Some (Fin 1000005)) (Fin 1000000)"
proof -
  let ?e = "\<lambda>t. encode_sequenced (demo_sample\<lparr>tp_device_timestamp := Some (Fin t), tp_device_sent_at := 1000005\<rparr>)"
  let ?p = "\<lambda>t. demo_sample\<lparr>tp_device_timestamp := Some (Fin t), tp_device_sent_at := 1000000\<rparr>"
  have "parse_telemetry_value (?e 1000001) (Fin 1000000) = Inr (?p 1000001)"
    "parse_telemetry_value (?e 1000005) (Fin 1000000) = Inr (?p 1000005)"
    by (simp_all add: parse_telemetry_value_def encode_sequenced_def demo_sample_def schema_defs motion_states_def Let_def)
  from telemetry_clamp_keeps_order [OF this] show ?thesis
    by (simp add: encode_sequenced_def demo_sample_def)
qed

end
