(* ===== verification/Js_Map.thy ===== *)
theory Js_Map imports Main begin

text \<open>
  The insertion-ordered \<open>Map\<close> of the language, as an association list with distinct keys.
  \<open>jm_set\<close> replaces the value of a present key in place and appends a new key at the end;
  \<open>jm_delete\<close> removes a key; iteration follows the list. The locale \<open>ordered_map\<close> is the
  interface the components rely on, and it is interpreted on these operations.
\<close>

section \<open>Operations\<close>

type_synonym ('k, 'v) jsmap = "('k \<times> 'v) list"

named_theorems jm_simps \<open>rewriting of the ordered map operations\<close>

fun jm_get :: "('k, 'v) jsmap \<Rightarrow> 'k \<Rightarrow> 'v option" where
  "jm_get [] k = None"
| "jm_get ((j, v) # m) k = (if j = k then Some v else jm_get m k)"

fun jm_set :: "('k, 'v) jsmap \<Rightarrow> 'k \<Rightarrow> 'v \<Rightarrow> ('k, 'v) jsmap" where
  "jm_set [] k v = [(k, v)]"
| "jm_set ((j, w) # m) k v = (if j = k then (j, v) # m else (j, w) # jm_set m k v)"

fun jm_delete :: "('k, 'v) jsmap \<Rightarrow> 'k \<Rightarrow> ('k, 'v) jsmap" where
  "jm_delete [] k = []"
| "jm_delete ((j, w) # m) k = (if j = k then m else (j, w) # jm_delete m k)"

definition jm_has :: "('k, 'v) jsmap \<Rightarrow> 'k \<Rightarrow> bool" where
  "jm_has m k \<longleftrightarrow> jm_get m k \<noteq> None"

definition jm_keys :: "('k, 'v) jsmap \<Rightarrow> 'k list" where
  "jm_keys m = map fst m"

definition jm_values :: "('k, 'v) jsmap \<Rightarrow> 'v list" where
  "jm_values m = map snd m"

definition jm_ok :: "('k, 'v) jsmap \<Rightarrow> bool" where
  "jm_ok m \<longleftrightarrow> distinct (map fst m)"

section \<open>Laws\<close>

lemma jm_get_none_iff: "jm_get m k = None \<longleftrightarrow> k \<notin> fst ` set m"
  by (induction m) (auto simp del: not_None_eq split: if_splits)

lemma jm_has_iff [jm_simps]: "jm_has m k \<longleftrightarrow> k \<in> fst ` set m"
  by (simp add: jm_has_def jm_get_none_iff)

lemma jm_has_keys: "jm_has m k \<longleftrightarrow> k \<in> set (jm_keys m)"
  by (simp add: jm_has_iff jm_keys_def)

lemma jm_get_in: "jm_get m k = Some v \<Longrightarrow> (k, v) \<in> set m"
  by (induction m) (auto split: if_splits)

lemma jm_get_set [simp]: "jm_get (jm_set m k v) j = (if j = k then Some v else jm_get m j)"
  by (induction m) auto

lemma jm_set_fresh: "\<not> jm_has m k \<Longrightarrow> jm_set m k v = m @ [(k, v)]"
  by (induction m) (auto simp: jm_has_def split: if_splits)

lemma jm_set_keys_present: "jm_has m k \<Longrightarrow> map fst (jm_set m k v) = map fst m"
  by (induction m) (auto simp: jm_has_def split: if_splits)

lemma jm_delete_absent: "\<not> jm_has m k \<Longrightarrow> jm_delete m k = m"
  by (induction m) (auto simp: jm_has_def split: if_splits)

lemma jm_delete_filter: "jm_ok m \<Longrightarrow> jm_delete m k = filter (\<lambda>p. fst p \<noteq> k) m"
proof (induction m)
  case (Cons p m)
  obtain j w where p: "p = (j, w)" by (cases p)
  from Cons have IH: "jm_delete m k = filter (\<lambda>p. fst p \<noteq> k) m" by (simp add: jm_ok_def)
  show ?case
  proof (cases "j = k")
    case True
    with Cons.prems p have "\<forall>q\<in>set m. fst q \<noteq> k" by (force simp: jm_ok_def)
    then have "filter (\<lambda>p. fst p \<noteq> k) m = m" by (simp add: filter_id_conv)
    with True p show ?thesis by simp
  next
    case False
    with p IH show ?thesis by simp
  qed
qed simp

lemma jm_get_iff: "jm_ok m \<Longrightarrow> jm_get m k = Some v \<longleftrightarrow> (k, v) \<in> set m"
  by (induction m) (force simp: jm_ok_def)+

lemma jm_ok_empty [simp, intro]: "jm_ok []"
  by (simp add: jm_ok_def)

lemma jm_ok_set [simp, intro]: "jm_ok m \<Longrightarrow> jm_ok (jm_set m k v)"
  by (cases "jm_has m k")
    (auto simp: jm_ok_def jm_set_keys_present jm_set_fresh jm_has_iff)

lemma jm_ok_filter [simp, intro]: "jm_ok m \<Longrightarrow> jm_ok (filter P m)"
  by (simp add: jm_ok_def distinct_map_filter)

lemma jm_ok_delete [simp, intro]: "jm_ok m \<Longrightarrow> jm_ok (jm_delete m k)"
  by (simp add: jm_delete_filter)

lemma jm_ok_tl: "jm_ok (p # m) \<Longrightarrow> jm_ok m"
  by (simp add: jm_ok_def)

lemma jm_get_filter_keys: "jm_get (filter (\<lambda>p. fst p \<noteq> k) m) j = (if j = k then None else jm_get m j)"
  by (induction m) auto

lemma jm_get_delete: "jm_ok m \<Longrightarrow> jm_get (jm_delete m k) j = (if j = k then None else jm_get m j)"
  by (simp add: jm_delete_filter jm_get_filter_keys)

lemma length_jm_set: "length (jm_set m k v) = (if jm_has m k then length m else Suc (length m))"
  by (cases "jm_has m k") (simp_all add: jm_set_fresh map_eq_imp_length_eq [OF jm_set_keys_present])

lemma length_jm_delete: "jm_has m k \<Longrightarrow> Suc (length (jm_delete m k)) = length m"
  by (induction m) (auto simp: jm_has_def split: if_splits)

lemma length_jm_delete_le: "length (jm_delete m k) \<le> length m"
  by (cases "jm_has m k") (use length_jm_delete [of m k] in \<open>auto simp: jm_delete_absent\<close>)

lemma set_jm_delete: "jm_ok m \<Longrightarrow> set (jm_delete m k) = {p \<in> set m. fst p \<noteq> k}"
  by (auto simp: jm_delete_filter)

lemma set_jm_delete_subset: "set (jm_delete m k) \<subseteq> set m"
  by (induction m) (auto split: if_splits)

lemma set_jm_set_subset: "set (jm_set m k v) \<subseteq> insert (k, v) (set m)"
  by (induction m) (auto split: if_splits)

lemma set_jm_set: "jm_ok m \<Longrightarrow> set (jm_set m k v) = insert (k, v) {p \<in> set m. fst p \<noteq> k}"
proof (induction m)
  case (Cons p m)
  then show ?case
    by (cases p) (force simp: jm_ok_def)
qed simp

section \<open>Sums over the values\<close>

definition jm_sum :: "('v \<Rightarrow> int) \<Rightarrow> ('k, 'v) jsmap \<Rightarrow> int" where
  "jm_sum f m = (\<Sum>p\<leftarrow>m. f (snd p))"

lemma jm_sum_simps [simp]:
  "jm_sum f [] = 0" "jm_sum f (p # m) = f (snd p) + jm_sum f m" "jm_sum f (m @ n) = jm_sum f m + jm_sum f n"
  by (simp_all add: jm_sum_def)

lemma jm_sum_set:
  "jm_sum f (jm_set m k v) = jm_sum f m + f v - (case jm_get m k of None \<Rightarrow> 0 | Some w \<Rightarrow> f w)"
  by (induction m) (auto split: option.splits)

lemma jm_sum_delete:
  "jm_sum f (jm_delete m k) = jm_sum f m - (case jm_get m k of None \<Rightarrow> 0 | Some w \<Rightarrow> f w)"
  by (induction m) (auto split: option.splits)

lemma jm_sum_nonneg: "(\<And>v. 0 \<le> f v) \<Longrightarrow> 0 \<le> jm_sum f m"
  by (induction m) auto

lemma jm_sum_mono: "(\<And>v. f v \<le> g v) \<Longrightarrow> jm_sum f m \<le> jm_sum g m"
  by (induction m) (auto intro: add_mono)

lemma jm_sum_ge:
  assumes "\<And>v. 0 \<le> f v" "jm_get m k = Some w"
  shows "f w \<le> jm_sum f m"
  using assms(2)
proof (induction m)
  case (Cons p m)
  have "0 \<le> jm_sum f m" using assms(1) by (rule jm_sum_nonneg)
  with Cons assms(1) [of "snd p"] show ?case by (cases p) (auto split: if_splits)
qed simp

lemma jm_sum_pos_ex:
  assumes "0 < jm_sum f m"
  shows "\<exists>k w. (k, w) \<in> set m \<and> 0 < f w"
  using assms
proof (induction m)
  case (Cons p m)
  show ?case
  proof (cases "0 < f (snd p)")
    case True
    then show ?thesis by (intro exI [of _ "fst p"] exI [of _ "snd p"]) simp
  next
    case False
    with Cons show ?thesis by auto
  qed
qed simp

section \<open>The interface\<close>

locale ordered_map =
  fixes lookup :: "'m \<Rightarrow> 'k \<Rightarrow> 'v option"
    and store :: "'m \<Rightarrow> 'k \<Rightarrow> 'v \<Rightarrow> 'm"
    and remove :: "'m \<Rightarrow> 'k \<Rightarrow> 'm"
    and inv :: "'m \<Rightarrow> bool"
  assumes lookup_store: "inv m \<Longrightarrow> lookup (store m k v) j = (if j = k then Some v else lookup m j)"
    and lookup_remove: "inv m \<Longrightarrow> lookup (remove m k) j = (if j = k then None else lookup m j)"
    and inv_store: "inv m \<Longrightarrow> inv (store m k v)"
    and inv_remove: "inv m \<Longrightarrow> inv (remove m k)"
begin

lemma store_commute_lookup:
  "inv m \<Longrightarrow> j \<noteq> k \<Longrightarrow> lookup (store (store m k v) j w) i = lookup (store (store m j w) k v) i"
  by (simp add: lookup_store inv_store)

lemma remove_store_lookup:
  "inv m \<Longrightarrow> lookup (remove (store m k v) k) i = lookup (remove m k) i"
  by (simp add: lookup_store lookup_remove inv_store)

lemma reinsert_lookup:
  "inv m \<Longrightarrow> lookup m k = Some v \<Longrightarrow> lookup (store (remove m k) k v) i = lookup m i"
  by (simp add: lookup_store lookup_remove inv_remove)

end

interpretation jm: ordered_map jm_get jm_set jm_delete jm_ok
  by unfold_locales (auto simp: jm_get_delete)

end
