(* ===== verification/Telemetry_State.thy ===== *)
theory Telemetry_State imports Telemetry_Payload Geo Js_Map begin

text \<open>
  What ingestion stores (\<open>services/deviceTelemetryService.ts\<close>): the order of samples
  (\<open>telemetrySampleIsNewer\<close>), the transaction function \<open>nextTelemetryValue\<close> on the live record of a bus,
  the two bounded credential caches and the bounded latency samples. The record is an object, so it is
  an insertion-ordered list of fields; \<open>Number(v)\<close> of a string or an array is the parameter
  \<open>parse_number\<close> of the definitions that use it.
\<close>

section \<open>Objects\<close>

type_synonym fields = "(string, jsval) jsmap"

definition put_all :: "fields \<Rightarrow> (string \<times> jsval) list \<Rightarrow> fields" where
  "put_all fs kvs = foldl (\<lambda>m kv. jm_set m (fst kv) (snd kv)) fs kvs"

definition delete_all :: "fields \<Rightarrow> string list \<Rightarrow> fields" where
  "delete_all fs ks = foldl jm_delete fs ks"

lemma obj_get_jm: "obj_get fs k = opt_default (jm_get fs k) JUndef"
  by (induction fs) (auto simp: opt_default_def)

lemma obj_get_put_all: "obj_get (put_all fs kvs) k = opt_default (map_of (rev kvs) k) (obj_get fs k)"
  by (induction kvs arbitrary: fs rule: rev_induct)
    (auto simp: put_all_def obj_get_jm opt_default_def split: option.splits)

lemma delete_all_ok: "jm_ok fs \<Longrightarrow> jm_ok (delete_all fs ks)"
  by (induction ks arbitrary: fs) (auto simp: delete_all_def)

lemma obj_get_delete_all:
  "jm_ok fs \<Longrightarrow> obj_get (delete_all fs ks) k = (if k \<in> set ks then JUndef else obj_get fs k)"
proof (induction ks arbitrary: fs)
  case (Cons j ks)
  have "obj_get (delete_all (jm_delete fs j) ks) k = (if k \<in> set ks then JUndef else obj_get (jm_delete fs j) k)"
    using Cons by simp
  then show ?case using Cons.prems by (simp add: delete_all_def obj_get_jm jm_get_delete opt_default_def)
qed (simp add: delete_all_def)

section \<open>Order of samples\<close>

definition telemetry_sample_is_newer ::
    "(jsval \<Rightarrow> jsnum) \<Rightarrow> jsval \<Rightarrow> jsval \<Rightarrow> telemetry_payload \<Rightarrow> jsval \<Rightarrow> bool" where
  "telemetry_sample_is_newer parse existing_timestamp existing_sequence candidate existing_device_timestamp =
    (let timestamp = js_number parse existing_timestamp; sequence = js_number parse existing_sequence;
      has_sequence = is_safe_integer sequence;
      stored_capture = (if existing_device_timestamp = JUndef \<or> existing_device_timestamp = JNull then timestamp
        else js_number parse existing_device_timestamp) in
    if \<not> is_finite timestamp then True
    else if has_sequence \<and> is_finite stored_capture \<and> tp_seq candidate < sequence \<and>
        opt_default (tp_device_timestamp candidate) (tp_timestamp candidate) < stored_capture then False
    else if \<not> num_eq (tp_timestamp candidate) timestamp then tp_timestamp candidate > timestamp
    else has_sequence \<and> tp_seq candidate > sequence)"

section \<open>The live record\<close>

record device_assignment =
  da_bus_id :: string
  da_route_id :: string
  da_device_id :: "string option"
  da_revision :: "jsnum option"

fun finite_num :: "jsval \<Rightarrow> jsnum option" where
  "finite_num (JNum x) = (if is_finite x then Some x else None)"
| "finite_num _ = None"

definition previous_telemetry_gps_hdop :: "jsval \<Rightarrow> jsval \<Rightarrow> jsnum option" where
  "previous_telemetry_gps_hdop anchor live = (case finite_num (js_prop anchor ''gpsHdop'') of
      Some h \<Rightarrow> Some h | None \<Rightarrow> finite_num (js_prop live ''gpsHdop''))"

definition previous_fix :: "(jsval \<Rightarrow> jsnum) \<Rightarrow> jsval \<Rightarrow> motion_sample option" where
  "previous_fix parse current = (let anchor = js_prop current ''plausibilityAnchor'';
      get = (\<lambda>k. js_number parse (nullish (js_prop anchor k) (js_prop current k)));
      lat = get ''lat''; lng = get ''lng''; speed = get ''speed''; timestamp = get ''timestamp'' in
    if is_finite lat \<and> is_finite lng \<and> is_finite speed \<and> is_finite timestamp
    then Some \<lparr>ms_position = \<lparr>pos_lat = lat, pos_lng = lng\<rparr>, ms_speed = speed, ms_timestamp = timestamp,
      ms_gps_hdop = previous_telemetry_gps_hdop anchor current\<rparr>
    else None)"

definition sample_motion :: "telemetry_payload \<Rightarrow> motion_sample" where
  "sample_motion s = \<lparr>ms_position = \<lparr>pos_lat = tp_lat s, pos_lng = tp_lng s\<rparr>, ms_speed = tp_speed s,
     ms_timestamp = tp_timestamp s, ms_gps_hdop = tp_gps_hdop s\<rparr>"

definition num_or_null :: "jsnum option \<Rightarrow> jsval" where
  "num_or_null x = (case x of None \<Rightarrow> JNull | Some v \<Rightarrow> JNum v)"

definition sample_fields :: "telemetry_payload \<Rightarrow> (string \<times> jsval) list" where
  "sample_fields s = [(''lat'', JNum (tp_lat s)), (''lng'', JNum (tp_lng s)), (''speed'', JNum (tp_speed s)),
     (''heading'', JNum (tp_heading s)), (''gpsHdop'', num_or_null (tp_gps_hdop s)), (''motionState'', JStr (tp_motion_state s)),
     (''seq'', JNum (tp_seq s)), (''deviceSentAt'', JNum (tp_device_sent_at s)), (''timestamp'', JNum (tp_timestamp s))] @
     (case tp_device_timestamp s of None \<Rightarrow> [] | Some d \<Rightarrow> [(''deviceTimestamp'', JNum d)])"

definition raw_location :: "telemetry_payload \<Rightarrow> jsval" where
  "raw_location s = JObj [(''lat'', JNum (tp_lat s)), (''lng'', JNum (tp_lng s)), (''speed'', JNum (tp_speed s)),
     (''heading'', JNum (tp_heading s)), (''gpsHdop'', num_or_null (tp_gps_hdop s)), (''motionState'', JStr (tp_motion_state s)),
     (''seq'', JNum (tp_seq s)), (''sampledAt'', JNum (tp_timestamp s))]"

definition anchor_value :: "motion_sample \<Rightarrow> jsval" where
  "anchor_value m = JObj [(''lat'', JNum (pos_lat (ms_position m))), (''lng'', JNum (pos_lng (ms_position m))),
     (''speed'', JNum (ms_speed m)), (''gpsHdop'', num_or_null (ms_gps_hdop m)), (''timestamp'', JNum (ms_timestamp m))]"

text \<open>Whether the fix is plausible after the previous one, and the evidence to store.\<close>

definition judge_transition :: "jsval \<Rightarrow> motion_sample option \<Rightarrow> telemetry_payload \<Rightarrow> bool \<times> outage_evidence option" where
  "judge_transition current previous sample = (if is_plausible_telemetry_transition previous (sample_motion sample) then (True, None)
    else evaluate_outage_reacquisition previous \<lparr>qs_motion = sample_motion sample, qs_state = tp_motion_state sample\<rparr>
      (js_prop current ''rawLocation'') (js_prop current ''plausibilityReacquisition''))"

definition accepted_sample :: "(jsval \<Rightarrow> jsnum) \<Rightarrow> jsval \<Rightarrow> motion_sample option \<Rightarrow> bool \<Rightarrow> telemetry_payload \<Rightarrow> telemetry_payload" where
  "accepted_sample parse current previous plausible sample = (case previous of
      Some p \<Rightarrow> if plausible then sample
        else sample\<lparr>tp_lat := pos_lat (ms_position p), tp_lng := pos_lng (ms_position p), tp_speed := 0,
          tp_heading := (let h = js_number parse (js_prop current ''heading'') in if is_finite h then h else tp_heading sample),
          tp_motion_state := ''uncertain''\<rparr>
    | None \<Rightarrow> sample)"

definition next_anchor :: "motion_sample option \<Rightarrow> bool \<Rightarrow> telemetry_payload \<Rightarrow> motion_sample" where
  "next_anchor previous plausible sample = (case previous of
      None \<Rightarrow> sample_motion sample
    | Some p \<Rightarrow> if plausible \<and> tp_motion_state sample \<noteq> ''uncertain'' then sample_motion sample else p)"

definition retired_by :: "jsval \<Rightarrow> device_assignment \<Rightarrow> bool" where
  "retired_by current a = (case js_prop current ''retiredAssignmentRevision'' of
      JNum r \<Rightarrow> (case da_device_id a of None \<Rightarrow> True | Some d \<Rightarrow> d = [] \<or> js_prop current ''deviceId'' = JStr d) \<and>
        opt_default (da_revision a) 0 < r
    | _ \<Rightarrow> False)"

definition dropped_fields :: "string list" where
  "dropped_fields = [''rtdbCommittedAt'', ''activeRoutePolyline'', ''plausibilityReacquisition'', ''retiredAssignmentRevision'', ''deviceTimestamp'']"

definition written_fields ::
    "device_assignment \<Rightarrow> telemetry_payload \<Rightarrow> telemetry_payload \<Rightarrow> outage_evidence option \<Rightarrow> motion_sample \<Rightarrow> jsnum \<Rightarrow> (string \<times> jsval) list" where
  "written_fields a accepted sample pending anchor received_at = sample_fields accepted @
     (case pending of None \<Rightarrow> [] | Some e \<Rightarrow> [(''plausibilityReacquisition'', encode_evidence (Some e))]) @
     [(''rawLocation'', raw_location sample), (''plausibilityAnchor'', anchor_value anchor),
      (''busId'', JStr (da_bus_id a)), (''routeId'', JStr (da_route_id a))] @
     (case da_device_id a of None \<Rightarrow> [] | Some d \<Rightarrow> if d = [] then [] else [(''deviceId'', JStr d)]) @
     (case da_revision a of None \<Rightarrow> [] | Some r \<Rightarrow> [(''assignmentRevision'', JNum r)]) @
     [(''deviceState'', JStr ''online''),
      (''signalState'', JStr (if tp_motion_state accepted = ''uncertain'' then ''gnss_lost'' else ''connected'')),
      (''backendReceivedAt'', JNum received_at), (''receivedAt'', JObj [(''.sv'', JStr ''timestamp'')])]"

text \<open>\<open>None\<close> is the \<open>undefined\<close> that aborts the transaction; \<open>current\<close> is \<open>None\<close> for an absent node.\<close>

definition next_telemetry_value ::
    "(jsval \<Rightarrow> jsnum) \<Rightarrow> fields option \<Rightarrow> device_assignment \<Rightarrow> telemetry_payload \<Rightarrow> jsnum \<Rightarrow> fields option" where
  "next_telemetry_value parse cur a sample received_at =
    (let current = (case cur of None \<Rightarrow> JNull | Some fs \<Rightarrow> JObj fs) in
    if retired_by current a then None
    else if \<not> telemetry_sample_is_newer parse (js_prop current ''timestamp'') (js_prop current ''seq'') sample (js_prop current ''deviceTimestamp'')
    then None
    else (let previous = previous_fix parse current; judged = judge_transition current previous sample;
        accepted = accepted_sample parse current previous (fst judged) sample;
        base = delete_all (case cur of None \<Rightarrow> [(''status'', JStr ''offline'')] | Some fs \<Rightarrow> fs) dropped_fields in
      Some (put_all base (written_fields a accepted sample (snd judged) (next_anchor previous (fst judged) sample) received_at))))"

section \<open>Bounded caches and samples\<close>

record 'a credential_caches =
  cc_verified :: "(string, 'a) jsmap"
  cc_rejected :: "(string, 'a) jsmap"

definition max_credential_cache_entries :: nat where "max_credential_cache_entries = 1000"

definition bounded_insert :: "nat \<Rightarrow> (string, 'a) jsmap \<Rightarrow> string \<Rightarrow> 'a \<Rightarrow> (string, 'a) jsmap" where
  "bounded_insert limit m k v = jm_set (if \<not> jm_has m k \<and> length m \<ge> limit
     then (case m of [] \<Rightarrow> m | (oldest, _) # _ \<Rightarrow> if oldest = [] then m else jm_delete m oldest) else m) k v"

definition cache_credential :: "bool \<Rightarrow> 'a credential_caches \<Rightarrow> string \<Rightarrow> 'a \<Rightarrow> 'a credential_caches" where
  "cache_credential assigned c k v = (if assigned
    then \<lparr>cc_verified = bounded_insert max_credential_cache_entries (cc_verified c) k v, cc_rejected = jm_delete (cc_rejected c) k\<rparr>
    else \<lparr>cc_verified = jm_delete (cc_verified c) k, cc_rejected = bounded_insert max_credential_cache_entries (cc_rejected c) k v\<rparr>)"

definition telemetry_metric_sample_capacity :: nat where "telemetry_metric_sample_capacity = 512"

definition record_sample :: "jsnum list \<Rightarrow> jsnum \<Rightarrow> jsnum list" where
  "record_sample samples v = (if \<not> is_finite v \<or> v < 0 then samples
    else (if length samples \<ge> telemetry_metric_sample_capacity then tl samples else samples) @ [v])"

definition telemetry_update_gap_ms :: "jsnum option \<Rightarrow> jsnum \<Rightarrow> jsnum option" where
  "telemetry_update_gap_ms previous received = (case previous of None \<Rightarrow> None
    | Some p \<Rightarrow> if \<not> is_finite p \<or> \<not> is_finite received \<or> received < p then None else Some (received - p))"

definition record_server_ingress_gap ::
    "jsnum list \<times> (string, jsnum) jsmap \<Rightarrow> string \<Rightarrow> jsnum \<Rightarrow> jsnum list \<times> (string, jsnum) jsmap" where
  "record_server_ingress_gap st device received = (case st of (samples, seen) \<Rightarrow>
    ((case telemetry_update_gap_ms (jm_get seen device) received of None \<Rightarrow> samples | Some g \<Rightarrow> record_sample samples g),
     bounded_insert max_credential_cache_entries seen device received))"

text \<open>The nearest-rank percentile of \<open>summarizeLatencySamples\<close>, of \<open>n / 100\<close>, for finite samples.\<close>

definition percentile :: "nat \<Rightarrow> real list \<Rightarrow> real" where
  "percentile n samples = (let ordered = sort samples in
    ordered ! min (length ordered - 1) (nat (\<lceil>real n / 100 * real (length ordered)\<rceil> - 1)))"

section \<open>Facts\<close>

lemma map_of_rev_append: "map_of (rev (a @ b)) k = (case map_of (rev b) k of None \<Rightarrow> map_of (rev a) k | Some v \<Rightarrow> Some v)"
  by (simp add: map_add_def)

lemma map_of_rev_optional:
  "k \<noteq> key \<Longrightarrow> map_of (rev (case x of None \<Rightarrow> [] | Some d \<Rightarrow> [(key, f d)])) k = None"
  "k \<noteq> key \<Longrightarrow> map_of (rev (case x of None \<Rightarrow> [] | Some d \<Rightarrow> if P d then [] else [(key, f d)])) k = None"
  by (simp_all split: option.split)

lemma get_written:
  assumes "k \<noteq> ''deviceTimestamp''" "k \<noteq> ''plausibilityReacquisition''" "k \<noteq> ''deviceId''" "k \<noteq> ''assignmentRevision''"
  shows "map_of (rev (written_fields a accepted sample pending anchor r)) k = map_of
    [(''lat'', JNum (tp_lat accepted)), (''lng'', JNum (tp_lng accepted)), (''speed'', JNum (tp_speed accepted)),
     (''motionState'', JStr (tp_motion_state accepted)), (''seq'', JNum (tp_seq accepted)), (''timestamp'', JNum (tp_timestamp accepted)),
     (''rawLocation'', raw_location sample), (''plausibilityAnchor'', anchor_value anchor),
     (''signalState'', JStr (if tp_motion_state accepted = ''uncertain'' then ''gnss_lost'' else ''connected'')),
     (''heading'', JNum (tp_heading accepted)), (''gpsHdop'', num_or_null (tp_gps_hdop accepted)),
     (''deviceSentAt'', JNum (tp_device_sent_at accepted)), (''busId'', JStr (da_bus_id a)), (''routeId'', JStr (da_route_id a)),
     (''deviceState'', JStr ''online''), (''backendReceivedAt'', JNum r), (''receivedAt'', JObj [(''.sv'', JStr ''timestamp'')])] k"
  unfolding written_fields_def sample_fields_def map_of_rev_append
    map_of_rev_optional(1) [OF assms(1)] map_of_rev_optional(1) [OF assms(2)]
    map_of_rev_optional(2) [OF assms(3)] map_of_rev_optional(1) [OF assms(4)]
  by simp

lemma put_written:
  "obj_get (put_all fs (written_fields a accepted sample pending anchor r)) ''timestamp'' = JNum (tp_timestamp accepted)"
  "obj_get (put_all fs (written_fields a accepted sample pending anchor r)) ''seq'' = JNum (tp_seq accepted)"
  "obj_get (put_all fs (written_fields a accepted sample pending anchor r)) ''lat'' = JNum (tp_lat accepted)"
  "obj_get (put_all fs (written_fields a accepted sample pending anchor r)) ''lng'' = JNum (tp_lng accepted)"
  "obj_get (put_all fs (written_fields a accepted sample pending anchor r)) ''speed'' = JNum (tp_speed accepted)"
  "obj_get (put_all fs (written_fields a accepted sample pending anchor r)) ''motionState'' = JStr (tp_motion_state accepted)"
  "obj_get (put_all fs (written_fields a accepted sample pending anchor r)) ''rawLocation'' = raw_location sample"
  "obj_get (put_all fs (written_fields a accepted sample pending anchor r)) ''plausibilityAnchor'' = anchor_value anchor"
  "obj_get (put_all fs (written_fields a accepted sample pending anchor r)) ''signalState'' =
     JStr (if tp_motion_state accepted = ''uncertain'' then ''gnss_lost'' else ''connected'')"
  by (simp_all add: obj_get_put_all get_written opt_default_def)

lemma accepted_keeps_order [simp]:
  "tp_timestamp (accepted_sample parse c p b s) = tp_timestamp s" "tp_seq (accepted_sample parse c p b s) = tp_seq s"
  "tp_device_timestamp (accepted_sample parse c p b s) = tp_device_timestamp s"
  by (simp_all add: accepted_sample_def Let_def split: option.split)

lemma next_valueE:
  assumes "next_telemetry_value parse cur a sample r = Some v"
  obtains base where
    "\<not> retired_by (case cur of None \<Rightarrow> JNull | Some fs \<Rightarrow> JObj fs) a"
    "telemetry_sample_is_newer parse (js_prop (case cur of None \<Rightarrow> JNull | Some fs \<Rightarrow> JObj fs) ''timestamp'')
      (js_prop (case cur of None \<Rightarrow> JNull | Some fs \<Rightarrow> JObj fs) ''seq'') sample
      (js_prop (case cur of None \<Rightarrow> JNull | Some fs \<Rightarrow> JObj fs) ''deviceTimestamp'')"
    "base = delete_all (case cur of None \<Rightarrow> [(''status'', JStr ''offline'')] | Some fs \<Rightarrow> fs) dropped_fields"
    "v = (let current = (case cur of None \<Rightarrow> JNull | Some fs \<Rightarrow> JObj fs); previous = previous_fix parse current;
        judged = judge_transition current previous sample in
      put_all base (written_fields a (accepted_sample parse current previous (fst judged) sample) sample (snd judged)
        (next_anchor previous (fst judged) sample) r))"
  using assms by (simp add: next_telemetry_value_def Let_def split: if_splits)

definition written_keys :: "string list" where
  "written_keys = [''lat'', ''lng'', ''speed'', ''heading'', ''gpsHdop'', ''motionState'', ''seq'', ''deviceSentAt'', ''timestamp'',
      ''deviceTimestamp'', ''plausibilityReacquisition'', ''rawLocation'', ''plausibilityAnchor'', ''busId'', ''routeId'',
      ''deviceId'', ''assignmentRevision'', ''deviceState'', ''signalState'', ''backendReceivedAt'', ''receivedAt'']"

lemma written_none: "k \<notin> set written_keys \<Longrightarrow> map_of (rev (written_fields a accepted sample pending anchor r)) k = None"
  by (subst get_written) (simp_all add: written_keys_def)

section \<open>Moving the anchor\<close>

text \<open>The live record of a bus over time: it starts absent or without stored evidence, samples are
  committed to it, and other transactions may write any field ingestion does not judge by in between.
  The list holds the committed samples, the last one first. An aborted transaction leaves both as they
  are.\<close>

definition motion_keys :: "string list" where
  "motion_keys = [''lat'', ''lng'', ''speed'', ''timestamp'', ''gpsHdop'', ''plausibilityAnchor'', ''rawLocation'',
    ''plausibilityReacquisition'']"

inductive telemetry_run :: "(jsval \<Rightarrow> jsnum) \<Rightarrow> fields option \<Rightarrow> telemetry_payload list \<Rightarrow> bool" for parse where
  absent: "telemetry_run parse None []"
| start: "jm_ok fs \<Longrightarrow> obj_get fs ''plausibilityReacquisition'' = JUndef \<Longrightarrow> telemetry_run parse (Some fs) []"
| commit: "telemetry_run parse cur h \<Longrightarrow> next_telemetry_value parse cur a s r = Some v \<Longrightarrow> telemetry_run parse (Some v) (s # h)"
| other: "telemetry_run parse (Some fs) h \<Longrightarrow> jm_ok gs \<Longrightarrow> \<forall>k\<in>set motion_keys. obj_get gs k = obj_get fs k \<Longrightarrow>
    telemetry_run parse (Some gs) h"

definition qualified_fix :: "telemetry_payload \<Rightarrow> qualified_sample" where
  "qualified_fix s = \<lparr>qs_motion = sample_motion s, qs_state = tp_motion_state s\<rparr>"

text \<open>A fix of the outage after the anchor \<open>p\<close>; the anchor's precision is not part of it, as a missing one
  is filled from the live record.\<close>

definition outage_fix_from :: "motion_sample \<Rightarrow> telemetry_payload \<Rightarrow> bool" where
  "outage_fix_from p s \<longleftrightarrow> (\<exists>h. outage_fix (p\<lparr>ms_gps_hdop := h\<rparr>) (qualified_fix s))"

text \<open>What the stored evidence says about the committed samples.\<close>

definition evidence_inv :: "(jsval \<Rightarrow> jsnum) \<Rightarrow> fields \<Rightarrow> telemetry_payload list \<Rightarrow> bool" where
  "evidence_inv parse fs h \<longleftrightarrow> obj_get fs ''plausibilityReacquisition'' = JUndef \<or>
    (\<exists>p b h'. previous_fix parse (JObj fs) = Some p \<and> h = b # h' \<and> obj_get fs ''rawLocation'' = raw_location b \<and>
      outage_fix_from p b \<and> (\<exists>n. js_prop (obj_get fs ''plausibilityReacquisition'') ''count'' = JNum n \<and> (n = 1 \<or>
        (\<exists>a h''. h' = a # h'' \<and> outage_fix_from p a \<and> coherent (qualified_fix a) (qualified_fix b)))))"

lemma put_all_ok: "jm_ok fs \<Longrightarrow> jm_ok (put_all fs kvs)"
  by (induction kvs arbitrary: fs) (auto simp: put_all_def)

lemma read_candidate_raw: "read_candidate (raw_location b) = Some c \<Longrightarrow> c = qualified_fix b"
  by (auto simp: read_candidate_def raw_location_def num_or_null_def qualified_fix_def sample_motion_def split: option.splits)

lemma outage_fix_from_hdop [simp]: "outage_fix_from (p\<lparr>ms_gps_hdop := x\<rparr>) s = outage_fix_from p s"
  by (simp add: outage_fix_from_def)

lemma outage_fix_fromI: "outage_fix p (qualified_fix s) \<Longrightarrow> outage_fix_from p s"
  unfolding outage_fix_from_def by (rule exI [of _ "ms_gps_hdop p"]) simp

lemma previous_fixD:
  assumes "previous_fix parse current = Some p"
  shows "is_finite (pos_lat (ms_position p))" "is_finite (pos_lng (ms_position p))" "is_finite (ms_speed p)" "is_finite (ms_timestamp p)"
  using assms by (auto simp: previous_fix_def Let_def split: if_splits)

text \<open>A committed sample with a previous fix, field by field.\<close>

lemma next_value_some:
  assumes "next_telemetry_value parse (Some fs) a s r = Some v" "jm_ok fs" "previous_fix parse (JObj fs) = Some p"
    "judge_transition (JObj fs) (Some p) s = (ok, pending)"
  shows "jm_ok v \<and> obj_get v ''rawLocation'' = raw_location s \<and> obj_get v ''plausibilityAnchor'' = anchor_value (next_anchor (Some p) ok s) \<and>
    obj_get v ''plausibilityReacquisition'' = encode_evidence pending \<and> obj_get v ''timestamp'' = JNum (tp_timestamp s) \<and>
    obj_get v ''retiredAssignmentRevision'' = JUndef \<and>
    obj_get v ''deviceTimestamp'' = (case tp_device_timestamp s of None \<Rightarrow> JUndef | Some d \<Rightarrow> JNum d)"
proof -
  let ?acc = "accepted_sample parse (JObj fs) (Some p) ok s"
  have v: "v = put_all (delete_all fs dropped_fields) (written_fields a ?acc s pending (next_anchor (Some p) ok s) r)"
    by (rule next_valueE [OF assms(1)]) (simp add: Let_def assms(3,4))
  have base: "obj_get (delete_all fs dropped_fields) ''plausibilityReacquisition'' = JUndef"
    "obj_get (delete_all fs dropped_fields) ''deviceTimestamp'' = JUndef"
    "obj_get (delete_all fs dropped_fields) ''retiredAssignmentRevision'' = JUndef"
    unfolding obj_get_delete_all [OF assms(2)] by (simp_all add: dropped_fields_def)
  have pend: "map_of (rev (written_fields a ?acc s pending m r)) ''plausibilityReacquisition'' = map_option (\<lambda>e. encode_evidence (Some e)) pending" for m
    by (auto simp: written_fields_def sample_fields_def map_add_def split: option.split)
  have dev: "map_of (rev (written_fields a ?acc s pending m r)) ''deviceTimestamp'' = map_option JNum (tp_device_timestamp s)" for m
    by (auto simp: written_fields_def sample_fields_def map_add_def split: option.split)
  have "jm_ok v" unfolding v by (intro put_all_ok delete_all_ok assms(2))
  moreover have "obj_get v ''plausibilityReacquisition'' = encode_evidence pending"
    unfolding v obj_get_put_all pend by (cases pending) (simp_all add: opt_default_def base encode_evidence_def)
  moreover have "obj_get v ''deviceTimestamp'' = (case tp_device_timestamp s of None \<Rightarrow> JUndef | Some d \<Rightarrow> JNum d)"
    unfolding v obj_get_put_all dev by (cases "tp_device_timestamp s") (simp_all add: opt_default_def base)
  moreover have "obj_get v ''retiredAssignmentRevision'' = JUndef"
    unfolding v obj_get_put_all by (subst written_none) (simp_all add: written_keys_def opt_default_def base)
  ultimately show ?thesis unfolding v put_written by simp
qed

lemma next_value_absent:
  assumes "next_telemetry_value parse cur a s r = Some v" "\<forall>fs. cur = Some fs \<longrightarrow> jm_ok fs"
    "previous_fix parse (case cur of None \<Rightarrow> JNull | Some fs \<Rightarrow> JObj fs) = None"
  shows "jm_ok v \<and> obj_get v ''plausibilityReacquisition'' = JUndef"
proof (rule next_valueE [OF assms(1)])
  fix base
  assume base: "base = delete_all (case cur of None \<Rightarrow> [(''status'', JStr ''offline'')] | Some fs \<Rightarrow> fs) dropped_fields"
    and v: "v = (let current = (case cur of None \<Rightarrow> JNull | Some fs \<Rightarrow> JObj fs); previous = previous_fix parse current;
        judged = judge_transition current previous s in
      put_all base (written_fields a (accepted_sample parse current previous (fst judged) s) s (snd judged)
        (next_anchor previous (fst judged) s) r))"
  have start: "jm_ok (case cur of None \<Rightarrow> [(''status'', JStr ''offline'')] | Some fs \<Rightarrow> fs)"
    using assms(2) by (auto simp: jm_ok_def split: option.split)
  have "judge_transition c None s = (True, None)" for c by (simp add: judge_transition_def is_plausible_telemetry_transition_def)
  moreover have "map_of (rev (written_fields a acc s None m r)) ''plausibilityReacquisition'' = None" for acc m
    by (auto simp: written_fields_def sample_fields_def map_add_def split: option.split)
  ultimately show ?thesis unfolding v base Let_def assms(3)
    by (simp add: obj_get_put_all opt_default_def obj_get_delete_all [OF start] dropped_fields_def put_all_ok delete_all_ok start)
qed

lemma previous_fix_anchor:
  assumes "obj_get v ''plausibilityAnchor'' = anchor_value m" "is_finite (pos_lat (ms_position m))" "is_finite (pos_lng (ms_position m))"
    "is_finite (ms_speed m)" "is_finite (ms_timestamp m)"
  shows "\<exists>x. previous_fix parse (JObj v) = Some (m\<lparr>ms_gps_hdop := x\<rparr>)"
  using assms by (cases m; cases "ms_position m") (simp add: previous_fix_def anchor_value_def nullish_def Let_def)

lemma previous_fix_cong: "\<forall>k\<in>set motion_keys. obj_get gs k = obj_get fs k \<Longrightarrow> previous_fix parse (JObj gs) = previous_fix parse (JObj fs)"
  by (simp add: previous_fix_def motion_keys_def previous_telemetry_gps_hdop_def Let_def split: option.split)

lemma judge_cases:
  assumes "judge_transition current (Some p) s = (ok, pending)"
    "\<not> is_plausible_telemetry_transition (Some p) (sample_motion s)"
  shows "evaluate_outage_reacquisition (Some p) (qualified_fix s) (js_prop current ''rawLocation'')
    (js_prop current ''plausibilityReacquisition'') = (ok, pending)"
  using assms by (simp add: judge_transition_def qualified_fix_def)

text \<open>An acceptance that is not an ordinary transition uses up two stored fixes.\<close>

lemma acceptance_needs_two:
  assumes "evidence_inv parse fs h" "previous_fix parse (JObj fs) = Some p"
    "evaluate_outage_reacquisition (Some p) (qualified_fix s) (obj_get fs ''rawLocation'') (obj_get fs ''plausibilityReacquisition'') = (True, pending)"
  shows "\<exists>x y h'. h = y # x # h' \<and> outage_fix_from p x \<and> outage_fix_from p y \<and> outage_fix_from p s \<and>
    coherent (qualified_fix x) (qualified_fix y) \<and> coherent (qualified_fix y) (qualified_fix s)"
proof -
  obtain t0 where t0: "ms_timestamp p = Fin t0" using previous_fixD(4) [OF assms(2)] by (auto elim!: is_finiteE)
  from evaluate_outage_cases [OF assms(3) t0] obtain c count where
    c: "outage_fix p (qualified_fix s)" "read_candidate (obj_get fs ''rawLocation'') = Some c" "coherent c (qualified_fix s)"
      "js_prop (obj_get fs ''plausibilityReacquisition'') ''count'' = JNum count" "num_eq count 2" by auto
  then have "obj_get fs ''plausibilityReacquisition'' \<noteq> JUndef" by auto
  with assms(1) obtain q b h' n where b: "previous_fix parse (JObj fs) = Some q" "h = b # h'" "obj_get fs ''rawLocation'' = raw_location b"
      "outage_fix_from q b" "js_prop (obj_get fs ''plausibilityReacquisition'') ''count'' = JNum n"
      "n = 1 \<or> (\<exists>a h''. h' = a # h'' \<and> outage_fix_from q a \<and> coherent (qualified_fix a) (qualified_fix b))"
    unfolding evidence_inv_def by blast
  moreover have "n \<noteq> 1" using c(4,5) b(5) by (auto simp: num_eq_def)
  moreover have "c = qualified_fix b" using read_candidate_raw c(2) b(3) by simp
  ultimately show ?thesis using assms(2) c outage_fix_fromI by auto
qed

lemma evidence_inv_commit:
  assumes inv: "evidence_inv parse fs h" and ok: "jm_ok fs" and commit: "next_telemetry_value parse (Some fs) a s r = Some v"
    and prev: "previous_fix parse (JObj fs) = Some p"
  shows "evidence_inv parse v (s # h)"
proof -
  obtain acc pending where j: "judge_transition (JObj fs) (Some p) s = (acc, pending)" by fastforce
  note v = next_value_some [OF commit ok prev j]
  note fin = previous_fixD [OF prev]
  show ?thesis
  proof (cases pending)
    case None
    with v show ?thesis by (simp add: evidence_inv_def encode_evidence_def)
  next
    case (Some e)
    then have imp: "\<not> is_plausible_telemetry_transition (Some p) (sample_motion s)" using j by (auto simp: judge_transition_def)
    obtain t0 where t0: "ms_timestamp p = Fin t0" using fin(4) by (auto elim!: is_finiteE)
    note cases = evaluate_outage_cases [OF judge_cases [OF j imp] t0]
    have acc: "\<not> acc \<or> pending = None"
      using judge_cases [OF j imp] by (auto simp: evaluate_outage_reacquisition_def Let_def split: if_splits option.splits)
    with Some have held: "\<not> acc" by simp
    then have anchor: "obj_get v ''plausibilityAnchor'' = anchor_value p" using v by (simp add: next_anchor_def)
    obtain x where p': "previous_fix parse (JObj v) = Some (p\<lparr>ms_gps_hdop := x\<rparr>)" using previous_fix_anchor [OF anchor fin] by blast
    have fix': "outage_fix_from p s" using cases Some outage_fix_fromI by auto
    have count: "js_prop (obj_get v ''plausibilityReacquisition'') ''count'' = JNum (oe_count e)"
      using v Some by (simp add: encode_evidence_def)
    from cases Some held consider "oe_count e = 1"
      | c n where "read_candidate (obj_get fs ''rawLocation'') = Some c" "coherent c (qualified_fix s)"
        "js_prop (obj_get fs ''plausibilityReacquisition'') ''count'' = JNum n" by fastforce
    then show ?thesis
    proof cases
      case 1
      with p' fix' count v show ?thesis unfolding evidence_inv_def by auto
    next
      case 2
      then have "obj_get fs ''plausibilityReacquisition'' \<noteq> JUndef" by auto
      with inv prev obtain b h' where b: "h = b # h'" "obj_get fs ''rawLocation'' = raw_location b" "outage_fix_from p b"
        unfolding evidence_inv_def by auto
      moreover have "c = qualified_fix b" using read_candidate_raw 2(1) b(2) by simp
      ultimately show ?thesis using p' fix' count v 2(2) unfolding evidence_inv_def by auto
    qed
  qed
qed

lemma telemetry_run_inv: "telemetry_run parse cur h \<Longrightarrow> (\<forall>fs. cur = Some fs \<longrightarrow> jm_ok fs \<and> evidence_inv parse fs h)"
proof (induction rule: telemetry_run.induct)
  case (commit cur h a s r v)
  show ?case
  proof (cases "previous_fix parse (case cur of None \<Rightarrow> JNull | Some fs \<Rightarrow> JObj fs)")
    case None
    with next_value_absent [OF commit.hyps(2)] commit.IH show ?thesis by (auto simp: evidence_inv_def)
  next
    case (Some p)
    then obtain fs where fs: "cur = Some fs" by (cases cur) (auto simp: previous_fix_def nullish_def Let_def)
    obtain acc pending where j: "judge_transition (JObj fs) (Some p) s = (acc, pending)" by fastforce
    from Some fs commit.IH commit.hyps(2) show ?thesis
      using next_value_some [OF _ _ _ j] evidence_inv_commit by fastforce
  qed
next
  case (other fs h gs)
  then show ?case using previous_fix_cong [OF other.hyps(3)]
    by (simp add: evidence_inv_def motion_keys_def)
qed (auto simp: evidence_inv_def)

section \<open>Properties\<close>

definition demo_assignment :: device_assignment where
  "demo_assignment = \<lparr>da_bus_id = ''b'', da_route_id = ''r'', da_device_id = None, da_revision = None\<rparr>"

definition demo_record :: fields where
  "demo_record = [(''sessionId'', JStr ''ride''), (''lat'', JNum 0), (''lng'', JNum 0), (''speed'', JNum 0), (''timestamp'', JNum 1000)]"

definition demo_uncertain :: telemetry_payload where
  "demo_uncertain = \<lparr>tp_lat = 10, tp_lng = 10, tp_speed = 0, tp_heading = 0, tp_gps_hdop = None, tp_motion_state = ''uncertain'',
     tp_seq = 5, tp_device_sent_at = 2000, tp_timestamp = 2000, tp_device_timestamp = None\<rparr>"

lemma demo_commit: "next_telemetry_value (\<lambda>_. NaN) (Some demo_record) demo_assignment demo_uncertain 2000 =
    Some (the (next_telemetry_value (\<lambda>_. NaN) (Some demo_record) demo_assignment demo_uncertain 2000))"
  by (simp add: next_telemetry_value_def Let_def retired_by_def demo_record_def telemetry_sample_is_newer_def demo_uncertain_def)

text \<open>C9. The anchor of a bus moves only on evidence: in every run of the live record that starts absent or
  without stored evidence, with any other writes to the fields ingestion does not judge by in between, a
  committed sample replaces the anchor \<open>p\<close> only when it is not uncertain, and when it is a plausible
  transition from \<open>p\<close>, that is, more than five minutes after it or within the travel envelope of at most
  one minute, or else is the third committed fix in a row of the outage after \<open>p\<close>: all three are usable,
  between one and five minutes after \<open>p\<close> and within the travel envelope of that time, and each follows
  the one before it after half a second to five seconds, plausibly.\<close>

theorem anchor_moves_on_evidence:
  assumes "telemetry_run parse (Some fs) h" "next_telemetry_value parse (Some fs) a s r = Some v"
    and "previous_fix parse (JObj fs) = Some p" "obj_get v ''plausibilityAnchor'' \<noteq> anchor_value p"
  shows "tp_motion_state s \<noteq> ''uncertain'' \<and>
    (is_plausible_telemetry_transition (Some p) (sample_motion s) \<or>
     (\<exists>x y h'. h = y # x # h' \<and> outage_fix_from p x \<and> outage_fix_from p y \<and> outage_fix_from p s \<and>
       coherent (qualified_fix x) (qualified_fix y) \<and> coherent (qualified_fix y) (qualified_fix s)))"
proof -
  have inv: "jm_ok fs" "evidence_inv parse fs h" using telemetry_run_inv [OF assms(1)] by auto
  obtain acc pending where j: "judge_transition (JObj fs) (Some p) s = (acc, pending)" by fastforce
  with next_value_some [OF assms(2) inv(1) assms(3) j] assms(4) have acc: "acc" "tp_motion_state s \<noteq> ''uncertain''"
    by (auto simp: next_anchor_def split: if_splits)
  show ?thesis
  proof (cases "is_plausible_telemetry_transition (Some p) (sample_motion s)")
    case False
    from judge_cases [OF j this] acc(1) have "evaluate_outage_reacquisition (Some p) (qualified_fix s) (obj_get fs ''rawLocation'')
        (obj_get fs ''plausibilityReacquisition'') = (True, pending)" by simp
    from acceptance_needs_two [OF inv(2) assms(3) this] acc(2) show ?thesis by blast
  qed (use acc(2) in blast)
qed

text \<open>A bus at the origin loses its signal for two hundred seconds and comes back a kilometre north: the
  first two fixes are held, the third moves the anchor.\<close>

definition demo_north :: "real \<Rightarrow> telemetry_payload" where
  "demo_north t = \<lparr>tp_lat = Fin (1 / 100), tp_lng = 0, tp_speed = 36, tp_heading = 0, tp_gps_hdop = Some 1,
     tp_motion_state = ''moving'', tp_seq = 5, tp_device_sent_at = Fin t, tp_timestamp = Fin t, tp_device_timestamp = None\<rparr>"

definition demo_origin :: motion_sample where
  "demo_origin = \<lparr>ms_position = null_island, ms_speed = 36, ms_timestamp = 0, ms_gps_hdop = Some 1\<rparr>"

definition demo_parked :: fields where
  "demo_parked = [(''lat'', JNum 0), (''lng'', JNum 0), (''speed'', JNum 36), (''timestamp'', JNum 0), (''gpsHdop'', JNum 1)]"

lemma demo_distance: "\<exists>d. haversine_meters null_island \<lparr>pos_lat = Fin (1 / 100), pos_lng = 0\<rparr> = Fin d \<and> 700 < d \<and> d < 1500"
proof -
  let ?q = "\<lparr>pos_lat = Fin (1 / 100), pos_lng = 0\<rparr>" and ?x = "pi / 36000"
  have x: "0 < ?x" "?x < pi / 2" using pi_gt_zero by auto
  have valid: "valid_position null_island" "valid_position ?q" by (simp_all add: valid_position_def null_island_def)
  then obtain a b c d where abcd: "null_island = \<lparr>pos_lat = Fin a, pos_lng = Fin b\<rparr>" "?q = \<lparr>pos_lat = Fin c, pos_lng = Fin d\<rparr>"
    "haversine_meters null_island ?q = Fin (12742000 * arc (bounded_hav (hav_term a b c d)))" by (rule haversine_valid)
  have "a = 0" "b = 0" "c = 1 / 100" "d = 0" using abcd(1,2) by (simp_all add: null_island_def)
  have h: "hav_term a b c d = sin ?x ^ 2" unfolding \<open>a = 0\<close> \<open>b = 0\<close> \<open>d = 0\<close> \<open>c = 1 / 100\<close>
    by (simp add: hav_term_def power2_eq_square)
  have "bounded_hav (sin ?x ^ 2) = sin ?x ^ 2" by (simp add: bounded_hav_def abs_square_le_1)
  moreover have "arc (sin ?x ^ 2) = ?x"
  proof -
    have "1 - sin ?x ^ 2 = cos ?x ^ 2" by (simp add: cos_squared_eq)
    moreover have "0 < cos ?x" "0 < sin ?x" using x by (auto intro: cos_gt_zero sin_gt_zero)
    moreover have "arctan (sin ?x / cos ?x) = ?x" using x arctan_tan [of ?x] by (simp add: tan_def)
    ultimately show ?thesis by (simp add: arc_def)
  qed
  ultimately have "haversine_meters null_island ?q = Fin (12742000 * (pi / 36000))" using abcd(3) h by simp
  moreover have "2 \<le> pi" "pi < 4" using pi_ge_two pi_less_4 by auto
  ultimately show ?thesis by (intro exI [of _ "6371 * pi / 18"]) auto
qed

lemma demo_motion:
  assumes "200000 \<le> t" "t \<le> 203000" "is_safe_integer (Fin t)"
  shows "\<not> is_plausible_telemetry_transition (Some demo_origin) (sample_motion (demo_north t))"
    "outage_fix demo_origin (qualified_fix (demo_north t))"
proof -
  obtain d where d: "haversine_meters null_island \<lparr>pos_lat = Fin (1 / 100), pos_lng = 0\<rparr> = Fin d" "700 < d" "d < 1500"
    using demo_distance by blast
  note defs = demo_origin_def demo_north_def sample_motion_def qualified_fix_def motion_constants
  have reach: "within_travel_envelope demo_origin (sample_motion (demo_north t)) (Fin g) \<longleftrightarrow> d \<le> 32 + g / 100" if "30000 \<le> g" for g
    using that by (simp add: within_travel_envelope_def adaptive_gnss_error_meters_def defs clamp_def opt_default_def d(1) [simplified])
  from assms d reach [of 60000] show "\<not> is_plausible_telemetry_transition (Some demo_origin) (sample_motion (demo_north t))"
    by (simp add: is_plausible_telemetry_transition_def motion_constants) (simp add: demo_origin_def demo_north_def sample_motion_def)
  have "usable_reacquisition_fix (qualified_fix (demo_north t))"
    using assms(3) by (simp add: usable_reacquisition_fix_def defs)
  moreover have "within_travel_envelope demo_origin (sample_motion (demo_north t)) (Fin t)"
    using reach [of t] assms d by simp
  ultimately show "outage_fix demo_origin (qualified_fix (demo_north t))"
    using assms by (simp add: outage_fix_def Let_def) (simp add: defs)
qed

lemma demo_coherent:
  assumes "t + 500 \<le> u" "u \<le> t + 5000" "is_safe_integer (Fin t)"
  shows "coherent (qualified_fix (demo_north t)) (qualified_fix (demo_north u))"
proof -
  have "haversine_meters \<lparr>pos_lat = Fin (1 / 100), pos_lng = 0\<rparr> \<lparr>pos_lat = Fin (1 / 100), pos_lng = 0\<rparr> = 0"
    using hav.dist_self [of "\<lparr>pos_lat = Fin (1 / 100), pos_lng = 0\<rparr>"] by (simp add: valid_position_def)
  then have "within_travel_envelope (sample_motion (demo_north t)) (sample_motion (demo_north u)) (Fin (u - t))"
    using assms by (simp add: within_travel_envelope_def adaptive_gnss_error_meters_def motion_constants demo_north_def
      sample_motion_def clamp_def opt_default_def)
  with assms show ?thesis
    by (simp add: coherent_def usable_reacquisition_fix_def is_plausible_telemetry_transition_def Let_def motion_constants)
      (simp add: qualified_fix_def demo_north_def sample_motion_def motion_constants)
qed

text \<open>What holding a fix leaves, with the evidence for the next one.\<close>

definition demo_held :: "fields \<Rightarrow> real \<Rightarrow> jsval \<Rightarrow> jsval \<Rightarrow> bool" where
  "demo_held fs t raw ev \<longleftrightarrow> jm_ok fs \<and> previous_fix (\<lambda>_. NaN) (JObj fs) = Some demo_origin \<and>
    obj_get fs ''retiredAssignmentRevision'' = JUndef \<and> obj_get fs ''deviceTimestamp'' = JUndef \<and>
    obj_get fs ''timestamp'' = JNum (Fin t) \<and> obj_get fs ''rawLocation'' = raw \<and> obj_get fs ''plausibilityReacquisition'' = ev"

lemma demo_commits:
  assumes "demo_held fs t raw ev" "t < u"
  obtains v where "next_telemetry_value (\<lambda>_. NaN) (Some fs) demo_assignment (demo_north u) (Fin u) = Some v"
proof -
  have "\<not> retired_by (JObj fs) demo_assignment" using assms by (simp add: retired_by_def demo_held_def)
  moreover have "telemetry_sample_is_newer (\<lambda>_. NaN) (JNum (Fin t)) seq (demo_north u) JUndef" for seq
    using assms by (simp add: telemetry_sample_is_newer_def demo_north_def Let_def opt_default_def)
  ultimately show thesis using that assms by (simp add: next_telemetry_value_def demo_held_def Let_def)
qed

lemma demo_holds:
  assumes "demo_held fs t raw ev" "t < u" "200000 \<le> u" "u \<le> 203000" "is_safe_integer (Fin u)"
    and "evaluate_outage_reacquisition (Some demo_origin) (qualified_fix (demo_north u)) raw ev = (False, Some e)"
  obtains v where "next_telemetry_value (\<lambda>_. NaN) (Some fs) demo_assignment (demo_north u) (Fin u) = Some v"
    "demo_held v u (raw_location (demo_north u)) (encode_evidence (Some e))"
proof -
  obtain v where v: "next_telemetry_value (\<lambda>_. NaN) (Some fs) demo_assignment (demo_north u) (Fin u) = Some v"
    using demo_commits [OF assms(1,2)] .
  have j: "judge_transition (JObj fs) (Some demo_origin) (demo_north u) = (False, Some e)"
    using demo_motion(1) [OF assms(3,4,5)] assms(1,6) by (simp add: judge_transition_def demo_held_def qualified_fix_def)
  have ok: "jm_ok fs" "previous_fix (\<lambda>_. NaN) (JObj fs) = Some demo_origin" using assms(1) by (auto simp: demo_held_def)
  note n = next_value_some [OF v ok j]
  have "previous_fix (\<lambda>_. NaN) (JObj v) = Some demo_origin"
    using n by (simp add: previous_fix_def next_anchor_def anchor_value_def demo_origin_def null_island_def nullish_def
      previous_telemetry_gps_hdop_def num_or_null_def Let_def)
  with n have "demo_held v u (raw_location (demo_north u)) (encode_evidence (Some e))"
    by (simp add: demo_held_def demo_north_def)
  with v show thesis by (rule that)
qed

lemma demo_evaluate:
  assumes "200000 \<le> t" "t + 500 \<le> u" "u \<le> t + 5000" "u \<le> 203000" "is_safe_integer (Fin t)" "is_safe_integer (Fin u)"
    "is_safe_integer (Fin b)" "0 < b" "n = 1 \<and> b = t \<or> n = 2 \<and> b + 500 \<le> t \<and> t \<le> b + 5000"
  shows "evaluate_outage_reacquisition (Some demo_origin) (qualified_fix (demo_north u)) (raw_location (demo_north t))
      (encode_evidence (Some \<lparr>oe_count = Fin n, oe_started_at = Fin b\<rparr>)) =
    (if n = 2 then (True, None) else (False, Some \<lparr>oe_count = 2, oe_started_at = Fin b\<rparr>))"
proof -
  have "200000 \<le> u" using assms by simp
  note u = demo_motion(2) [OF this assms(4,6)] and t = demo_coherent [OF assms(2,3,5)]
  have "read_candidate (raw_location (demo_north t)) = Some (qualified_fix (demo_north t))"
    by (simp add: read_candidate_def raw_location_def qualified_fix_def demo_north_def sample_motion_def num_or_null_def)
  moreover have "ms_timestamp (qs_motion (qualified_fix (demo_north x))) = Fin x" for x
    by (simp add: qualified_fix_def demo_north_def sample_motion_def)
  moreover have "ms_timestamp demo_origin = 0" by (simp add: demo_origin_def)
  ultimately show ?thesis using u t assms
    by (auto simp: evaluate_outage_reacquisition_def outage_fix_def coherent_def Let_def motion_constants is_object_def
      encode_evidence_def raw_location_def num_eq_def)
qed

lemma demo_evaluate_first:
  "evaluate_outage_reacquisition (Some demo_origin) (qualified_fix (demo_north 200000)) JUndef JUndef =
    (False, Some \<lparr>oe_count = 1, oe_started_at = Fin 200000\<rparr>)"
proof -
  have "ms_timestamp (qs_motion (qualified_fix (demo_north 200000))) = Fin 200000" "ms_timestamp demo_origin = 0"
    by (simp_all add: qualified_fix_def demo_north_def sample_motion_def demo_origin_def)
  with demo_motion(2) [of 200000] show ?thesis
    by (simp add: evaluate_outage_reacquisition_def outage_fix_def Let_def motion_constants is_object_def)
qed

theorem anchor_moves_on_evidence_witness:
  "\<exists>fs v. telemetry_run (\<lambda>_. NaN) (Some fs) [demo_north 201000, demo_north 200000] \<and>
    next_telemetry_value (\<lambda>_. NaN) (Some fs) demo_assignment (demo_north 202000) 202000 = Some v \<and>
    obj_get v ''plausibilityAnchor'' = anchor_value (sample_motion (demo_north 202000)) \<and>
    outage_fix_from demo_origin (demo_north 200000) \<and> outage_fix_from demo_origin (demo_north 201000) \<and>
    coherent (qualified_fix (demo_north 200000)) (qualified_fix (demo_north 201000))"
proof -
  have p0: "demo_held demo_parked 0 JUndef JUndef"
    by (simp add: demo_held_def demo_parked_def jm_ok_def previous_fix_def nullish_def previous_telemetry_gps_hdop_def
      demo_origin_def null_island_def Let_def)
  obtain v1 where v1: "next_telemetry_value (\<lambda>_. NaN) (Some demo_parked) demo_assignment (demo_north 200000) (Fin 200000) = Some v1"
      "demo_held v1 200000 (raw_location (demo_north 200000)) (encode_evidence (Some \<lparr>oe_count = 1, oe_started_at = Fin 200000\<rparr>))"
    using demo_holds [OF p0 _ _ _ _ demo_evaluate_first] by auto
  obtain v2 where v2: "next_telemetry_value (\<lambda>_. NaN) (Some v1) demo_assignment (demo_north 201000) (Fin 201000) = Some v2"
      "demo_held v2 201000 (raw_location (demo_north 201000)) (encode_evidence (Some \<lparr>oe_count = 2, oe_started_at = Fin 200000\<rparr>))"
    using demo_holds [OF v1(2), of 201000] demo_evaluate [of 200000 201000 200000 1] by auto
  have run: "telemetry_run (\<lambda>_. NaN) (Some v2) [demo_north 201000, demo_north 200000]"
    by (rule telemetry_run.commit [OF telemetry_run.commit [OF telemetry_run.start v1(1)] v2(1)])
      (simp_all add: demo_parked_def jm_ok_def)
  obtain v3 where v3: "next_telemetry_value (\<lambda>_. NaN) (Some v2) demo_assignment (demo_north 202000) (Fin 202000) = Some v3"
    using demo_commits [OF v2(2), of 202000] by auto
  have ok: "jm_ok v2" "previous_fix (\<lambda>_. NaN) (JObj v2) = Some demo_origin" using v2(2) by (auto simp: demo_held_def)
  have far: "\<not> is_plausible_telemetry_transition (Some demo_origin) (sample_motion (demo_north 202000))" by (rule demo_motion(1)) simp_all
  have "judge_transition (JObj v2) (Some demo_origin) (demo_north 202000) = (True, None)"
    using far v2(2) demo_evaluate [of 201000 202000 200000 2] by (simp add: judge_transition_def demo_held_def qualified_fix_def)
  with next_value_some [OF v3 ok] have anchor: "obj_get v3 ''plausibilityAnchor'' = anchor_value (sample_motion (demo_north 202000))"
    by (simp add: next_anchor_def demo_north_def)
  then have "obj_get v3 ''plausibilityAnchor'' \<noteq> anchor_value demo_origin"
    by (simp add: anchor_value_def demo_origin_def sample_motion_def demo_north_def)
  from anchor_moves_on_evidence [OF run v3 ok(2) this] far
  have "outage_fix_from demo_origin (demo_north 200000) \<and> outage_fix_from demo_origin (demo_north 201000) \<and>
    coherent (qualified_fix (demo_north 200000)) (qualified_fix (demo_north 201000))" by auto
  with run v3 anchor show ?thesis by auto
qed

text \<open>C12. Samples of a bus are stored in order: once a sample is committed, a sample committed next was
  captured later, or in the same millisecond with a higher sequence number; so a replay of the stored
  sample is dropped.\<close>

theorem telemetry_commits_in_order:
  assumes "next_telemetry_value parse cur a s r = Some v" "tp_timestamp s = Fin t" "is_safe_integer (tp_seq s)"
    "next_telemetry_value parse (Some v) a' s' r' = Some v'"
  shows "(tp_timestamp s' > Fin t \<or> tp_timestamp s' = Fin t \<and> tp_seq s' > tp_seq s) \<and> s' \<noteq> s"
proof -
  from assms(1) have v: "obj_get v ''timestamp'' = JNum (Fin t)" "obj_get v ''seq'' = JNum (tp_seq s)"
    by (rule next_valueE; simp add: Let_def put_written assms(2))+
  from assms(4) have "telemetry_sample_is_newer parse (JNum (Fin t)) (JNum (tp_seq s)) s' (js_prop (JObj v) ''deviceTimestamp'')"
    by (rule next_valueE) (simp add: v)
  with assms(3) have newer: "tp_timestamp s' > Fin t \<or> tp_timestamp s' = Fin t \<and> tp_seq s' > tp_seq s"
    by (cases "tp_timestamp s'") (auto simp: telemetry_sample_is_newer_def Let_def num_eq_def split: if_splits)
  obtain q where "tp_seq s = Fin q" using assms(3) by (auto elim!: is_safe_integerE)
  with newer assms(2) show ?thesis by auto
qed

theorem telemetry_commits_in_order_witness:
  "tp_timestamp (demo_uncertain\<lparr>tp_seq := 6\<rparr>) = 2000 \<and> demo_uncertain\<lparr>tp_seq := 6\<rparr> \<noteq> demo_uncertain"
proof -
  define v where "v = the (next_telemetry_value (\<lambda>_. NaN) (Some demo_record) demo_assignment demo_uncertain 2000)"
  have commit: "next_telemetry_value (\<lambda>_. NaN) (Some demo_record) demo_assignment demo_uncertain 2000 = Some v"
    unfolding v_def by (rule demo_commit)
  have v: "obj_get v ''timestamp'' = JNum (Fin 2000)" "obj_get v ''seq'' = JNum (Fin 5)"
    by (rule next_valueE [OF commit], simp add: Let_def put_written, simp add: demo_uncertain_def)+
  have "obj_get v ''retiredAssignmentRevision'' = JUndef"
    by (rule next_valueE [OF commit])
      (simp add: Let_def obj_get_put_all written_none written_keys_def opt_default_def obj_get_delete_all demo_record_def jm_ok_def
        dropped_fields_def)
  then have "\<not> retired_by (JObj v) demo_assignment" by (simp add: retired_by_def)
  moreover have "telemetry_sample_is_newer (\<lambda>_. NaN) (JNum (Fin 2000)) (JNum (Fin 5)) (demo_uncertain\<lparr>tp_seq := 6\<rparr>) w" for w
    by (simp add: telemetry_sample_is_newer_def demo_uncertain_def)
  ultimately have "\<exists>v'. next_telemetry_value (\<lambda>_. NaN) (Some v) demo_assignment (demo_uncertain\<lparr>tp_seq := 6\<rparr>) 2000 = Some v'"
    by (simp add: next_telemetry_value_def Let_def v)
  then obtain v' where "next_telemetry_value (\<lambda>_. NaN) (Some v) demo_assignment (demo_uncertain\<lparr>tp_seq := 6\<rparr>) 2000 = Some v'" ..
  from telemetry_commits_in_order [OF commit _ _ this, where t = 2000] show ?thesis
    by (auto simp: demo_uncertain_def)
qed

text \<open>A fix that is neither a plausible transition nor corroborated is held: the live record keeps the
  previous accepted position at speed zero, marked uncertain and GNSS lost, and the anchor does not
  move; the fix itself is still observable as the raw location. An uncertain fix never becomes the
  anchor of a record that has one.\<close>

theorem implausible_fix_is_held:
  assumes "next_telemetry_value parse (Some fs) a s r = Some v" "previous_fix parse (JObj fs) = Some p"
    "\<not> fst (judge_transition (JObj fs) (Some p) s) \<or> tp_motion_state s = ''uncertain''"
  shows "obj_get v ''plausibilityAnchor'' = anchor_value p \<and> obj_get v ''rawLocation'' = raw_location s \<and>
    obj_get v ''signalState'' = JStr ''gnss_lost'' \<and>
    (\<not> fst (judge_transition (JObj fs) (Some p) s) \<longrightarrow> obj_get v ''lat'' = JNum (pos_lat (ms_position p)) \<and>
      obj_get v ''lng'' = JNum (pos_lng (ms_position p)) \<and> obj_get v ''speed'' = JNum 0 \<and> obj_get v ''motionState'' = JStr ''uncertain'')"
  using assms(1)
proof (rule next_valueE)
  fix base
  assume "v = (let current = (case Some fs of None \<Rightarrow> JNull | Some fs \<Rightarrow> JObj fs); previous = previous_fix parse current;
        judged = judge_transition current previous s in
      put_all base (written_fields a (accepted_sample parse current previous (fst judged) s) s (snd judged)
        (next_anchor previous (fst judged) s) r))"
  then have v: "v = put_all base (written_fields a (accepted_sample parse (JObj fs) (Some p) (fst (judge_transition (JObj fs) (Some p) s)) s) s
      (snd (judge_transition (JObj fs) (Some p) s)) (next_anchor (Some p) (fst (judge_transition (JObj fs) (Some p) s)) s) r)"
    using assms(2) by (simp add: Let_def)
  show ?thesis unfolding v put_written using assms(3) by (auto simp: accepted_sample_def next_anchor_def)
qed

theorem implausible_fix_is_held_witness:
  "obj_get (the (next_telemetry_value (\<lambda>_. NaN) (Some demo_record) demo_assignment demo_uncertain 2000)) ''plausibilityAnchor'' =
    anchor_value \<lparr>ms_position = null_island, ms_speed = 0, ms_timestamp = 1000, ms_gps_hdop = None\<rparr>"
proof -
  have "previous_fix (\<lambda>_. NaN) (JObj demo_record) = Some \<lparr>ms_position = null_island, ms_speed = 0, ms_timestamp = 1000, ms_gps_hdop = None\<rparr>"
    by (simp add: previous_fix_def demo_record_def nullish_def null_island_def previous_telemetry_gps_hdop_def Let_def)
  from implausible_fix_is_held [OF demo_commit this] show ?thesis by (simp add: demo_uncertain_def)
qed

text \<open>C13. Ingestion never erases what it does not own: every field of the live record other than the ones
  a sample writes and the five retired ones keeps its value, so the lifecycle of a ride survives.\<close>

theorem ingestion_preserves_lifecycle:
  assumes "next_telemetry_value parse (Some fs) a s r = Some v" "jm_ok fs" "k \<notin> set dropped_fields" "k \<notin> set written_keys"
  shows "obj_get v k = obj_get fs k"
  using assms(1)
proof (rule next_valueE)
  fix base
  assume base: "base = delete_all (case Some fs of None \<Rightarrow> [(''status'', JStr ''offline'')] | Some fs \<Rightarrow> fs) dropped_fields"
    and v: "v = (let current = (case Some fs of None \<Rightarrow> JNull | Some fs \<Rightarrow> JObj fs); previous = previous_fix parse current;
        judged = judge_transition current previous s in
      put_all base (written_fields a (accepted_sample parse current previous (fst judged) s) s (snd judged)
        (next_anchor previous (fst judged) s) r))"
  have "map_of (rev (written_fields a acc s pend anc r)) k = None" for acc pend anc
    using written_none [OF assms(4)] .
  then have "obj_get v k = obj_get base k" unfolding v Let_def obj_get_put_all by (simp add: opt_default_def)
  also have "\<dots> = obj_get fs k" using base assms(2,3) by (simp add: obj_get_delete_all)
  finally show ?thesis .
qed

theorem ingestion_preserves_lifecycle_witness:
  "obj_get (the (next_telemetry_value (\<lambda>_. NaN) (Some demo_record) demo_assignment demo_uncertain 2000)) ''sessionId'' = JStr ''ride''"
  using ingestion_preserves_lifecycle [OF demo_commit, of "''sessionId''"]
  by (simp add: demo_record_def jm_ok_def dropped_fields_def written_keys_def)

end
