(* ===== verification/Live_Records.thy ===== *)
theory Live_Records imports Ride_Direction Telemetry_State begin

text \<open>
  What the lifecycle engine reads from a live node of the realtime database
  (\<open>services/tripStateLifecycle.ts\<close>, \<open>services/journeyLocation.ts\<close>, \<open>services/rideProgressHistory.ts\<close>,
  \<open>lib/liveRouteContext.ts\<close> and the readers of \<open>services/tripStateEngine.ts\<close>): identifiers, the last
  accepted fix, the history of passed stops, and the fields that belong to one session.
\<close>

section \<open>Identifiers\<close>

fun normalize_identifier :: "jsval \<Rightarrow> string option" where
  "normalize_identifier (JStr s) = (if safe_id (js_trim s) then Some (js_trim s) else None)"
| "normalize_identifier _ = None"

definition ends_with :: "string \<Rightarrow> string \<Rightarrow> bool" where
  "ends_with xs ys = starts_with (rev xs) (rev ys)"

text \<open>One missing identifier is recovered from the node key when the other is its exact prefix or suffix.\<close>

definition recovered_ids :: "string option \<Rightarrow> string option \<Rightarrow> string option \<Rightarrow> string option \<times> string option" where
  "recovered_ids node_key bus route = (case (node_key, bus, route) of
      (Some key, Some b, None) \<Rightarrow> (bus, if key \<noteq> [] \<and> starts_with key (b @ ''_'')
        then normalize_identifier (JStr (drop (length b + 1) key)) else None)
    | (Some key, None, Some r) \<Rightarrow> (if key \<noteq> [] \<and> ends_with key (''_'' @ r)
        then normalize_identifier (JStr (take (length key - (length r + 1)) key)) else None, route)
    | _ \<Rightarrow> (bus, route))"

definition normalize_live_bus_data :: "jsval \<Rightarrow> string option \<Rightarrow> fields option" where
  "normalize_live_bus_data value node_key = (case value of
      JObj fs \<Rightarrow> (case recovered_ids node_key (normalize_identifier (obj_get fs ''busId'')) (normalize_identifier (obj_get fs ''routeId'')) of
          (Some bus, Some route) \<Rightarrow>
            (if obj_get fs ''busId'' = JStr bus \<and> obj_get fs ''routeId'' = JStr route then Some fs
             else Some (put_all fs [(''busId'', JStr bus), (''routeId'', JStr route)]))
        | _ \<Rightarrow> None)
    | _ \<Rightarrow> None)"

lemma normalize_identifier_safe: "normalize_identifier v = Some s \<Longrightarrow> safe_id s"
  by (cases v) (auto split: if_splits)

lemma normalized_ids:
  assumes "normalize_live_bus_data value node_key = Some fs"
  shows "\<exists>b r. obj_get fs ''busId'' = JStr b \<and> obj_get fs ''routeId'' = JStr r \<and> safe_id b \<and> safe_id r"
proof -
  obtain gs where gs: "value = JObj gs" using assms by (cases "value") (auto simp: normalize_live_bus_data_def)
  obtain b r where v: "recovered_ids node_key (normalize_identifier (obj_get gs ''busId'')) (normalize_identifier (obj_get gs ''routeId'')) = (Some b, Some r)"
    using assms gs by (auto simp: normalize_live_bus_data_def simp del: normalize_identifier.simps split: prod.splits option.splits)
  have fs: "fs = (if obj_get gs ''busId'' = JStr b \<and> obj_get gs ''routeId'' = JStr r then gs
       else put_all gs [(''busId'', JStr b), (''routeId'', JStr r)])"
    using assms gs v by (auto simp: normalize_live_bus_data_def split: if_splits)
  have "safe_id b \<and> safe_id r"
    using v normalize_identifier_safe unfolding recovered_ids_def
    by (auto split: option.splits if_splits simp del: normalize_identifier.simps)
  then show ?thesis using fs by (auto simp: obj_get_put_all opt_default_def)
qed

section \<open>The last accepted fix\<close>

record journey_location =
  jl_lat :: jsnum
  jl_lng :: jsnum
  jl_sampled_at :: jsnum
  jl_seq :: "jsnum option"
  jl_received_at :: "jsnum option"

definition journey_location :: "jsval \<Rightarrow> journey_location option" where
  "journey_location data =
    (let raw = (case js_prop data ''rawLocation'' of JObj fs \<Rightarrow> JObj fs | JArr vs \<Rightarrow> JArr vs | _ \<Rightarrow> data);
      seq = nullish (js_prop raw ''seq'') (js_prop data ''seq'') in
     (case (js_prop raw ''lat'', js_prop raw ''lng'', nullish (js_prop raw ''sampledAt'') (js_prop data ''timestamp'')) of
        (JNum lat, JNum lng, JNum sampled_at) \<Rightarrow>
          (if \<not> is_finite lat \<or> js_abs lat > 90 \<or> \<not> is_finite lng \<or> js_abs lng > 180 \<or> \<not> is_finite sampled_at \<or> sampled_at \<le> 0
           then None
           else Some \<lparr>jl_lat = lat, jl_lng = lng, jl_sampled_at = sampled_at,
             jl_seq = (case seq of JNum s \<Rightarrow> (if is_safe_integer s then Some s else None) | _ \<Rightarrow> None),
             jl_received_at = num_of (js_prop data ''backendReceivedAt'')\<rparr>)
      | _ \<Rightarrow> None))"

definition newer_journey_location :: "(jsval \<Rightarrow> jsnum) \<Rightarrow> jsval \<Rightarrow> jsval \<Rightarrow> journey_location option" where
  "newer_journey_location parse data existing = (case journey_location data of
      None \<Rightarrow> None
    | Some location \<Rightarrow>
        (if jl_sampled_at location < js_number parse (nullish (js_prop existing ''sampledAt'') (JNum 0)) then None
         else if js_prop existing ''sampledAt'' = JNum (jl_sampled_at location) \<and>
            (case (jl_seq location, js_prop existing ''seq'') of (Some s, JNum prior) \<Rightarrow> s < prior | _ \<Rightarrow> False) then None
         else Some location))"

lemma journey_location_valid:
  assumes "journey_location data = Some l"
  shows "valid_position \<lparr>pos_lat = jl_lat l, pos_lng = jl_lng l\<rparr>" "is_finite (jl_sampled_at l)" "0 < jl_sampled_at l"
proof -
  obtain lat lng t where v: "\<not> (\<not> is_finite lat \<or> js_abs lat > 90 \<or> \<not> is_finite lng \<or> js_abs lng > 180 \<or> \<not> is_finite t \<or> t \<le> 0)"
    "jl_lat l = lat" "jl_lng l = lng" "jl_sampled_at l = t"
    using assms by (auto simp: journey_location_def Let_def split: jsval.splits if_splits)
  then show "valid_position \<lparr>pos_lat = jl_lat l, pos_lng = jl_lng l\<rparr>" "is_finite (jl_sampled_at l)" "0 < jl_sampled_at l"
    by (auto simp: valid_position_def elim!: is_finiteE)
qed

text \<open>A delayed event never rolls the stored fix backwards.\<close>

lemma newer_location_forward:
  assumes "newer_journey_location parse data existing = Some l" "js_prop existing ''sampledAt'' = JNum (Fin t)"
  shows "Fin t \<le> jl_sampled_at l"
proof -
  have "journey_location data = Some l" "\<not> jl_sampled_at l < Fin t"
    using assms by (auto simp: newer_journey_location_def nullish_def split: option.splits if_splits)
  moreover obtain x where "jl_sampled_at l = Fin x" using journey_location_valid(2) calculation(1) by (auto elim!: is_finiteE)
  ultimately show ?thesis by simp
qed

section \<open>The history of passed stops\<close>

datatype stop_evidence = Skipped_Gnss_Gap | Passed_Unobserved | Recovered_Checkpoint | Gnss_Progress

record history_stop =
  hs_id :: string
  hs_name :: string

record history_entry =
  he_stop_index :: nat
  he_stop_id :: string
  he_stop_name :: string
  he_timestamp :: jsval
  he_evidence :: stop_evidence

text \<open>\<open>String(index)\<close>.\<close>

fun nat_string :: "nat \<Rightarrow> string" where
  "nat_string n = (if n < 10 then [char_of (48 + n)] else nat_string (n div 10) @ [char_of (48 + n mod 10)])"

definition own_property :: "jsval \<Rightarrow> string \<Rightarrow> bool" where
  "own_property v k = (case v of JObj fs \<Rightarrow> jm_has fs k | _ \<Rightarrow> False)"

definition evidence_of :: "nat \<Rightarrow> jsnum \<Rightarrow> jsnum list \<Rightarrow> jsnum list \<Rightarrow> stop_evidence" where
  "evidence_of i previous_stop_index skipped unobserved =
    (if Fin (of_nat i) \<in> set skipped then Skipped_Gnss_Gap
     else if Fin (of_nat i) \<in> set unobserved then Passed_Unobserved
     else if Fin (of_nat i) < previous_stop_index then Recovered_Checkpoint else Gnss_Progress)"

definition missing_stop_history ::
    "history_stop list \<Rightarrow> string \<Rightarrow> jsnum \<Rightarrow> jsval \<Rightarrow> jsval \<Rightarrow> jsnum \<Rightarrow> jsnum list \<Rightarrow> jsnum list \<Rightarrow> history_entry list" where
  "missing_stop_history stops trip_state current existing observed_at previous skipped unobserved =
    (if stops = [] \<or> \<not> is_safe_integer current \<or> current < 0 \<or> current \<ge> Fin (of_nat (length stops)) \<or>
        trip_state \<noteq> ''in_service'' \<and> trip_state \<noteq> ''completed'' then []
     else (let last_reached = (if trip_state = ''completed'' then current else js_max 0 (current - 1)) in
       map (\<lambda>i. \<lparr>he_stop_index = i, he_stop_id = hs_id (stops ! i), he_stop_name = hs_name (stops ! i),
           he_timestamp = observed_at, he_evidence = evidence_of i previous skipped unobserved\<rparr>)
         (filter (\<lambda>i. \<not> own_property existing (nat_string i)) [0..<nat (num_floor last_reached) + 1])))"

text \<open>Every passed stop is accounted for once, and what was recorded is never written again.\<close>

lemma missing_stop_history_exact:
  assumes "trip_state = ''in_service'' \<or> trip_state = ''completed''" "k < length stops" "length stops \<le> 9007199254740991"
  shows "map he_stop_index (missing_stop_history stops trip_state (Fin (of_nat k)) existing observed_at previous skipped unobserved) =
    filter (\<lambda>i. \<not> own_property existing (nat_string i)) [0..<(if trip_state = ''completed'' then k else k - 1) + 1]"
proof -
  have k: "is_safe_integer (Fin (of_nat k))" using assms is_safe_integer_int [of "int k"] by simp
  have f: "nat (num_floor (js_max 0 (Fin (of_nat k) - 1))) = k - 1"
  proof (cases k)
    case (Suc j)
    then show ?thesis by simp
  qed simp
  show ?thesis using assms k f by (auto simp: missing_stop_history_def comp_def Let_def simp del: nat_string.simps)
qed

section \<open>Fields of the live node\<close>

definition live_route_context_fields :: "string list" where
  "live_route_context_fields = [''activeRouteId'', ''activeRoutePolyline'', ''routeVersion'', ''routeSource'', ''routeDirection'',
     ''routeSessionId'', ''routeGeometryVersion'', ''routeState'', ''routeMatchHistory'', ''routeMatchAnchor'', ''departureRoute'',
     ''routeComputedAt'', ''routeTrafficState'', ''offRouteSampleCount'', ''mapMatchUpdatedAt'', ''mapMatchSeq'', ''mapMatchSampledAt'',
     ''matchConfidence'', ''distanceToActiveRoute'', ''matchedLocation'', ''rerouteRequestId'', ''lastRerouteAttemptAt'',
     ''rerouteError'', ''rerouteCompletedAt'', ''rerouteFailedAt'', ''rerouteRetry'']"

definition has_live_route_context :: "fields \<Rightarrow> bool \<Rightarrow> bool" where
  "has_live_route_context live ignore_version =
    list_ex (\<lambda>f. \<not> (ignore_version \<and> f = ''routeVersion'') \<and> jm_has live f) live_route_context_fields"

definition without_live_route_context :: "fields \<Rightarrow> bool \<Rightarrow> fields" where
  "without_live_route_context live preserve_version =
    (let next_fields = delete_all live live_route_context_fields in
     (case obj_get live ''routeVersion'' of
        JNum v \<Rightarrow> (if preserve_version \<and> is_safe_integer v \<and> v > 0 then jm_set next_fields ''routeVersion'' (JNum v) else next_fields)
      | _ \<Rightarrow> next_fields))"

definition read_interval_ms :: "(string \<Rightarrow> jsnum) \<Rightarrow> string option \<Rightarrow> jsnum \<Rightarrow> jsnum \<Rightarrow> jsnum" where
  "read_interval_ms parse value fallback minimum = (case value of
      None \<Rightarrow> fallback
    | Some s \<Rightarrow> (if js_trim s = [] then fallback
        else (let parsed = parse s in if is_finite parsed \<and> parsed \<ge> minimum then js_floor parsed else fallback)))"

fun delay_revision :: "jsval \<Rightarrow> jsnum" where
  "delay_revision (JNum v) = (if is_safe_integer v \<and> v \<ge> 0 then v else 0)"
| "delay_revision _ = 0"

fun normalized_delay_minutes :: "jsval \<Rightarrow> jsnum" where
  "normalized_delay_minutes (JNum v) = (if is_safe_integer v \<and> v \<ge> 0 \<and> v \<le> 1440 then v else 0)"
| "normalized_delay_minutes _ = 0"

definition active_ride_document_id :: "jsval \<Rightarrow> string option" where
  "active_ride_document_id data = (case (normalize_identifier (js_prop data ''busId''), normalize_identifier (js_prop data ''routeId'')) of
      (Some b, Some r) \<Rightarrow> Some (b @ ''_'' @ r) | _ \<Rightarrow> None)"

text \<open>A record of the live node that carries the session it belongs to.\<close>

definition owned_record :: "jsval \<Rightarrow> string \<Rightarrow> jsval option" where
  "owned_record data k = (case js_prop data ''sessionId'' of
      JStr s \<Rightarrow> (if js_prop (js_prop data k) ''sessionId'' = JStr s then Some (js_prop data k) else None)
    | _ \<Rightarrow> None)"

definition live_gnss_gap_since :: "jsval \<Rightarrow> jsnum option" where
  "live_gnss_gap_since data = (case owned_record data ''gnssGap'' of Some gap \<Rightarrow> finite_num (js_prop gap ''since'') | None \<Rightarrow> None)"

definition live_at_stop_index :: "jsval \<Rightarrow> jsnum option" where
  "live_at_stop_index data = (case owned_record data ''atStop'' of
      Some r \<Rightarrow> (case js_prop r ''index'' of JNum i \<Rightarrow> (if is_safe_integer i \<and> i \<ge> 0 then Some i else None) | _ \<Rightarrow> None)
    | None \<Rightarrow> None)"

text \<open>The stops passed without being observed: safe indices of the itinerary, without repetition, in order.\<close>

definition stop_index_of :: "nat \<Rightarrow> jsval \<Rightarrow> nat option" where
  "stop_index_of stop_count v = (case v of
      JNum i \<Rightarrow> (if is_safe_integer i \<and> i \<ge> 0 \<and> i < Fin (of_nat stop_count) then Some (nat (num_floor i)) else None) | _ \<Rightarrow> None)"

definition merged_stop_indices :: "jsval list \<Rightarrow> jsval list \<Rightarrow> nat \<Rightarrow> nat list" where
  "merged_stop_indices existing added stop_count = sort (remdups (List.map_filter (stop_index_of stop_count) (existing @ added)))"

definition live_unobserved_stops :: "jsval \<Rightarrow> nat \<Rightarrow> nat list" where
  "live_unobserved_stops data stop_count = (case owned_record data ''unobservedStops'' of
      None \<Rightarrow> []
    | Some r \<Rightarrow> merged_stop_indices (case js_prop r ''indices'' of JArr vs \<Rightarrow> vs | JObj fs \<Rightarrow> map snd fs | _ \<Rightarrow> []) [] stop_count)"

lemma merged_stop_indices_bounded:
  "sorted (merged_stop_indices vs ws n)" "distinct (merged_stop_indices vs ws n)"
  "\<forall>i\<in>set (merged_stop_indices vs ws n). i < n" "length (merged_stop_indices vs ws n) \<le> n"
proof -
  show s: "sorted (merged_stop_indices vs ws n)" "distinct (merged_stop_indices vs ws n)"
    by (simp_all add: merged_stop_indices_def)
  have "k < n" if "stop_index_of n v = Some k" for v k
    using that by (auto simp: stop_index_of_def nat_less_iff floor_less_iff split: jsval.splits if_splits elim!: is_safe_integerE)
  then show b: "\<forall>i\<in>set (merged_stop_indices vs ws n). i < n"
    by (auto simp: merged_stop_indices_def map_filter_def)
  then have "set (merged_stop_indices vs ws n) \<subseteq> {..<n}" by auto
  then show "length (merged_stop_indices vs ws n) \<le> n"
    using s(2) card_mono [of "{..<n}" "set (merged_stop_indices vs ws n)"] by (simp add: distinct_card)
qed

text \<open>Nothing recorded for one session is read for another.\<close>

lemma owned_by_session:
  assumes "js_prop data ''sessionId'' = JStr s" "js_prop (js_prop data k) ''sessionId'' \<noteq> JStr s"
  shows "owned_record data k = None"
  using assms by (simp add: owned_record_def)

lemma context_removed:
  assumes "jm_ok live"
  shows "\<not> has_live_route_context (without_live_route_context live False) False"
proof -
  have "\<not> jm_has (delete_all live ks) k" if "k \<in> set ks" for ks k
  proof -
    have "jm_get (foldl jm_delete m ks) k = None" if "jm_ok m" "k \<in> set ks \<or> jm_get m k = None" for m
      using that by (induction ks arbitrary: m) (auto simp: jm_get_delete)
    then show ?thesis using assms that by (simp add: jm_has_def delete_all_def)
  qed
  then show ?thesis
    by (auto simp: has_live_route_context_def without_live_route_context_def list_ex_iff Let_def split: jsval.splits)
qed

end
