(* ===== verification/Ride_Lifecycle.thy ===== *)
theory Ride_Lifecycle imports Live_Records begin

text \<open>
  The transactions of the lifecycle engine (\<open>services/tripStateEngine.ts\<close>): the durable checkpoint of an
  active ride, the guarded write of the live node, completion and retirement, and the automatic return
  trip with its claim. A transaction callback is a function from the records it reads to what it
  writes, \<open>None\<close> when it aborts; the store retries it against the current records, so each application
  is one atomic step. A missing document is \<open>None\<close>; the server timestamp is an argument.
\<close>

section \<open>Records\<close>

definition doc_prop :: "fields option \<Rightarrow> string \<Rightarrow> jsval" where
  "doc_prop d k = (case d of Some fs \<Rightarrow> obj_get fs k | None \<Rightarrow> JUndef)"

definition opt_str :: "string option \<Rightarrow> jsval" where
  "opt_str s = (case s of Some s \<Rightarrow> JStr s | None \<Rightarrow> JNull)"

definition string_or :: "jsval \<Rightarrow> jsval \<Rightarrow> jsval" where
  "string_or v d = (case v of JStr s \<Rightarrow> JStr s | _ \<Rightarrow> d)"

definition direction_value :: "direction option \<Rightarrow> jsval" where
  "direction_value d = (case d of Some Forward \<Rightarrow> JStr ''forward'' | Some Reverse \<Rightarrow> JStr ''reverse'' | None \<Rightarrow> JNull)"

definition lifecycle_direction :: "jsval \<Rightarrow> direction option" where
  "lifecycle_direction data = normalize_ride_direction (js_prop data ''direction'')"

definition fleet_lifecycle_state :: "jsval \<Rightarrow> (string \<times> jsval) list" where
  "fleet_lifecycle_state data =
    [(''sessionId'', opt_str (normalize_identifier (js_prop data ''sessionId''))),
     (''routeId'', opt_str (normalize_identifier (js_prop data ''routeId''))),
     (''driverId'', string_or (js_prop data ''driverId'') JNull),
     (''status'', string_or (js_prop data ''status'') (JStr ''active'')),
     (''deviceState'', string_or (js_prop data ''deviceState'') (JStr ''online'')),
     (''tripState'', string_or (js_prop data ''tripState'') (JStr ''pre_departure'')),
     (''direction'', direction_value (lifecycle_direction data)),
     (''motionState'', string_or (js_prop data ''motionState'') JNull)]"

section \<open>The durable checkpoint\<close>

record ride_update =
  ru_data :: jsval
  ru_trip_state :: string
  ru_current_index :: jsnum
  ru_has_departed :: bool
  ru_stops :: "history_stop list"
  ru_terminal_arrival :: jsval
  ru_gap_since :: "jsnum option"
  ru_skipped :: "jsnum list"
  ru_unobserved :: "jsnum list"

record ride_checkpoint =
  cp_trip_state :: string
  cp_current_index :: jsnum
  cp_has_departed :: bool
  cp_terminal_arrival :: jsval
  cp_last_route_version :: jsnum

record session_update =
  su_first_location :: "journey_location option"
  su_activating :: bool
  su_start_time :: jsval
  su_stops_reached :: "history_entry list"

record active_ride_write =
  aw_ride :: fields
  aw_session :: "session_update option"
  aw_checkpoint :: ride_checkpoint

text \<open>The early return: what must be known before anything is written.\<close>

definition update_owner :: "ride_update \<Rightarrow> (string \<times> string \<times> string \<times> direction) option" where
  "update_owner u = (let data = ru_data u in
    (case (active_ride_document_id data, normalize_identifier (js_prop data ''busId''), normalize_identifier (js_prop data ''sessionId''),
        lifecycle_direction data) of
      (Some doc, Some bus, Some session, Some d) \<Rightarrow>
        (if js_prop data ''status'' = JStr ''active'' \<and> str_of (js_prop data ''driverId'') \<noteq> None then Some (doc, bus, session, d) else None)
    | _ \<Rightarrow> None))"

definition positive_version :: "jsval \<Rightarrow> jsnum" where
  "positive_version v = (case v of JNum n \<Rightarrow> (if is_safe_integer n \<and> n > 0 then n else 0) | _ \<Rightarrow> 0)"

definition ride_state_fields :: "ride_update \<Rightarrow> string \<Rightarrow> direction \<Rightarrow> (string \<times> jsval) list" where
  "ride_state_fields u session d = (let data = ru_data u in
    [(''sessionId'', JStr session), (''busId'', js_prop data ''busId''), (''driverId'', js_prop data ''driverId''),
     (''routeId'', js_prop data ''routeId''), (''direction'', direction_value (Some d)),
     (''originStopId'', opt_str (normalize_identifier (js_prop data ''originStopId''))),
     (''destinationStopId'', opt_str (normalize_identifier (js_prop data ''destinationStopId''))),
     (''status'', JStr ''active''), (''tripState'', JStr (ru_trip_state u)), (''currentStopIndex'', JNum (ru_current_index u)),
     (''hasDepartedOrigin'', JBool (ru_has_departed u)), (''terminalArrival'', ru_terminal_arrival u),
     (''gnssGapSince'', (case ru_gap_since u of Some t \<Rightarrow> JNum t | None \<Rightarrow> JNull)),
     (''hasTelemetry'', JBool (journey_location data \<noteq> None)),
     (''lastRouteVersion'', JNum (positive_version (js_prop data ''routeVersion''))),
     (''delayMinutes'', JNum (normalized_delay_minutes (js_prop data ''delayMinutes''))),
     (''delayUpdatedAt'', JNum (delay_revision (js_prop data ''delayUpdatedAt'')))])"

definition durable_index :: "fields option \<Rightarrow> bool \<Rightarrow> nat \<Rightarrow> jsnum" where
  "durable_index ride same stop_count = (case doc_prop ride ''currentStopIndex'' of
      JNum i \<Rightarrow> (if same \<and> is_safe_integer i \<and> i \<ge> 0 \<and> i < Fin (of_nat stop_count) then i else 0)
    | _ \<Rightarrow> 0)"

definition merge_checkpoint :: "(jsval \<Rightarrow> jsnum) \<Rightarrow> ride_update \<Rightarrow> string \<Rightarrow> fields option \<Rightarrow> ride_checkpoint" where
  "merge_checkpoint parse u session ride =
    (let same = (doc_prop ride ''sessionId'' = JStr session);
      durable_version = (case doc_prop ride ''lastRouteVersion'' of JNum v \<Rightarrow> (if same \<and> is_safe_integer v then v else 0) | _ \<Rightarrow> 0) in
    \<lparr>cp_trip_state = (if same \<and> doc_prop ride ''tripState'' = JStr ''in_service'' then ''in_service'' else ru_trip_state u),
     cp_current_index = js_max (ru_current_index u) (durable_index ride same (length (ru_stops u))),
     cp_has_departed = (ru_has_departed u \<or> same \<and> doc_prop ride ''hasDepartedOrigin'' = JBool True),
     cp_terminal_arrival = (if same \<and> js_number parse (js_prop (doc_prop ride ''terminalArrival'') ''lastSampledAt'') >
         js_number parse (js_prop (ru_data u) ''timestamp'') then doc_prop ride ''terminalArrival'' else ru_terminal_arrival u),
     cp_last_route_version = js_max (positive_version (js_prop (ru_data u) ''routeVersion'')) durable_version\<rparr>)"

definition checkpoint_fields :: "ride_checkpoint \<Rightarrow> (string \<times> jsval) list" where
  "checkpoint_fields c = [(''tripState'', JStr (cp_trip_state c)), (''currentStopIndex'', JNum (cp_current_index c)),
     (''hasDepartedOrigin'', JBool (cp_has_departed c)), (''terminalArrival'', cp_terminal_arrival c),
     (''lastRouteVersion'', JNum (cp_last_route_version c))]"

definition delay_fields :: "ride_update \<Rightarrow> fields option \<Rightarrow> (string \<times> jsval) list" where
  "delay_fields u ride = (let durable_revision = delay_revision (doc_prop ride ''delayUpdatedAt'') in
    if durable_revision > delay_revision (js_prop (ru_data u) ''delayUpdatedAt'')
    then [(''delayMinutes'', JNum (normalized_delay_minutes (doc_prop ride ''delayMinutes''))), (''delayUpdatedAt'', JNum durable_revision)]
    else [])"

definition session_write :: "ride_update \<Rightarrow> ride_checkpoint \<Rightarrow> jsval \<Rightarrow> jsval \<Rightarrow> (jsval \<Rightarrow> jsnum) \<Rightarrow> fields option \<Rightarrow> session_update option" where
  "session_write u c server_time now parse session = (case doc_prop session ''status'' of
      JStr status \<Rightarrow>
        (if session \<noteq> None \<and> status \<in> {''pending'', ''armed'', ''active''}
         then (let stops_reached = missing_stop_history (ru_stops u) (cp_trip_state c) (cp_current_index c) (doc_prop session ''stopsReached'')
              server_time (js_number parse (js_prop (ru_data u) ''currentStopIndex'')) (ru_skipped u) (ru_unobserved u);
            activating = (cp_trip_state c = ''in_service'' \<and> status \<noteq> ''active'');
            first_location = (if truthy (doc_prop session ''firstKnownLocation'') then None else journey_location (ru_data u)) in
          if activating \<or> first_location \<noteq> None \<or> stops_reached \<noteq> []
          then Some \<lparr>su_first_location = first_location, su_activating = activating,
            su_start_time = nullish (doc_prop session ''startTime'') now, su_stops_reached = stops_reached\<rparr>
          else None)
         else None)
    | _ \<Rightarrow> None)"

text \<open>A \<open>set\<close> with \<open>merge: true\<close> merges a map into a stored map (an empty map replaces it) and replaces any
  other value. The maps that are written this way hold no further maps: \<open>terminalArrival\<close> is two times.\<close>

definition merge_field :: "jsval \<Rightarrow> jsval \<Rightarrow> jsval" where
  "merge_field old new = (case (old, new) of (JObj a, JObj b) \<Rightarrow> (if b = [] then new else JObj (put_all a b)) | _ \<Rightarrow> new)"

definition merge_fields :: "fields \<Rightarrow> fields \<Rightarrow> fields" where
  "merge_fields doc patch = put_all doc (map (\<lambda>(k, v). (k, merge_field (obj_get doc k) v)) patch)"

text \<open>The whole callback: \<open>None\<close> is its \<open>false\<close>, the lock belonging to somebody else.\<close>

definition persist_active_ride ::
    "(jsval \<Rightarrow> jsnum) \<Rightarrow> jsval \<Rightarrow> jsval \<Rightarrow> ride_update \<Rightarrow> fields option \<Rightarrow> fields option \<Rightarrow> fields option \<Rightarrow> active_ride_write option" where
  "persist_active_ride parse server_time now u ride lock session = (case update_owner u of
      None \<Rightarrow> None
    | Some (_, _, session_id, d) \<Rightarrow>
        (if lock = None \<or> normalize_identifier (doc_prop lock ''sessionId'') \<noteq> Some session_id then None
         else (let c = merge_checkpoint parse u session_id ride in
          Some \<lparr>aw_ride = merge_fields (case ride of Some fs \<Rightarrow> fs | None \<Rightarrow> [])
              (ride_state_fields u session_id d @ checkpoint_fields c @ delay_fields u ride @ [(''updatedAt'', server_time)]),
            aw_session = session_write u c server_time now parse session, aw_checkpoint = c\<rparr>)))"

section \<open>The live node\<close>

record live_update =
  lu_data :: jsval
  lu_direction :: direction
  lu_trip_state :: string
  lu_current_index :: jsnum
  lu_has_departed :: bool
  lu_terminal_arrival :: jsval
  lu_gap_since :: "jsnum option"
  lu_at_stop :: "jsnum option"
  lu_unobserved :: "nat list"

text \<open>A field that carries its session, or null.\<close>

definition session_record :: "jsval \<Rightarrow> string \<Rightarrow> jsval option \<Rightarrow> jsval" where
  "session_record session k v = (case (session, v) of (JStr s, Some v) \<Rightarrow> JObj [(''sessionId'', JStr s), (k, v)] | _ \<Rightarrow> JNull)"

definition write_live_state :: "live_update \<Rightarrow> jsval \<Rightarrow> fields option" where
  "write_live_state u live = (let session = js_prop (lu_data u) ''sessionId'' in (case live of
      JObj fs \<Rightarrow>
        (if str_of session \<noteq> None \<and> obj_get fs ''sessionId'' \<noteq> session then None
         else if lifecycle_direction live \<noteq> Some (lu_direction u) then None
         else if obj_get fs ''tripState'' = JStr ''completed'' \<or> obj_get fs ''deviceState'' = JStr ''offline'' then None
         else Some (put_all fs
           [(''tripState'', JStr (lu_trip_state u)), (''currentStopIndex'', JNum (lu_current_index u)),
            (''hasDepartedOrigin'', JBool (lu_has_departed u)), (''terminalArrival'', lu_terminal_arrival u),
            (''gnssGap'', session_record session ''since'' (map_option JNum (lu_gap_since u))),
            (''atStop'', session_record session ''index'' (map_option JNum (lu_at_stop u))),
            (''unobservedStops'', session_record session ''indices''
               (if lu_unobserved u = [] then None else Some (JArr (map (\<lambda>i. JNum (Fin (of_nat i))) (lu_unobserved u)))))]))
    | _ \<Rightarrow> None))"

section \<open>Completion\<close>

datatype completion = Refused | Recovered jsnum jsnum | Completed_Now

definition completion_decision ::
    "(jsval \<Rightarrow> jsnum) \<Rightarrow> jsnum \<Rightarrow> jsval \<Rightarrow> direction \<Rightarrow> fields option \<Rightarrow> fields option \<Rightarrow> fields option \<Rightarrow> fields option \<Rightarrow> completion" where
  "completion_decision parse_date dwell data d ride lock session existing =
    (if str_of (js_prop data ''sessionId'') = None then Completed_Now
     else if doc_prop session ''status'' = JStr ''completed''
     then (let completed_at = parse_date (doc_prop existing ''completedAt'') in
       if existing = None \<or> doc_prop existing ''sessionId'' \<noteq> js_prop data ''sessionId'' \<or>
          doc_prop existing ''busId'' \<noteq> js_prop data ''busId'' \<or> doc_prop existing ''routeId'' \<noteq> js_prop data ''routeId'' \<or>
          doc_prop existing ''direction'' \<noteq> direction_value (Some d) \<or> \<not> is_finite completed_at \<or>
          lock \<noteq> None \<and> doc_prop lock ''sessionId'' \<noteq> js_prop data ''sessionId'' \<or>
          ride \<noteq> None \<and> doc_prop ride ''sessionId'' \<noteq> js_prop data ''sessionId'' then Refused
       else Recovered completed_at (opt_default (finite_num (doc_prop existing ''automaticTurnaroundEligibleAt'')) (completed_at + dwell)))
     else if session = None \<or> doc_prop lock ''sessionId'' \<noteq> js_prop data ''sessionId'' \<or>
        doc_prop session ''status'' \<notin> {JStr ''pending'', JStr ''armed'', JStr ''active''} then Refused
     else Completed_Now)"

text \<open>What a completion removes: the active ride and the lock, each only when it is this session's.\<close>

definition completion_keeps_ride :: "jsval \<Rightarrow> fields option \<Rightarrow> fields option" where
  "completion_keeps_ride data ride = (if ride \<noteq> None \<and> doc_prop ride ''sessionId'' = js_prop data ''sessionId'' then None else ride)"

definition completion_keeps_lock :: "jsval \<Rightarrow> fields option \<Rightarrow> fields option" where
  "completion_keeps_lock data lock = (case js_prop data ''sessionId'' of
      JStr s \<Rightarrow> (if s \<noteq> [] \<and> doc_prop lock ''sessionId'' = JStr s then None else lock) | _ \<Rightarrow> lock)"

definition publish_completion :: "live_update \<Rightarrow> jsnum \<Rightarrow> jsnum \<Rightarrow> jsnum \<Rightarrow> (jsval \<Rightarrow> jsnum) \<Rightarrow> jsval \<Rightarrow> fields option" where
  "publish_completion u completed_at eligible_at dwell parse live = (let data = lu_data u; session = js_prop data ''sessionId'' in (case live of
      JObj fs \<Rightarrow> (if obj_get fs ''sessionId'' \<noteq> session then None
        else Some (put_all fs
          ([(''tripState'', JStr (lu_trip_state u)), (''currentStopIndex'', JNum (lu_current_index u)),
            (''hasDepartedOrigin'', JBool (lu_has_departed u)), (''terminalArrival'', JNull), (''gnssGap'', JNull),
            (''terminalArrivalConfirmedAt'', JNum completed_at), (''completedAt'', JNum completed_at)] @
           (if str_of session \<noteq> None then [(''lastCompletedSessionId'', session), (''lastCompletedAt'', JNum completed_at),
              (''lastCompletedRouteId'', js_prop data ''routeId'')] else []) @
           [(''turnaroundEligibleAt'', JNum eligible_at),
            (''turnaroundSampledAt'', JNum (if num_eq dwell 0 then js_number parse (js_prop data ''timestamp'') else eligible_at)),
            (''turnaroundClaimId'', JNull), (''turnaroundClaimedAt'', JNull)])))
    | _ \<Rightarrow> None))"

definition retire_live :: "jsval \<Rightarrow> jsval \<Rightarrow> jsval \<Rightarrow> fields option" where
  "retire_live server_time data live = (case live of
      JObj fs \<Rightarrow> (if obj_get fs ''tripState'' \<noteq> JStr ''completed'' \<or> obj_get fs ''sessionId'' \<noteq> js_prop data ''sessionId'' then None
        else Some (put_all fs [(''status'', JStr ''offline''), (''deviceState'', JStr ''offline''), (''lifecycleUpdatedAt'', server_time)]))
    | _ \<Rightarrow> None)"

section \<open>The automatic return trip\<close>

definition turnaround_claim_stale_ms :: jsnum where
  "turnaround_claim_stale_ms = 60000"

definition turnaround_query :: "(jsval \<Rightarrow> jsnum) \<Rightarrow> jsnum \<Rightarrow> position \<Rightarrow> jsval \<Rightarrow> turnaround_input" where
  "turnaround_query parse now destination live = \<lparr>tu_now = now, tu_telemetry_timestamp = js_number parse (js_prop live ''timestamp''),
     tu_eligible_at = js_number parse (js_prop live ''turnaroundEligibleAt''),
     tu_minimum_sample_timestamp = Some (js_number parse (nullish (js_prop live ''turnaroundSampledAt'') (js_prop live ''turnaroundEligibleAt''))),
     tu_motion_state = js_prop live ''motionState'', tu_gps_hdop = js_prop live ''gpsHdop'',
     tu_position = \<lparr>pos_lat = js_number parse (js_prop live ''lat''), pos_lng = js_number parse (js_prop live ''lng'')\<rparr>,
     tu_destination = destination\<rparr>"

definition claim_is_fresh :: "(jsval \<Rightarrow> jsnum) \<Rightarrow> jsnum \<Rightarrow> jsval \<Rightarrow> bool" where
  "claim_is_fresh parse now live \<longleftrightarrow> (let claimed_at = js_number parse (js_prop live ''turnaroundClaimedAt'') in
     str_of (js_prop live ''turnaroundClaimId'') \<noteq> None \<and> is_finite claimed_at \<and> now - claimed_at < turnaround_claim_stale_ms)"

definition claim_turnaround :: "(jsval \<Rightarrow> jsnum) \<Rightarrow> jsnum \<Rightarrow> position \<Rightarrow> string \<Rightarrow> string \<Rightarrow> jsval \<Rightarrow> fields option" where
  "claim_turnaround parse now destination previous_session new_session live = (case live of
      JObj fs \<Rightarrow>
        (if obj_get fs ''sessionId'' \<noteq> JStr previous_session \<or> obj_get fs ''tripState'' \<noteq> JStr ''completed'' \<or>
            claim_is_fresh parse now live \<or>
            \<not> automatic_turnaround_is_ready (turnaround_query parse now destination live) turnaround_arrival_radius_m then None
         else Some (put_all fs [(''turnaroundClaimId'', JStr new_session), (''turnaroundClaimedAt'', JNum now)]))
    | _ \<Rightarrow> None)"

record turnaround_plan =
  pl_driver :: string
  pl_direction :: direction
  pl_origin :: string
  pl_destination :: string
  pl_endpoint_version :: jsval

definition activate_turnaround :: "jsval \<Rightarrow> turnaround_plan \<Rightarrow> string \<Rightarrow> string \<Rightarrow> jsval \<Rightarrow> fields option" where
  "activate_turnaround server_time plan previous_session new_session live = (case live of
      JObj fs \<Rightarrow>
        (if obj_get fs ''sessionId'' \<noteq> JStr previous_session \<or> obj_get fs ''tripState'' \<noteq> JStr ''completed'' \<or>
            obj_get fs ''turnaroundClaimId'' \<noteq> JStr new_session then None
         else Some (put_all (without_live_route_context fs False)
           [(''sessionId'', JStr new_session), (''driverId'', JStr (pl_driver plan)), (''direction'', direction_value (Some (pl_direction plan))),
            (''originStopId'', JStr (pl_origin plan)), (''destinationStopId'', JStr (pl_destination plan)), (''status'', JStr ''active''),
            (''deviceState'', JStr ''online''), (''tripState'', JStr ''pre_departure''), (''currentStopIndex'', JNum 0),
            (''hasDepartedOrigin'', JBool False), (''terminalArrival'', JNull), (''gnssGap'', JNull), (''delayMinutes'', JNum 0),
            (''delayUpdatedAt'', JNum 0), (''directionState'', JStr ''resolved''), (''directionEndpointVersion'', pl_endpoint_version plan),
            (''directionFirestoreSynced'', JBool True), (''automaticTurnaround'', JBool True), (''previousSessionId'', JStr previous_session),
            (''completedAt'', JNull), (''turnaroundEligibleAt'', JNull), (''turnaroundSampledAt'', JNull), (''turnaroundClaimId'', JNull),
            (''turnaroundClaimedAt'', JNull), (''lifecycleUpdatedAt'', server_time)]))
    | _ \<Rightarrow> None)"

definition release_turnaround_claim :: "string \<Rightarrow> jsval \<Rightarrow> fields option" where
  "release_turnaround_claim new_session live = (case live of
      JObj fs \<Rightarrow> (if obj_get fs ''turnaroundClaimId'' \<noteq> JStr new_session then None
        else Some (put_all fs [(''turnaroundClaimId'', JNull), (''turnaroundClaimedAt'', JNull)]))
    | _ \<Rightarrow> None)"

text \<open>The durable guard: the bus is free, the completed ride is the one on record, the return is not yet
  consumed and driver, bus and route still belong together.\<close>

definition assigned_routes :: "fields option \<Rightarrow> jsval list" where
  "assigned_routes bus = (case doc_prop bus ''assignedRoutes'' of JArr vs \<Rightarrow> vs
    | _ \<Rightarrow> (case doc_prop bus ''assignedRouteId'' of JStr s \<Rightarrow> [JStr s] | _ \<Rightarrow> []))"

definition turnaround_durable_ok ::
    "string \<Rightarrow> string \<Rightarrow> string \<Rightarrow> string \<Rightarrow> direction \<Rightarrow> jsval \<Rightarrow> fields option \<Rightarrow> fields option \<Rightarrow> fields option \<Rightarrow> fields option \<Rightarrow> fields option \<Rightarrow> bool" where
  "turnaround_durable_ok bus_id route_id driver_id previous_session previous_direction version lock completed driver bus fleet \<longleftrightarrow>
     (let journey = doc_prop fleet ''terminalJourney''; confirmed = doc_prop completed ''terminalArrivalConfirmedAt'' in
     lock = None \<and> completed \<noteq> None \<and> doc_prop completed ''status'' = JStr ''completed'' \<and>
     doc_prop completed ''direction'' = direction_value (Some previous_direction) \<and>
     finite_num confirmed \<noteq> None \<and> js_prop journey ''sessionId'' = JStr previous_session \<and>
     js_prop journey ''direction'' = direction_value (Some previous_direction) \<and> js_prop journey ''consumedBy'' = JNull \<and>
     js_prop journey ''directionEndpointVersion'' = version \<and>
     doc_prop completed ''busId'' = JStr bus_id \<and> doc_prop completed ''routeId'' = JStr route_id \<and> doc_prop completed ''driverId'' = JStr driver_id \<and>
     driver \<noteq> None \<and> doc_prop driver ''assignedBusId'' = JStr bus_id \<and> bus \<noteq> None \<and> JStr route_id \<in> set (assigned_routes bus))"

section \<open>The checkpoint only moves forward\<close>

lemma delay_revision_cases: "\<exists>x\<ge>0. delay_revision v = Fin x"
proof (cases v)
  case (JNum n)
  then show ?thesis by (cases "is_safe_integer n \<and> n \<ge> 0") (auto elim!: is_safe_integerE)
qed simp_all

lemma positive_version_cases: "\<exists>x\<ge>0. positive_version v = Fin x"
proof (cases v)
  case (JNum n)
  then show ?thesis by (cases "is_safe_integer n \<and> n > 0") (auto simp: positive_version_def elim!: is_safe_integerE)
qed (simp_all add: positive_version_def)

lemma durable_index_cases: "\<exists>x\<ge>0. durable_index ride same n = Fin x"
  by (auto simp: durable_index_def split: jsval.splits elim!: is_safe_integerE)

lemma merge_field_scalar [simp]:
  "merge_field old (JStr v) = JStr v" "merge_field old (JNum x) = JNum x" "merge_field old (JBool b) = JBool b"
  by (cases old; simp add: merge_field_def)+

lemma obj_get_merge_fields:
  "obj_get (merge_fields doc patch) k = (case map_of (rev patch) k of Some v \<Rightarrow> merge_field (obj_get doc k) v | None \<Rightarrow> obj_get doc k)"
proof -
  have "map_of (rev (map (\<lambda>(k, v). (k, merge_field (obj_get doc k) v)) patch)) k = map_option (merge_field (obj_get doc k)) (map_of (rev patch) k)"
    by (induction patch) (auto simp: map_add_def split: option.splits)
  then show ?thesis by (simp add: merge_fields_def obj_get_put_all opt_default_def split: option.split)
qed

text \<open>What the callback leaves in the document, field by field.\<close>

lemma written_ride:
  assumes "persist_active_ride parse server_time now u ride lock session = Some w"
  obtains doc bus s d where "update_owner u = Some (doc, bus, s, d)" "lock \<noteq> None" "normalize_identifier (doc_prop lock ''sessionId'') = Some s"
    "aw_checkpoint w = merge_checkpoint parse u s ride"
    "obj_get (aw_ride w) ''sessionId'' = JStr s"
    "obj_get (aw_ride w) ''tripState'' = JStr (cp_trip_state (aw_checkpoint w))"
    "obj_get (aw_ride w) ''currentStopIndex'' = JNum (cp_current_index (aw_checkpoint w))"
    "obj_get (aw_ride w) ''hasDepartedOrigin'' = JBool (cp_has_departed (aw_checkpoint w))"
    "obj_get (aw_ride w) ''lastRouteVersion'' = JNum (cp_last_route_version (aw_checkpoint w))"
    "obj_get (aw_ride w) ''delayUpdatedAt'' = JNum (if delay_revision (doc_prop ride ''delayUpdatedAt'') > delay_revision (js_prop (ru_data u) ''delayUpdatedAt'')
       then delay_revision (doc_prop ride ''delayUpdatedAt'') else delay_revision (js_prop (ru_data u) ''delayUpdatedAt''))"
proof -
  obtain doc bus s d where o: "update_owner u = Some (doc, bus, s, d)" using assms by (auto simp: persist_active_ride_def split: option.splits)
  have l: "lock \<noteq> None" "normalize_identifier (doc_prop lock ''sessionId'') = Some s"
    using assms o by (auto simp: persist_active_ride_def split: if_splits)
  define base where "base = (case ride of Some fs \<Rightarrow> fs | None \<Rightarrow> [])"
  have w: "aw_checkpoint w = merge_checkpoint parse u s ride"
    "aw_ride w = merge_fields base (ride_state_fields u s d @ checkpoint_fields (merge_checkpoint parse u s ride) @ delay_fields u ride @ [(''updatedAt'', server_time)])"
    using assms o l by (auto simp: persist_active_ride_def base_def Let_def)
  show thesis
    by (rule that [OF o l w(1)]; unfold w obj_get_merge_fields;
        simp add: ride_state_fields_def checkpoint_fields_def delay_fields_def opt_default_def Let_def)
qed

lemma checkpoint_index:
  assumes "ru_current_index u = Fin (of_nat m)" "length (ru_stops u) \<le> 9007199254740991"
  shows "doc_prop ride ''sessionId'' \<noteq> JStr s \<Longrightarrow> cp_current_index (merge_checkpoint parse u s ride) = Fin (of_nat m)"
    "doc_prop ride ''sessionId'' = JStr s \<Longrightarrow> doc_prop ride ''currentStopIndex'' = JNum (Fin (of_nat k)) \<Longrightarrow>
      cp_current_index (merge_checkpoint parse u s ride) = Fin (of_nat (max m (if k < length (ru_stops u) then k else 0)))"
proof -
  have "is_safe_integer (Fin (of_nat k))" if "k < length (ru_stops u)"
    using that assms(2) is_safe_integer_int [of "int k"] by simp
  then show "doc_prop ride ''sessionId'' = JStr s \<Longrightarrow> doc_prop ride ''currentStopIndex'' = JNum (Fin (of_nat k)) \<Longrightarrow>
      cp_current_index (merge_checkpoint parse u s ride) = Fin (of_nat (max m (if k < length (ru_stops u) then k else 0)))"
    using assms(1) by (simp add: merge_checkpoint_def durable_index_def Let_def of_nat_max)
qed (use assms in \<open>simp add: merge_checkpoint_def durable_index_def Let_def split: jsval.split\<close>)

text \<open>C21. A ride never goes back: whatever order replays, restarts and delayed events reach the store in,
  a checkpoint is committed only for the session that holds the lock of the bus, whatever document is on
  record. When that document is of the same session, the committed one stays in service and departed
  once it was, keeps the newest delay revision and route version, and has the larger of the event's stop
  index and the stored one, where a stored index outside the itinerary the event carries, which is not
  an index of that route, counts as zero. A document of another session, or none, leaves the event's
  index.\<close>

theorem durable_checkpoint_monotone:
  assumes "persist_active_ride parse server_time now u ride lock session = Some w"
    "ru_current_index u = Fin (of_nat m)" "length (ru_stops u) \<le> 9007199254740991"
  shows "\<exists>s. lock \<noteq> None \<and> normalize_identifier (doc_prop lock ''sessionId'') = Some s \<and>
    obj_get (aw_ride w) ''sessionId'' = JStr s \<and>
    (doc_prop ride ''sessionId'' \<noteq> JStr s \<longrightarrow> obj_get (aw_ride w) ''currentStopIndex'' = JNum (Fin (of_nat m))) \<and>
    (doc_prop ride ''sessionId'' = JStr s \<longrightarrow>
      (\<forall>k. doc_prop ride ''currentStopIndex'' = JNum (Fin (of_nat k)) \<longrightarrow>
        obj_get (aw_ride w) ''currentStopIndex'' = JNum (Fin (of_nat (max m (if k < length (ru_stops u) then k else 0))))) \<and>
      (doc_prop ride ''tripState'' = JStr ''in_service'' \<longrightarrow> obj_get (aw_ride w) ''tripState'' = JStr ''in_service'') \<and>
      (doc_prop ride ''hasDepartedOrigin'' = JBool True \<longrightarrow> obj_get (aw_ride w) ''hasDepartedOrigin'' = JBool True) \<and>
      delay_revision (doc_prop ride ''delayUpdatedAt'') \<le> delay_revision (obj_get (aw_ride w) ''delayUpdatedAt'') \<and>
      (\<forall>v. doc_prop ride ''lastRouteVersion'' = JNum (Fin (of_int v)) \<longrightarrow> \<bar>v\<bar> \<le> 9007199254740991 \<longrightarrow>
        (\<exists>x. obj_get (aw_ride w) ''lastRouteVersion'' = JNum (Fin x) \<and> of_int v \<le> x)))"
proof -
  obtain s where w: "lock \<noteq> None" "normalize_identifier (doc_prop lock ''sessionId'') = Some s"
    "aw_checkpoint w = merge_checkpoint parse u s ride" "obj_get (aw_ride w) ''sessionId'' = JStr s"
    "obj_get (aw_ride w) ''tripState'' = JStr (cp_trip_state (aw_checkpoint w))"
    "obj_get (aw_ride w) ''currentStopIndex'' = JNum (cp_current_index (aw_checkpoint w))"
    "obj_get (aw_ride w) ''hasDepartedOrigin'' = JBool (cp_has_departed (aw_checkpoint w))"
    "obj_get (aw_ride w) ''lastRouteVersion'' = JNum (cp_last_route_version (aw_checkpoint w))"
    "obj_get (aw_ride w) ''delayUpdatedAt'' = JNum (if delay_revision (doc_prop ride ''delayUpdatedAt'') > delay_revision (js_prop (ru_data u) ''delayUpdatedAt'')
       then delay_revision (doc_prop ride ''delayUpdatedAt'') else delay_revision (js_prop (ru_data u) ''delayUpdatedAt''))"
    using written_ride [OF assms(1)] by metis
  note index = checkpoint_index [OF assms(2,3), where parse = parse and s = s and ride = ride, folded w(3)]
  obtain x where x: "positive_version (js_prop (ru_data u) ''routeVersion'') = Fin x" using positive_version_cases by blast
  have v: "\<exists>y. cp_last_route_version (aw_checkpoint w) = Fin y \<and> of_int v \<le> y"
    if "doc_prop ride ''sessionId'' = JStr s" "doc_prop ride ''lastRouteVersion'' = JNum (Fin (of_int v))" "\<bar>v\<bar> \<le> 9007199254740991" for v
    unfolding w(3) using that x by (simp add: merge_checkpoint_def Let_def)
  obtain p q where pq: "delay_revision (doc_prop ride ''delayUpdatedAt'') = Fin p" "delay_revision (js_prop (ru_data u) ''delayUpdatedAt'') = Fin q"
    "0 \<le> p" "0 \<le> q" using delay_revision_cases by metis
  have dr: "delay_revision (JNum (delay_revision y)) = delay_revision y" for y
    by (cases y) auto
  have trip: "obj_get (aw_ride w) ''tripState'' = JStr ''in_service''"
    if "doc_prop ride ''sessionId'' = JStr s" "doc_prop ride ''tripState'' = JStr ''in_service''"
    unfolding w(5) w(3) using that by (simp add: merge_checkpoint_def Let_def)
  have departed: "obj_get (aw_ride w) ''hasDepartedOrigin'' = JBool True"
    if "doc_prop ride ''sessionId'' = JStr s" "doc_prop ride ''hasDepartedOrigin'' = JBool True"
    unfolding w(7) w(3) using that by (simp add: merge_checkpoint_def Let_def)
  have "delay_revision (obj_get (aw_ride w) ''delayUpdatedAt'') = Fin (max p q)"
    unfolding w(9) using pq dr [of "doc_prop ride ''delayUpdatedAt''"] dr [of "js_prop (ru_data u) ''delayUpdatedAt''"]
    by (simp add: max_def del: delay_revision.simps)
  then have delay: "delay_revision (doc_prop ride ''delayUpdatedAt'') \<le> delay_revision (obj_get (aw_ride w) ''delayUpdatedAt'')"
    using pq by simp
  show ?thesis using w(1,2,4,6,8) index v trip departed delay by (intro exI [of _ s]) auto
qed

text \<open>A concrete ride: bus b on route r, at stop 2 of three on record, and a delayed event at stop 1.\<close>

definition sample_data :: jsval where
  "sample_data = JObj [(''busId'', JStr ''b''), (''routeId'', JStr ''r''), (''sessionId'', JStr ''s''), (''driverId'', JStr ''d''),
     (''direction'', JStr ''forward''), (''status'', JStr ''active''), (''timestamp'', JNum 5)]"

definition sample_update :: ride_update where
  "sample_update = \<lparr>ru_data = sample_data, ru_trip_state = ''pre_departure'', ru_current_index = 1, ru_has_departed = False,
     ru_stops = [\<lparr>hs_id = ''p'', hs_name = ''P''\<rparr>, \<lparr>hs_id = ''q'', hs_name = ''Q''\<rparr>, \<lparr>hs_id = ''t'', hs_name = ''T''\<rparr>],
     ru_terminal_arrival = JNull, ru_gap_since = None, ru_skipped = [], ru_unobserved = []\<rparr>"

definition sample_ride :: fields where
  "sample_ride = [(''sessionId'', JStr ''s''), (''tripState'', JStr ''in_service''), (''currentStopIndex'', JNum 2)]"

lemma sample_trims: "js_trim ''b'' = ''b''" "js_trim ''r'' = ''r''" "js_trim ''s'' = ''s''"
  by code_simp+

lemma sample_safe: "safe_id ''b''" "safe_id ''r''" "safe_id ''s''"
  by code_simp+

theorem durable_checkpoint_monotone_witness:
  "\<exists>w. persist_active_ride (\<lambda>_. NaN) JNull JNull sample_update (Some sample_ride) (Some [(''sessionId'', JStr ''s'')]) None = Some w \<and>
    obj_get (aw_ride w) ''currentStopIndex'' = JNum 2 \<and> obj_get (aw_ride w) ''tripState'' = JStr ''in_service''"
proof -
  have o: "update_owner sample_update = Some (''b_r'', ''b'', ''s'', Forward)"
    by (simp add: update_owner_def sample_update_def sample_data_def active_ride_document_id_def sample_trims sample_safe lifecycle_direction_def)
  then obtain w where w: "persist_active_ride (\<lambda>_. NaN) JNull JNull sample_update (Some sample_ride) (Some [(''sessionId'', JStr ''s'')]) None = Some w"
    by (simp add: persist_active_ride_def doc_prop_def sample_trims sample_safe Let_def)
  have "obj_get (aw_ride w) ''currentStopIndex'' = JNum (Fin (of_nat (max 1 2)))" "obj_get (aw_ride w) ''tripState'' = JStr ''in_service''"
    using durable_checkpoint_monotone [OF w, of 1]
    by (auto simp: sample_ride_def sample_update_def doc_prop_def sample_trims sample_safe dest!: spec [of _ "2 :: nat"])
  with w show ?thesis by simp
qed

section \<open>Completion and retirement\<close>

text \<open>A completion never removes the ride or the lock of another session, and is refused for a session
  that has been terminated or replaced.\<close>

lemma completion_keeps_others:
  "doc_prop ride ''sessionId'' \<noteq> js_prop data ''sessionId'' \<Longrightarrow> completion_keeps_ride data ride = ride"
  "doc_prop lock ''sessionId'' \<noteq> js_prop data ''sessionId'' \<Longrightarrow> completion_keeps_lock data lock = lock"
  by (auto simp: completion_keeps_ride_def completion_keeps_lock_def split: jsval.splits)

lemma completion_owned:
  assumes "completion_decision parse_date dwell data d ride lock session existing = Completed_Now" "js_prop data ''sessionId'' = JStr s"
  shows "doc_prop lock ''sessionId'' = JStr s \<and> doc_prop session ''status'' \<in> {JStr ''pending'', JStr ''armed'', JStr ''active''}"
  using assms by (auto simp: completion_decision_def Let_def split: if_splits)

lemma live_write_guard:
  assumes "write_live_state u live = Some fs'" "js_prop (lu_data u) ''sessionId'' = JStr s"
  shows "\<exists>fs. live = JObj fs \<and> obj_get fs ''sessionId'' = JStr s \<and> obj_get fs' ''sessionId'' = JStr s \<and>
    obj_get fs ''tripState'' \<noteq> JStr ''completed'' \<and> obj_get fs ''deviceState'' \<noteq> JStr ''offline'' \<and>
    lifecycle_direction live = Some (lu_direction u)"
  using assms by (cases live) (auto simp: write_live_state_def obj_get_put_all opt_default_def Let_def split: if_splits)

section \<open>One return trip\<close>

lemma claim_fields:
  assumes "claim_turnaround parse now destination previous_session new_session live = Some live1"
  shows "obj_get live1 ''sessionId'' = JStr previous_session" "obj_get live1 ''tripState'' = JStr ''completed''"
    "obj_get live1 ''turnaroundClaimId'' = JStr new_session" "obj_get live1 ''turnaroundClaimedAt'' = JNum now" "is_finite now"
proof -
  obtain fs where live: "live = JObj fs" using assms by (cases live) (auto simp: claim_turnaround_def)
  define bad where "bad \<longleftrightarrow> obj_get fs ''sessionId'' \<noteq> JStr previous_session \<or> obj_get fs ''tripState'' \<noteq> JStr ''completed'' \<or>
     claim_is_fresh parse now (JObj fs) \<or> \<not> automatic_turnaround_is_ready (turnaround_query parse now destination (JObj fs)) turnaround_arrival_radius_m"
  have "claim_turnaround parse now destination previous_session new_session live =
      (if bad then None else Some (put_all fs [(''turnaroundClaimId'', JStr new_session), (''turnaroundClaimedAt'', JNum now)]))"
    by (simp only: live claim_turnaround_def bad_def jsval.case)
  then have "\<not> bad \<and> live1 = put_all fs [(''turnaroundClaimId'', JStr new_session), (''turnaroundClaimedAt'', JNum now)]"
    using assms by (cases bad) simp_all
  then have c: "obj_get fs ''sessionId'' = JStr previous_session" "obj_get fs ''tripState'' = JStr ''completed''"
    "automatic_turnaround_is_ready (turnaround_query parse now destination live) turnaround_arrival_radius_m"
    "live1 = put_all fs [(''turnaroundClaimId'', JStr new_session), (''turnaroundClaimedAt'', JNum now)]"
    by (simp_all only: bad_def live de_Morgan_disj not_not simp_thms)
  show "obj_get live1 ''sessionId'' = JStr previous_session" "obj_get live1 ''tripState'' = JStr ''completed''"
    "obj_get live1 ''turnaroundClaimId'' = JStr new_session" "obj_get live1 ''turnaroundClaimedAt'' = JNum now"
    using c(1,2) unfolding c(4) by (simp_all add: obj_get_put_all opt_default_def)
  show "is_finite now" using c(3) unfolding automatic_turnaround_is_ready_def by (simp add: turnaround_query_def)
qed

text \<open>C22. A completed trip is returned once: after one engine has claimed the return, no other claim on
  that node succeeds for a minute, only the claim's own session can activate it or give it up, and the
  activated node carries the new session at its origin, without the previous ride's route context, and
  refuses every further claim and activation of the finished trip.\<close>

theorem turnaround_exclusive:
  assumes "claim_turnaround parse now destination previous_session new_session (JObj live) = Some live1" "jm_ok live"
  shows "(\<forall>now2 destination2 previous2 new2. now2 - now < 60000 \<longrightarrow> claim_turnaround parse now2 destination2 previous2 new2 (JObj live1) = None) \<and>
    (\<forall>server_time plan previous2 new2. new2 \<noteq> new_session \<longrightarrow> activate_turnaround server_time plan previous2 new2 (JObj live1) = None \<and>
      release_turnaround_claim new2 (JObj live1) = None) \<and>
    (\<forall>server_time plan live2. activate_turnaround server_time plan previous_session new_session (JObj live1) = Some live2 \<longrightarrow>
      obj_get live2 ''sessionId'' = JStr new_session \<and> obj_get live2 ''tripState'' = JStr ''pre_departure'' \<and>
      obj_get live2 ''currentStopIndex'' = JNum 0 \<and> \<not> has_live_route_context live2 False \<and>
      (\<forall>now3 destination3 previous3 new3. claim_turnaround parse now3 destination3 previous3 new3 (JObj live2) = None) \<and>
      (\<forall>server_time3 plan3 previous3 new3. activate_turnaround server_time3 plan3 previous3 new3 (JObj live2) = None))"
proof -
  note f = claim_fields [OF assms(1)]
  have fresh: "claim_is_fresh parse now2 (JObj live1)" if "now2 - now < 60000" for now2
    using that f by (simp add: claim_is_fresh_def turnaround_claim_stale_ms_def)
  have ok: "jm_ok live1"
  proof -
    have "jm_ok (put_all m kvs)" if "jm_ok m" for m and kvs :: "(string \<times> jsval) list"
      using that by (induction kvs arbitrary: m) (auto simp: put_all_def)
    then show ?thesis using assms by (auto simp: claim_turnaround_def split: if_splits)
  qed
  have after: "obj_get live2 ''sessionId'' = JStr new_session \<and> obj_get live2 ''tripState'' = JStr ''pre_departure'' \<and>
      obj_get live2 ''currentStopIndex'' = JNum 0 \<and> \<not> has_live_route_context live2 False"
    if a: "activate_turnaround server_time plan previous_session new_session (JObj live1) = Some live2" for server_time plan live2
  proof -
    define kvs where "kvs = [(''sessionId'', JStr new_session), (''driverId'', JStr (pl_driver plan)), (''direction'', direction_value (Some (pl_direction plan))),
            (''originStopId'', JStr (pl_origin plan)), (''destinationStopId'', JStr (pl_destination plan)), (''status'', JStr ''active''),
            (''deviceState'', JStr ''online''), (''tripState'', JStr ''pre_departure''), (''currentStopIndex'', JNum 0),
            (''hasDepartedOrigin'', JBool False), (''terminalArrival'', JNull), (''gnssGap'', JNull), (''delayMinutes'', JNum 0),
            (''delayUpdatedAt'', JNum 0), (''directionState'', JStr ''resolved''), (''directionEndpointVersion'', pl_endpoint_version plan),
            (''directionFirestoreSynced'', JBool True), (''automaticTurnaround'', JBool True), (''previousSessionId'', JStr previous_session),
            (''completedAt'', JNull), (''turnaroundEligibleAt'', JNull), (''turnaroundSampledAt'', JNull), (''turnaroundClaimId'', JNull),
            (''turnaroundClaimedAt'', JNull), (''lifecycleUpdatedAt'', server_time)]"
    have l2: "live2 = put_all (without_live_route_context live1 False) kvs"
      using a f by (simp add: activate_turnaround_def kvs_def)
    have "jm_has (put_all m kvs) k \<longleftrightarrow> jm_has m k \<or> k \<in> fst ` set kvs" for m k
      by (induction kvs arbitrary: m) (auto simp: put_all_def jm_has_def)
    moreover have "set live_route_context_fields \<inter> fst ` set kvs = {}" by (simp add: live_route_context_fields_def kvs_def)
    ultimately have "\<not> has_live_route_context live2 False"
      using context_removed [OF ok] unfolding has_live_route_context_def l2 list_ex_iff by blast
    then show ?thesis using l2 by (simp add: obj_get_put_all kvs_def opt_default_def)
  qed
  have 1: "claim_turnaround parse now2 destination2 previous2 new2 (JObj live1) = None" if "now2 - now < 60000" for now2 destination2 previous2 new2
    by (simp only: claim_turnaround_def jsval.case fresh [OF that] simp_thms if_True)
  have 2: "activate_turnaround server_time plan previous2 new2 (JObj live1) = None \<and> release_turnaround_claim new2 (JObj live1) = None"
    if "new2 \<noteq> new_session" for server_time plan previous2 new2
    using that f(3) by (simp add: activate_turnaround_def release_turnaround_claim_def)
  have 3: "claim_turnaround parse now3 destination3 previous3 new3 (JObj live2) = None \<and>
      activate_turnaround server_time3 plan3 previous3 new3 (JObj live2) = None"
    if "obj_get live2 ''tripState'' = JStr ''pre_departure''" for live2 now3 destination3 previous3 new3 server_time3 plan3
  proof -
    have "obj_get live2 ''tripState'' \<noteq> JStr ''completed''" using that by simp
    then show ?thesis by (simp only: claim_turnaround_def activate_turnaround_def jsval.case simp_thms if_True)
  qed
  show ?thesis using 1 2 3 after by blast
qed

definition sample_completed :: fields where
  "sample_completed = [(''sessionId'', JStr ''s''), (''tripState'', JStr ''completed''), (''timestamp'', JNum 100000),
     (''turnaroundEligibleAt'', JNum 90000), (''motionState'', JStr ''stopped''), (''gpsHdop'', JNum 1), (''lat'', JNum 10), (''lng'', JNum 20)]"

lemma sample_here: "haversine_meters \<lparr>pos_lat = Fin 10, pos_lng = Fin 20\<rparr> \<lparr>pos_lat = Fin 10, pos_lng = Fin 20\<rparr> = 0"
  by (rule hav.dist_self) (simp add: valid_position_def)

theorem turnaround_exclusive_witness:
  "\<exists>live1. claim_turnaround (\<lambda>_. NaN) 100000 \<lparr>pos_lat = 10, pos_lng = 20\<rparr> ''s'' ''n'' (JObj sample_completed) = Some live1 \<and>
    claim_turnaround (\<lambda>_. NaN) 110000 \<lparr>pos_lat = 10, pos_lng = 20\<rparr> ''s'' ''m'' (JObj live1) = None"
proof -
  have "automatic_turnaround_is_ready (turnaround_query (\<lambda>_. NaN) 100000 \<lparr>pos_lat = 10, pos_lng = 20\<rparr> (JObj sample_completed)) turnaround_arrival_radius_m"
    using sample_here
    by (simp add: automatic_turnaround_is_ready_def turnaround_query_def sample_completed_def minimum_sample_def nullish_def
        precise_hdop_def direction_constants valid_coordinate_def)
  moreover have "\<not> claim_is_fresh (\<lambda>_. NaN) 100000 (JObj sample_completed)" by (simp add: claim_is_fresh_def sample_completed_def)
  ultimately obtain live1 where l: "claim_turnaround (\<lambda>_. NaN) 100000 \<lparr>pos_lat = 10, pos_lng = 20\<rparr> ''s'' ''n'' (JObj sample_completed) = Some live1"
    by (simp add: claim_turnaround_def sample_completed_def)
  moreover have "jm_ok sample_completed" by (simp add: jm_ok_def sample_completed_def)
  ultimately have "claim_turnaround (\<lambda>_. NaN) 110000 \<lparr>pos_lat = 10, pos_lng = 20\<rparr> ''s'' ''m'' (JObj live1) = None"
    using turnaround_exclusive [OF l] by simp
  with l show ?thesis by blast
qed

end
