(* ===== verification/Ride_Start.thy ===== *)
theory Ride_Start imports Ride_Lifecycle begin

text \<open>
  The start of a service (\<open>services/rideSessionStart.ts\<close>, \<open>lib/endpointSnapshotVersion.ts\<close>): the checks
  before a start, the transactions on the idempotency key, the lock of the bus and the session, the claim
  of the live node, and the projections that follow. A Firestore transaction is a function on the store of
  documents; every read the code makes outside a transaction is an argument, since it may be out of date.
  A merge writes the given fields over the stored ones (the only nested map written, \<open>stopsReached\<close>, is
  written over an empty one or is the stored one itself). The number parse of strings and the six-digit
  format of coordinates are parameters, as is the server time.
\<close>

section \<open>Documents and requests\<close>

record assignment =
  as_driver :: string
  as_bus :: string
  as_route :: string

record start_request =
  rq_assignment :: assignment
  rq_key :: "string option"
  rq_automatic :: bool
  rq_revision :: jsval

datatype start_error =
    Key_Of_Other_Assignment
  | Session_Deleted
  | Terminal_Session
  | Interrupted_Session
  | Automatic_Unavailable
  | Completion_Recovery
  | Lifecycle_Recovery
  | Bus_On_Other_Route
  | Active_Shift
  | Too_Few_Stops
  | No_Fresh_Fix
  | Route_Changed
  | Session_Ended_While_Starting
  | Live_Changed_While_Starting
  | Other_Session_Owns_Projection
  | Already_Exists

fun status_code :: "start_error \<Rightarrow> nat" where
  "status_code Session_Deleted = 410"
| "status_code Too_Few_Stops = 422"
| "status_code _ = 409"

record start_result =
  sr_session :: string
  sr_resumed :: bool
  sr_direction :: "direction option"
  sr_pending :: bool
  sr_created :: bool

record store =
  st_keys :: "string \<Rightarrow> fields option"
  st_locks :: "string \<Rightarrow> fields option"
  st_sessions :: "string \<Rightarrow> fields option"
  st_rides :: "string \<Rightarrow> fields option"
  st_locations :: "string \<Rightarrow> fields option"

definition merge_doc :: "fields option \<Rightarrow> fields \<Rightarrow> fields option" where
  "merge_doc doc data = Some (put_all (opt_default doc []) data)"

definition matches_assignment :: "assignment \<Rightarrow> fields \<Rightarrow> bool" where
  "matches_assignment a v \<longleftrightarrow> obj_get v ''busId'' = JStr (as_bus a) \<and> obj_get v ''routeId'' = JStr (as_route a) \<and>
     obj_get v ''driverId'' = JStr (as_driver a)"

definition binding_data :: "jsval \<Rightarrow> assignment \<Rightarrow> string \<Rightarrow> fields" where
  "binding_data server_time a session_id = [(''driverId'', JStr (as_driver a)), (''busId'', JStr (as_bus a)), (''routeId'', JStr (as_route a)),
     (''sessionId'', JStr session_id), (''createdAt'', server_time)]"

definition terminal_status :: "jsval \<Rightarrow> bool" where
  "terminal_status v \<longleftrightarrow> v \<in> {JStr ''completed'', JStr ''interrupted'', JStr ''failed''}"

definition active_ride_id :: "string \<Rightarrow> string \<Rightarrow> string" where
  "active_ride_id bus_id route_id = bus_id @ ''_'' @ route_id"

section \<open>Before the start\<close>

text \<open>What an earlier use of the key decides: an error, the earlier result, or the session it is pinned to.\<close>

definition prior_check :: "start_request \<Rightarrow> fields option \<Rightarrow> (string \<Rightarrow> fields option) \<Rightarrow> start_error + start_result + string option" where
  "prior_check rq prior_binding session_of = (case prior_binding of
      None \<Rightarrow> Inr (Inr None)
    | Some prior \<Rightarrow> (if \<not> matches_assignment (rq_assignment rq) prior then Inl Key_Of_Other_Assignment
        else (case obj_get prior ''sessionId'' of
            JStr s \<Rightarrow> (if s = [] then Inr (Inr None)
              else (case session_of s of
                  None \<Rightarrow> Inl Session_Deleted
                | Some data \<Rightarrow> (if terminal_status (obj_get data ''status'') then
                    (if rq_automatic rq then Inl (if obj_get data ''status'' = JStr ''completed'' then Terminal_Session else Interrupted_Session)
                     else (let direction = normalize_ride_direction (obj_get data ''direction'') in
                       Inr (Inl \<lparr>sr_session = s, sr_resumed = True, sr_direction = direction, sr_pending = (direction = None), sr_created = False\<rparr>)))
                  else Inr (Inr (Some s)))))
          | _ \<Rightarrow> Inr (Inr None))))"

definition revision_differs :: "(jsval \<Rightarrow> jsnum) \<Rightarrow> jsval \<Rightarrow> jsval \<Rightarrow> bool" where
  "revision_differs parse a b \<longleftrightarrow> \<not> num_eq (js_number parse (nullish a (JNum 0))) (js_number parse (nullish b (JNum 0)))"

definition automatic_blocked :: "(jsval \<Rightarrow> jsnum) \<Rightarrow> jsval \<Rightarrow> jsval \<Rightarrow> bool" where
  "automatic_blocked parse revision live \<longleftrightarrow> js_prop live ''tripState'' = JStr ''completed'' \<or> js_prop live ''tripState'' = JStr ''interrupted'' \<or>
     js_prop live ''automaticServicePaused'' = JBool True \<or> (\<exists>x. js_prop live ''retiredAssignmentRevision'' = JNum x) \<or>
     revision_differs parse (js_prop live ''assignmentRevision'') revision"

definition current_check :: "(jsval \<Rightarrow> jsnum) \<Rightarrow> start_request \<Rightarrow> string option \<Rightarrow> jsval \<Rightarrow> start_error option" where
  "current_check parse rq pinned current =
    (if rq_automatic rq \<and> automatic_blocked parse (rq_revision rq) current then Some Automatic_Unavailable
     else if rq_key rq \<noteq> None \<and> (\<exists>s. pinned = Some s \<and> js_prop current ''sessionId'' = JStr s) \<and> js_prop current ''tripState'' = JStr ''completed''
     then Some Completion_Recovery
     else if (\<exists>s. pinned = Some s \<and> js_prop current ''sessionId'' \<noteq> JStr s) \<and> js_prop current ''status'' = JStr ''active'' \<and>
        js_prop current ''tripState'' \<noteq> JStr ''completed'' then Some Lifecycle_Recovery
     else None)"

text \<open>The session of a live node that is under way, and whether it is this driver's.\<close>

definition session_under_way :: "jsval \<Rightarrow> string option" where
  "session_under_way current = (if js_prop current ''status'' = JStr ''active'' \<and> js_prop current ''tripState'' \<noteq> JStr ''completed''
     then (case js_prop current ''sessionId'' of JStr s \<Rightarrow> (if safe_id s then Some s else None) | _ \<Rightarrow> None) else None)"

definition resumable :: "assignment \<Rightarrow> jsval \<Rightarrow> string option" where
  "resumable a current = (if js_prop current ''driverId'' = JStr (as_driver a) then session_under_way current else None)"

definition endpoint_part :: "(jsnum \<Rightarrow> string) \<Rightarrow> jsval \<Rightarrow> string option" where
  "endpoint_part fixed6 stop = (case (js_prop stop ''id'', js_prop stop ''lat'', js_prop stop ''lng'') of
      (JStr i, JNum lat, JNum lng) \<Rightarrow> (if is_finite lat \<and> is_finite lng then Some (i @ '':'' @ fixed6 lat @ '':'' @ fixed6 lng) else None)
    | _ \<Rightarrow> None)"

fun join_parts :: "string list \<Rightarrow> string" where
  "join_parts [] = []"
| "join_parts [p] = p"
| "join_parts (p # ps) = p @ ''|'' @ join_parts ps"

definition endpoint_snapshot_version :: "(jsnum \<Rightarrow> string) \<Rightarrow> jsval list \<Rightarrow> string option" where
  "endpoint_snapshot_version fixed6 stops = (if length stops < 2 then None
     else (let parts = map (endpoint_part fixed6) stops in
       if list_all (\<lambda>p. p \<noteq> None) parts then Some (join_parts (map the parts)) else None))"

definition route_document_version :: "fields option \<Rightarrow> jsnum" where
  "route_document_version route = (case doc_prop route ''configVersion'' of
      JNum v \<Rightarrow> (if is_safe_integer v \<and> v \<ge> 0 then v else 0) | _ \<Rightarrow> 0)"

definition natural_stops :: "fields option \<Rightarrow> jsval list" where
  "natural_stops route = (case doc_prop route ''stops'' of JArr stops \<Rightarrow> stops | _ \<Rightarrow> [])"

definition stop_position :: "jsval \<Rightarrow> position" where
  "stop_position stop = \<lparr>pos_lat = opt_default (num_of (js_prop stop ''lat'')) NaN, pos_lng = opt_default (num_of (js_prop stop ''lng'')) NaN\<rparr>"

text \<open>The checks of a fresh start: the route, the fix, and the direction it shows.\<close>

definition fresh_start_check ::
    "(jsval \<Rightarrow> jsnum) \<Rightarrow> (jsnum \<Rightarrow> string) \<Rightarrow> jsnum \<Rightarrow> start_request \<Rightarrow> jsval \<Rightarrow> fields option \<Rightarrow> start_error + (string \<times> direction option)" where
  "fresh_start_check parse fixed6 now rq current route =
    (let stops = natural_stops route; timestamp = js_number parse (js_prop current ''timestamp'');
       lat = js_number parse (js_prop current ''lat''); lng = js_number parse (js_prop current ''lng'') in
     if length stops < 2 then Inl Too_Few_Stops
     else if \<not> is_finite lat \<or> \<not> is_finite lng \<or> \<not> is_finite timestamp \<or> now - timestamp > 60000 \<or> timestamp > now + 10000 \<or>
        (rq_automatic rq \<and> (js_prop current ''motionState'' = JStr ''uncertain'' \<or> \<not> precise_hdop (js_prop current ''gpsHdop'')))
     then Inl No_Fresh_Fix
     else (case endpoint_snapshot_version fixed6 stops of
         None \<Rightarrow> Inl Too_Few_Stops
       | Some version \<Rightarrow> Inr (version, infer_ride_direction_from_telemetry (map stop_position stops)
           \<lparr>dt_now = now, dt_timestamp = timestamp, dt_motion_state = js_prop current ''motionState'', dt_gps_hdop = js_prop current ''gpsHdop'',
             dt_position = \<lparr>pos_lat = lat, pos_lng = lng\<rparr>\<rparr> endpoint_geofence_m)))"

section \<open>The transactions of a start\<close>

definition create_doc :: "string \<Rightarrow> fields \<Rightarrow> (string \<Rightarrow> fields option) \<Rightarrow> start_error + (string \<Rightarrow> fields option)" where
  "create_doc i data docs = (if docs i \<noteq> None then Inl Already_Exists else Inr (docs(i := Some data)))"

definition binding_of :: "start_request \<Rightarrow> store \<Rightarrow> fields option" where
  "binding_of rq st = Option.bind (rq_key rq) (st_keys st)"

definition bind_key :: "jsval \<Rightarrow> start_request \<Rightarrow> string \<Rightarrow> store \<Rightarrow> store" where
  "bind_key server_time rq session_id st = (case rq_key rq of
      Some k \<Rightarrow> (if st_keys st k = None then st\<lparr>st_keys := (st_keys st)(k := Some (binding_data server_time (rq_assignment rq) session_id))\<rparr> else st)
    | None \<Rightarrow> st)"

text \<open>The claim of the lock for the session that is under way.\<close>

definition resume_claim :: "jsval \<Rightarrow> start_request \<Rightarrow> string \<Rightarrow> direction option \<Rightarrow> store \<Rightarrow> bool \<times> store" where
  "resume_claim server_time rq session_id direction st =
    (let a = rq_assignment rq; binding = binding_of rq st; lock = st_locks st (as_bus a); session = st_sessions st session_id in
     if (\<exists>b. binding = Some b \<and> (\<not> matches_assignment a b \<or> obj_get b ''sessionId'' \<noteq> JStr session_id)) then (False, st)
     else if (rq_key rq \<noteq> None \<and> session = None) \<or> (\<exists>d. session = Some d \<and> terminal_status (obj_get d ''status'')) then (False, st)
     else if (\<exists>l. lock = Some l \<and> obj_get l ''sessionId'' \<noteq> JStr session_id) then (False, st)
     else (let st1 = bind_key server_time rq session_id st in
       (True, st1\<lparr>st_locks := (st_locks st1)(as_bus a := Some [(''busId'', JStr (as_bus a)), (''routeId'', JStr (as_route a)),
          (''driverId'', JStr (as_driver a)), (''sessionId'', JStr session_id), (''direction'', direction_value direction), (''updatedAt'', server_time)])\<rparr>)))"

record claim_input =
  ci_current :: jsval
  ci_pinned :: "string option"
  ci_config_version :: jsnum
  ci_endpoint_version :: string
  ci_natural_stops :: "jsval list"
  ci_direction :: "direction option"
  ci_proposed :: string
  ci_armed_at :: jsnum

record claim_result =
  cr_session :: string
  cr_armed_at :: jsval
  cr_status :: jsval
  cr_created :: bool
  cr_direction :: "direction option"

definition stop_ident :: "jsval list \<Rightarrow> (jsval list \<Rightarrow> jsval) \<Rightarrow> jsval" where
  "stop_ident stops end_of = (if stops = [] then JNull else string_or (js_prop (end_of stops) ''id'') JNull)"

definition ride_stops :: "jsval list \<Rightarrow> direction option \<Rightarrow> jsval list" where
  "ride_stops natural direction = (case direction of Some d \<Rightarrow> stops_in_ride_direction natural d | None \<Rightarrow> [])"

definition direction_state :: "direction option \<Rightarrow> jsval" where
  "direction_state d = JStr (if d = None then ''pending'' else ''resolved'')"

definition increment :: "jsval \<Rightarrow> jsval" where
  "increment v = (case v of JNum n \<Rightarrow> JNum (n + 1) | _ \<Rightarrow> JNum 1)"

text \<open>A deliberate manual start resumes automatic service.\<close>

definition resume_location :: "start_request \<Rightarrow> fields option \<Rightarrow> fields option" where
  "resume_location rq location = (if rq_automatic rq then location
     else merge_doc location [(''automaticServicePaused'', JBool False), (''automaticServiceEpoch'', increment (doc_prop location ''automaticServiceEpoch''))])"

definition reuse_lock :: "jsval \<Rightarrow> start_request \<Rightarrow> claim_input \<Rightarrow> fields \<Rightarrow> store \<Rightarrow> claim_result option \<times> store" where
  "reuse_lock server_time rq ci lock st = (let a = rq_assignment rq in
    case obj_get lock ''sessionId'' of
      JStr sid \<Rightarrow>
        (if obj_get lock ''driverId'' \<noteq> JStr (as_driver a) \<or> obj_get lock ''routeId'' \<noteq> JStr (as_route a) \<or> \<not> safe_id sid then (None, st)
         else (let session = st_sessions st sid; status = doc_prop session ''status'' in
           if session = None \<or> status \<notin> {JStr ''pending'', JStr ''armed'', JStr ''active''} then (None, st)
           else (let existing = normalize_ride_direction (doc_prop session ''direction'') in
             if existing \<noteq> None \<and> ci_direction ci \<noteq> None \<and> existing \<noteq> ci_direction ci then (None, st)
             else (let direction = (if existing \<noteq> None then existing else ci_direction ci);
                 stops = ride_stops (ci_natural_stops ci) direction;
                 st1 = bind_key server_time rq sid st;
                 st2 = (if direction \<noteq> None \<and> existing = None then st1\<lparr>
                     st_sessions := (st_sessions st1)(sid := merge_doc (st_sessions st1 sid) [(''direction'', direction_value direction),
                       (''directionState'', JStr ''resolved''), (''directionEndpointVersion'', JStr (ci_endpoint_version ci)),
                       (''originStopId'', stop_ident stops hd), (''destinationStopId'', stop_ident stops last), (''directionResolvedAt'', server_time)]),
                     st_locks := (st_locks st1)(as_bus a := merge_doc (st_locks st1 (as_bus a)) [(''direction'', direction_value direction), (''updatedAt'', server_time)])\<rparr>
                   else st1) in
               (Some \<lparr>cr_session = sid, cr_armed_at = (case doc_prop session ''armedAt'' of JNum t \<Rightarrow> JNum t | _ \<Rightarrow> JNum (ci_armed_at ci)),
                  cr_status = status, cr_created = False, cr_direction = direction\<rparr>,
                st2\<lparr>st_locations := (st_locations st2)(as_bus a := resume_location rq (st_locations st2 (as_bus a)))\<rparr>)))))
    | _ \<Rightarrow> (None, st))"

definition new_session :: "jsval \<Rightarrow> start_request \<Rightarrow> claim_input \<Rightarrow> fields" where
  "new_session server_time rq ci = (let a = rq_assignment rq; d = ci_direction ci; stops = ride_stops (ci_natural_stops ci) d in
    [(''id'', JStr (ci_proposed ci)), (''busId'', JStr (as_bus a)), (''driverId'', JStr (as_driver a)), (''routeId'', JStr (as_route a)),
     (''direction'', direction_value d), (''directionState'', direction_state d),
     (''directionEndpointVersion'', if d = None then JNull else JStr (ci_endpoint_version ci)),
     (''originStopId'', stop_ident stops hd), (''destinationStopId'', stop_ident stops last),
     (''armedAt'', JNum (ci_armed_at ci)), (''status'', JStr ''pending''), (''passengers'', JObj []), (''stopsReached'', JObj [])])"

definition new_lock :: "jsval \<Rightarrow> start_request \<Rightarrow> claim_input \<Rightarrow> fields" where
  "new_lock server_time rq ci = (let a = rq_assignment rq in
    [(''busId'', JStr (as_bus a)), (''routeId'', JStr (as_route a)), (''driverId'', JStr (as_driver a)), (''sessionId'', JStr (ci_proposed ci)),
     (''direction'', direction_value (ci_direction ci)), (''createdAt'', server_time), (''updatedAt'', server_time)])"

definition create_service :: "jsval \<Rightarrow> start_request \<Rightarrow> claim_input \<Rightarrow> store \<Rightarrow> (start_error + claim_result) \<times> store" where
  "create_service server_time rq ci st = (let a = rq_assignment rq in
    case (case rq_key rq of Some k \<Rightarrow> create_doc k (binding_data server_time a (ci_proposed ci)) (st_keys st) | None \<Rightarrow> Inr (st_keys st)) of
      Inl e \<Rightarrow> (Inl e, st)
    | Inr keys \<Rightarrow> (case create_doc (ci_proposed ci) (new_session server_time rq ci) (st_sessions st) of
        Inl e \<Rightarrow> (Inl e, st)
      | Inr sessions \<Rightarrow> (case create_doc (as_bus a) (new_lock server_time rq ci) (st_locks st) of
          Inl e \<Rightarrow> (Inl e, st)
        | Inr locks \<Rightarrow>
            (Inr \<lparr>cr_session = ci_proposed ci, cr_armed_at = JNum (ci_armed_at ci), cr_status = JStr ''pending'', cr_created = True, cr_direction = ci_direction ci\<rparr>,
             \<lparr>st_keys = keys, st_locks = locks, st_sessions = sessions, st_rides = st_rides st,
              st_locations = (st_locations st)(as_bus a :=
                Some (jm_delete (opt_default (resume_location rq (st_locations st (as_bus a))) []) ''terminalJourney''))\<rparr>))))"

text \<open>The claim of the lock of the bus: an error that is thrown, no claim, or the session it is for.\<close>

definition lock_claim ::
    "(jsnum \<Rightarrow> string) \<Rightarrow> jsval \<Rightarrow> start_request \<Rightarrow> claim_input \<Rightarrow> fields option \<Rightarrow> store \<Rightarrow> (start_error + claim_result option) \<times> store" where
  "lock_claim fixed6 server_time rq ci latest_route st =
    (let a = rq_assignment rq; binding = binding_of rq st; lock = st_locks st (as_bus a) in
     if \<not> num_eq (route_document_version latest_route) (ci_config_version ci) \<or>
        endpoint_snapshot_version fixed6 (natural_stops latest_route) \<noteq> Some (ci_endpoint_version ci) then (Inl Route_Changed, st)
     else if (\<exists>b. binding = Some b \<and> (\<not> matches_assignment a b \<or> obj_get b ''sessionId'' \<noteq> doc_prop lock ''sessionId'')) then (Inr None, st)
     else if (\<exists>s. ci_pinned ci = Some s \<and> doc_prop lock ''sessionId'' \<noteq> JStr s) then (Inr None, st)
     else if rq_key rq \<noteq> None \<and> lock \<noteq> None \<and> js_prop (ci_current ci) ''tripState'' = JStr ''completed'' \<and>
        doc_prop lock ''sessionId'' = js_prop (ci_current ci) ''sessionId'' then (Inr None, st)
     else (case lock of
         Some l \<Rightarrow> (case reuse_lock server_time rq ci l st of (r, st') \<Rightarrow> (Inr r, st'))
       | None \<Rightarrow> (case create_service server_time rq ci st of
           (Inl e, st') \<Rightarrow> (Inl e, st')
         | (Inr r, st') \<Rightarrow> (Inr (Some r), st'))))"

definition release_active_bus_lock :: "string \<Rightarrow> string \<Rightarrow> store \<Rightarrow> store" where
  "release_active_bus_lock bus_id session_id st =
    (if doc_prop (st_locks st bus_id) ''sessionId'' = JStr session_id then st\<lparr>st_locks := (st_locks st)(bus_id := None)\<rparr> else st)"

text \<open>The live claim lost: a session created for it fails, and lets go of the lock in the same commit.\<close>

definition fail_created :: "string \<Rightarrow> string \<Rightarrow> jsnum \<Rightarrow> store \<Rightarrow> store" where
  "fail_created bus_id session_id failed_at st = release_active_bus_lock bus_id session_id
     (st\<lparr>st_sessions := (st_sessions st)(session_id := merge_doc (st_sessions st session_id)
       [(''status'', JStr ''failed''), (''endTime'', JNum failed_at), (''failureReason'', JStr ''shift_conflict'')])\<rparr>)"

section \<open>The live node\<close>

record claimed_state =
  cl_trip_state :: string
  cl_stop_index :: jsval
  cl_departed :: bool
  cl_delay_minutes :: jsnum
  cl_delay_updated_at :: jsnum

definition claim_state :: "start_request \<Rightarrow> jsval \<Rightarrow> claim_result \<Rightarrow> fields option \<Rightarrow> start_error + claimed_state" where
  "claim_state rq current cr recovery =
    (if \<not> cr_created cr \<and> cr_status cr \<noteq> JStr ''pending'' then
       (if recovery = None \<or> doc_prop recovery ''sessionId'' \<noteq> JStr (cr_session cr) then Inl Lifecycle_Recovery
        else Inr \<lparr>cl_trip_state = (if doc_prop recovery ''tripState'' = JStr ''in_service'' then ''in_service'' else ''pre_departure''),
          cl_stop_index = (case doc_prop recovery ''currentStopIndex'' of JNum i \<Rightarrow> (if is_integer i then JNum i else JNum 0) | _ \<Rightarrow> JNum 0),
          cl_departed = (doc_prop recovery ''hasDepartedOrigin'' = JBool True),
          cl_delay_minutes = normalized_delay_minutes (doc_prop recovery ''delayMinutes''),
          cl_delay_updated_at = delay_revision (doc_prop recovery ''delayUpdatedAt'')\<rparr>)
     else Inr \<lparr>cl_trip_state = (if cr_direction cr \<noteq> None \<and> \<not> rq_automatic rq \<and> js_prop current ''automaticServicePaused'' \<noteq> JBool True
           then ''in_service'' else ''pre_departure''),
         cl_stop_index = JNum 0, cl_departed = False, cl_delay_minutes = 0, cl_delay_updated_at = 0\<rparr>)"

definition node_claim ::
    "(jsval \<Rightarrow> jsnum) \<Rightarrow> jsval \<Rightarrow> start_request \<Rightarrow> claim_input \<Rightarrow> claim_result \<Rightarrow> claimed_state \<Rightarrow> jsval \<Rightarrow> fields option" where
  "node_claim parse server_time rq ci cr cl live =
    (if rq_automatic rq \<and> automatic_blocked parse (js_prop (ci_current ci) ''assignmentRevision'') live then None
     else if rq_key rq \<noteq> None \<and> js_prop live ''sessionId'' = JStr (cr_session cr) \<and> js_prop live ''tripState'' = JStr ''completed'' then None
     else if js_prop live ''status'' = JStr ''active'' \<and> js_prop live ''tripState'' \<noteq> JStr ''completed'' \<and>
        (\<exists>s. js_prop live ''sessionId'' = JStr s \<and> s \<noteq> []) then None
     else (let a = rq_assignment rq; d = cr_direction cr; stops = ride_stops (ci_natural_stops ci) d;
         base = without_live_route_context (case live of JObj fs \<Rightarrow> fs | _ \<Rightarrow> []) False in
       Some (put_all base [(''busId'', JStr (as_bus a)), (''driverId'', JStr (as_driver a)), (''routeId'', JStr (as_route a)),
         (''direction'', direction_value d), (''directionState'', direction_state d),
         (''directionEndpointVersion'', if d = None then JNull else JStr (ci_endpoint_version ci)),
         (''originStopId'', stop_ident stops hd), (''destinationStopId'', stop_ident stops last),
         (''sessionId'', JStr (cr_session cr)), (''status'', JStr ''active''), (''deviceState'', JStr ''online''),
         (''automaticServicePaused'', JBool False), (''automaticServiceState'', JNull), (''serviceSetupPending'', JBool (rq_automatic rq)),
         (''tripState'', JStr (cl_trip_state cl)), (''hasDepartedOrigin'', JBool (cl_departed cl)), (''currentStopIndex'', cl_stop_index cl),
         (''delayMinutes'', JNum (cl_delay_minutes cl)), (''delayUpdatedAt'', JNum (cl_delay_updated_at cl)),
         (''automaticTurnaround'', JBool False), (''previousSessionId'', JNull), (''completedAt'', JNull), (''turnaroundEligibleAt'', JNull),
         (''turnaroundClaimId'', JNull), (''turnaroundClaimedAt'', JNull), (''lifecycleUpdatedAt'', server_time)])))"

text \<open>\<open>None\<close> leaves the node as it is.\<close>

definition complete_automatic_setup :: "string \<Rightarrow> bool \<Rightarrow> jsval \<Rightarrow> fields option" where
  "complete_automatic_setup session_id automatic live = (case live of
      JObj fs \<Rightarrow> (if \<not> automatic \<or> obj_get fs ''sessionId'' \<noteq> JStr session_id \<or> obj_get fs ''serviceSetupPending'' \<noteq> JBool True then None
        else Some (put_all fs [(''serviceSetupPending'', JBool False), (''automaticServiceState'', JNull)]))
    | _ \<Rightarrow> None)"

section \<open>The projections of a start\<close>

definition resumed_session :: "start_request \<Rightarrow> jsval \<Rightarrow> string \<Rightarrow> fields" where
  "resumed_session rq current session_id = (let a = rq_assignment rq; d = normalize_ride_direction (js_prop current ''direction'') in
    [(''id'', JStr session_id), (''busId'', JStr (as_bus a)), (''driverId'', JStr (as_driver a)), (''routeId'', JStr (as_route a)),
     (''status'', JStr (if d = None then ''pending'' else if js_prop current ''tripState'' = JStr ''pre_departure'' then ''armed'' else ''active'')),
     (''direction'', direction_value d), (''directionState'', direction_state d),
     (''originStopId'', string_or (js_prop current ''originStopId'') JNull), (''destinationStopId'', string_or (js_prop current ''destinationStopId'') JNull)])"

definition resumed_ride :: "jsval \<Rightarrow> start_request \<Rightarrow> jsval \<Rightarrow> string \<Rightarrow> (string \<times> fields) option" where
  "resumed_ride server_time rq current session_id = (let a = rq_assignment rq; d = normalize_ride_direction (js_prop current ''direction'') in
    if d = None then None
    else Some (active_ride_id (as_bus a) (as_route a),
      [(''sessionId'', JStr session_id), (''busId'', JStr (as_bus a)), (''driverId'', JStr (as_driver a)), (''routeId'', JStr (as_route a)),
       (''status'', JStr ''active''), (''direction'', direction_value d),
       (''originStopId'', string_or (js_prop current ''originStopId'') JNull), (''destinationStopId'', string_or (js_prop current ''destinationStopId'') JNull),
       (''tripState'', JStr (if js_prop current ''tripState'' = JStr ''in_service'' then ''in_service'' else ''pre_departure'')),
       (''currentStopIndex'', (case js_prop current ''currentStopIndex'' of JNum i \<Rightarrow> (if is_integer i then JNum i else JNum 0) | _ \<Rightarrow> JNum 0)),
       (''hasDepartedOrigin'', JBool (js_prop current ''hasDepartedOrigin'' = JBool True)),
       (''delayMinutes'', JNum (normalized_delay_minutes (js_prop current ''delayMinutes''))),
       (''delayUpdatedAt'', JNum (delay_revision (js_prop current ''delayUpdatedAt''))), (''updatedAt'', server_time)]))"

definition started_session :: "jsval \<Rightarrow> claim_input \<Rightarrow> claim_result \<Rightarrow> claimed_state \<Rightarrow> fields" where
  "started_session server_time ci cr cl = (let d = cr_direction cr; stops = ride_stops (ci_natural_stops ci) d in
    [(''status'', JStr (if d = None then ''pending'' else if cl_trip_state cl = ''in_service'' then ''active'' else ''armed'')),
     (''armedAt'', cr_armed_at cr), (''direction'', direction_value d), (''directionState'', direction_state d),
     (''directionEndpointVersion'', if d = None then JNull else JStr (ci_endpoint_version ci)),
     (''originStopId'', stop_ident stops hd), (''destinationStopId'', stop_ident stops last)] @
    (if d \<noteq> None \<and> cl_trip_state cl = ''in_service'' \<and> cr_created cr
     then [(''startTime'', cr_armed_at cr), (''activatedAt'', server_time), (''stopsReached'', JObj [(''0'', JObj [(''stopIndex'', JNum 0),
        (''stopId'', string_or (js_prop (if stops = [] then JNull else hd stops) ''id'') (JStr [])),
        (''stopName'', string_or (js_prop (if stops = [] then JNull else hd stops) ''name'') (JStr [])), (''timestamp'', server_time)])])]
     else []) @ [(''updatedAt'', server_time)])"

definition started_ride :: "jsval \<Rightarrow> start_request \<Rightarrow> claim_input \<Rightarrow> claim_result \<Rightarrow> claimed_state \<Rightarrow> (string \<times> fields) option" where
  "started_ride server_time rq ci cr cl = (let a = rq_assignment rq; d = cr_direction cr; stops = ride_stops (ci_natural_stops ci) d in
    if d = None then None
    else Some (active_ride_id (as_bus a) (as_route a),
      [(''sessionId'', JStr (cr_session cr)), (''busId'', JStr (as_bus a)), (''driverId'', JStr (as_driver a)), (''routeId'', JStr (as_route a)),
       (''status'', JStr ''active''), (''direction'', direction_value d), (''originStopId'', stop_ident stops hd), (''destinationStopId'', stop_ident stops last),
       (''tripState'', JStr (cl_trip_state cl)), (''currentStopIndex'', cl_stop_index cl), (''hasDepartedOrigin'', JBool (cl_departed cl)),
       (''delayMinutes'', JNum (cl_delay_minutes cl)), (''delayUpdatedAt'', JNum (cl_delay_updated_at cl)), (''updatedAt'', server_time)]))"

fun has_keys :: "jsval \<Rightarrow> bool" where
  "has_keys (JObj fs) \<longleftrightarrow> fs \<noteq> []"
| "has_keys (JArr vs) \<longleftrightarrow> vs \<noteq> []"
| "has_keys (JStr s) \<longleftrightarrow> s \<noteq> []"
| "has_keys _ \<longleftrightarrow> False"

definition kept_fields :: "fields \<Rightarrow> string list \<Rightarrow> fields" where
  "kept_fields stored names = List.map_filter (\<lambda>f. if obj_get stored f \<noteq> JUndef then Some (f, obj_get stored f) else None) names"

definition session_to_commit :: "fields \<Rightarrow> fields \<Rightarrow> fields" where
  "session_to_commit stored data =
    (let s1 = (if obj_get stored ''status'' = JStr ''active'' then jm_set data ''status'' (JStr ''active'') else data);
       s2 = (if obj_get stored ''status'' = JStr ''armed'' \<and> obj_get s1 ''status'' = JStr ''pending'' then jm_set s1 ''status'' (JStr ''armed'') else s1);
       s3 = (if is_ride_direction (obj_get stored ''direction'')
         then put_all s2 (kept_fields stored [''direction'', ''directionState'', ''directionEndpointVersion'', ''originStopId'', ''destinationStopId''])
         else s2);
       s4 = put_all s3 (kept_fields stored [''startTime'', ''activatedAt'']) in
     if has_keys (obj_get stored ''stopsReached'') then jm_set s4 ''stopsReached'' (obj_get stored ''stopsReached'') else s4)"

definition stored_delay :: "fields option \<Rightarrow> fields \<Rightarrow> fields" where
  "stored_delay active data =
    (if active \<noteq> None \<and> delay_revision (doc_prop active ''delayUpdatedAt'') > delay_revision (obj_get data ''delayUpdatedAt'')
     then put_all data [(''delayMinutes'', doc_prop active ''delayMinutes''), (''delayUpdatedAt'', doc_prop active ''delayUpdatedAt'')] else data)"

definition live_delay :: "jsval \<Rightarrow> fields \<Rightarrow> fields" where
  "live_delay live data = (if delay_revision (js_prop live ''delayUpdatedAt'') > delay_revision (obj_get data ''delayUpdatedAt'')
     then put_all data [(''delayMinutes'', JNum (normalized_delay_minutes (js_prop live ''delayMinutes''))),
       (''delayUpdatedAt'', JNum (delay_revision (js_prop live ''delayUpdatedAt'')))] else data)"

definition stored_progress :: "(jsval \<Rightarrow> jsnum) \<Rightarrow> fields option \<Rightarrow> fields \<Rightarrow> fields" where
  "stored_progress parse active data = (case doc_prop active ''currentStopIndex'' of
       JNum i \<Rightarrow> (if is_integer i \<and> i > js_number parse (obj_get data ''currentStopIndex'') then jm_set data ''currentStopIndex'' (JNum i) else data)
     | _ \<Rightarrow> data)"

definition ride_to_commit :: "(jsval \<Rightarrow> jsnum) \<Rightarrow> fields option \<Rightarrow> jsval \<Rightarrow> fields \<Rightarrow> fields" where
  "ride_to_commit parse active live data =
    (let d2 = live_delay live (stored_delay active data);
       d3 = (if doc_prop active ''tripState'' = JStr ''in_service'' then jm_set d2 ''tripState'' (JStr ''in_service'') else d2);
       d4 = stored_progress parse active d3 in
     if doc_prop active ''hasDepartedOrigin'' = JBool True then jm_set d4 ''hasDepartedOrigin'' (JBool True) else d4)"

text \<open>The transaction that writes the projections of a keyed start, with the live node read inside it.\<close>

definition commit_creation_projections ::
    "(jsval \<Rightarrow> jsnum) \<Rightarrow> string \<Rightarrow> fields \<Rightarrow> (string \<times> fields) option \<Rightarrow> jsval \<Rightarrow> store \<Rightarrow> start_error + store" where
  "commit_creation_projections parse session_id data ride live st = (case st_sessions st session_id of
      None \<Rightarrow> Inl Session_Ended_While_Starting
    | Some stored \<Rightarrow>
        (if terminal_status (obj_get stored ''status'') then Inl Session_Ended_While_Starting
         else if js_prop live ''sessionId'' \<noteq> JStr session_id \<or> js_prop live ''status'' \<noteq> JStr ''active'' \<or>
            js_prop live ''tripState'' = JStr ''completed'' then Inl Live_Changed_While_Starting
         else (let st1 = st\<lparr>st_sessions := (st_sessions st)(session_id := merge_doc (Some stored) (session_to_commit stored data))\<rparr> in
           case ride of
             None \<Rightarrow> Inr st1
           | Some (ride_id, ride_data) \<Rightarrow> (let active = st_rides st ride_id in
               if active \<noteq> None \<and> doc_prop active ''sessionId'' \<noteq> JStr session_id then Inl Other_Session_Owns_Projection
               else Inr (st1\<lparr>st_rides := (st_rides st1)(ride_id := merge_doc active (ride_to_commit parse active live ride_data))\<rparr>)))))"

section \<open>Facts\<close>

lemma obj_get_jm_set [simp]: "obj_get (jm_set fs k v) j = (if j = k then v else obj_get fs j)"
  by (simp add: obj_get_jm opt_default_def)

lemma bind_key_keys: "st_keys st k = Some b \<Longrightarrow> st_keys (bind_key tm rq s st) k = Some b"
  by (auto simp: bind_key_def split: option.splits)

definition bound :: "store \<Rightarrow> string \<Rightarrow> assignment \<Rightarrow> string \<Rightarrow> bool" where
  "bound st k a s \<longleftrightarrow> (\<exists>b. st_keys st k = Some b \<and> matches_assignment a b \<and> obj_get b ''sessionId'' = JStr s)"

lemma bound_unique: "bound st k a s \<Longrightarrow> bound st k a' s' \<Longrightarrow> a = a' \<and> s = s'"
  by (auto simp: bound_def matches_assignment_def)

lemma binding_bound: "matches_assignment a (binding_data tm a s) \<and> obj_get (binding_data tm a s) ''sessionId'' = JStr s"
  by (simp add: matches_assignment_def binding_data_def)

lemma bind_key_bound:
  assumes "rq_key rq = Some k" "\<And>b. st_keys st k = Some b \<Longrightarrow> matches_assignment (rq_assignment rq) b \<and> obj_get b ''sessionId'' = JStr s"
  shows "bound (bind_key tm rq s st) k (rq_assignment rq) s"
  using assms binding_bound by (cases "st_keys st k") (auto simp: bound_def bind_key_def)

subsection \<open>One service for one key\<close>

text \<open>A transaction of some start, and what it answered: the key, the assignment it was asked for and the session.\<close>

datatype start_tx =
    Prior_Tx start_request
  | Resume_Tx start_request string "direction option"
  | Claim_Tx start_request claim_input "fields option"
  | Fail_Tx string string jsnum
  | Release_Tx string string
  | Commit_Tx string fields "(string \<times> fields) option" jsval

record answer =
  an_key :: string
  an_assignment :: assignment
  an_session :: string

definition answer_for :: "start_request \<Rightarrow> string \<Rightarrow> answer option" where
  "answer_for rq s = map_option (\<lambda>k. \<lparr>an_key = k, an_assignment = rq_assignment rq, an_session = s\<rparr>) (rq_key rq)"

fun start_apply :: "(jsval \<Rightarrow> jsnum) \<Rightarrow> (jsnum \<Rightarrow> string) \<Rightarrow> jsval \<Rightarrow> start_tx \<Rightarrow> store \<Rightarrow> answer option \<times> store" where
  "start_apply parse fixed6 tm (Prior_Tx rq) st = (case prior_check rq (binding_of rq st) (st_sessions st) of
      Inr (Inl r) \<Rightarrow> (answer_for rq (sr_session r), st) | Inr (Inr (Some s)) \<Rightarrow> (answer_for rq s, st) | _ \<Rightarrow> (None, st))"
| "start_apply parse fixed6 tm (Resume_Tx rq s d) st = (case resume_claim tm rq s d st of
      (ok, st') \<Rightarrow> (if ok then answer_for rq s else None, st'))"
| "start_apply parse fixed6 tm (Claim_Tx rq ci route) st = (case lock_claim fixed6 tm rq ci route st of
      (Inr (Some cr), st') \<Rightarrow> (answer_for rq (cr_session cr), st') | (_, st') \<Rightarrow> (None, st'))"
| "start_apply parse fixed6 tm (Fail_Tx bus s t) st = (None, fail_created bus s t st)"
| "start_apply parse fixed6 tm (Release_Tx bus s) st = (None, release_active_bus_lock bus s st)"
| "start_apply parse fixed6 tm (Commit_Tx s data ride live) st = (case commit_creation_projections parse s data ride live st of
      Inl e \<Rightarrow> (None, st) | Inr st' \<Rightarrow> (None, st'))"

fun start_answers :: "(jsval \<Rightarrow> jsnum) \<Rightarrow> (jsnum \<Rightarrow> string) \<Rightarrow> jsval \<Rightarrow> start_tx list \<Rightarrow> store \<Rightarrow> answer list" where
  "start_answers parse fixed6 tm [] st = []"
| "start_answers parse fixed6 tm (x # xs) st = (case start_apply parse fixed6 tm x st of
      (a, st') \<Rightarrow> (case a of Some r \<Rightarrow> [r] | None \<Rightarrow> []) @ start_answers parse fixed6 tm xs st')"

definition keys_kept :: "store \<Rightarrow> store \<Rightarrow> bool" where
  "keys_kept st st' \<longleftrightarrow> (\<forall>k b. st_keys st k = Some b \<longrightarrow> st_keys st' k = Some b)"

definition bound_answer :: "store \<Rightarrow> answer \<Rightarrow> bool" where
  "bound_answer st r \<longleftrightarrow> bound st (an_key r) (an_assignment r) (an_session r)"

lemma keys_kept_refl [simp]: "keys_kept st st"
  by (simp add: keys_kept_def)

lemma keys_kept_bound: "keys_kept st st' \<Longrightarrow> bound_answer st r \<Longrightarrow> bound_answer st' r"
  by (auto simp: keys_kept_def bound_answer_def bound_def)

lemma keys_kept_trans: "keys_kept st st' \<Longrightarrow> keys_kept st' st'' \<Longrightarrow> keys_kept st st''"
  by (simp add: keys_kept_def)

lemma keys_kept_same: "st_keys st' = st_keys st \<Longrightarrow> keys_kept st st'"
  by (simp add: keys_kept_def)

lemma bind_key_kept: "keys_kept st (bind_key tm rq s st)"
  by (simp add: keys_kept_def bind_key_keys)

lemma bound_same: "st_keys st' = st_keys st \<Longrightarrow> bound st' k a s = bound st k a s"
  by (simp add: bound_def)

lemma answer_bound:
  "answer_for rq s = Some r \<Longrightarrow> (\<And>k. rq_key rq = Some k \<Longrightarrow> bound st k (rq_assignment rq) s) \<Longrightarrow> bound_answer st r"
  by (auto simp: answer_for_def bound_answer_def)

lemma prior_bound:
  assumes p: "prior_check rq (binding_of rq st) session_of = Inr v"
    and v: "(\<exists>r. v = Inl r \<and> s = sr_session r) \<or> v = Inr (Some s)" and k: "rq_key rq = Some k"
  shows "bound st k (rq_assignment rq) s"
proof -
  obtain b where b: "binding_of rq st = Some b" "matches_assignment (rq_assignment rq) b" "obj_get b ''sessionId'' = JStr s"
    using p v by (auto simp: prior_check_def Let_def split: option.splits if_splits jsval.splits)
  then show ?thesis using k by (auto simp: binding_of_def bound_def)
qed

lemma release_keys [simp]: "st_keys (release_active_bus_lock bus s st) = st_keys st"
  by (simp add: release_active_bus_lock_def)

lemma fail_created_keys [simp]: "st_keys (fail_created bus s t st) = st_keys st"
  by (simp add: fail_created_def)

lemma resume_claim_bound:
  assumes r: "resume_claim tm rq s d st = (ok, st')"
  shows "keys_kept st st'" and "ok \<Longrightarrow> rq_key rq = Some k \<Longrightarrow> bound st' k (rq_assignment rq) s"
proof -
  have "ok = False \<and> st' = st \<or> ok \<and> st_keys st' = st_keys (bind_key tm rq s st) \<and>
      (\<forall>b. binding_of rq st = Some b \<longrightarrow> matches_assignment (rq_assignment rq) b \<and> obj_get b ''sessionId'' = JStr s)"
    using r unfolding resume_claim_def Let_def by (auto split: if_splits)
  then consider "ok = False" "st' = st" | "ok" "st_keys st' = st_keys (bind_key tm rq s st)"
      "\<And>b. binding_of rq st = Some b \<Longrightarrow> matches_assignment (rq_assignment rq) b \<and> obj_get b ''sessionId'' = JStr s" by blast
  note cs = this
  show "keys_kept st st'" using cs by cases (auto intro: keys_kept_trans [OF bind_key_kept keys_kept_same])
  show "bound st' k (rq_assignment rq) s" if "ok" "rq_key rq = Some k"
    using cs
  proof cases
    case 2
    then have "bound (bind_key tm rq s st) k (rq_assignment rq) s"
      using that by (intro bind_key_bound) (auto simp: binding_of_def)
    then show ?thesis using bound_same [OF 2(2)] by simp
  qed (use that in simp)
qed

lemma reuse_lock_result:
  "case reuse_lock tm rq ci lock st of (None, st') \<Rightarrow> st' = st
    | (Some cr, st') \<Rightarrow> obj_get lock ''sessionId'' = JStr (cr_session cr) \<and> st_keys st' = st_keys (bind_key tm rq (cr_session cr) st)"
proof (cases "\<exists>sid. obj_get lock ''sessionId'' = JStr sid")
  case False
  then show ?thesis by (cases "obj_get lock ''sessionId''") (simp_all add: reuse_lock_def)
next
  case True
  then obtain sid where sid: "obj_get lock ''sessionId'' = JStr sid" ..
  show ?thesis unfolding reuse_lock_def Let_def sid jsval.case by simp
qed

lemma create_service_cases:
  assumes "create_service tm rq ci st = (r, st')"
  obtains e where "r = Inl e" "st' = st"
  | cr where "r = Inr cr" "cr_session cr = ci_proposed ci" "st_keys st' = st_keys (bind_key tm rq (cr_session cr) st)" "binding_of rq st = None"
  using assms unfolding create_service_def Let_def create_doc_def
  by (auto simp: bind_key_def binding_of_def split: option.splits if_splits sum.splits)

lemma lock_claim_bound:
  assumes l: "lock_claim fixed6 tm rq ci route st = (r, st')"
  shows "keys_kept st st'" and "r = Inr (Some cr) \<Longrightarrow> rq_key rq = Some k \<Longrightarrow> bound st' k (rq_assignment rq) (cr_session cr)"
proof -
  let ?lock = "st_locks st (as_bus (rq_assignment rq))"
  let ?fits = "\<lambda>cr. \<forall>b. binding_of rq st = Some b \<longrightarrow> matches_assignment (rq_assignment rq) b \<and> obj_get b ''sessionId'' = JStr (cr_session cr)"
  have "(\<forall>cr. r \<noteq> Inr (Some cr)) \<and> st' = st \<or>
      (\<exists>cr. r = Inr (Some cr) \<and> st_keys st' = st_keys (bind_key tm rq (cr_session cr) st) \<and> ?fits cr)"
  proof (cases ?lock)
    case None
    obtain q st1 where c: "create_service tm rq ci st = (q, st1)" by (metis surj_pair)
    show ?thesis
      by (rule create_service_cases [OF c]) (use l c None in \<open>auto simp: lock_claim_def Let_def split: if_splits\<close>)
  next
    case (Some lk)
    obtain q st1 where c: "reuse_lock tm rq ci lk st = (q, st1)" by (metis surj_pair)
    have f: "case q of None \<Rightarrow> st1 = st
        | Some cr \<Rightarrow> obj_get lk ''sessionId'' = JStr (cr_session cr) \<and> st_keys st1 = st_keys (bind_key tm rq (cr_session cr) st)"
      using reuse_lock_result [where tm = tm and rq = rq and ci = ci and lock = lk and st = st] unfolding c by (cases q) simp_all
    show ?thesis
      using l c f Some by (cases q) (auto simp: lock_claim_def Let_def doc_prop_def split: if_splits)
  qed
  note cs = this
  show "keys_kept st st'" using cs by (auto intro: keys_kept_trans [OF bind_key_kept keys_kept_same])
  show "bound st' k (rq_assignment rq) (cr_session cr)" if "r = Inr (Some cr)" "rq_key rq = Some k"
  proof -
    have f: "?fits cr" "st_keys st' = st_keys (bind_key tm rq (cr_session cr) st)" using cs that(1) by auto
    have "bound (bind_key tm rq (cr_session cr) st) k (rq_assignment rq) (cr_session cr)"
      using f(1) that(2) by (intro bind_key_bound) (auto simp: binding_of_def)
    then show ?thesis using bound_same [OF f(2)] by simp
  qed
qed

lemma commit_keys: "commit_creation_projections parse s data ride live st = Inr st' \<Longrightarrow> st_keys st' = st_keys st"
  by (auto simp: commit_creation_projections_def Let_def split: option.splits if_splits prod.splits)

lemma start_apply_bound:
  assumes a: "start_apply parse fixed6 tm x st = (a, st')"
  shows "keys_kept st st' \<and> (\<forall>r. a = Some r \<longrightarrow> bound_answer st' r)"
proof (cases x)
  case (Prior_Tx rq)
  have "st' = st" using a Prior_Tx by (auto split: sum.splits option.splits)
  moreover have "bound_answer st r" if r: "a = Some r" for r
  proof -
    consider q where "prior_check rq (binding_of rq st) (st_sessions st) = Inr (Inl q)" "answer_for rq (sr_session q) = Some r"
      | s where "prior_check rq (binding_of rq st) (st_sessions st) = Inr (Inr (Some s))" "answer_for rq s = Some r"
      using a r Prior_Tx by (auto split: sum.splits option.splits)
    then show ?thesis by cases (auto elim!: answer_bound intro!: prior_bound)
  qed
  ultimately show ?thesis by simp
next
  case (Resume_Tx rq s d)
  obtain ok st1 where c: "resume_claim tm rq s d st = (ok, st1)" by (metis surj_pair)
  show ?thesis using a Resume_Tx c resume_claim_bound [OF c] by (auto elim!: answer_bound split: if_splits)
next
  case (Claim_Tx rq ci route)
  obtain q st1 where c: "lock_claim fixed6 tm rq ci route st = (q, st1)" by (metis surj_pair)
  have "bound_answer st1 r" if "q = Inr (Some cr)" "answer_for rq (cr_session cr) = Some r" for cr r
    using answer_bound [OF that(2)] lock_claim_bound(2) [OF c that(1)] by blast
  then show ?thesis using a Claim_Tx c lock_claim_bound(1) [OF c] by (auto split: sum.splits option.splits)
next
  case (Fail_Tx bus s t)
  then show ?thesis using a by (auto intro: keys_kept_same)
next
  case (Release_Tx bus s)
  then show ?thesis using a by (auto intro: keys_kept_same)
next
  case (Commit_Tx s data ride live)
  then show ?thesis using a commit_keys by (auto intro: keys_kept_same split: sum.splits)
qed

lemma start_answers_bound:
  "\<exists>st'. keys_kept st st' \<and> (\<forall>q \<in> set (start_answers parse fixed6 tm xs st). bound_answer st' q)"
proof (induction xs arbitrary: st)
  case Nil
  show ?case by (auto intro: exI [of _ st])
next
  case (Cons x xs)
  obtain a st1 where a: "start_apply parse fixed6 tm x st = (a, st1)" by (metis surj_pair)
  note step = start_apply_bound [OF a]
  obtain st' where st': "keys_kept st1 st'" "\<forall>q \<in> set (start_answers parse fixed6 tm xs st1). bound_answer st' q"
    using Cons by blast
  have "bound_answer st' r" if "a = Some r" for r using step st'(1) keys_kept_bound that by blast
  then show ?case using step st' a keys_kept_trans by (intro exI [of _ st']) (auto split: option.splits)
qed

subsection \<open>Projections that do not go back\<close>

lemma obj_get_put_all_ok: "jm_ok kvs \<Longrightarrow> obj_get (put_all fs kvs) k = (if jm_has kvs k then obj_get kvs k else obj_get fs k)"
proof -
  assume ok: "jm_ok kvs"
  have "map_of (rev kvs) k = jm_get kvs k"
    using ok by (metis distinct_rev jm_get_iff jm_ok_def map_of_eq_Some_iff not_Some_eq rev_map set_rev)
  then show ?thesis unfolding obj_get_put_all by (simp add: obj_get_jm [of kvs] opt_default_def jm_has_def split: option.splits)
qed

lemma jm_has_set [simp]: "jm_has (jm_set m k v) j \<longleftrightarrow> j = k \<or> jm_has m j"
  by (auto simp: jm_has_def)

lemma jm_has_put_all [simp]: "jm_has (put_all fs kvs) k \<longleftrightarrow> jm_has fs k \<or> k \<in> fst ` set kvs"
  by (induction kvs arbitrary: fs) (auto simp: put_all_def)

lemma obj_get_kept: "map_of (rev (kept_fields stored names)) k = (if k \<in> set names \<and> obj_get stored k \<noteq> JUndef then Some (obj_get stored k) else None)"
proof (induction names)
  case (Cons n names)
  then show ?case by (auto simp: kept_fields_def map_filter_simps map_add_def split: option.splits)
qed (simp add: kept_fields_def map_filter_simps)

lemma keys_kept_fields: "k \<in> fst ` set (kept_fields stored names) \<longleftrightarrow> k \<in> set names \<and> obj_get stored k \<noteq> JUndef"
  by (force simp: kept_fields_def map_filter_def)

lemma obj_get_put_kept:
  "obj_get (put_all fs (kept_fields stored names)) k = (if k \<in> set names \<and> obj_get stored k \<noteq> JUndef then obj_get stored k else obj_get fs k)"
  by (simp add: obj_get_put_all obj_get_kept opt_default_def)

definition direction_fields :: "string list" where
  "direction_fields = [''direction'', ''directionState'', ''directionEndpointVersion'', ''originStopId'', ''destinationStopId'']"

lemma session_to_commit_ok: "jm_ok data \<Longrightarrow> jm_ok (session_to_commit stored data)"
  by (simp add: session_to_commit_def Let_def put_all_ok)

lemma session_commit_status:
  "obj_get stored ''status'' = JStr ''active'' \<Longrightarrow> obj_get (session_to_commit stored data) ''status'' = JStr ''active''"
  "obj_get stored ''status'' = JStr ''armed'' \<Longrightarrow> obj_get (session_to_commit stored data) ''status'' \<noteq> JStr ''pending''"
  by (auto simp: session_to_commit_def Let_def obj_get_put_kept)

lemma session_commit_direction:
  "is_ride_direction (obj_get stored ''direction'') \<Longrightarrow> k \<in> set direction_fields \<Longrightarrow> obj_get stored k \<noteq> JUndef \<Longrightarrow>
   obj_get (session_to_commit stored data) k = obj_get stored k"
  by (auto simp: session_to_commit_def Let_def obj_get_put_kept direction_fields_def)

lemma session_commit_times:
  "k \<in> {''startTime'', ''activatedAt''} \<Longrightarrow> obj_get stored k \<noteq> JUndef \<Longrightarrow> obj_get (session_to_commit stored data) k = obj_get stored k"
  "has_keys (obj_get stored ''stopsReached'') \<Longrightarrow> obj_get (session_to_commit stored data) ''stopsReached'' = obj_get stored ''stopsReached''"
  by (auto simp: session_to_commit_def Let_def obj_get_put_kept)

lemma delay_revision_idem [simp]: "delay_revision (JNum (delay_revision v)) = delay_revision v"
  by (cases v) auto

definition delay_at :: "fields option \<Rightarrow> jsnum" where
  "delay_at doc = delay_revision (doc_prop doc ''delayUpdatedAt'')"

definition stop_index_of :: "fields option \<Rightarrow> jsval" where
  "stop_index_of doc = doc_prop doc ''currentStopIndex''"

text \<open>What the projections of a session may not lose.\<close>

definition session_not_behind :: "fields \<Rightarrow> fields \<Rightarrow> bool" where
  "session_not_behind stored new \<longleftrightarrow>
     (obj_get stored ''status'' = JStr ''active'' \<longrightarrow> obj_get new ''status'' = JStr ''active'') \<and>
     (obj_get stored ''status'' = JStr ''armed'' \<longrightarrow> obj_get new ''status'' \<noteq> JStr ''pending'') \<and>
     (is_ride_direction (obj_get stored ''direction'') \<longrightarrow> (\<forall>k \<in> set direction_fields. obj_get stored k \<noteq> JUndef \<longrightarrow> obj_get new k = obj_get stored k)) \<and>
     (\<forall>k \<in> {''startTime'', ''activatedAt''}. obj_get stored k \<noteq> JUndef \<longrightarrow> obj_get new k = obj_get stored k) \<and>
     (has_keys (obj_get stored ''stopsReached'') \<longrightarrow> obj_get new ''stopsReached'' = obj_get stored ''stopsReached'')"

definition ride_not_behind :: "jsval \<Rightarrow> fields option \<Rightarrow> fields option \<Rightarrow> bool" where
  "ride_not_behind live old new \<longleftrightarrow>
     (doc_prop old ''tripState'' = JStr ''in_service'' \<longrightarrow> doc_prop new ''tripState'' = JStr ''in_service'') \<and>
     (doc_prop old ''hasDepartedOrigin'' = JBool True \<longrightarrow> doc_prop new ''hasDepartedOrigin'' = JBool True) \<and>
     (\<forall>i. stop_index_of old = JNum i \<and> is_integer i \<longrightarrow> (\<exists>j. stop_index_of new = JNum j \<and> j \<ge> i)) \<and>
     delay_at new \<ge> delay_at old \<and> delay_at new \<ge> delay_revision (js_prop live ''delayUpdatedAt'')"

lemma session_committed:
  assumes ok: "jm_ok data"
  shows "session_not_behind stored (put_all stored (session_to_commit stored data))"
proof -
  define c where "c = session_to_commit stored data"
  define new where "new = put_all stored c"
  have get: "obj_get new k = obj_get c k \<or> obj_get new k = obj_get stored k" for k
    using obj_get_put_all_ok [OF session_to_commit_ok [OF ok]] by (simp add: c_def new_def)
  have same: "obj_get new k = obj_get stored k" if "obj_get c k = obj_get stored k" for k using get [of k] that by simp
  have "obj_get new ''status'' = JStr ''active''" if s: "obj_get stored ''status'' = JStr ''active''"
    using get session_commit_status(1) [OF s] s unfolding c_def by metis
  moreover have "obj_get new ''status'' \<noteq> JStr ''pending''" if s: "obj_get stored ''status'' = JStr ''armed''"
  proof -
    have "JStr ''armed'' \<noteq> JStr ''pending''" by simp
    then show ?thesis using get [of "''status''"] session_commit_status(2) [OF s, of data] s unfolding c_def by argo
  qed
  moreover have "obj_get new k = obj_get stored k"
    if "is_ride_direction (obj_get stored ''direction'')" "k \<in> set direction_fields" "obj_get stored k \<noteq> JUndef" for k
    using same session_commit_direction [OF that] unfolding c_def by metis
  moreover have "obj_get new k = obj_get stored k" if "k \<in> {''startTime'', ''activatedAt''}" "obj_get stored k \<noteq> JUndef" for k
    using same session_commit_times(1) [OF that] unfolding c_def by metis
  moreover have "obj_get new ''stopsReached'' = obj_get stored ''stopsReached''" if "has_keys (obj_get stored ''stopsReached'')"
    using same session_commit_times(2) [OF that] unfolding c_def by metis
  ultimately show ?thesis unfolding session_not_behind_def new_def c_def by meson
qed

lemma delay_steps_ok: "jm_ok data \<Longrightarrow> jm_ok (live_delay live (stored_delay active data))"
  by (simp add: live_delay_def stored_delay_def put_all_ok)

lemma stored_progress_ok: "jm_ok data \<Longrightarrow> jm_ok (stored_progress parse active data)"
  by (simp add: stored_progress_def split: jsval.split)

lemma ride_to_commit_ok: "jm_ok data \<Longrightarrow> jm_ok (ride_to_commit parse active live data)"
  by (simp add: ride_to_commit_def Let_def delay_steps_ok stored_progress_ok)

lemma stored_progress_other: "k \<noteq> ''currentStopIndex'' \<Longrightarrow> obj_get (stored_progress parse active data) k = obj_get data k"
  by (simp add: stored_progress_def split: jsval.split)

lemma stored_progress_index:
  assumes "obj_get data ''currentStopIndex'' = JNum (Fin x)" "doc_prop active ''currentStopIndex'' = JNum i" "is_integer i"
  shows "\<exists>j. obj_get (stored_progress parse active data) ''currentStopIndex'' = JNum j \<and> j \<ge> i"
  using assms by (auto simp: stored_progress_def not_less_num elim!: is_integerE intro: less_imp_le_num)

lemma delay_steps_other:
  "k \<noteq> ''delayMinutes'' \<Longrightarrow> k \<noteq> ''delayUpdatedAt'' \<Longrightarrow> obj_get (live_delay live (stored_delay active data)) k = obj_get data k"
  by (simp add: live_delay_def stored_delay_def obj_get_put_all opt_default_def)

lemma delay_revision_linear: "\<not> delay_revision a > delay_revision b \<Longrightarrow> delay_revision b \<ge> delay_revision a"
proof -
  obtain x y where "delay_revision a = Fin x" "delay_revision b = Fin y" using delay_revision_cases by metis
  then show "\<not> delay_revision a > delay_revision b \<Longrightarrow> delay_revision b \<ge> delay_revision a" by (simp add: not_less_num)
qed

lemma delay_revision_refl [simp]: "delay_revision v \<ge> delay_revision v"
  using delay_revision_cases [of v] by auto

lemma stored_delay_revision:
  "delay_revision (obj_get (stored_delay active data) ''delayUpdatedAt'') \<ge> delay_revision (doc_prop active ''delayUpdatedAt'')"
proof (cases active)
  case None
  then have "delay_revision (doc_prop active ''delayUpdatedAt'') = 0" by (simp add: doc_prop_def)
  then show ?thesis using delay_revision_cases [of "obj_get (stored_delay active data) ''delayUpdatedAt''"] by auto
next
  case (Some fs)
  then show ?thesis by (simp add: stored_delay_def obj_get_put_all opt_default_def delay_revision_linear del: delay_revision.simps)
qed

lemma live_delay_revision:
  "delay_revision (obj_get (live_delay live data) ''delayUpdatedAt'') \<ge> delay_revision (js_prop live ''delayUpdatedAt'')"
  "delay_revision (obj_get (live_delay live data) ''delayUpdatedAt'') \<ge> delay_revision (obj_get data ''delayUpdatedAt'')"
  by (simp_all add: live_delay_def obj_get_put_all opt_default_def delay_revision_linear less_imp_le_num del: delay_revision.simps)

lemma doc_prop_merge:
  "jm_ok kvs \<Longrightarrow> doc_prop (merge_doc doc kvs) k = (if jm_has kvs k then obj_get kvs k else doc_prop doc k)"
  by (cases doc) (simp_all add: merge_doc_def doc_prop_def obj_get_put_all_ok opt_default_def)

lemma absent_undef: "\<not> jm_has fs k \<Longrightarrow> obj_get fs k = JUndef"
  by (simp add: obj_get_jm jm_has_def opt_default_def)

lemma jnum_defined: "JNum n \<noteq> JUndef"
  by simp

lemma merge_same:
  "jm_ok kvs \<Longrightarrow> v \<noteq> JUndef \<Longrightarrow> obj_get kvs k = v \<Longrightarrow> doc_prop (merge_doc doc kvs) k = v"
  using absent_undef by (force simp: doc_prop_merge)

lemma ride_committed:
  assumes ok: "jm_ok data" and i: "obj_get data ''currentStopIndex'' = JNum (Fin x)"
  shows "ride_not_behind live active (merge_doc active (ride_to_commit parse active live data))"
proof -
  define c where "c = ride_to_commit parse active live data"
  define new where "new = merge_doc active c"
  define b where "b = live_delay live (stored_delay active data)"
  have okc: "jm_ok c" unfolding c_def by (rule ride_to_commit_ok [OF ok])
  have "doc_prop new ''tripState'' = JStr ''in_service''" if "doc_prop active ''tripState'' = JStr ''in_service''"
    unfolding new_def by (rule merge_same [OF okc]) (simp_all add: c_def ride_to_commit_def Let_def stored_progress_other that)
  moreover have "doc_prop new ''hasDepartedOrigin'' = JBool True" if "doc_prop active ''hasDepartedOrigin'' = JBool True"
    unfolding new_def by (rule merge_same [OF okc]) (simp_all add: c_def ride_to_commit_def Let_def that)
  moreover have "\<exists>j. stop_index_of new = JNum j \<and> j \<ge> n" if n: "stop_index_of active = JNum n" "is_integer n" for n
  proof -
    have "\<exists>j. obj_get c ''currentStopIndex'' = JNum j \<and> j \<ge> n"
      using stored_progress_index [OF _ _ n(2)] n(1) i
      by (simp add: c_def ride_to_commit_def Let_def stop_index_of_def delay_steps_other)
    then show ?thesis unfolding stop_index_of_def new_def using merge_same [OF okc] jnum_defined by blast
  qed
  moreover have "delay_at new \<ge> delay_at active \<and> delay_at new \<ge> delay_revision (js_prop live ''delayUpdatedAt'')"
  proof -
    have f: "obj_get c ''delayUpdatedAt'' = obj_get b ''delayUpdatedAt''"
      by (simp add: c_def b_def ride_to_commit_def Let_def stored_progress_other)
    have g: "delay_at active \<le> delay_revision (obj_get c ''delayUpdatedAt'')"
      "delay_revision (js_prop live ''delayUpdatedAt'') \<le> delay_revision (obj_get c ''delayUpdatedAt'')"
      unfolding f b_def delay_at_def
      using stored_delay_revision live_delay_revision le_trans_num by blast+
    show ?thesis
    proof (cases "jm_has c ''delayUpdatedAt''")
      case True
      then show ?thesis using g okc by (simp add: delay_at_def new_def doc_prop_merge)
    next
      case False
      have z: "0 \<le> delay_at active" unfolding delay_at_def
        using delay_revision_cases [of "doc_prop active ''delayUpdatedAt''"] by auto
      have e: "delay_at new = delay_at active" using False okc by (simp add: delay_at_def new_def doc_prop_merge)
      have "delay_revision (obj_get c ''delayUpdatedAt'') = 0" using absent_undef [OF False] by simp
      then have "delay_revision (js_prop live ''delayUpdatedAt'') \<le> delay_at active" using le_trans_num [OF g(2)] z by simp
      then show ?thesis unfolding e by (simp add: delay_at_def del: delay_revision.simps)
    qed
  qed
  ultimately show ?thesis unfolding ride_not_behind_def new_def c_def by meson
qed

section \<open>The properties\<close>

text \<open>C29. An idempotency key starts one service: however the transactions of starts, failed starts, releases
  and projections are ordered, and whatever each start read before them, two answers given under the same
  key name the same assignment and the same session.\<close>

theorem idempotency_key_single_service:
  assumes "r \<in> set (start_answers parse fixed6 tm xs st)" "q \<in> set (start_answers parse fixed6 tm xs st)" "an_key r = an_key q"
  shows "an_assignment r = an_assignment q \<and> an_session r = an_session q"
proof -
  obtain st' where "bound_answer st' r" "bound_answer st' q" using start_answers_bound assms(1,2) by meson
  then show ?thesis using bound_unique assms(3) unfolding bound_answer_def by metis
qed

text \<open>C30. The projections of a keyed start never go back: when the transaction commits, the session existed and
  had not ended; a session that is active stays active and one that is armed does not return to pending; a
  resolved direction, the start and activation times and the reached stops are kept; and the ride document,
  which was absent or the session's own, keeps its service state, its departure, its stop index and the
  newest delay revision of the stored ride and the live node.\<close>

theorem creation_never_regresses:
  assumes c: "commit_creation_projections parse s data ride live st = Inr st'" and ok: "jm_ok data"
    and r: "\<And>i d. ride = Some (i, d) \<Longrightarrow> jm_ok d \<and> (\<exists>x. obj_get d ''currentStopIndex'' = JNum (Fin x))"
  shows "\<exists>stored new. st_sessions st s = Some stored \<and> \<not> terminal_status (obj_get stored ''status'') \<and>
      st_sessions st' s = Some new \<and> session_not_behind stored new \<and>
      (\<forall>i d. ride = Some (i, d) \<longrightarrow> (st_rides st i = None \<or> doc_prop (st_rides st i) ''sessionId'' = JStr s) \<and>
        ride_not_behind live (st_rides st i) (st_rides st' i))"
proof -
  obtain stored where s: "st_sessions st s = Some stored" "\<not> terminal_status (obj_get stored ''status'')"
    using c by (auto simp: commit_creation_projections_def split: option.splits if_splits)
  have "st_sessions st' s = Some (put_all stored (session_to_commit stored data)) \<and>
      (\<forall>i d. ride = Some (i, d) \<longrightarrow> (st_rides st i = None \<or> doc_prop (st_rides st i) ''sessionId'' = JStr s) \<and>
        st_rides st' i = merge_doc (st_rides st i) (ride_to_commit parse (st_rides st i) live d))"
    using c s by (auto simp: commit_creation_projections_def Let_def merge_doc_def opt_default_def split: option.splits if_splits prod.splits)
  then show ?thesis using s session_committed [OF ok] ride_committed r by metis
qed

section \<open>Concrete starts\<close>

definition sample_request :: start_request where
  "sample_request = \<lparr>rq_assignment = \<lparr>as_driver = ''d'', as_bus = ''b'', as_route = ''r''\<rparr>, rq_key = Some ''k'', rq_automatic = False, rq_revision = JUndef\<rparr>"

definition sample_stop :: "string \<Rightarrow> real \<Rightarrow> jsval" where
  "sample_stop i lat = JObj [(''id'', JStr i), (''lat'', JNum (Fin lat)), (''lng'', JNum (Fin 20))]"

definition sample_route :: fields where
  "sample_route = [(''stops'', JArr [sample_stop ''p'' 10, sample_stop ''q'' 11]), (''configVersion'', JNum (Fin 3))]"

definition sample_claim :: "string \<Rightarrow> claim_input" where
  "sample_claim proposed = \<lparr>ci_current = JNull, ci_pinned = None, ci_config_version = Fin 3, ci_endpoint_version = ''p:0:0|q:0:0'',
     ci_natural_stops = natural_stops (Some sample_route), ci_direction = None, ci_proposed = proposed, ci_armed_at = Fin 5\<rparr>"

definition empty_store :: store where
  "empty_store = \<lparr>st_keys = (\<lambda>_. None), st_locks = (\<lambda>_. None), st_sessions = (\<lambda>_. None), st_rides = (\<lambda>_. None), st_locations = (\<lambda>_. None)\<rparr>"

definition sample_answer :: answer where
  "sample_answer = \<lparr>an_key = ''k'', an_assignment = rq_assignment sample_request, an_session = ''s1''\<rparr>"

lemma sample_route_version: "endpoint_snapshot_version (\<lambda>_. ''0'') (natural_stops (Some sample_route)) = Some ''p:0:0|q:0:0''"
  by (simp add: endpoint_snapshot_version_def natural_stops_def sample_route_def doc_prop_def endpoint_part_def sample_stop_def)

lemma sample_config: "num_eq (route_document_version (Some sample_route)) (Fin 3)"
  by (simp add: route_document_version_def sample_route_def doc_prop_def)

lemma sample_answers:
  "start_answers parse (\<lambda>_. ''0'') JNull [Claim_Tx sample_request (sample_claim ''s1'') (Some sample_route), Prior_Tx sample_request] empty_store
   = [sample_answer, sample_answer]"
  using sample_route_version sample_config
  by (simp add: lock_claim_def binding_of_def sample_request_def empty_store_def sample_claim_def create_service_def create_doc_def
      prior_check_def binding_data_def matches_assignment_def new_session_def terminal_status_def answer_for_def sample_answer_def doc_prop_def Let_def)

definition sample_txs :: "start_tx list" where
  "sample_txs = [Claim_Tx sample_request (sample_claim ''s1'') (Some sample_route), Prior_Tx sample_request]"

theorem idempotency_key_single_service_witness:
  "start_answers (\<lambda>_. NaN) (\<lambda>_. ''0'') JNull sample_txs empty_store = [sample_answer, sample_answer] \<and>
   an_assignment (start_answers (\<lambda>_. NaN) (\<lambda>_. ''0'') JNull sample_txs empty_store ! 1) = rq_assignment sample_request \<and>
   an_session (start_answers (\<lambda>_. NaN) (\<lambda>_. ''0'') JNull sample_txs empty_store ! 1) = ''s1''"
proof -
  let ?out = "start_answers (\<lambda>_. NaN) (\<lambda>_. ''0'') JNull sample_txs empty_store"
  have out: "?out = [sample_answer, sample_answer]" unfolding sample_txs_def by (rule sample_answers)
  have "an_assignment (?out ! 1) = an_assignment sample_answer \<and> an_session (?out ! 1) = an_session sample_answer"
    by (rule idempotency_key_single_service [of _ "\<lambda>_. NaN" "\<lambda>_. ''0''" JNull sample_txs empty_store]) (simp_all add: out)
  then show ?thesis using out by (simp add: sample_answer_def)
qed

definition sample_stored :: fields where
  "sample_stored = [(''status'', JStr ''active''), (''startTime'', JNum (Fin 5))]"

definition sample_ride :: fields where
  "sample_ride = [(''sessionId'', JStr ''s1''), (''tripState'', JStr ''in_service''), (''currentStopIndex'', JNum (Fin 2)), (''delayUpdatedAt'', JNum (Fin 7))]"

definition sample_live :: jsval where
  "sample_live = JObj [(''sessionId'', JStr ''s1''), (''status'', JStr ''active''), (''tripState'', JStr ''in_service'')]"

definition sample_data :: fields where
  "sample_data = [(''status'', JStr ''armed''), (''startTime'', JNum (Fin 9))]"

definition sample_ride_data :: fields where
  "sample_ride_data = [(''tripState'', JStr ''pre_departure''), (''currentStopIndex'', JNum (Fin 0)), (''delayUpdatedAt'', JNum (Fin 0))]"

definition sample_store :: store where
  "sample_store = empty_store\<lparr>st_sessions := (\<lambda>_. None)(''s1'' := Some sample_stored), st_rides := (\<lambda>_. None)(''b_r'' := Some sample_ride)\<rparr>"

theorem creation_never_regresses_witness:
  "\<exists>st' new. commit_creation_projections (\<lambda>_. NaN) ''s1'' sample_data (Some (''b_r'', sample_ride_data)) sample_live sample_store = Inr st' \<and>
     st_sessions st' ''s1'' = Some new \<and> session_not_behind sample_stored new \<and> obj_get new ''status'' = JStr ''active'' \<and>
     obj_get new ''startTime'' = JNum (Fin 5) \<and> ride_not_behind sample_live (Some sample_ride) (st_rides st' ''b_r'')"
proof -
  define out where "out = commit_creation_projections (\<lambda>_. NaN) ''s1'' sample_data (Some (''b_r'', sample_ride_data)) sample_live sample_store"
  have s: "st_sessions sample_store ''s1'' = Some sample_stored" "st_rides sample_store ''b_r'' = Some sample_ride"
    by (simp_all add: sample_store_def)
  have "\<exists>st'. out = Inr st'"
    by (simp add: out_def commit_creation_projections_def s Let_def sample_stored_def sample_live_def terminal_status_def)
      (simp add: sample_ride_def doc_prop_def)
  then obtain st' where st': "out = Inr st'" ..
  have "\<exists>stored new. st_sessions sample_store ''s1'' = Some stored \<and> \<not> terminal_status (obj_get stored ''status'') \<and>
      st_sessions st' ''s1'' = Some new \<and> session_not_behind stored new \<and>
      (\<forall>i d. Some (''b_r'', sample_ride_data) = Some (i, d) \<longrightarrow>
        (st_rides sample_store i = None \<or> doc_prop (st_rides sample_store i) ''sessionId'' = JStr ''s1'') \<and>
        ride_not_behind sample_live (st_rides sample_store i) (st_rides st' i))"
    by (rule creation_never_regresses [OF st' [unfolded out_def]]) (auto simp: sample_data_def sample_ride_data_def jm_ok_def)
  then obtain new where new: "st_sessions st' ''s1'' = Some new" "session_not_behind sample_stored new"
      "ride_not_behind sample_live (Some sample_ride) (st_rides st' ''b_r'')"
    using s by auto
  have "obj_get new ''status'' = JStr ''active''" using new(2) unfolding session_not_behind_def by (simp add: sample_stored_def)
  moreover have "obj_get new ''startTime'' = JNum (Fin 5)" using new(2) unfolding session_not_behind_def by (simp add: sample_stored_def)
  ultimately show ?thesis using st' new unfolding out_def by metis
qed

end
