(* ===== verification/Lru_Cache.thy ===== *)
theory Lru_Cache imports Js_Number Js_Map begin

text \<open>
  The bounded LRU cache (backend/src/lib/lruCache.ts). The class's private \<open>Map\<close> is an ordered map
  whose first entry is the least recently used one. A method that changes the cache returns the new
  cache; \<open>set\<close> also returns the entries it handed to \<open>onEvict\<close>, in order.
  The locale \<open>bounded_cache\<close> is what the cache's clients (the change writer's fingerprints, the API
  read cache) rely on; it is interpreted on the LRU operations.
\<close>

section \<open>The cache\<close>

record ('k, 'v) lru =
  lru_entries :: "('k, 'v) jsmap"
  lru_max :: nat

datatype lru_error = LruRangeError jsnum

definition lru_new :: "jsnum \<Rightarrow> lru_error + ('k, 'v) lru" where
  "lru_new n = (if \<not> is_safe_integer n \<or> n < 1 then Inl (LruRangeError n)
     else Inr \<lparr>lru_entries = [], lru_max = (case n of Fin x \<Rightarrow> nat \<lfloor>x\<rfloor> | _ \<Rightarrow> 0)\<rparr>)"

definition lru_size :: "('k, 'v) lru \<Rightarrow> nat" where
  "lru_size c = length (lru_entries c)"

definition lru_has :: "('k, 'v) lru \<Rightarrow> 'k \<Rightarrow> bool" where
  "lru_has c k = jm_has (lru_entries c) k"

definition lru_get :: "('k, 'v) lru \<Rightarrow> 'k \<Rightarrow> 'v option \<times> ('k, 'v) lru" where
  "lru_get c k = (case jm_get (lru_entries c) k of
       None \<Rightarrow> (None, c)
     | Some v \<Rightarrow> (Some v, c\<lparr>lru_entries := jm_set (jm_delete (lru_entries c) k) k v\<rparr>))"

text \<open>The eviction loop of \<open>set\<close>: while too large, the first entry goes.\<close>

fun lru_evict :: "nat \<Rightarrow> ('k, 'v) jsmap \<Rightarrow> ('k \<times> 'v) list \<times> ('k, 'v) jsmap" where
  "lru_evict n [] = ([], [])"
| "lru_evict n ((k, v) # m) =
     (if n < length ((k, v) # m)
      then (let (gone, m') = lru_evict n m in ((k, v) # gone, m'))
      else ([], (k, v) # m))"

definition lru_set :: "('k, 'v) lru \<Rightarrow> 'k \<Rightarrow> 'v \<Rightarrow> ('k \<times> 'v) list \<times> ('k, 'v) lru" where
  "lru_set c k v =
     (let m = (if jm_has (lru_entries c) k then jm_delete (lru_entries c) k else lru_entries c);
          (gone, m') = lru_evict (lru_max c) (jm_set m k v)
      in (gone, c\<lparr>lru_entries := m'\<rparr>))"

definition lru_delete :: "('k, 'v) lru \<Rightarrow> 'k \<Rightarrow> bool \<times> ('k, 'v) lru" where
  "lru_delete c k = (jm_has (lru_entries c) k, c\<lparr>lru_entries := jm_delete (lru_entries c) k\<rparr>)"

definition lru_clear :: "('k, 'v) lru \<Rightarrow> ('k, 'v) lru" where
  "lru_clear c = c\<lparr>lru_entries := []\<rparr>"

definition lru_values :: "('k, 'v) lru \<Rightarrow> 'v list" where
  "lru_values c = jm_values (lru_entries c)"

section \<open>The invariant\<close>

definition lru_ok :: "('k, 'v) lru \<Rightarrow> bool" where
  "lru_ok c \<longleftrightarrow> jm_ok (lru_entries c) \<and> length (lru_entries c) \<le> lru_max c \<and> 1 \<le> lru_max c"

lemma lru_evict_spec: "lru_evict n m = (take (length m - n) m, drop (length m - n) m)"
proof (induction n m rule: lru_evict.induct)
  case (2 n k v m)
  show ?case
  proof (cases "n < length ((k, v) # m)")
    case True
    then have "Suc (length m) - n = Suc (length m - n)" by simp
    with True 2 show ?thesis by simp
  qed simp
qed simp

text \<open>A used entry moves to the end: what a hit and an insertion have in common.\<close>

definition lru_touch :: "('k, 'v) jsmap \<Rightarrow> 'k \<Rightarrow> 'v \<Rightarrow> ('k, 'v) jsmap" where
  "lru_touch m k v = filter (\<lambda>p. fst p \<noteq> k) m @ [(k, v)]"

definition last_n :: "nat \<Rightarrow> 'a list \<Rightarrow> 'a list" where
  "last_n n xs = drop (length xs - n) xs"

lemma jm_get_append: "jm_get (xs @ ys) k = (case jm_get xs k of None \<Rightarrow> jm_get ys k | Some v \<Rightarrow> Some v)"
  by (induction xs) auto

lemma lru_touch_get: "jm_get (lru_touch m k v) j = (if j = k then Some v else jm_get m j)"
  by (simp add: lru_touch_def jm_get_append jm_get_filter_keys split: option.split)

lemma lru_touch_ok: "jm_ok m \<Longrightarrow> jm_ok (lru_touch m k v)"
  using jm_ok_filter [of m "\<lambda>p. fst p \<noteq> k"] by (auto simp: lru_touch_def jm_ok_def)

lemma filter_key_length: "jm_ok m \<Longrightarrow> jm_has m k \<Longrightarrow> Suc (length (filter (\<lambda>p. fst p \<noteq> k) m)) = length m"
  using length_jm_delete [of m k] by (simp add: jm_delete_filter)

lemma lru_touch_length: "jm_ok m \<Longrightarrow> jm_has m k \<Longrightarrow> length (lru_touch m k v) = length m"
  by (simp add: lru_touch_def filter_key_length)

lemma lru_touch_fresh: "jm_set (filter (\<lambda>p. fst p \<noteq> k) m) k v = lru_touch m k v"
  unfolding lru_touch_def by (rule jm_set_fresh) (auto simp: jm_has_iff)

lemma lru_touch_keys: "map fst (lru_touch m k v) = filter (\<lambda>j. j \<noteq> k) (map fst m) @ [k]"
  by (simp add: lru_touch_def filter_map comp_def)

lemma last_n_length: "length (last_n n xs) = min n (length xs)"
  by (simp add: last_n_def)

lemma last_n_map: "map f (last_n n xs) = last_n n (map f xs)"
  by (simp add: last_n_def drop_map)

lemma last_n_ok: "jm_ok m \<Longrightarrow> jm_ok (last_n n m)"
  by (simp add: jm_ok_def last_n_def drop_map [symmetric])

lemma last_n_touch: "1 \<le> n \<Longrightarrow> last_n n (lru_touch m k v) = last_n (n - 1) (filter (\<lambda>p. fst p \<noteq> k) m) @ [(k, v)]"
  by (simp add: last_n_def lru_touch_def)

lemma jm_get_last_n: "jm_ok m \<Longrightarrow> jm_get (last_n n m) k = Some v \<Longrightarrow> jm_get m k = Some v"
  using jm_get_iff [of m k v] jm_get_iff [OF last_n_ok, of m n k v]
  by (auto simp: last_n_def dest: in_set_dropD)

lemma lru_set_unfold: "lru_ok c \<Longrightarrow> lru_set c k v =
    (take (length (lru_touch (lru_entries c) k v) - lru_max c) (lru_touch (lru_entries c) k v),
     c\<lparr>lru_entries := last_n (lru_max c) (lru_touch (lru_entries c) k v)\<rparr>)"
proof -
  assume ok: "lru_ok c"
  let ?E = "lru_entries c"
  have "(if jm_has ?E k then jm_delete ?E k else ?E) = filter (\<lambda>p. fst p \<noteq> k) ?E"
    using ok jm_delete_absent [of ?E k] by (auto simp: lru_ok_def jm_delete_filter)
  then show ?thesis
    by (simp add: lru_set_def lru_touch_fresh lru_evict_spec last_n_def)
qed

lemma lru_get_unfold: "lru_ok c \<Longrightarrow> lru_get c k = (case jm_get (lru_entries c) k of
    None \<Rightarrow> (None, c)
  | Some v \<Rightarrow> (Some v, c\<lparr>lru_entries := lru_touch (lru_entries c) k v\<rparr>))"
  by (simp add: lru_get_def lru_ok_def jm_delete_filter lru_touch_fresh split: option.split)

lemma lru_ok_new: "lru_new n = Inr c \<Longrightarrow> lru_ok c"
  by (cases n) (auto simp: lru_new_def lru_ok_def le_nat_iff le_floor_iff split: if_splits)

lemma lru_ok_get: "lru_ok c \<Longrightarrow> lru_ok (snd (lru_get c k))"
  by (auto simp: lru_get_unfold lru_ok_def lru_touch_ok lru_touch_length jm_has_def split: option.split)

lemma lru_ok_set: "lru_ok c \<Longrightarrow> lru_ok (snd (lru_set c k v))"
  by (simp add: lru_set_unfold lru_ok_def last_n_ok lru_touch_ok last_n_length)

lemma lru_ok_delete: "lru_ok c \<Longrightarrow> lru_ok (snd (lru_delete c k))"
  using length_jm_delete_le [of "lru_entries c" k] by (auto simp: lru_delete_def lru_ok_def)

lemma lru_ok_clear: "lru_ok c \<Longrightarrow> lru_ok (lru_clear c)"
  by (simp add: lru_clear_def lru_ok_def)

lemma lru_max_const [simp]: "lru_max (snd (lru_set c k v)) = lru_max c"
    "lru_max (snd (lru_get c k)) = lru_max c" "lru_max (snd (lru_delete c k)) = lru_max c"
    "lru_max (lru_clear c) = lru_max c"
  by (simp_all add: lru_set_def lru_get_def lru_delete_def lru_clear_def Let_def split: prod.split option.split)

section \<open>The interface of a bounded cache\<close>

locale bounded_cache =
  fixes peek :: "'c \<Rightarrow> 'k \<Rightarrow> 'v option"
    and fetch :: "'c \<Rightarrow> 'k \<Rightarrow> 'v option \<times> 'c"
    and put :: "'c \<Rightarrow> 'k \<Rightarrow> 'v \<Rightarrow> 'c"
    and forget :: "'c \<Rightarrow> 'k \<Rightarrow> 'c"
    and inv :: "'c \<Rightarrow> bool"
  assumes fetch_result: "inv c \<Longrightarrow> fst (fetch c k) = peek c k"
    and fetch_peek: "inv c \<Longrightarrow> peek (snd (fetch c k)) j = peek c j"
    and put_same: "inv c \<Longrightarrow> peek (put c k v) k = Some v"
    and put_other: "inv c \<Longrightarrow> j \<noteq> k \<Longrightarrow> peek (put c k v) j = Some w \<Longrightarrow> peek c j = Some w"
    and forget_peek: "inv c \<Longrightarrow> peek (forget c k) j = (if j = k then None else peek c j)"
    and inv_fetch: "inv c \<Longrightarrow> inv (snd (fetch c k))"
    and inv_put: "inv c \<Longrightarrow> inv (put c k v)"
    and inv_forget: "inv c \<Longrightarrow> inv (forget c k)"
begin

text \<open>Whatever every stored entry satisfies, every later answer satisfies: eviction can lose an
  entry but never invents or alters one.\<close>

lemma put_preserves:
  "inv c \<Longrightarrow> (\<And>j w. peek c j = Some w \<Longrightarrow> P j w) \<Longrightarrow> P k v \<Longrightarrow> peek (put c k v) j = Some w \<Longrightarrow> P j w"
  using put_same put_other by (metis option.inject)

lemma fetch_preserves:
  "inv c \<Longrightarrow> (\<And>j w. peek c j = Some w \<Longrightarrow> P j w) \<Longrightarrow> fst (fetch c k) = Some w \<Longrightarrow> P k w"
  by (simp add: fetch_result)

lemma fetch_after_put: "inv c \<Longrightarrow> fst (fetch (put c k v) k) = Some v"
  by (simp add: fetch_result inv_put put_same)

lemma fetch_after_forget: "inv c \<Longrightarrow> fst (fetch (forget c k) k) = None"
  by (simp add: fetch_result inv_forget forget_peek)

end

definition lru_peek :: "('k, 'v) lru \<Rightarrow> 'k \<Rightarrow> 'v option" where
  "lru_peek c k = jm_get (lru_entries c) k"

lemma lru_peek_set_same: "lru_ok c \<Longrightarrow> lru_peek (snd (lru_set c k v)) k = Some v"
proof -
  assume ok: "lru_ok c"
  then have n: "1 \<le> lru_max c" by (simp add: lru_ok_def)
  have "(k, v) \<in> set (last_n (lru_max c) (lru_touch (lru_entries c) k v))"
    by (simp add: last_n_touch [OF n])
  with ok show ?thesis
    by (simp add: lru_set_unfold lru_peek_def jm_get_iff last_n_ok lru_touch_ok lru_ok_def)
qed

lemma lru_peek_set_other:
  assumes "lru_ok c" "j \<noteq> k" "lru_peek (snd (lru_set c k v)) j = Some w"
  shows "lru_peek c j = Some w"
proof -
  have "jm_get (last_n (lru_max c) (lru_touch (lru_entries c) k v)) j = Some w"
    using assms by (simp add: lru_set_unfold lru_peek_def)
  then have "jm_get (lru_touch (lru_entries c) k v) j = Some w"
    using assms(1) by (auto simp: lru_ok_def intro: jm_get_last_n lru_touch_ok)
  with assms(2) show ?thesis
    by (simp add: lru_peek_def lru_touch_get)
qed

lemma lru_peek_get: "lru_ok c \<Longrightarrow> lru_peek (snd (lru_get c k)) j = lru_peek c j"
  by (simp add: lru_get_unfold lru_peek_def lru_touch_get split: option.split)

interpretation lruc: bounded_cache lru_peek lru_get "\<lambda>c k v. snd (lru_set c k v)"
    "\<lambda>c k. snd (lru_delete c k)" lru_ok
proof unfold_locales
  fix c :: "('a, 'b) lru" and k j v w
  show "lru_ok c \<Longrightarrow> fst (lru_get c k) = lru_peek c k"
    by (auto simp: lru_get_def lru_peek_def split: option.split)
  show "lru_ok c \<Longrightarrow> lru_peek (snd (lru_get c k)) j = lru_peek c j"
    by (rule lru_peek_get)
  show "lru_ok c \<Longrightarrow> lru_peek (snd (lru_delete c k)) j = (if j = k then None else lru_peek c j)"
    by (simp add: lru_delete_def lru_peek_def jm_get_delete lru_ok_def)
qed (fact lru_peek_set_same lru_peek_set_other lru_ok_get lru_ok_set lru_ok_delete)+

section \<open>Recency\<close>

text \<open>The keys of the cache after an insertion: the used key moves to the end, and only the
  \<open>lru_max\<close> most recent keys stay.\<close>

lemma lru_set_keys:
  assumes "lru_ok c"
  shows "map fst (lru_entries (snd (lru_set c k v))) =
    last_n (lru_max c) (filter (\<lambda>j. j \<noteq> k) (map fst (lru_entries c)) @ [k])"
  using assms by (simp add: lru_set_unfold last_n_map lru_touch_keys)

definition lru_set_all :: "('k, 'v) lru \<Rightarrow> ('k \<times> 'v) list \<Rightarrow> ('k, 'v) lru" where
  "lru_set_all c ps = foldl (\<lambda>c (k, v). snd (lru_set c k v)) c ps"

lemma remdups_snoc: "remdups (xs @ [x]) = filter (\<lambda>y. y \<noteq> x) (remdups xs) @ [x]"
  by (induction xs) auto

lemma distinct_filter_neq_length: "distinct ks \<Longrightarrow> length ks \<le> Suc (length (filter (\<lambda>j. j \<noteq> k) ks))"
proof (induction ks)
  case (Cons x xs)
  show ?case
  proof (cases "x = k")
    case True
    with Cons.prems have "filter (\<lambda>j. j \<noteq> k) xs = xs" by (auto simp: filter_id_conv)
    with True show ?thesis by simp
  next
    case False
    with Cons show ?thesis by simp
  qed
qed simp

lemma last_n_append: "n \<le> length ys \<Longrightarrow> last_n n (xs @ ys) = last_n n ys"
  by (simp add: last_n_def)

lemma filter_last_n:
  assumes "distinct ks"
  shows "last_n n (filter (\<lambda>j. j \<noteq> k) (last_n n ks) @ [k]) = last_n n (filter (\<lambda>j. j \<noteq> k) ks @ [k])"
proof -
  define pre where "pre = take (length ks - n) ks"
  define suf where "suf = last_n n ks"
  let ?F = "filter (\<lambda>j. j \<noteq> k)"
  have ks: "ks = pre @ suf" by (simp add: pre_def suf_def last_n_def)
  show ?thesis
  proof (cases "pre = []")
    case True
    with ks show ?thesis by (simp add: suf_def)
  next
    case False
    then have full: "length suf = n"
      by (auto simp: pre_def suf_def last_n_def)
    have "distinct suf" using assms ks by auto
    then have "n \<le> length (?F suf @ [k])"
      using full distinct_filter_neq_length [of suf k] by simp
    then have "last_n n (?F pre @ ?F suf @ [k]) = last_n n (?F suf @ [k])"
      by (rule last_n_append)
    then show ?thesis
      unfolding suf_def [symmetric] by (simp add: ks)
  qed
qed

lemma lru_set_all_ok: "lru_ok c \<Longrightarrow> lru_ok (lru_set_all c ps) \<and> lru_max (lru_set_all c ps) = lru_max c"
proof (induction ps rule: rev_induct)
  case (snoc p ps)
  then show ?case by (cases p) (simp add: lru_set_all_def lru_ok_set)
qed (simp add: lru_set_all_def)

lemma lru_set_all_keys:
  assumes "lru_ok c" "lru_entries c = []"
  shows "map fst (lru_entries (lru_set_all c ps)) = last_n (lru_max c) (remdups (map fst ps))"
proof (induction ps rule: rev_induct)
  case Nil
  with assms show ?case by (simp add: lru_set_all_def last_n_def)
next
  case (snoc p ps)
  obtain k v where p: "p = (k, v)" by (cases p)
  have "lru_set_all c (ps @ [p]) = snd (lru_set (lru_set_all c ps) k v)"
    by (simp add: lru_set_all_def p)
  with lru_set_all_ok [OF assms(1), of ps] snoc show ?case
    by (simp add: lru_set_keys remdups_snoc p filter_last_n)
qed

lemma lru_set_all_peek:
  assumes "lru_ok c" "lru_entries c = []"
  shows "lru_peek (lru_set_all c ps) k =
    (if k \<in> set (map fst (lru_entries (lru_set_all c ps))) then map_of (rev ps) k else None)"
proof (induction ps arbitrary: k rule: rev_induct)
  case Nil
  with assms show ?case by (simp add: lru_set_all_def lru_peek_def)
next
  case (snoc p ps)
  obtain j v where p: "p = (j, v)" by (cases p)
  let ?c = "lru_set_all c ps" and ?d = "snd (lru_set (lru_set_all c ps) j v)"
  have d: "lru_set_all c (ps @ [p]) = ?d" "lru_set_all c (ps @ [(j, v)]) = ?d"
    by (simp_all add: lru_set_all_def p)
  have ok: "lru_ok ?c" using lru_set_all_ok [OF assms(1)] by blast
  have key: "k \<in> set (map fst (lru_entries ?d)) \<longleftrightarrow> lru_peek ?d k \<noteq> None"
    by (simp add: lru_peek_def jm_get_none_iff del: not_None_eq)
  show ?case
  proof (cases "lru_peek ?d k")
    case None
    with key d show ?thesis by simp
  next
    case (Some w)
    show ?thesis
    proof (cases "k = j")
      case True
      with Some lru_peek_set_same [OF ok, of j v] key have "w = v" "k \<in> set (map fst (lru_entries ?d))"
        by simp_all
      with Some True show ?thesis unfolding p d(2) by simp
    next
      case False
      from lru_peek_set_other [OF ok False Some] have "lru_peek ?c k = Some w" .
      with snoc [of k] have "map_of (rev ps) k = Some w" by (auto split: if_splits)
      with False Some key show ?thesis by (simp add: d p)
    qed
  qed
qed

section \<open>Properties\<close>

text \<open>After any sequence of insertions into a new cache of size \<open>n\<close>, the cached keys are the \<open>n\<close>
  most recently inserted distinct ones, from the least to the most recent, and each holds its last
  value.\<close>

theorem lru_keeps_most_recent:
  assumes "lru_new (Fin (of_int n)) = Inr c"
  shows "map fst (lru_entries (lru_set_all c ps)) = last_n (nat n) (remdups (map fst ps)) \<and>
    (\<forall>k. lru_peek (lru_set_all c ps) k =
      (if k \<in> set (last_n (nat n) (remdups (map fst ps))) then map_of (rev ps) k else None))"
proof -
  have c: "lru_ok c" "lru_entries c = []" "lru_max c = nat n"
    using lru_ok_new [OF assms] assms by (auto simp: lru_new_def split: if_splits)
  from lru_set_all_keys [OF c(1,2), of ps] lru_set_all_peek [OF c(1,2), of ps] c(3)
  show ?thesis by simp
qed

theorem lru_keeps_most_recent_witness:
  "map fst (lru_entries (lru_set_all \<lparr>lru_entries = [], lru_max = 2\<rparr>
     [(''a'', 1::int), (''b'', 2), (''a'', 3), (''c'', 4)])) = [''a'', ''c'']"
proof -
  have new: "lru_new (Fin (of_int 2)) = Inr \<lparr>lru_entries = [], lru_max = 2\<rparr>"
    by (simp add: lru_new_def)
  from lru_keeps_most_recent [OF new, of "[(''a'', 1::int), (''b'', 2), (''a'', 3), (''c'', 4)]"]
  show ?thesis by (simp add: last_n_def)
qed

text \<open>A hit makes its key the most recent one and changes nothing else: a following insertion
  into a full cache evicts the key that was least recent among the others.\<close>

theorem lru_read_is_a_use:
  assumes "lru_ok c" "length (lru_entries c) = lru_max c" "2 \<le> lru_max c"
    and "lru_peek c k = Some v" "\<not> lru_has c j"
  shows "\<exists>old w. fst (lru_set (snd (lru_get c k)) j x) = [(old, w)] \<and> old \<noteq> k \<and>
    old = hd (filter (\<lambda>i. i \<noteq> k) (map fst (lru_entries c)))"
proof -
  let ?E = "lru_entries c" and ?F = "filter (\<lambda>p. fst p \<noteq> k) (lru_entries c)"
  have has: "jm_has ?E k" using assms(4) by (simp add: lru_peek_def jm_has_def)
  have okE: "jm_ok ?E" using assms(1) by (simp add: lru_ok_def)
  have len: "Suc (length ?F) = lru_max c"
    using filter_key_length [OF okE has] assms(2) by simp
  then obtain p ps where F: "?F = p # ps" using assms(3) by (cases ?F) auto
  have get: "snd (lru_get c k) = c\<lparr>lru_entries := lru_touch ?E k v\<rparr>"
    using assms(1,4) by (simp add: lru_get_unfold lru_peek_def)
  have "lru_ok (snd (lru_get c k))" by (rule lru_ok_get [OF assms(1)])
  moreover have "filter (\<lambda>p. fst p \<noteq> j) (lru_touch ?E k v) = lru_touch ?E k v"
  proof -
    have "j \<notin> fst ` set ?E" "j \<noteq> k"
      using assms(5) has by (auto simp: lru_has_def jm_has_iff)
    then show ?thesis by (force simp: lru_touch_def intro!: filter_cong)
  qed
  ultimately have set_out: "fst (lru_set (snd (lru_get c k)) j x) =
      take (Suc (length (lru_touch ?E k v)) - lru_max c) (lru_touch ?E k v @ [(j, x)])"
    using get by (simp add: lru_set_unfold) (simp add: lru_touch_def [of "lru_touch _ _ _"])
  have "length (lru_touch ?E k v) = lru_max c"
    using lru_touch_length [OF okE has] assms(2) by simp
  with set_out F have out: "fst (lru_set (snd (lru_get c k)) j x) = [p]"
    by (simp add: lru_touch_def)
  have "fst p \<noteq> k" using F by (metis (mono_tags, lifting) filter_set list.set_intros(1) mem_Collect_eq set_filter)
  moreover have "filter (\<lambda>i. i \<noteq> k) (map fst ?E) = map fst ?F"
    by (simp add: filter_map comp_def)
  ultimately show ?thesis using out F by (cases p) auto
qed

theorem lru_read_is_a_use_witness:
  "\<exists>old w. fst (lru_set (snd (lru_get \<lparr>lru_entries = [(''a'', 1::int), (''b'', 2)], lru_max = 2\<rparr> ''a'')) ''c'' 3) = [(old, w)] \<and>
     old \<noteq> ''a'' \<and> old = hd (filter (\<lambda>i. i \<noteq> ''a'') (map fst [(''a'', 1::int), (''b'', 2)]))"
  using lru_read_is_a_use [of "\<lparr>lru_entries = [(''a'', 1::int), (''b'', 2)], lru_max = 2\<rparr>" "''a''" 1 "''c''" 3]
  by (simp add: lru_ok_def jm_ok_def lru_peek_def lru_has_def jm_has_def)

end
