(* ===== verification/Route_Catalog.thy ===== *)
theory Route_Catalog imports Ride_Start Lru_Cache begin

text \<open>
  The catalog of route geometry that matches telemetry (\<open>services/telemetryRouteService.ts\<close>,
  \<open>lib/routeGeometrySignature.ts\<close>): what a route document is read as, the bounded cache of routes, the loads
  in flight and the generations by which work begun on an older reading is refused. A load is begun, and
  later finished or failed, as two operations of a sequence; the watcher of the route documents contributes its
  own. \<open>JSON.stringify\<close>, SHA-256, the parse and the format of numbers are the fields of \<open>host\<close>.
\<close>

section \<open>Reading a route document\<close>

record host =
  h_parse :: "jsval \<Rightarrow> jsnum"
  h_json :: "jsval \<Rightarrow> string"
  h_sha256 :: "string \<Rightarrow> string"
  h_fixed6 :: "jsnum \<Rightarrow> string"
  h_string :: "jsnum \<Rightarrow> string"

definition route_cache_ms :: jsnum where "route_cache_ms = 300000"
definition max_encoded_polyline_length :: nat where "max_encoded_polyline_length = 500000"

record route_stop =
  rs_id :: string
  rs_at :: position

record stored_route =
  rt_forward_polyline :: string
  rt_reverse_polyline :: string
  rt_forward_coordinates :: "position list"
  rt_reverse_coordinates :: "position list"
  rt_stops :: "route_stop list"
  rt_endpoint_version :: string
  rt_geometry_version :: jsnum
  rt_config_version :: jsnum
  rt_geometry_signature :: string
  rt_cache_generation :: nat

record cache_entry =
  ce_expires_at :: jsnum
  ce_value :: "stored_route option"
  ce_signature :: string

definition valid_lat_lng :: "jsval \<Rightarrow> position option" where
  "valid_lat_lng value = (case (js_prop value ''lat'', js_prop value ''lng'') of
      (JNum lat, JNum lng) \<Rightarrow> (if is_finite lat \<and> lat \<ge> -90 \<and> lat \<le> 90 \<and> is_finite lng \<and> lng \<ge> -180 \<and> lng \<le> 180
        then Some \<lparr>pos_lat = lat, pos_lng = lng\<rparr> else None)
    | _ \<Rightarrow> None)"

definition parse_stop :: "jsval \<Rightarrow> route_stop option" where
  "parse_stop candidate = (case valid_lat_lng candidate of
      None \<Rightarrow> None
    | Some p \<Rightarrow> (case js_prop candidate ''id'' of
        JStr i \<Rightarrow> (if i \<noteq> [] then Some \<lparr>rs_id = i, rs_at = p\<rparr> else None) | _ \<Rightarrow> None))"

definition parse_stops :: "jsval \<Rightarrow> route_stop list" where
  "parse_stops value = (case value of JArr vs \<Rightarrow> List.map_filter parse_stop vs | _ \<Rightarrow> [])"

definition code_units :: "string \<Rightarrow> units" where
  "code_units s = map (\<lambda>c. word_of_nat (of_char c)) s"

definition decode_stored_polyline :: "jsval \<Rightarrow> (string \<times> position list) option" where
  "decode_stored_polyline value = (case value of
      JStr s \<Rightarrow> (if s = [] \<or> length s > max_encoded_polyline_length then None
        else (case decode_polyline (code_units s) of
          Inl e \<Rightarrow> None | Inr path \<Rightarrow> (if length path \<ge> 2 then Some (s, path) else None)))
    | _ \<Rightarrow> None)"

definition position_value :: "position \<Rightarrow> jsval" where
  "position_value p = JObj [(''lat'', JNum (pos_lat p)), (''lng'', JNum (pos_lng p))]"

definition route_geometry_signature :: "host \<Rightarrow> position list \<Rightarrow> string" where
  "route_geometry_signature h ordered_stops = h_sha256 h (h_json h (JObj
     [(''contract'', JObj [(''travelMode'', JStr ''DRIVE''), (''routingPreference'', JStr ''TRAFFIC_AWARE_OPTIMAL''),
        (''polylineQuality'', JStr ''HIGH_QUALITY''), (''computeAlternativeRoutes'', JBool False)]),
      (''orderedStops'', JArr (map position_value ordered_stops))]))"

definition route_geometry_version :: "fields option \<Rightarrow> jsnum" where
  "route_geometry_version route = (case doc_prop route ''geometryVersion'' of
      JNum v \<Rightarrow> (if is_safe_integer v \<and> v \<ge> 0 then v else 0) | _ \<Rightarrow> 0)"

definition stop_value :: "route_stop \<Rightarrow> jsval" where
  "stop_value s = JObj [(''id'', JStr (rs_id s)), (''lat'', JNum (pos_lat (rs_at s))), (''lng'', JNum (pos_lng (rs_at s)))]"

definition catalog_entry :: "host \<Rightarrow> jsnum \<Rightarrow> fields option \<Rightarrow> nat \<Rightarrow> cache_entry" where
  "catalog_entry h now data generation =
    (let stops = parse_stops (doc_prop data ''stops'');
       forward = decode_stored_polyline (nullish (doc_prop data ''forwardPolyline'') (doc_prop data ''polyline''));
       reverse = decode_stored_polyline (doc_prop data ''reversePolyline'');
       config = route_document_version data; geometry = route_geometry_version data;
       signature = route_geometry_signature h (map rs_at stops);
       encoded = (\<lambda>p. case p of Some (s, _) \<Rightarrow> JStr s | None \<Rightarrow> JNull) in
     \<lparr>ce_expires_at = now + route_cache_ms,
      ce_value = (case (forward, reverse, endpoint_snapshot_version (h_fixed6 h) (map stop_value stops)) of
          (Some (f, fpath), Some (r, rpath), Some endpoints) \<Rightarrow> Some
            \<lparr>rt_forward_polyline = f, rt_reverse_polyline = r, rt_forward_coordinates = fpath, rt_reverse_coordinates = rpath,
             rt_stops = stops, rt_endpoint_version = endpoints, rt_geometry_version = geometry, rt_config_version = config,
             rt_geometry_signature = signature, rt_cache_generation = generation\<rparr>
        | _ \<Rightarrow> None),
      ce_signature = h_sha256 h (h_json h (JArr [JBool (data \<noteq> None), JNum config, JNum geometry, JStr signature, encoded forward, encoded reverse]))\<rparr>)"

section \<open>The catalog\<close>

record load =
  lo_route :: string
  lo_generation :: nat
  lo_cached :: "cache_entry option"

record catalog =
  cg_routes :: "(string, cache_entry) lru"
  cg_loads :: "(string, nat) jsmap"
  cg_sequence :: nat
  cg_generations :: "(string, nat) lru"
  cg_store :: "load list"

definition catalog_new :: catalog where
  "catalog_new = \<lparr>cg_routes = \<lparr>lru_entries = [], lru_max = 1000\<rparr>, cg_loads = [], cg_sequence = 0,
     cg_generations = \<lparr>lru_entries = [], lru_max = 1000\<rparr>, cg_store = []\<rparr>"

text \<open>The eviction hook of the generations forgets the route and its load.\<close>

definition forget_route :: "string \<Rightarrow> catalog \<Rightarrow> catalog" where
  "forget_route route c = c\<lparr>cg_routes := snd (lru_delete (cg_routes c) route), cg_loads := jm_delete (cg_loads c) route\<rparr>"

definition set_generation :: "string \<Rightarrow> catalog \<Rightarrow> nat \<times> catalog" where
  "set_generation route c = (let g = cg_sequence c + 1; (gone, gens) = lru_set (cg_generations c) route g in
     (g, fold forget_route (map fst gone) (c\<lparr>cg_sequence := g, cg_generations := gens\<rparr>)))"

definition route_generation :: "string \<Rightarrow> catalog \<Rightarrow> nat \<times> catalog" where
  "route_generation route c = (case lru_get (cg_generations c) route of
      (Some g, gens) \<Rightarrow> (g, c\<lparr>cg_generations := gens\<rparr>)
    | (None, gens) \<Rightarrow> set_generation route (c\<lparr>cg_generations := gens\<rparr>))"

definition invalidate_telemetry_route :: "string \<Rightarrow> catalog \<Rightarrow> catalog" where
  "invalidate_telemetry_route route c = forget_route route (snd (set_generation route c))"

definition telemetry_route_snapshot_is_current :: "string \<Rightarrow> nat \<Rightarrow> catalog \<Rightarrow> bool \<times> catalog" where
  "telemetry_route_snapshot_is_current route generation c = (case lru_get (cg_generations c) route of
      (g, gens) \<Rightarrow> (opt_default g 0 = generation, c\<lparr>cg_generations := gens\<rparr>))"

text \<open>\<open>loadStoredRoute\<close> up to its read: a served route, a load to share, or a new load.\<close>

datatype load_answer = Served "stored_route option" | Shared nat | Started nat

definition load_begin :: "jsnum \<Rightarrow> string \<Rightarrow> catalog \<Rightarrow> load_answer \<times> catalog" where
  "load_begin now route c = (case lru_get (cg_routes c) route of
      (cached, routes) \<Rightarrow> (let c1 = c\<lparr>cg_routes := routes\<rparr> in
        case (case cached of Some e \<Rightarrow> (if ce_expires_at e > now then Some e else None) | None \<Rightarrow> None) of
          Some e \<Rightarrow> (Served (ce_value e), c1)
        | None \<Rightarrow> (case jm_get (cg_loads c1) route of
            Some i \<Rightarrow> (Shared i, c1)
          | None \<Rightarrow> (case route_generation route c1 of
              (g, c2) \<Rightarrow> (Started (length (cg_store c2)),
                c2\<lparr>cg_store := cg_store c2 @ [\<lparr>lo_route = route, lo_generation = g, lo_cached = cached\<rparr>],
                   cg_loads := jm_set (cg_loads c2) route (length (cg_store c2))\<rparr>)))))"

definition load_settled :: "nat \<Rightarrow> string \<Rightarrow> catalog \<Rightarrow> catalog" where
  "load_settled i route c = (if jm_get (cg_loads c) route = Some i then c\<lparr>cg_loads := jm_delete (cg_loads c) route\<rparr> else c)"

definition store_entry :: "host \<Rightarrow> jsnum \<Rightarrow> string \<Rightarrow> fields option \<Rightarrow> catalog \<Rightarrow> cache_entry \<times> catalog" where
  "store_entry h now route data c = (case route_generation route c of
      (g, c1) \<Rightarrow> (let e = catalog_entry h now data g in
        (e, c1\<lparr>cg_routes := snd (lru_set (cg_routes c1) route e)\<rparr>)))"

definition load_finish :: "host \<Rightarrow> jsnum \<Rightarrow> nat \<Rightarrow> fields option \<Rightarrow> catalog \<Rightarrow> stored_route option \<times> catalog" where
  "load_finish h now i data c =
    (let l = cg_store c ! i; route = lo_route l in
     case telemetry_route_snapshot_is_current route (lo_generation l) c of
       (False, c1) \<Rightarrow> (None, load_settled i route c1)
     | (True, c1) \<Rightarrow>
        (let entry = catalog_entry h now data (lo_generation l) in
         if (\<exists>e. lo_cached l = Some e \<and> ce_signature e \<noteq> ce_signature entry)
         then (case store_entry h now route data (invalidate_telemetry_route route c1) of
             (e, c2) \<Rightarrow> (ce_value e, load_settled i route c2))
         else (ce_value entry, load_settled i route (c1\<lparr>cg_routes := snd (lru_set (cg_routes c1) route entry)\<rparr>))))"

section \<open>The watcher\<close>

definition watcher_initial_delay_ms :: nat where "watcher_initial_delay_ms = 1000"
definition watcher_maximum_delay_ms :: nat where "watcher_maximum_delay_ms = 30000"

record watcher =
  wa_stopped :: bool
  wa_generation :: nat
  wa_initial :: bool
  wa_delay_ms :: nat
  wa_timer :: bool

definition invalidate_catalog :: "catalog \<Rightarrow> catalog" where
  "invalidate_catalog c = fold invalidate_telemetry_route
     (remdups (map fst (lru_entries (cg_routes c)) @ map fst (cg_loads c))) c"

definition watcher_attach :: "watcher \<Rightarrow> watcher" where
  "watcher_attach w = (if wa_stopped w then w else w\<lparr>wa_generation := wa_generation w + 1, wa_initial := True\<rparr>)"

definition apply_change :: "host \<Rightarrow> jsnum \<Rightarrow> string \<times> fields option \<Rightarrow> catalog \<Rightarrow> catalog" where
  "apply_change h now change c = snd (store_entry h now (fst change) (snd change) (invalidate_telemetry_route (fst change) c))"

definition watcher_snapshot ::
    "host \<Rightarrow> jsnum \<Rightarrow> nat \<Rightarrow> string list \<Rightarrow> (string \<times> fields option) list \<Rightarrow> watcher \<Rightarrow> catalog \<Rightarrow> watcher \<times> catalog" where
  "watcher_snapshot h now generation present changes w c =
    (if wa_stopped w \<or> generation \<noteq> wa_generation w then (w, c)
     else (let c1 = (if wa_initial w then fold invalidate_telemetry_route
             (filter (\<lambda>i. i \<notin> set present) (map fst (lru_entries (cg_routes c)))) c else c) in
       (w\<lparr>wa_delay_ms := watcher_initial_delay_ms, wa_initial := False\<rparr>, fold (apply_change h now) changes c1)))"

text \<open>The failure of a subscription; \<open>Some\<close> is the delay after which it attaches again.\<close>

definition watcher_error :: "nat \<Rightarrow> watcher \<Rightarrow> catalog \<Rightarrow> nat option \<times> watcher \<times> catalog" where
  "watcher_error generation w c =
    (if wa_stopped w \<or> generation \<noteq> wa_generation w then (None, w, c)
     else (let w1 = w\<lparr>wa_generation := wa_generation w + 1\<rparr>; c1 = invalidate_catalog c in
       if wa_timer w then (None, w1, c1)
       else (Some (wa_delay_ms w), w1\<lparr>wa_delay_ms := min (wa_delay_ms w * 2) watcher_maximum_delay_ms, wa_timer := True\<rparr>, c1)))"

definition watcher_timer :: "watcher \<Rightarrow> watcher" where
  "watcher_timer w = watcher_attach (w\<lparr>wa_timer := False\<rparr>)"

definition watcher_stop :: "watcher \<Rightarrow> catalog \<Rightarrow> watcher \<times> catalog" where
  "watcher_stop w c = (w\<lparr>wa_stopped := True, wa_generation := wa_generation w + 1, wa_timer := False\<rparr>, invalidate_catalog c)"

section \<open>Any sequence of operations\<close>

datatype catalog_op =
    Load_Begin jsnum string
  | Load_Finish jsnum nat "fields option"
  | Load_Fail nat
  | Invalidate string
  | Guard string nat
  | Attach
  | Snapshot jsnum nat "string list" "(string \<times> fields option) list"
  | Subscription_Error nat
  | Timer
  | Stop

record catalog_state =
  cs_watcher :: watcher
  cs_catalog :: catalog

definition catalog_start :: catalog_state where
  "catalog_start = \<lparr>cs_watcher = \<lparr>wa_stopped = False, wa_generation = 0, wa_initial = False,
     wa_delay_ms = watcher_initial_delay_ms, wa_timer = False\<rparr>, cs_catalog = catalog_new\<rparr>"

text \<open>An operation, with the route it hands out.\<close>

fun catalog_do :: "host \<Rightarrow> catalog_op \<Rightarrow> catalog_state \<Rightarrow> (string \<times> stored_route) option \<times> catalog_state" where
  "catalog_do h (Load_Begin now route) s = (case load_begin now route (cs_catalog s) of
      (a, c) \<Rightarrow> ((case a of Served (Some v) \<Rightarrow> Some (route, v) | _ \<Rightarrow> None), s\<lparr>cs_catalog := c\<rparr>))"
| "catalog_do h (Load_Finish now i data) s = (if i < length (cg_store (cs_catalog s))
     then (case load_finish h now i data (cs_catalog s) of
      (v, c) \<Rightarrow> (map_option (Pair (lo_route (cg_store (cs_catalog s) ! i))) v, s\<lparr>cs_catalog := c\<rparr>))
     else (None, s))"
| "catalog_do h (Load_Fail i) s = (None, if i < length (cg_store (cs_catalog s))
     then s\<lparr>cs_catalog := load_settled i (lo_route (cg_store (cs_catalog s) ! i)) (cs_catalog s)\<rparr> else s)"
| "catalog_do h (Invalidate route) s = (None, s\<lparr>cs_catalog := invalidate_telemetry_route route (cs_catalog s)\<rparr>)"
| "catalog_do h (Guard route g) s = (None, s\<lparr>cs_catalog := snd (telemetry_route_snapshot_is_current route g (cs_catalog s))\<rparr>)"
| "catalog_do h Attach s = (None, s\<lparr>cs_watcher := watcher_attach (cs_watcher s)\<rparr>)"
| "catalog_do h (Snapshot now g present changes) s = (case watcher_snapshot h now g present changes (cs_watcher s) (cs_catalog s) of
      (w, c) \<Rightarrow> (None, \<lparr>cs_watcher = w, cs_catalog = c\<rparr>))"
| "catalog_do h (Subscription_Error g) s = (case watcher_error g (cs_watcher s) (cs_catalog s) of
      (_, w, c) \<Rightarrow> (None, \<lparr>cs_watcher = w, cs_catalog = c\<rparr>))"
| "catalog_do h Timer s = (None, s\<lparr>cs_watcher := watcher_timer (cs_watcher s)\<rparr>)"
| "catalog_do h Stop s = (case watcher_stop (cs_watcher s) (cs_catalog s) of
      (w, c) \<Rightarrow> (None, \<lparr>cs_watcher = w, cs_catalog = c\<rparr>))"

fun catalog_ops :: "host \<Rightarrow> catalog_op list \<Rightarrow> catalog_state \<Rightarrow> (string \<times> stored_route) list \<times> catalog_state" where
  "catalog_ops h [] s = ([], s)"
| "catalog_ops h (x # xs) s = (case catalog_do h x s of
      (a, s1) \<Rightarrow> (case catalog_ops h xs s1 of (as, s2) \<Rightarrow> ((case a of Some r \<Rightarrow> [r] | None \<Rightarrow> []) @ as, s2)))"

subsection \<open>The invariant\<close>

definition generation_of :: "catalog \<Rightarrow> string \<Rightarrow> nat option" where
  "generation_of c route = lru_peek (cg_generations c) route"

definition cached_routes :: "catalog \<Rightarrow> string \<Rightarrow> stored_route option" where
  "cached_routes c route = Option.bind (lru_peek (cg_routes c) route) ce_value"

definition catalog_ok :: "catalog \<Rightarrow> bool" where
  "catalog_ok c \<longleftrightarrow> lru_ok (cg_routes c) \<and> lru_ok (cg_generations c) \<and>
     (\<forall>r g. generation_of c r = Some g \<longrightarrow> 1 \<le> g \<and> g \<le> cg_sequence c) \<and>
     (\<forall>r v. cached_routes c r = Some v \<longrightarrow> generation_of c r = Some (rt_cache_generation v))"

text \<open>Generations are only issued forward: none that was issued comes back.\<close>

definition catalog_le :: "catalog \<Rightarrow> catalog \<Rightarrow> bool" where
  "catalog_le c c' \<longleftrightarrow> cg_sequence c \<le> cg_sequence c' \<and>
     (\<forall>r g. g \<le> cg_sequence c \<longrightarrow> generation_of c' r = Some g \<longrightarrow> generation_of c r = Some g)"

lemma catalog_le_refl [simp]: "catalog_le c c"
  by (simp add: catalog_le_def)

lemma catalog_le_trans [trans]: "catalog_le c c' \<Longrightarrow> catalog_le c' c'' \<Longrightarrow> catalog_le c c''"
  unfolding catalog_le_def by (meson le_trans)

lemma catalog_okD:
  assumes "catalog_ok c"
  shows "lru_ok (cg_routes c)" "lru_ok (cg_generations c)"
    "generation_of c r = Some g \<Longrightarrow> 1 \<le> g \<and> g \<le> cg_sequence c"
    "cached_routes c r = Some v \<Longrightarrow> generation_of c r = Some (rt_cache_generation v)"
  using assms by (auto simp: catalog_ok_def)

lemma lru_set_partition:
  assumes ok: "lru_ok l" and s: "lru_set l k v = (gone, l')" and j: "j \<noteq> k" "lru_peek l j = Some w" "j \<notin> fst ` set gone"
  shows "lru_peek l' j = Some w"
proof -
  define t where "t = lru_touch (lru_entries l) k v"
  have jt: "jm_ok t" using ok by (simp add: t_def lru_ok_def lru_touch_ok)
  have e: "gone = take (length t - lru_max l) t" "lru_entries l' = drop (length t - lru_max l) t"
    using s lru_set_unfold [OF ok, of k v] by (auto simp: t_def last_n_def)
  have "jm_get t j = Some w" using j by (simp add: t_def lru_touch_get lru_peek_def)
  then have "(j, w) \<in> set t" by (rule jm_get_in)
  then have "(j, w) \<in> set gone \<union> set (lru_entries l')" unfolding e by (metis append_take_drop_id set_append)
  then have "(j, w) \<in> set (lru_entries l')" using j(3) by force
  moreover have "jm_ok (lru_entries l')" unfolding e using jt by (simp add: jm_ok_def drop_map [symmetric])
  ultimately show ?thesis by (simp add: lru_peek_def jm_get_iff)
qed

lemma forget_route_simps [simp]:
  "cg_sequence (forget_route r c) = cg_sequence c" "cg_generations (forget_route r c) = cg_generations c"
  "generation_of (forget_route r c) = generation_of c" "cg_store (forget_route r c) = cg_store c"
  by (simp_all add: forget_route_def generation_of_def fun_eq_iff)

lemma forget_route_cached:
  "lru_ok (cg_routes c) \<Longrightarrow> cached_routes (forget_route r c) j = (if j = r then None else cached_routes c j)"
  by (simp add: forget_route_def cached_routes_def lruc.forget_peek)

lemma forget_route_ok: "lru_ok (cg_routes c) \<Longrightarrow> lru_ok (cg_routes (forget_route r c))"
  by (simp add: forget_route_def lru_ok_delete)

lemma fold_forget:
  "lru_ok (cg_routes c) \<Longrightarrow> lru_ok (cg_routes (fold forget_route rs c)) \<and> cg_sequence (fold forget_route rs c) = cg_sequence c \<and>
   cg_generations (fold forget_route rs c) = cg_generations c \<and> cg_store (fold forget_route rs c) = cg_store c \<and>
   (\<forall>j. cached_routes (fold forget_route rs c) j = (if j \<in> set rs then None else cached_routes c j))"
proof (induction rs arbitrary: c)
  case (Cons r rs)
  show ?case using Cons.IH [of "forget_route r c"] Cons.prems by (simp add: forget_route_ok forget_route_cached)
qed simp

lemma set_generation_facts:
  assumes ok: "catalog_ok c" and s: "set_generation r c = (g, c')"
  shows "g = cg_sequence c + 1 \<and> cg_sequence c' = g \<and> lru_ok (cg_routes c') \<and> lru_ok (cg_generations c') \<and>
    cg_store c' = cg_store c \<and> generation_of c' r = Some g \<and>
    (\<forall>j x. j \<noteq> r \<longrightarrow> generation_of c' j = Some x \<longrightarrow> generation_of c j = Some x) \<and>
    (\<forall>j v. cached_routes c' j = Some v \<longrightarrow> cached_routes c j = Some v \<and> (j \<noteq> r \<longrightarrow> generation_of c' j = Some (rt_cache_generation v)))"
proof -
  note d = catalog_okD [OF ok]
  obtain gone gens where l: "lru_set (cg_generations c) r (cg_sequence c + 1) = (gone, gens)" by (metis surj_pair)
  define b where "b = c\<lparr>cg_sequence := cg_sequence c + 1, cg_generations := gens\<rparr>"
  have c': "c' = fold forget_route (map fst gone) b" "g = cg_sequence c + 1"
    using s l by (auto simp: set_generation_def Let_def b_def)
  have okb: "lru_ok (cg_routes b)" "lru_ok gens" using d(1) lru_ok_set [OF d(2), of r "cg_sequence c + 1"] l by (simp_all add: b_def)
  note f = fold_forget [OF okb(1), of "map fst gone", folded c']
  have cb: "cached_routes b = cached_routes c" by (simp add: b_def cached_routes_def fun_eq_iff)
  have gb: "generation_of c' j = lru_peek gens j" for j using f by (simp add: generation_of_def b_def)
  have same: "lru_peek gens r = Some g" using lru_peek_set_same [OF d(2), of r "cg_sequence c + 1"] l c'(2) by simp
  have other: "generation_of c j = Some x" if "j \<noteq> r" "lru_peek gens j = Some x" for j x
    using lru_peek_set_other [OF d(2), of j r "cg_sequence c + 1" x] that l by (simp add: generation_of_def)
  have kept: "generation_of c' j = Some (rt_cache_generation v)" if "cached_routes c' j = Some v" "j \<noteq> r" for j v
  proof -
    have j: "j \<notin> set (map fst gone)" "cached_routes c j = Some v" using f that(1) cb by (auto split: if_splits)
    then show ?thesis using lru_set_partition [OF d(2) l that(2)] d(4) gb by (simp add: generation_of_def)
  qed
  have fewer: "cached_routes c j = Some v" if "cached_routes c' j = Some v" for j v using f that cb by (auto split: if_splits)
  have b: "cg_sequence c' = g" "lru_ok (cg_routes c')" "cg_generations c' = gens" "cg_store c' = cg_store c"
    using f c'(2) by (simp_all add: b_def)
  show ?thesis using b c'(2) okb(2) same other kept fewer by (simp add: gb)
qed

lemma set_generation_le:
  assumes ok: "catalog_ok c" and s: "set_generation r c = (g, c')"
  shows "catalog_le c c'"
proof -
  note f = set_generation_facts [OF assms]
  have "generation_of c j = Some x" if "x \<le> cg_sequence c" "generation_of c' j = Some x" for j x
    using f that by (cases "j = r") auto
  then show ?thesis using f by (simp add: catalog_le_def)
qed

lemma set_generation_bounds:
  assumes ok: "catalog_ok c" and s: "set_generation r c = (g, c')" and g: "generation_of c' j = Some x"
  shows "1 \<le> x \<and> x \<le> cg_sequence c'"
proof (cases "j = r")
  case True
  then show ?thesis using set_generation_facts [OF ok s] g by auto
next
  case False
  then show ?thesis using set_generation_facts [OF ok s] catalog_okD(3) [OF ok, of j x] g by auto
qed

lemma invalidate_facts:
  assumes ok: "catalog_ok c"
  shows "catalog_ok (invalidate_telemetry_route r c) \<and> catalog_le c (invalidate_telemetry_route r c) \<and>
    cg_store (invalidate_telemetry_route r c) = cg_store c \<and> generation_of (invalidate_telemetry_route r c) r = Some (cg_sequence c + 1)"
proof -
  obtain g c1 where s: "set_generation r c = (g, c1)" by (metis surj_pair)
  note f = set_generation_facts [OF ok s]
  have i: "invalidate_telemetry_route r c = forget_route r c1" by (simp add: invalidate_telemetry_route_def s)
  have ok1: "lru_ok (cg_routes c1)" using f by blast
  have "catalog_ok (forget_route r c1)"
    unfolding catalog_ok_def using f set_generation_bounds [OF ok s]
    by (auto simp: forget_route_ok forget_route_cached [OF ok1] split: if_splits)
  moreover have "catalog_le c (forget_route r c1)" using set_generation_le [OF ok s] by (simp add: catalog_le_def)
  ultimately show ?thesis unfolding i using f by simp
qed

lemma gens_touched:
  assumes ok: "catalog_ok c" and g: "lru_get (cg_generations c) r = (v, gens)"
  shows "v = generation_of c r" "catalog_ok (c\<lparr>cg_generations := gens\<rparr>)" "catalog_le c (c\<lparr>cg_generations := gens\<rparr>)"
    "generation_of (c\<lparr>cg_generations := gens\<rparr>) = generation_of c"
proof -
  note d = catalog_okD [OF ok]
  show v: "v = generation_of c r" using lruc.fetch_result [OF d(2), of r] g by (simp add: generation_of_def)
  have p: "lru_peek gens j = lru_peek (cg_generations c) j" for j using lruc.fetch_peek [OF d(2), of r j] g by simp
  then show q: "generation_of (c\<lparr>cg_generations := gens\<rparr>) = generation_of c" by (simp add: generation_of_def fun_eq_iff)
  have "lru_ok gens" using lru_ok_get [OF d(2), of r] g by simp
  then show "catalog_ok (c\<lparr>cg_generations := gens\<rparr>)" using ok by (simp add: catalog_ok_def q cached_routes_def)
  show "catalog_le c (c\<lparr>cg_generations := gens\<rparr>)" by (simp add: catalog_le_def q)
qed

lemma route_generation_facts:
  assumes ok: "catalog_ok c" and s: "route_generation r c = (g, c')"
  shows "catalog_ok c' \<and> catalog_le c c' \<and> cg_store c' = cg_store c \<and> generation_of c' r = Some g"
proof -
  obtain v gens where g: "lru_get (cg_generations c) r = (v, gens)" by (metis surj_pair)
  note t = gens_touched [OF ok g]
  show ?thesis
  proof (cases v)
    case (Some x)
    then show ?thesis using s g t by (auto simp: route_generation_def)
  next
    case None
    let ?c = "c\<lparr>cg_generations := gens\<rparr>"
    have e: "set_generation r ?c = (g, c')" using s g None by (simp add: route_generation_def)
    note f = set_generation_facts [OF t(2) e]
    have none: "cached_routes ?c r = None"
      using catalog_okD(4) [OF t(2), of r] None t(1,4) by (cases "cached_routes ?c r") auto
    have "generation_of c' j = Some (rt_cache_generation v)" if "cached_routes c' j = Some v" for j v
      using f none that by (cases "j = r") auto
    then have "catalog_ok c'"
      unfolding catalog_ok_def using f set_generation_bounds [OF t(2) e] by simp
    then show ?thesis using f catalog_le_trans [OF t(3) set_generation_le [OF t(2) e]] by simp
  qed
qed

lemma current_iff:
  "catalog_ok c \<Longrightarrow> 1 \<le> g \<Longrightarrow> fst (telemetry_route_snapshot_is_current r g c) \<longleftrightarrow> generation_of c r = Some g"
  using gens_touched(1) [of c r]
  by (auto simp: telemetry_route_snapshot_is_current_def opt_default_def split: prod.splits option.splits)

lemma guard_facts:
  assumes ok: "catalog_ok c" and s: "telemetry_route_snapshot_is_current r g c = (b, c')"
  shows "catalog_ok c' \<and> catalog_le c c' \<and> cg_store c' = cg_store c \<and> generation_of c' = generation_of c \<and>
    cg_sequence c' = cg_sequence c"
  using gens_touched [OF ok] s by (auto simp: telemetry_route_snapshot_is_current_def split: prod.splits)

text \<open>Putting an entry of the current generation into the cache.\<close>

lemma cache_put:
  assumes ok: "catalog_ok c" and e: "\<And>v. ce_value e = Some v \<Longrightarrow> generation_of c r = Some (rt_cache_generation v)"
  shows "catalog_ok (c\<lparr>cg_routes := snd (lru_set (cg_routes c) r e)\<rparr>) \<and> catalog_le c (c\<lparr>cg_routes := snd (lru_set (cg_routes c) r e)\<rparr>)"
proof -
  let ?c = "c\<lparr>cg_routes := snd (lru_set (cg_routes c) r e)\<rparr>"
  note d = catalog_okD [OF ok]
  have g: "generation_of ?c = generation_of c" by (simp add: generation_of_def fun_eq_iff)
  have "generation_of c j = Some (rt_cache_generation v)" if q: "cached_routes ?c j = Some v" for j v
  proof -
    obtain x where x: "lru_peek (snd (lru_set (cg_routes c) r e)) j = Some x" "ce_value x = Some v"
      using q by (cases "lru_peek (snd (lru_set (cg_routes c) r e)) j") (auto simp: cached_routes_def)
    have "\<forall>w. ce_value x = Some w \<longrightarrow> generation_of c j = Some (rt_cache_generation w)"
      by (rule lruc.put_preserves [OF d(1) _ _ x(1)]) (use d(4) e in \<open>auto simp: cached_routes_def\<close>)
    then show ?thesis using x(2) by simp
  qed
  then have "catalog_ok ?c" unfolding catalog_ok_def g using lru_ok_set [OF d(1)] d(2,3) by (simp add: g)
  then show ?thesis by (simp add: catalog_le_def g)
qed

lemma catalog_entry_generation: "ce_value (catalog_entry h now data g) = Some v \<Longrightarrow> rt_cache_generation v = g"
  by (auto simp: catalog_entry_def Let_def split: option.splits)

lemma store_entry_facts:
  assumes ok: "catalog_ok c" and s: "store_entry h now r data c = (e, c')"
  shows "catalog_ok c' \<and> catalog_le c c' \<and> cg_store c' = cg_store c \<and>
    (\<forall>v. ce_value e = Some v \<longrightarrow> generation_of c' r = Some (rt_cache_generation v))"
proof -
  obtain g c1 where g: "route_generation r c = (g, c1)" by (metis surj_pair)
  note f = route_generation_facts [OF ok g]
  have e: "e = catalog_entry h now data g" "c' = c1\<lparr>cg_routes := snd (lru_set (cg_routes c1) r e)\<rparr>"
    using s g by (auto simp: store_entry_def Let_def)
  have v: "generation_of c1 r = Some (rt_cache_generation v)" if "ce_value e = Some v" for v
    using catalog_entry_generation that f e(1) by metis
  have "generation_of c' = generation_of c1" unfolding e(2) by (simp add: generation_of_def fun_eq_iff)
  then show ?thesis using cache_put [of c1 e r] f v catalog_le_trans e(2) by auto
qed

lemma settled_facts:
  assumes ok: "catalog_ok c"
  shows "catalog_ok (load_settled i r c) \<and> catalog_le c (load_settled i r c) \<and> generation_of (load_settled i r c) = generation_of c"
proof -
  have "generation_of (load_settled i r c) = generation_of c" "cached_routes (load_settled i r c) = cached_routes c"
    by (simp_all add: load_settled_def generation_of_def cached_routes_def fun_eq_iff)
  then show ?thesis using ok by (simp add: catalog_ok_def catalog_le_def load_settled_def)
qed

definition step_ok :: "catalog \<Rightarrow> catalog \<Rightarrow> bool" where
  "step_ok c c' \<longleftrightarrow> catalog_ok c' \<and> catalog_le c c'"

lemma step_ok_trans: "step_ok c c' \<Longrightarrow> step_ok c' c'' \<Longrightarrow> step_ok c c''"
  by (auto simp: step_ok_def intro: catalog_le_trans)

lemma fold_step_ok: "(\<And>x c. catalog_ok c \<Longrightarrow> step_ok c (f x c)) \<Longrightarrow> catalog_ok c \<Longrightarrow> step_ok c (fold f xs c)"
proof (induction xs arbitrary: c)
  case (Cons x xs)
  have "step_ok c (f x c)" using Cons.prems by blast
  moreover have "step_ok (f x c) (fold f xs (f x c))" using Cons calculation by (simp add: step_ok_def)
  ultimately show ?case using step_ok_trans by simp
qed (simp add: step_ok_def)

lemma invalidate_step: "catalog_ok c \<Longrightarrow> step_ok c (invalidate_telemetry_route r c)"
  using invalidate_facts by (simp add: step_ok_def)

lemma apply_change_step: "catalog_ok c \<Longrightarrow> step_ok c (apply_change h now x c)"
proof -
  assume ok: "catalog_ok c"
  obtain e c' where s: "store_entry h now (fst x) (snd x) (invalidate_telemetry_route (fst x) c) = (e, c')" by (metis surj_pair)
  have "step_ok (invalidate_telemetry_route (fst x) c) c'"
    using store_entry_facts [OF _ s] invalidate_facts [OF ok] by (simp add: step_ok_def)
  then show ?thesis using step_ok_trans [OF invalidate_step [OF ok]] s by (simp add: apply_change_def)
qed

lemma invalidate_catalog_step: "catalog_ok c \<Longrightarrow> step_ok c (invalidate_catalog c)"
  unfolding invalidate_catalog_def by (rule fold_step_ok) (rule invalidate_step)

lemma load_begin_facts:
  assumes ok: "catalog_ok c" and s: "load_begin now r c = (a, c')"
  shows "step_ok c c' \<and> (\<forall>v. a = Served (Some v) \<longrightarrow> generation_of c' r = Some (rt_cache_generation v))"
proof -
  note d = catalog_okD [OF ok]
  obtain cached routes where g: "lru_get (cg_routes c) r = (cached, routes)" by (metis surj_pair)
  let ?c = "c\<lparr>cg_routes := routes\<rparr>"
  have p: "cached = lru_peek (cg_routes c) r" "lru_peek routes j = lru_peek (cg_routes c) j" "lru_ok routes" for j
    using lruc.fetch_result [OF d(1), of r] lruc.fetch_peek [OF d(1), of r j] lru_ok_get [OF d(1), of r] g by simp_all
  have e: "generation_of ?c = generation_of c" "cached_routes ?c = cached_routes c"
    using p by (simp_all add: generation_of_def cached_routes_def fun_eq_iff)
  have st: "step_ok c ?c" using ok p(3) by (simp add: step_ok_def catalog_ok_def catalog_le_def e)
  define live where "live = (case cached of Some x \<Rightarrow> (if ce_expires_at x > now then Some x else None) | None \<Rightarrow> None)"
  show ?thesis
  proof (cases live)
    case (Some x)
    then have x: "cached = Some x" by (auto simp: live_def split: option.splits if_splits)
    have "generation_of c r = Some (rt_cache_generation v)" if "ce_value x = Some v" for v
      using d(4) that x p(1) by (simp add: cached_routes_def)
    then show ?thesis using s g Some st e by (auto simp: load_begin_def Let_def live_def [symmetric])
  next
    case None
    show ?thesis
    proof (cases "jm_get (cg_loads ?c) r")
      case (Some i)
      then show ?thesis using s g None st by (auto simp: load_begin_def Let_def live_def [symmetric])
    next
      case n: None
      obtain k c2 where k: "route_generation r ?c = (k, c2)" by (metis surj_pair)
      have "step_ok ?c c2" using route_generation_facts [OF _ k] st by (simp add: step_ok_def)
      then have "step_ok c c2" using step_ok_trans st by blast
      moreover have "step_ok c2 (c2\<lparr>cg_store := q, cg_loads := l\<rparr>)" if "catalog_ok c2" for q l
        using that by (simp add: step_ok_def catalog_ok_def catalog_le_def generation_of_def cached_routes_def)
      ultimately have "step_ok c (c2\<lparr>cg_store := q, cg_loads := l\<rparr>)" for q l using step_ok_trans step_ok_def by metis
      then show ?thesis using s g None n k by (auto simp: load_begin_def Let_def live_def [symmetric])
    qed
  qed
qed

lemma load_finish_facts:
  assumes ok: "catalog_ok c" and s: "load_finish h now i data c = (a, c')" and l: "1 \<le> lo_generation (cg_store c ! i)"
  shows "step_ok c c' \<and> (\<forall>v. a = Some v \<longrightarrow> generation_of c' (lo_route (cg_store c ! i)) = Some (rt_cache_generation v))"
proof -
  define r where "r = lo_route (cg_store c ! i)"
  define g where "g = lo_generation (cg_store c ! i)"
  obtain b c1 where b: "telemetry_route_snapshot_is_current r g c = (b, c1)" by (metis surj_pair)
  note f = guard_facts [OF ok b]
  have st: "step_ok c c1" using f by (simp add: step_ok_def)
  have settle: "step_ok x (load_settled i r x)" "generation_of (load_settled i r x) = generation_of x" if "catalog_ok x" for x
    using settled_facts [OF that] by (simp_all add: step_ok_def)
  define e where "e = catalog_entry h now data g"
  show ?thesis
  proof (cases b)
    case False
    then show ?thesis using s b f st settle step_ok_trans by (auto simp: load_finish_def Let_def r_def g_def)
  next
    case True
    then have cur: "generation_of c1 r = Some g" using b f current_iff [OF ok, of g r] l by (simp add: g_def)
    show ?thesis
    proof (cases "\<exists>x. lo_cached (cg_store c ! i) = Some x \<and> ce_signature x \<noteq> ce_signature e")
      case changed: True
      obtain e2 c2 where e2: "store_entry h now r data (invalidate_telemetry_route r c1) = (e2, c2)" by (metis surj_pair)
      have i: "catalog_ok (invalidate_telemetry_route r c1)" using f invalidate_facts by blast
      note k = store_entry_facts [OF i e2]
      have st2: "step_ok c c2"
        using step_ok_trans [OF st] step_ok_trans [OF invalidate_step] k f by (metis step_ok_def)
      have "a = ce_value e2" "c' = load_settled i r c2"
        using s b True changed e2 by (auto simp: load_finish_def Let_def r_def [symmetric] g_def [symmetric] e_def [symmetric])
      moreover have "step_ok c (load_settled i r c2)"
        using step_ok_trans [OF st2 settle(1)] k by blast
      ultimately show ?thesis using k settle(2) [of c2] unfolding r_def [symmetric] by simp
    next
      case False
      let ?c = "c1\<lparr>cg_routes := snd (lru_set (cg_routes c1) r e)\<rparr>"
      have v: "generation_of c1 r = Some (rt_cache_generation v)" if "ce_value e = Some v" for v
        using catalog_entry_generation that cur unfolding e_def by metis
      have st2: "step_ok c1 ?c" using cache_put [of c1 e r] f v by (simp add: step_ok_def)
      have gen: "generation_of ?c = generation_of c1" by (simp add: generation_of_def fun_eq_iff)
      have "a = ce_value e" "c' = load_settled i r ?c"
        using s b True False by (auto simp: load_finish_def Let_def r_def [symmetric] g_def [symmetric] e_def [symmetric])
      moreover have "step_ok c (load_settled i r ?c)"
        using step_ok_trans [OF st step_ok_trans [OF st2 settle(1)]] st2 by (simp add: step_ok_def)
      ultimately show ?thesis using v gen settle(2) [of ?c] st2 unfolding r_def [symmetric] step_ok_def by simp
    qed
  qed
qed

text \<open>The loads of the store were issued with a generation.\<close>

definition loads_ok :: "catalog \<Rightarrow> bool" where
  "loads_ok c \<longleftrightarrow> (\<forall>l \<in> set (cg_store c). 1 \<le> lo_generation l)"

lemma fold_forget_store: "cg_store (fold forget_route rs c) = cg_store c"
  by (induction rs arbitrary: c) simp_all

lemma stores [simp]:
  "cg_store (snd (set_generation r c)) = cg_store c" "cg_store (snd (route_generation r c)) = cg_store c"
  "cg_store (invalidate_telemetry_route r c) = cg_store c" "cg_store (load_settled i r c) = cg_store c"
  "cg_store (snd (telemetry_route_snapshot_is_current r g c)) = cg_store c" "cg_store (snd (store_entry h now r data c)) = cg_store c"
proof -
  show s: "cg_store (snd (set_generation r c)) = cg_store c" for c
    by (simp add: set_generation_def Let_def fold_forget_store split: prod.split)
  show g: "cg_store (snd (route_generation r c)) = cg_store c" for c
    using s [of "c\<lparr>cg_generations := x\<rparr>" for x] by (simp add: route_generation_def split: prod.split option.split)
  show "cg_store (invalidate_telemetry_route r c) = cg_store c" using s by (simp add: invalidate_telemetry_route_def)
  show "cg_store (snd (store_entry h now r data c)) = cg_store c" using g [of c] by (simp add: store_entry_def Let_def split_beta)
qed (simp_all add: load_settled_def telemetry_route_snapshot_is_current_def split: prod.split)

lemma stores_fold: "(\<And>x c. cg_store (f x c) = cg_store c) \<Longrightarrow> cg_store (fold f xs c) = cg_store c"
  by (induction xs arbitrary: c) simp_all

lemma load_begin_store:
  assumes ok: "catalog_ok c" and s: "load_begin now r c = (a, c')"
  shows "loads_ok c \<Longrightarrow> loads_ok c'"
proof -
  obtain cached routes where g: "lru_get (cg_routes c) r = (cached, routes)" by (metis surj_pair)
  let ?c = "c\<lparr>cg_routes := routes\<rparr>"
  obtain k c2 where k: "route_generation r ?c = (k, c2)" by (metis surj_pair)
  have "catalog_ok ?c"
    using ok lruc.fetch_result [OF catalog_okD(1) [OF ok], of r] lruc.fetch_peek [OF catalog_okD(1) [OF ok], of r]
      lru_ok_get [OF catalog_okD(1) [OF ok], of r] g
    by (simp add: catalog_ok_def generation_of_def cached_routes_def)
  note f = route_generation_facts [OF this k]
  have k1: "1 \<le> k" using f catalog_okD(3) [of c2 r k] by blast
  have st: "cg_store c2 = cg_store c" using f by simp
  show "loads_ok c \<Longrightarrow> loads_ok c'"
    using s g k k1 st by (auto simp: load_begin_def Let_def loads_ok_def split: option.splits if_splits)
qed

lemma load_finish_store: "cg_store (snd (load_finish h now i data c)) = cg_store c"
proof -
  define r where "r = lo_route (cg_store c ! i)"
  obtain b c1 where b: "telemetry_route_snapshot_is_current r (lo_generation (cg_store c ! i)) c = (b, c1)" by (metis surj_pair)
  have c1: "cg_store c1 = cg_store c" using stores(5) [of r "lo_generation (cg_store c ! i)" c] b by simp
  have e: "cg_store (snd (store_entry h now r data (invalidate_telemetry_route r c1))) = cg_store c" using c1 by simp
  show ?thesis using b c1 e by (cases b) (auto simp: load_finish_def Let_def r_def [symmetric] split_beta)
qed

definition state_ok :: "catalog_state \<Rightarrow> bool" where
  "state_ok s \<longleftrightarrow> catalog_ok (cs_catalog s) \<and> loads_ok (cs_catalog s)"

lemma apply_change_store: "cg_store (apply_change h now x c) = cg_store c"
  by (simp add: apply_change_def)

lemma catalog_do_facts:
  assumes ok: "state_ok s" and d: "catalog_do h x s = (a, s')"
  shows "state_ok s' \<and> catalog_le (cs_catalog s) (cs_catalog s') \<and>
    (\<forall>r v. a = Some (r, v) \<longrightarrow> generation_of (cs_catalog s') r = Some (rt_cache_generation v))"
proof -
  define c where "c = cs_catalog s"
  have c: "catalog_ok c" "loads_ok c" using ok by (simp_all add: state_ok_def c_def)
  have quiet: "?thesis" if "a = None" "step_ok c (cs_catalog s')" "cg_store (cs_catalog s') = cg_store c"
    using that c by (simp add: state_ok_def step_ok_def loads_ok_def c_def)
  have folds: "step_ok c (fold invalidate_telemetry_route rs c)" for rs by (rule fold_step_ok [OF invalidate_step c(1)])
  have chg: "step_ok e (fold (apply_change h now) xs e)" if "catalog_ok e" for xs e now by (rule fold_step_ok [OF apply_change_step that])
  have inv: "cg_store (invalidate_catalog e) = cg_store e" for e unfolding invalidate_catalog_def by (rule stores_fold) simp
  have same: "step_ok c c" using c by (simp add: step_ok_def)
  show ?thesis
  proof (cases x)
    case (Load_Begin now r)
    obtain l e where l: "load_begin now r c = (l, e)" by (metis surj_pair)
    show ?thesis using d Load_Begin l load_begin_facts [OF c(1) l] load_begin_store [OF c(1) l] c(2)
      by (auto simp: c_def state_ok_def step_ok_def split: load_answer.splits option.splits)
  next
    case (Load_Finish now i data)
    show ?thesis
    proof (cases "i < length (cg_store c)")
      case True
      obtain v e where l: "load_finish h now i data c = (v, e)" by (metis surj_pair)
      have g: "1 \<le> lo_generation (cg_store c ! i)" using c(2) True by (simp add: loads_ok_def)
      have "loads_ok e" using load_finish_store [of h now i data c] l c(2) by (simp add: loads_ok_def)
      then show ?thesis using d Load_Finish True l load_finish_facts [OF c(1) l g] by (auto simp: c_def state_ok_def step_ok_def)
    next
      case False
      then show ?thesis using d Load_Finish quiet same by (simp add: c_def)
    qed
  next
    case (Load_Fail i)
    then show ?thesis using d settled_facts [OF c(1)] same by (intro quiet) (auto simp: c_def step_ok_def split: if_splits)
  next
    case (Invalidate r)
    then show ?thesis using d invalidate_step [OF c(1)] by (intro quiet) (auto simp: c_def)
  next
    case (Guard r g)
    then show ?thesis using d guard_facts [OF c(1), of r g] by (intro quiet) (auto simp: c_def step_ok_def prod_eq_iff)
  next
    case (Snapshot now g present changes)
    define e where "e = (if wa_initial (cs_watcher s) then fold invalidate_telemetry_route
        (filter (\<lambda>i. i \<notin> set present) (map fst (lru_entries (cg_routes c)))) c else c)"
    have e: "step_ok c e" "cg_store e = cg_store c" using folds same stores_fold [of invalidate_telemetry_route] by (auto simp: e_def)
    have "step_ok c (fold (apply_change h now) changes e)" using step_ok_trans [OF e(1) chg] e(1) by (simp add: step_ok_def)
    then show ?thesis using d Snapshot same stores_fold [of "apply_change h now", OF apply_change_store] e(2)
      by (intro quiet) (auto simp: watcher_snapshot_def c_def e_def Let_def split: if_splits)
  next
    case (Subscription_Error g)
    then show ?thesis using d same invalidate_catalog_step [OF c(1)] inv
      by (intro quiet) (auto simp: watcher_error_def c_def Let_def split: if_splits)
  next
    case Stop
    then show ?thesis using d invalidate_catalog_step [OF c(1)] inv by (intro quiet) (auto simp: watcher_stop_def c_def)
  qed (use d ok in \<open>auto simp: state_ok_def\<close>)
qed

lemma catalog_ops_facts:
  "state_ok s \<Longrightarrow> catalog_ops h xs s = (as, s') \<Longrightarrow> state_ok s' \<and> catalog_le (cs_catalog s) (cs_catalog s') \<and>
   (\<forall>(r, v) \<in> set as. 1 \<le> rt_cache_generation v \<and> rt_cache_generation v \<le> cg_sequence (cs_catalog s'))"
proof (induction xs arbitrary: s as)
  case (Cons x xs)
  obtain a s1 where a: "catalog_do h x s = (a, s1)" by (metis surj_pair)
  obtain bs where bs: "catalog_ops h xs s1 = (bs, s')" "as = (case a of Some r \<Rightarrow> [r] | None \<Rightarrow> []) @ bs"
    using Cons.prems(2) a by (auto split: prod.splits)
  note f = catalog_do_facts [OF Cons.prems(1) a]
  note g = Cons.IH [OF _ bs(1)]
  have le: "cg_sequence (cs_catalog s1) \<le> cg_sequence (cs_catalog s')" using f g by (simp add: catalog_le_def)
  have "1 \<le> rt_cache_generation v \<and> rt_cache_generation v \<le> cg_sequence (cs_catalog s')" if "a = Some (r, v)" for r v
    using f that catalog_okD(3) [of "cs_catalog s1" r "rt_cache_generation v"] le by (auto simp: state_ok_def)
  then show ?case using f g bs(2) catalog_le_trans by (auto split: option.splits)
qed simp

lemma state_ok_start: "state_ok catalog_start"
  by (simp add: state_ok_def catalog_start_def catalog_ok_def loads_ok_def catalog_new_def lru_ok_def generation_of_def cached_routes_def lru_peek_def)

section \<open>The properties\<close>

text \<open>Whatever loads, edits, guards, snapshots and failures of the watcher preceded, a route that the catalog
  hands out, from the cache or from a read, passes the guard of its generation at that moment.\<close>

theorem served_route_is_current:
  assumes "catalog_ops h xs catalog_start = (as, s)" "catalog_do h x s = (Some (r, v), s')"
  shows "fst (telemetry_route_snapshot_is_current r (rt_cache_generation v) (cs_catalog s'))"
proof -
  have "state_ok s" using catalog_ops_facts [OF state_ok_start assms(1)] by simp
  note f = catalog_do_facts [OF this assms(2)]
  then have "generation_of (cs_catalog s') r = Some (rt_cache_generation v)" "catalog_ok (cs_catalog s')"
    by (simp_all add: state_ok_def)
  then show ?thesis using current_iff catalog_okD(3) by blast
qed

text \<open>C31. Once a route is invalidated, no route that was handed out before ever passes the guard again, whatever
  happens next: neither a slow load nor the eviction of a generation from its cache revives it.\<close>

theorem invalidated_route_refused:
  assumes "catalog_ops h xs catalog_start = (as, s)" "(r, v) \<in> set as" "catalog_ops h (Invalidate r # ys) s = (bs, s')"
  shows "\<not> fst (telemetry_route_snapshot_is_current r (rt_cache_generation v) (cs_catalog s'))"
proof -
  define c where "c = invalidate_telemetry_route r (cs_catalog s)"
  note f = catalog_ops_facts [OF state_ok_start assms(1)]
  have ok: "catalog_ok (cs_catalog s)" using f by (simp add: state_ok_def)
  note i = invalidate_facts [OF ok, of r, folded c_def]
  have v: "1 \<le> rt_cache_generation v" "rt_cache_generation v \<le> cg_sequence (cs_catalog s)" using f assms(2) by auto
  have s1: "state_ok (s\<lparr>cs_catalog := c\<rparr>)" using i f by (simp add: state_ok_def loads_ok_def)
  obtain cs where "catalog_ops h ys (s\<lparr>cs_catalog := c\<rparr>) = (cs, s')"
    using assms(3) by (auto simp: c_def split: prod.splits)
  note g = catalog_ops_facts [OF s1 this]
  have seq: "rt_cache_generation v \<le> cg_sequence c" using i v by (auto simp: catalog_le_def)
  have "generation_of c r \<noteq> Some (rt_cache_generation v)" using i v by auto
  then have "generation_of (cs_catalog s') r \<noteq> Some (rt_cache_generation v)" using g seq by (auto simp: catalog_le_def)
  then show ?thesis using current_iff g v(1) by (auto simp: state_ok_def)
qed

section \<open>A concrete catalog\<close>

definition demo_host :: host where
  "demo_host = \<lparr>h_parse = (\<lambda>_. NaN), h_json = (\<lambda>_. []), h_sha256 = id, h_fixed6 = (\<lambda>_. ''0''), h_string = (\<lambda>_. ''1'')\<rparr>"

definition demo_stop :: "string \<Rightarrow> jsval" where
  "demo_stop i = JObj [(''id'', JStr i), (''lat'', JNum (Fin 0)), (''lng'', JNum (Fin 0))]"

definition demo_route :: fields where
  "demo_route = [(''stops'', JArr [demo_stop ''p'', demo_stop ''q'']), (''forwardPolyline'', JStr ''????''), (''reversePolyline'', JStr ''????'')]"

lemma demo_path: "decode_stored_polyline (JStr ''????'') = Some (''????'', [\<lparr>pos_lat = Fin 0, pos_lng = Fin 0\<rparr>, \<lparr>pos_lat = Fin 0, pos_lng = Fin 0\<rparr>])"
  by (simp add: decode_stored_polyline_def max_encoded_polyline_length_def decode_polyline_def decode_from.simps code_units_def
      decoded_point_def in_world_def unzigzag_def)

definition demo_value :: stored_route where
  "demo_value = \<lparr>rt_forward_polyline = ''????'', rt_reverse_polyline = ''????'',
     rt_forward_coordinates = [\<lparr>pos_lat = Fin 0, pos_lng = Fin 0\<rparr>, \<lparr>pos_lat = Fin 0, pos_lng = Fin 0\<rparr>],
     rt_reverse_coordinates = [\<lparr>pos_lat = Fin 0, pos_lng = Fin 0\<rparr>, \<lparr>pos_lat = Fin 0, pos_lng = Fin 0\<rparr>],
     rt_stops = [\<lparr>rs_id = ''p'', rs_at = \<lparr>pos_lat = Fin 0, pos_lng = Fin 0\<rparr>\<rparr>, \<lparr>rs_id = ''q'', rs_at = \<lparr>pos_lat = Fin 0, pos_lng = Fin 0\<rparr>\<rparr>],
     rt_endpoint_version = ''p:0:0|q:0:0'', rt_geometry_version = 0, rt_config_version = 0,
     rt_geometry_signature = [], rt_cache_generation = 1\<rparr>"

lemma demo_entry: "ce_value (catalog_entry demo_host now (Some demo_route) 1) = Some demo_value"
  by (simp add: catalog_entry_def demo_route_def doc_prop_def nullish_def demo_path [simplified] parse_stops_def parse_stop_def demo_stop_def
      valid_lat_lng_def map_filter_simps endpoint_snapshot_version_def endpoint_part_def stop_value_def demo_value_def Let_def
      route_document_version_def route_geometry_version_def route_geometry_signature_def demo_host_def)

definition demo_ops :: "catalog_op list" where
  "demo_ops = [Load_Begin (Fin 0) ''r'', Load_Finish (Fin 0) 0 (Some demo_route)]"

definition demo_loading :: catalog_state where
  "demo_loading = catalog_start\<lparr>cs_catalog :=
    \<lparr>cg_routes = \<lparr>lru_entries = [], lru_max = 1000\<rparr>, cg_loads = [(''r'', 0)], cg_sequence = 1,
     cg_generations = \<lparr>lru_entries = [(''r'', 1)], lru_max = 1000\<rparr>, cg_store = [\<lparr>lo_route = ''r'', lo_generation = 1, lo_cached = None\<rparr>]\<rparr>\<rparr>"

lemma demo_begun: "catalog_do demo_host (Load_Begin (Fin 0) ''r'') catalog_start = (None, demo_loading)"
  by (simp add: demo_loading_def catalog_start_def catalog_new_def load_begin_def route_generation_def set_generation_def lru_get_def
      lru_set_def jm_has_def Let_def)

lemma demo_finished: "fst (catalog_do demo_host (Load_Finish (Fin 0) 0 (Some demo_route)) demo_loading) = Some (''r'', demo_value)"
  using demo_entry [of "Fin 0"]
  by (simp add: demo_loading_def load_finish_def telemetry_route_snapshot_is_current_def lru_get_def opt_default_def Let_def)

lemma demo_served: "\<exists>s. catalog_ops demo_host demo_ops catalog_start = ([(''r'', demo_value)], s)"
  using demo_finished by (auto simp: demo_ops_def demo_begun split_beta simp del: catalog_do.simps)

theorem served_route_is_current_witness:
  "\<exists>s. catalog_do demo_host (Load_Finish (Fin 0) 0 (Some demo_route)) (snd (catalog_do demo_host (Load_Begin (Fin 0) ''r'') catalog_start)) = (Some (''r'', demo_value), s) \<and>
     fst (telemetry_route_snapshot_is_current ''r'' 1 (cs_catalog s))"
proof -
  have a: "catalog_ops demo_host [Load_Begin (Fin 0) ''r''] catalog_start = ([], demo_loading)" by (simp add: demo_begun del: catalog_do.simps)
  obtain s where d: "catalog_do demo_host (Load_Finish (Fin 0) 0 (Some demo_route)) demo_loading = (Some (''r'', demo_value), s)"
    using demo_finished by (metis prod.collapse)
  have "fst (telemetry_route_snapshot_is_current ''r'' (rt_cache_generation demo_value) (cs_catalog s))"
    by (rule served_route_is_current [OF a d])
  then show ?thesis using d by (auto simp: demo_begun demo_value_def simp del: catalog_do.simps)
qed

theorem invalidated_route_refused_witness:
  "\<exists>s s'. catalog_ops demo_host demo_ops catalog_start = ([(''r'', demo_value)], s) \<and>
     catalog_ops demo_host [Invalidate ''r'', Load_Begin (Fin 1) ''r''] s = ([], s') \<and>
     \<not> fst (telemetry_route_snapshot_is_current ''r'' (rt_cache_generation demo_value) (cs_catalog s'))"
proof -
  obtain s where s: "catalog_ops demo_host demo_ops catalog_start = ([(''r'', demo_value)], s)" using demo_served ..
  obtain bs s' where t: "catalog_ops demo_host [Invalidate ''r'', Load_Begin (Fin 1) ''r''] s = (bs, s')" by (metis surj_pair)
  have "\<not> fst (telemetry_route_snapshot_is_current ''r'' (rt_cache_generation demo_value) (cs_catalog s'))"
    by (rule invalidated_route_refused [OF s _ t]) simp
  moreover have "bs = []"
  proof -
    have "lru_peek (cg_routes (invalidate_telemetry_route ''r'' (cs_catalog s))) ''r'' = None"
      using catalog_ops_facts [OF state_ok_start s] set_generation_facts [of "cs_catalog s" "''r''"]
      by (cases "set_generation ''r'' (cs_catalog s)") (simp add: invalidate_telemetry_route_def forget_route_def lruc.forget_peek state_ok_def)
    then have "fst (lru_get (cg_routes (invalidate_telemetry_route ''r'' (cs_catalog s))) ''r'') = None"
      by (simp add: lru_get_def lru_peek_def split: option.splits)
    then show ?thesis using t by (auto simp: load_begin_def Let_def split: prod.splits option.splits load_answer.splits)
  qed
  ultimately show ?thesis using s t by metis
qed

end
