(* ===== verification/Ordered_Geometry.thy ===== *)
theory Ordered_Geometry imports Polyline begin

text \<open>
  Geometry of a route with more stops than one provider request takes (\<open>lib/orderedRouteGeometry.ts\<close>):
  the requests, each of at most 27 points and overlapping the next in exactly one, and their
  combination. The provider and the printing of a number are parameters; the requests run in
  parallel, so their outcomes are a list and the first rejection in order is the one thrown.
\<close>

section \<open>The requests\<close>

definition max_route_stops :: nat where
  "max_route_stops = 100"

definition max_request_points :: nat where
  "max_request_points = 27"

function route_chunks :: "'p list \<Rightarrow> nat \<Rightarrow> 'p list list" where
  "route_chunks points index = (if index < length points - 1
    then take max_request_points (drop index points) # route_chunks points (index + (max_request_points - 1)) else [])"
  by auto

termination
  by (relation "measure (\<lambda>(points, index). length points - index)") (auto simp: max_request_points_def)

declare route_chunks.simps [simp del]

section \<open>Combining the answers\<close>

record geometry =
  ge_polyline :: units
  ge_distance_meters :: jsnum
  ge_duration :: string

datatype 'e geometry_error = Bad_Waypoint_Count | Provider_Error 'e | Bad_Chunk_Geometry | Bad_Chunk_Polyline polyline_error | Geometry_Too_Large

text \<open>\<open>Number(digits)\<close> and the pattern \<open>^(\d+(?:\.\d+)?)s$\<close>.\<close>

definition digit_value :: "char \<Rightarrow> nat" where
  "digit_value c = of_char c - 48"

definition digits_value :: "string \<Rightarrow> nat" where
  "digits_value s = foldl (\<lambda>n c. 10 * n + digit_value c) 0 s"

definition duration_seconds :: "string \<Rightarrow> jsnum option" where
  "duration_seconds d = (let whole = takeWhile is_digit d; rest = dropWhile is_digit d in
    if whole = [] then None
    else if rest = ''s'' then Some (Fin (of_nat (digits_value whole)))
    else (case rest of
        c # rest' \<Rightarrow> (let frac = takeWhile is_digit rest' in
          if c = CHR ''.'' \<and> frac \<noteq> [] \<and> dropWhile is_digit rest' = ''s''
          then Some (Fin (of_nat (digits_value whole) + of_nat (digits_value frac) / 10 ^ length frac)) else None)
      | [] \<Rightarrow> None))"

definition same_point :: "position \<Rightarrow> position \<Rightarrow> bool" where
  "same_point p q \<longleftrightarrow> num_eq (pos_lat p) (pos_lat q) \<and> num_eq (pos_lng p) (pos_lng q)"

definition join_point :: "position list \<Rightarrow> position \<Rightarrow> position list" where
  "join_point path point = (if path = [] \<or> \<not> same_point point (last path) then path @ [point] else path)"

fun combine_chunks :: "geometry list \<Rightarrow> position list \<Rightarrow> jsnum \<Rightarrow> jsnum \<Rightarrow> 'e geometry_error + (position list \<times> jsnum \<times> jsnum)" where
  "combine_chunks [] path distance seconds = Inr (path, distance, seconds)"
| "combine_chunks (result # results) path distance seconds = (case decode_polyline (ge_polyline result) of
      Inl e \<Rightarrow> Inl (Bad_Chunk_Polyline e)
    | Inr decoded \<Rightarrow> (case duration_seconds (ge_duration result) of
        None \<Rightarrow> Inl Bad_Chunk_Geometry
      | Some d \<Rightarrow> (if length decoded < 2 \<or> \<not> is_finite (ge_distance_meters result) \<or> ge_distance_meters result < 0
          then Inl Bad_Chunk_Geometry
          else combine_chunks results (foldl join_point path decoded) (distance + ge_distance_meters result) (seconds + d))))"

fun first_rejection :: "('e + geometry) list \<Rightarrow> 'e + geometry list" where
  "first_rejection [] = Inr []"
| "first_rejection (Inl e # os) = Inl e"
| "first_rejection (Inr g # os) = (case first_rejection os of Inl e \<Rightarrow> Inl e | Inr gs \<Rightarrow> Inr (g # gs))"

definition compute_ordered_route_geometry ::
    "(jsnum \<Rightarrow> string) \<Rightarrow> (position list \<Rightarrow> 'e + geometry) \<Rightarrow> position list \<Rightarrow> 'e geometry_error + geometry" where
  "compute_ordered_route_geometry show_number compute points =
    (if length points < 2 \<or> length points > max_route_stops + 1 then Inl Bad_Waypoint_Count
     else (case first_rejection (map compute (route_chunks points 0)) of
        Inl e \<Rightarrow> Inl (Provider_Error e)
      | Inr results \<Rightarrow> (if length results = 1 then Inr (hd results)
          else (case combine_chunks results [] 0 0 of
              Inl e \<Rightarrow> Inl e
            | Inr (path, distance, seconds) \<Rightarrow> (let polyline = encode_polyline path in
                if length polyline > 500000 then Inl Geometry_Too_Large
                else Inr \<lparr>ge_polyline = polyline, ge_distance_meters = distance, ge_duration = show_number seconds @ ''s''\<rparr>)))))"

section \<open>Facts\<close>

text \<open>Consecutive requests share one point: the last of one is the first of the next.\<close>

fun linked :: "'p list list \<Rightarrow> bool" where
  "linked (c # d # cs) = (last c = hd d \<and> linked (d # cs))"
| "linked _ = True"

lemma route_chunks_step:
  "index < length points - 1 \<Longrightarrow> route_chunks points index = take 27 (drop index points) # route_chunks points (index + 26)"
  "\<not> index < length points - 1 \<Longrightarrow> route_chunks points index = []"
  using route_chunks.simps [of points index] by (simp_all add: max_request_points_def)

lemma route_chunks_rest:
  "index < length points - 1 \<Longrightarrow> concat (map tl (route_chunks points index)) = drop (Suc index) points"
proof (induction points index rule: route_chunks.induct)
  case (1 points index)
  have "drop 26 (drop (Suc index) points) = drop (Suc (index + 26)) points" by (simp add: add.commute)
  moreover have "tl (take 27 (drop index points)) = take 26 (drop (Suc index) points)"
    by (simp add: drop_Suc tl_drop tl_take)
  moreover have "concat (map tl (route_chunks points (index + 26))) = drop (Suc (index + 26)) points"
  proof (cases "index + 26 < length points - 1")
    case True
    with 1 show ?thesis by (simp add: max_request_points_def)
  next
    case False
    then show ?thesis by (simp add: route_chunks_step(2))
  qed
  ultimately show ?case using 1(2) append_take_drop_id [of 26 "drop (Suc index) points"] by (simp add: route_chunks_step(1))
qed

lemma route_chunks_sizes:
  "c \<in> set (route_chunks points index) \<Longrightarrow> 2 \<le> length c \<and> length c \<le> 27"
proof (induction points index rule: route_chunks.induct)
  case (1 points index)
  then have i: "index < length points - 1" using route_chunks_step(2) by fastforce
  with 1 consider "c = take 27 (drop index points)" | "c \<in> set (route_chunks points (index + 26))"
    by (auto simp: route_chunks_step(1))
  then show ?case
  proof cases
    case 2
    with 1 i show ?thesis by (simp add: max_request_points_def)
  qed (use i in simp)
qed

lemma route_chunks_linked: "linked (route_chunks points index)"
proof (induction points index rule: route_chunks.induct)
  case (1 points index)
  show ?case
  proof (cases "index + 26 < length points - 1")
    case True
    then have i: "index < length points - 1" by simp
    have "last (take 27 (drop index points)) = hd (take 27 (drop (index + 26) points))"
    proof -
      have "28 \<le> length points - index" using True by arith
      moreover have "points ! (index + 26) = hd (drop (index + 26) points)" using True by (simp add: hd_drop_conv_nth)
      ultimately show ?thesis by (simp add: last_conv_nth hd_take)
    qed
    moreover have "linked (route_chunks points (index + 26))" using 1 i by (simp add: max_request_points_def)
    ultimately show ?thesis using route_chunks_step(1) [OF i] route_chunks_step(1) [OF True] by simp
  next
    case False
    then show ?thesis using route_chunks_step(2) [of "index + 26" points] route_chunks_step [of index points]
      by (cases "index < length points - 1") simp_all
  qed
qed

lemma route_chunks_count: "length (route_chunks points index) \<le> (length points - index + 24) div 26"
proof (induction points index rule: route_chunks.induct)
  case (1 points index)
  show ?case
  proof (cases "index < length points - 1")
    case True
    with 1 have "length (route_chunks points (index + 26)) \<le> (length points - (index + 26) + 24) div 26"
      by (simp add: max_request_points_def)
    moreover have "Suc ((length points - (index + 26) + 24) div 26) \<le> (length points - index + 24) div 26"
    proof -
      define n where "n = length points - index"
      have "2 \<le> n" "length points - (index + 26) = n - 26" using True by (simp_all add: n_def)
      moreover have "Suc ((n - 26 + 24) div 26) \<le> (n + 24) div 26" if "2 \<le> n"
      proof (cases "26 \<le> n")
        case True
        then have "n + 24 = (n - 26 + 24) + 26" by simp
        then show ?thesis by (simp add: div_add_self2)
      next
        case False
        have "26 div 26 \<le> (n + 24) div 26" using that by (intro div_le_mono) simp
        then show ?thesis using False by simp
      qed
      ultimately show ?thesis unfolding n_def [symmetric] by simp
    qed
    ultimately show ?thesis using True by (simp add: route_chunks_step(1))
  qed (simp add: route_chunks_step(2))
qed

text \<open>A long route is computed in order and whole: every request that \<open>computeOrderedRouteGeometry\<close>
  sends has between two and 27 points, at most four are sent, each begins with the stop the previous
  one ended at, and read one after the other without those repetitions they are the stops in their
  order. The answer is an error when a request was rejected, the rejection of the earliest one.\<close>

theorem ordered_requests_cover:
  assumes "2 \<le> length points" "length points \<le> 101"
  shows "hd points # concat (map tl (route_chunks points 0)) = points \<and> linked (route_chunks points 0) \<and>
    length (route_chunks points 0) \<le> 4 \<and> (\<forall>c\<in>set (route_chunks points 0). 2 \<le> length c \<and> length c \<le> 27) \<and>
    (\<forall>pre c post e. route_chunks points 0 = pre @ c # post \<longrightarrow> (\<forall>d\<in>set pre. \<not> isl (compute d)) \<longrightarrow> compute c = Inl e \<longrightarrow>
      compute_ordered_route_geometry show_number compute points = Inl (Provider_Error e))"
proof -
  have "length (route_chunks points 0) \<le> (101 + 24) div 26"
    using route_chunks_count [of points 0] assms(2) by (meson add_le_mono1 diff_le_self div_le_mono le_trans)
  moreover have "first_rejection (map compute pre @ Inl e # os) = Inl e" if "\<forall>d\<in>set pre. \<not> isl (compute d)" for pre e os
    using that
  proof (induction pre)
    case (Cons a pre)
    then show ?case by (cases "compute a") auto
  qed simp
  then have "compute_ordered_route_geometry show_number compute points = Inl (Provider_Error e)"
    if "route_chunks points 0 = pre @ c # post" "\<forall>d\<in>set pre. \<not> isl (compute d)" "compute c = Inl e" for pre c post e
    using that assms by (simp add: compute_ordered_route_geometry_def max_route_stops_def)
  moreover have "concat (map tl (route_chunks points 0)) = drop (Suc 0) points" using assms(1) by (intro route_chunks_rest) simp
  then have "hd points # concat (map tl (route_chunks points 0)) = points" using assms(1) by (cases points) auto
  ultimately show ?thesis using route_chunks_sizes [of _ points 0] route_chunks_linked [of points 0] by auto
qed

theorem ordered_requests_cover_witness:
  "linked (route_chunks (replicate 30 \<lparr>pos_lat = 0, pos_lng = 0\<rparr>) 0)"
  by (rule ordered_requests_cover [THEN conjunct2, THEN conjunct1]) simp_all

end
