(* ===== verification/Route_Save.thy ===== *)
theory Route_Save imports Route_Catalog Ordered_Geometry begin

text \<open>
  The saving of routes (\<open>routes/polyline.ts\<close>, \<open>lib/routeSaveContract.ts\<close>, \<open>lib/documentId.ts\<close>): the checks of a
  request, the geometry of both directions, the transactions that claim, commit and fail a save under an
  operation id, the deletion of a route, and the answers of the two resources that report an operation. A
  Firestore transaction is a function on the store of documents; random draws, clocks and the answer of the
  provider are arguments. An answer of the provider has the fields its declared interface names.
\<close>

section \<open>Errors\<close>

text \<open>The status and the payload of \<open>RouteApiError\<close>; any other exception is the second constructor.\<close>

record api_error =
  ae_status :: jsnum
  ae_payload :: jsval

datatype save_failure = Api api_error | Unexpected

definition route_error :: "jsnum \<Rightarrow> string \<Rightarrow> string \<Rightarrow> string \<Rightarrow> fields \<Rightarrow> api_error" where
  "route_error status code phase text extra =
    \<lparr>ae_status = status, ae_payload = JObj ([(''error'', JStr text), (''code'', JStr code), (''phase'', JStr phase)] @ extra)\<rparr>"

definition unknown_outcome :: fields where
  "unknown_outcome = [(''outcomeUnknown'', JBool True)]"

section \<open>Requests\<close>

definition reserved_document_id :: "string \<Rightarrow> bool" where
  "reserved_document_id s \<longleftrightarrow> length s \<ge> 4 \<and> take 2 s = ''__'' \<and> drop (length s - 2) s = ''__''"

fun safe_document_id :: "jsval \<Rightarrow> string option" where
  "safe_document_id (JStr s) = (if safe_id s \<and> \<not> reserved_document_id s then Some s else None)"
| "safe_document_id _ = None"

record saved_stop =
  vs_id :: string
  vs_name :: string
  vs_short_name :: string
  vs_at :: position

fun trimmed :: "jsval \<Rightarrow> string" where
  "trimmed (JStr s) = js_trim s"
| "trimmed _ = []"

fun validate_entries :: "string list \<Rightarrow> jsval list \<Rightarrow> saved_stop list option" where
  "validate_entries ids [] = Some []"
| "validate_entries ids (stop # stops) =
    (let i = trimmed (js_prop stop ''id''); name = trimmed (js_prop stop ''name''); short = trimmed (js_prop stop ''shortName'') in
     if \<not> safe_id i \<or> i \<in> set ids \<or> name = [] \<or> length name > 100 \<or> short = [] \<or> length short > 32 then None
     else (case valid_lat_lng stop of
        None \<Rightarrow> None
      | Some p \<Rightarrow> map_option (\<lambda>rest. \<lparr>vs_id = i, vs_name = name, vs_short_name = short, vs_at = p\<rparr> # rest) (validate_entries (i # ids) stops)))"

definition validate_stops :: "jsval \<Rightarrow> saved_stop list option" where
  "validate_stops value = (case value of
      JArr vs \<Rightarrow> (if length vs < 2 \<or> length vs > max_route_stops then None else validate_entries [] vs) | _ \<Rightarrow> None)"

definition validate_waypoints :: "jsval \<Rightarrow> position list option" where
  "validate_waypoints value = (case value of
      JArr vs \<Rightarrow> (if length vs < 2 \<or> length vs > max_route_stops \<or> list_ex (\<lambda>v. valid_lat_lng v = None) vs then None
        else Some (List.map_filter valid_lat_lng vs))
    | _ \<Rightarrow> None)"

definition route_waypoints :: "fields \<Rightarrow> position list option" where
  "route_waypoints route = (case validate_stops (obj_get route ''stops'') of
      Some stops \<Rightarrow> Some (map vs_at stops) | None \<Rightarrow> validate_waypoints (obj_get route ''waypoints''))"

datatype save_mode = Create | Edit

record save_request =
  sv_route :: string
  sv_name :: string
  sv_color :: string
  sv_mode :: save_mode
  sv_save_id :: string
  sv_expected :: jsnum
  sv_stops :: "saved_stop list"

definition hex_digit :: "char \<Rightarrow> bool" where
  "hex_digit c \<longleftrightarrow> is_digit c \<or> (let n = of_char c :: nat in (97 \<le> n \<and> n \<le> 102) \<or> (65 \<le> n \<and> n \<le> 70))"

definition safe_color :: "string \<Rightarrow> bool" where
  "safe_color s \<longleftrightarrow> length s = 7 \<and> hd s = CHR ''#'' \<and> list_all hex_digit (tl s)"

definition save_mode_of :: "jsval \<Rightarrow> save_mode option" where
  "save_mode_of v = (if v = JStr ''create'' then Some Create else if v = JStr ''edit'' then Some Edit else None)"

definition mode_name :: "save_mode \<Rightarrow> string" where
  "mode_name m = (case m of Create \<Rightarrow> ''create'' | Edit \<Rightarrow> ''edit'')"

definition invalid_route_data :: api_error where
  "invalid_route_data = route_error 400 ''INVALID_ROUTE_DATA'' ''validation'' ''Invalid route data, operation ID, or expected version.'' []"

text \<open>The checks of \<open>saveRoute\<close> on the path parameter and the body.\<close>

definition read_save_request :: "jsval \<Rightarrow> jsval \<Rightarrow> api_error + save_request" where
  "read_save_request route_param body =
    (let name = trimmed (js_prop body ''name''); color = opt_default (str_of (js_prop body ''color'')) [] in
     case (safe_document_id route_param, save_mode_of (js_prop body ''mode''), safe_document_id (js_prop body ''saveId''),
           num_of (js_prop body ''expectedVersion''), validate_stops (js_prop body ''stops'')) of
       (Some route, Some mode, Some save_id, Some expected, Some stops) \<Rightarrow>
         (if name = [] \<or> length name > 100 \<or> \<not> safe_color color \<or> \<not> is_safe_integer expected \<or> expected < 0 \<or>
             (mode = Create \<and> \<not> num_eq expected 0) then Inl invalid_route_data
          else Inr \<lparr>sv_route = route, sv_name = name, sv_color = color, sv_mode = mode, sv_save_id = save_id,
            sv_expected = expected, sv_stops = stops\<rparr>)
     | _ \<Rightarrow> Inl invalid_route_data)"

definition saved_stop_value :: "saved_stop \<Rightarrow> jsval" where
  "saved_stop_value s = JObj [(''id'', JStr (vs_id s)), (''name'', JStr (vs_name s)), (''shortName'', JStr (vs_short_name s)),
     (''lat'', JNum (pos_lat (vs_at s))), (''lng'', JNum (pos_lng (vs_at s)))]"

definition route_save_payload_hash :: "host \<Rightarrow> save_request \<Rightarrow> string" where
  "route_save_payload_hash h q = h_sha256 h (h_json h (JObj [(''routeId'', JStr (sv_route q)), (''mode'', JStr (mode_name (sv_mode q))),
     (''expectedVersion'', JNum (sv_expected q)), (''name'', JStr (sv_name q)), (''color'', JStr (sv_color q)),
     (''stops'', JArr (map saved_stop_value (sv_stops q)))]))"

section \<open>Geometry\<close>

definition valid_encoded_polyline :: "jsval \<Rightarrow> bool" where
  "valid_encoded_polyline value = (case value of
      JStr s \<Rightarrow> s \<noteq> [] \<and> length s \<le> 500000 \<and> (case decode_polyline (code_units s) of Inr path \<Rightarrow> length path \<ge> 2 | Inl e \<Rightarrow> False)
    | _ \<Rightarrow> False)"

definition valid_distance :: "jsval \<Rightarrow> bool" where
  "valid_distance value = (case value of JNum d \<Rightarrow> is_finite d \<and> d \<ge> 0 | _ \<Rightarrow> False)"

definition valid_duration :: "jsval \<Rightarrow> bool" where
  "valid_duration value = (case value of JStr s \<Rightarrow> duration_seconds s \<noteq> None | _ \<Rightarrow> False)"

text \<open>The answer of the provider to one request.\<close>

record provider_route =
  pr_polyline :: "string option"
  pr_distance :: "jsnum option"
  pr_duration :: "string option"

datatype provider_answer = Http_Failure nat | Routes "provider_route option" | Timed_Out | Broken_Answer

definition routing_error :: "jsnum \<Rightarrow> string \<Rightarrow> string \<Rightarrow> save_failure" where
  "routing_error status code text = Api (route_error status code ''routing'' text [])"

definition compute_polyline_chunk :: "bool \<Rightarrow> (position list \<Rightarrow> provider_answer) \<Rightarrow> position list \<Rightarrow> save_failure + Ordered_Geometry.geometry" where
  "compute_polyline_chunk api_key provider waypoints =
    (if \<not> api_key then Inl (routing_error 503 ''ROUTING_NOT_CONFIGURED'' ''Route calculation is not configured on the server.'')
     else (case provider waypoints of
        Http_Failure status \<Rightarrow> Inl (if status = 429
          then routing_error 503 ''ROUTING_RATE_LIMITED'' ''Route calculation is busy. Wait briefly and retry.''
          else routing_error 502 ''ROUTING_UPSTREAM_FAILURE'' ''The upstream route service failed.'')
      | Routes answer \<Rightarrow> (case (Option.bind answer pr_polyline, Option.bind answer pr_distance, Option.bind answer pr_duration) of
            (Some p, Some d, Some t) \<Rightarrow>
              (if p = [] \<or> length p > 500000 \<or> \<not> is_finite d
               then Inl (routing_error 502 ''ROUTING_INVALID_RESPONSE'' ''The upstream route service returned invalid geometry.'')
               else Inr \<lparr>ge_polyline = code_units p, ge_distance_meters = d, ge_duration = t\<rparr>)
          | _ \<Rightarrow> Inl (routing_error 502 ''ROUTING_INVALID_RESPONSE'' ''The upstream route service returned invalid geometry.''))
      | Timed_Out \<Rightarrow> Inl (routing_error 504 ''ROUTING_TIMEOUT'' ''Route calculation took too long. Please retry.'')
      | Broken_Answer \<Rightarrow> Inl Unexpected))"

text \<open>One direction; \<open>admitted\<close> is whether the bounded executor ran the work.\<close>

definition compute_polyline :: "host \<Rightarrow> bool \<Rightarrow> (position list \<Rightarrow> provider_answer) \<Rightarrow> bool \<Rightarrow> position list \<Rightarrow> save_failure + Ordered_Geometry.geometry" where
  "compute_polyline h api_key provider admitted waypoints =
    (if \<not> admitted then Inl (routing_error 503 ''ROUTING_CAPACITY_EXHAUSTED''
       ''Route computation is busy. Retry after checking the same operation.'')
     else (case compute_ordered_route_geometry (h_string h) (compute_polyline_chunk api_key provider) waypoints of
        Inl (Provider_Error e) \<Rightarrow> Inl e | Inl _ \<Rightarrow> Inl Unexpected | Inr g \<Rightarrow> Inr g))"

record dir_geometry =
  dg_forward :: string
  dg_reverse :: string
  dg_forward_meters :: jsnum
  dg_reverse_meters :: jsnum
  dg_forward_duration :: string
  dg_reverse_duration :: string

definition units_string :: "units \<Rightarrow> string" where
  "units_string us = map (\<lambda>u. char_of (unat u)) us"

definition compute_directional_polylines ::
    "host \<Rightarrow> bool \<Rightarrow> (position list \<Rightarrow> provider_answer) \<Rightarrow> bool \<times> bool \<Rightarrow> position list \<Rightarrow> save_failure + dir_geometry" where
  "compute_directional_polylines h api_key provider admitted waypoints =
    (case (compute_polyline h api_key provider (fst admitted) waypoints, compute_polyline h api_key provider (snd admitted) (rev waypoints)) of
      (Inl e, _) \<Rightarrow> Inl e
    | (_, Inl e) \<Rightarrow> Inl e
    | (Inr f, Inr r) \<Rightarrow> Inr \<lparr>dg_forward = units_string (ge_polyline f), dg_reverse = units_string (ge_polyline r),
        dg_forward_meters = ge_distance_meters f, dg_reverse_meters = ge_distance_meters r,
        dg_forward_duration = ge_duration f, dg_reverse_duration = ge_duration r\<rparr>)"

definition geometry_fields :: "dir_geometry \<Rightarrow> fields" where
  "geometry_fields g =
    [(''polyline'', JStr (dg_forward g)), (''forwardPolyline'', JStr (dg_forward g)), (''reversePolyline'', JStr (dg_reverse g)),
     (''distanceMeters'', JNum (dg_forward_meters g)), (''forwardDistanceMeters'', JNum (dg_forward_meters g)),
     (''reverseDistanceMeters'', JNum (dg_reverse_meters g)), (''duration'', JStr (dg_forward_duration g)),
     (''forwardDuration'', JStr (dg_forward_duration g)), (''reverseDuration'', JStr (dg_reverse_duration g)),
     (''polylineQuality'', JStr ''HIGH_QUALITY'')]"

definition reusable_directional_geometry :: "fields \<Rightarrow> string \<Rightarrow> dir_geometry option" where
  "reusable_directional_geometry route signature =
    (if obj_get route ''geometrySignature'' \<noteq> JStr signature \<or> obj_get route ''polylineQuality'' \<noteq> JStr ''HIGH_QUALITY'' \<or>
        \<not> valid_encoded_polyline (obj_get route ''forwardPolyline'') \<or> \<not> valid_encoded_polyline (obj_get route ''reversePolyline'') \<or>
        \<not> valid_distance (obj_get route ''forwardDistanceMeters'') \<or> \<not> valid_distance (obj_get route ''reverseDistanceMeters'') \<or>
        \<not> valid_duration (obj_get route ''forwardDuration'') \<or> \<not> valid_duration (obj_get route ''reverseDuration'') then None
     else (case (obj_get route ''forwardPolyline'', obj_get route ''reversePolyline'', obj_get route ''forwardDistanceMeters'',
              obj_get route ''reverseDistanceMeters'', obj_get route ''forwardDuration'', obj_get route ''reverseDuration'') of
         (JStr f, JStr r, JNum fm, JNum rm, JStr fd, JStr rd) \<Rightarrow> Some
           \<lparr>dg_forward = f, dg_reverse = r, dg_forward_meters = fm, dg_reverse_meters = rm, dg_forward_duration = fd, dg_reverse_duration = rd\<rparr>
       | _ \<Rightarrow> None))"

section \<open>The documents\<close>

text \<open>The documents a save reads: routes and operations by id; rides, bus locks, buses and devices as collections.\<close>

record save_store =
  ss_routes :: "string \<Rightarrow> fields option"
  ss_operations :: "string \<Rightarrow> fields option"
  ss_rides :: "fields list"
  ss_locks :: "fields list"
  ss_buses :: "fields list"
  ss_devices :: "fields list"

definition route_lock_scan_limit :: nat where "route_lock_scan_limit = 50"
definition route_save_lease_ms :: jsnum where "route_save_lease_ms = 30000"

definition of_route :: "string \<Rightarrow> fields \<Rightarrow> bool" where
  "of_route route doc \<longleftrightarrow> obj_get doc ''routeId'' = JStr route"

definition ride_owns_route :: "string \<Rightarrow> save_store \<Rightarrow> bool" where
  "ride_owns_route route st \<longleftrightarrow> list_ex (of_route route) (ss_rides st) \<or>
     list_ex (\<lambda>lock. str_of (obj_get lock ''sessionId'') \<noteq> None) (take route_lock_scan_limit (filter (of_route route) (ss_locks st)))"

section \<open>Claiming a save\<close>

datatype save_decision = Claim_Free | In_Progress | Replay jsval | Failed_Before jsval jsnum | Key_Conflict

definition decide_route_save_operation :: "fields option \<Rightarrow> string \<Rightarrow> jsnum \<Rightarrow> save_decision" where
  "decide_route_save_operation operation hash now = (case operation of
      None \<Rightarrow> Claim_Free
    | Some op \<Rightarrow>
        (if obj_get op ''payloadHash'' \<noteq> JStr hash then Key_Conflict
         else if obj_get op ''status'' = JStr ''succeeded'' then Replay (obj_get op ''result'')
         else if obj_get op ''status'' = JStr ''failed'' \<and> js_prop (obj_get op ''error'') ''outcomeUnknown'' = JBool True then Claim_Free
         else if obj_get op ''status'' = JStr ''failed'' then Failed_Before (obj_get op ''error'')
           (case obj_get op ''httpStatus'' of JNum c \<Rightarrow> (if is_integer c then c else 409) | _ \<Rightarrow> 409)
         else if obj_get op ''status'' = JStr ''processing'' \<and>
           (case obj_get op ''leaseUntil'' of JNum t \<Rightarrow> is_finite t \<and> t > now | _ \<Rightarrow> False) then In_Progress
         else Claim_Free))"

datatype save_claim = Decided save_decision | Already_There | Not_There | Stale_Version jsnum | Active_Ride | Claimed "fields option"

definition claimed_operation :: "host \<Rightarrow> jsval \<Rightarrow> jsnum \<Rightarrow> string \<Rightarrow> save_request \<Rightarrow> fields option \<Rightarrow> fields" where
  "claimed_operation h server_time now owner q op =
    [(''routeId'', JStr (sv_route q)), (''payloadHash'', JStr (route_save_payload_hash h q)), (''status'', JStr ''processing''),
     (''leaseOwner'', JStr owner), (''leaseUntil'', JNum (now + route_save_lease_ms)),
     (''attemptCount'', JNum (js_number (h_parse h) (nullish (doc_prop op ''attemptCount'') (JNum 0)) + 1)),
     (''createdAt'', if op \<noteq> None then nullish (doc_prop op ''createdAt'') server_time else server_time),
     (''updatedAt'', server_time)]"

text \<open>The claim: the clock is read once for the decision and once for the lease.\<close>

definition claim_save :: "host \<Rightarrow> jsval \<Rightarrow> jsnum \<times> jsnum \<Rightarrow> string \<Rightarrow> save_request \<Rightarrow> save_store \<Rightarrow> save_claim \<times> save_store" where
  "claim_save h server_time clock owner q st =
    (let op = ss_operations st (sv_save_id q); route = ss_routes st (sv_route q); current = route_document_version route in
     case decide_route_save_operation op (route_save_payload_hash h q) (fst clock) of
       Claim_Free \<Rightarrow>
        (if sv_mode q = Create \<and> route \<noteq> None then (Already_There, st)
         else if sv_mode q = Edit \<and> route = None then (Not_There, st)
         else if \<not> num_eq current (sv_expected q) then (Stale_Version current, st)
         else if sv_mode q = Edit \<and> ride_owns_route (sv_route q) st then (Active_Ride, st)
         else (Claimed route, st\<lparr>ss_operations :=
           (ss_operations st)(sv_save_id q := Some (claimed_operation h server_time (snd clock) owner q op))\<rparr>))
     | d \<Rightarrow> (Decided d, st))"

text \<open>What a claim that did not take the operation answers: a reply, or an error.\<close>

datatype save_answer = Reply jsnum jsval | Refuse api_error

definition processing_answer :: "string \<Rightarrow> jsval" where
  "processing_answer save_id = JObj [(''status'', JStr ''processing''), (''saveId'', JStr save_id), (''retryAfterMs'', JNum 1000)]"

definition failed_before :: "jsval \<Rightarrow> jsnum \<Rightarrow> api_error" where
  "failed_before stored status =
    (if truthy (js_prop stored ''code'') \<and> truthy (js_prop stored ''error'') \<and> truthy (js_prop stored ''phase'')
     then \<lparr>ae_status = status, ae_payload = stored\<rparr>
     else route_error status ''ROUTE_SAVE_FAILED'' ''persistence'' ''The previous save attempt failed. Start a new save operation.'' [])"

fun claim_answer :: "save_request \<Rightarrow> save_claim \<Rightarrow> save_answer option" where
  "claim_answer q (Decided Key_Conflict) = Some (Refuse (route_error 409 ''IDEMPOTENCY_KEY_REUSED'' ''validation''
     ''This save operation ID is already bound to different route content.'' []))"
| "claim_answer q (Decided In_Progress) = Some (Reply 202 (processing_answer (sv_save_id q)))"
| "claim_answer q (Decided (Replay result)) = Some (Reply 200 result)"
| "claim_answer q (Decided (Failed_Before stored status)) = Some (Refuse (failed_before stored status))"
| "claim_answer q (Decided Claim_Free) = None"
| "claim_answer q Already_There = Some (Refuse (route_error 409 ''ROUTE_ALREADY_EXISTS'' ''validation'' ''A route with this ID already exists.'' []))"
| "claim_answer q Not_There = Some (Refuse (route_error 404 ''ROUTE_NOT_FOUND'' ''validation'' ''The route no longer exists.'' []))"
| "claim_answer q (Stale_Version v) = Some (Refuse (route_error 409 ''STALE_ROUTE_VERSION'' ''validation''
     ''The route changed after this editor was opened. Reload before saving.'' [(''currentVersion'', JNum v)]))"
| "claim_answer q Active_Ride = Some (Refuse (route_error 409 ''ACTIVE_RIDE_ROUTE_EDIT'' ''validation''
     ''An active ride route cannot be edited before its final stop.'' []))"
| "claim_answer q (Claimed existing) = None"

section \<open>Committing a save\<close>

text \<open>The geometry of a claimed save: the stored one when the stops are unchanged, else a computed one.\<close>

definition reused_geometry :: "host \<Rightarrow> save_request \<Rightarrow> fields option \<Rightarrow> dir_geometry option" where
  "reused_geometry h q existing = (case existing of
      None \<Rightarrow> None | Some route \<Rightarrow> reusable_directional_geometry route (route_geometry_signature h (map vs_at (sv_stops q))))"

definition next_geometry_version :: "host \<Rightarrow> save_request \<Rightarrow> fields option \<Rightarrow> jsnum" where
  "next_geometry_version h q existing =
    (if reused_geometry h q existing \<noteq> None then route_geometry_version existing else route_geometry_version existing + 1)"

definition route_data :: "host \<Rightarrow> jsval \<Rightarrow> save_request \<Rightarrow> fields option \<Rightarrow> dir_geometry \<Rightarrow> fields" where
  "route_data h server_time q existing g =
    [(''id'', JStr (sv_route q)), (''name'', JStr (sv_name q)), (''color'', JStr (sv_color q)),
     (''stops'', JArr (map saved_stop_value (sv_stops q))), (''waypoints'', JArr (map (position_value \<circ> vs_at) (sv_stops q)))] @
    geometry_fields g @
    [(''geometrySignature'', JStr (route_geometry_signature h (map vs_at (sv_stops q)))), (''configVersion'', JNum (sv_expected q + 1)),
     (''geometryVersion'', JNum (next_geometry_version h q existing)), (''updatedAt'', server_time)]"

definition save_result :: "host \<Rightarrow> save_request \<Rightarrow> fields option \<Rightarrow> dir_geometry \<Rightarrow> jsval" where
  "save_result h q existing g = JObj
    ([(''saved'', JBool True), (''status'', JStr ''succeeded''), (''saveId'', JStr (sv_save_id q)), (''routeId'', JStr (sv_route q)),
      (''configVersion'', JNum (sv_expected q + 1)), (''geometryVersion'', JNum (next_geometry_version h q existing)),
      (''geometryReused'', JBool (reused_geometry h q existing \<noteq> None))] @ geometry_fields g)"

definition owns_operation :: "host \<Rightarrow> string \<Rightarrow> save_request \<Rightarrow> save_store \<Rightarrow> bool" where
  "owns_operation h owner q st \<longleftrightarrow> (let op = ss_operations st (sv_save_id q) in
     doc_prop op ''status'' = JStr ''processing'' \<and> doc_prop op ''leaseOwner'' = JStr owner \<and>
     doc_prop op ''payloadHash'' = JStr (route_save_payload_hash h q))"

definition commit_save ::
    "host \<Rightarrow> jsval \<Rightarrow> string \<Rightarrow> save_request \<Rightarrow> fields option \<Rightarrow> dir_geometry \<Rightarrow> save_store \<Rightarrow> api_error + save_store" where
  "commit_save h server_time owner q existing g st =
    (let route = ss_routes st (sv_route q); current = route_document_version route in
     if \<not> owns_operation h owner q st then Inl (route_error 409 ''ROUTE_SAVE_LEASE_LOST'' ''persistence''
       ''The save lease expired before commit. Retry to reconcile the final state.'' unknown_outcome)
     else if (sv_mode q = Create \<and> route \<noteq> None) \<or> (sv_mode q = Edit \<and> route = None) \<or> \<not> num_eq current (sv_expected q)
     then Inl (route_error 409 ''STALE_ROUTE_VERSION'' ''persistence''
       ''The route changed while geometry was being calculated. Reload before saving.'' [(''currentVersion'', JNum current)])
     else if sv_mode q = Edit \<and> ride_owns_route (sv_route q) st then Inl (route_error 409 ''ACTIVE_RIDE_ROUTE_EDIT'' ''persistence''
       ''A ride started while this route was being saved; the route was not changed.'' [])
     else Inr (st\<lparr>ss_routes := (ss_routes st)(sv_route q := Some (route_data h server_time q existing g)),
       ss_operations := (ss_operations st)(sv_save_id q := merge_doc (ss_operations st (sv_save_id q))
         [(''status'', JStr ''succeeded''), (''result'', save_result h q existing g), (''completedAt'', server_time), (''leaseUntil'', JNum 0)])\<rparr>))"

definition save_error :: "save_failure \<Rightarrow> api_error" where
  "save_error f = (case f of Api e \<Rightarrow> e | Unexpected \<Rightarrow> route_error 503 ''ROUTE_PERSISTENCE_FAILED'' ''persistence''
     ''The route save could not be confirmed. Retry with the same operation.'' unknown_outcome)"

definition record_failure :: "host \<Rightarrow> jsval \<Rightarrow> string \<Rightarrow> save_request \<Rightarrow> api_error \<Rightarrow> save_store \<Rightarrow> save_store" where
  "record_failure h server_time owner q failure st =
    (if \<not> owns_operation h owner q st then st
     else st\<lparr>ss_operations := (ss_operations st)(sv_save_id q := merge_doc (ss_operations st (sv_save_id q))
       [(''status'', JStr ''failed''), (''error'', ae_payload failure), (''httpStatus'', JNum (ae_status failure)),
        (''completedAt'', server_time), (''leaseUntil'', JNum 0)])\<rparr>)"

text \<open>Claim, geometry and commit of one request that nothing else interrupts, with the failure it records.\<close>

definition save_route ::
    "host \<Rightarrow> jsval \<Rightarrow> jsnum \<times> jsnum \<Rightarrow> string \<Rightarrow> (position list \<Rightarrow> save_failure + dir_geometry) \<Rightarrow> save_request \<Rightarrow> save_store \<Rightarrow> save_answer \<times> save_store" where
  "save_route h server_time clock owner compute q st =
    (case claim_save h server_time clock owner q st of
       (c, st1) \<Rightarrow> (case claim_answer q c of
          Some a \<Rightarrow> (a, st1)
        | None \<Rightarrow>
           (let existing = (case c of Claimed e \<Rightarrow> e | _ \<Rightarrow> None);
              geometry = (case reused_geometry h q existing of Some g \<Rightarrow> Inr g | None \<Rightarrow> compute (map vs_at (sv_stops q)));
              fail = (\<lambda>f. (Refuse (save_error f), record_failure h server_time owner q (save_error f) st1)) in
            case geometry of
              Inl f \<Rightarrow> fail f
            | Inr g \<Rightarrow> (case commit_save h server_time owner q existing g st1 of
                Inl e \<Rightarrow> fail (Api e)
              | Inr st2 \<Rightarrow> (Reply 200 (save_result h q existing g), st2)))))"

section \<open>Deleting a route and reading a save\<close>

definition route_in_use :: "string \<Rightarrow> save_store \<Rightarrow> bool" where
  "route_in_use route st \<longleftrightarrow>
     list_ex (\<lambda>b. case obj_get b ''assignedRoutes'' of JArr vs \<Rightarrow> JStr route \<in> set vs | _ \<Rightarrow> False) (ss_buses st) \<or>
     list_ex (\<lambda>b. obj_get b ''assignedRouteId'' = JStr route) (ss_buses st) \<or>
     list_ex (of_route route) (ss_rides st) \<or> list_ex (of_route route) (ss_devices st)"

definition delete_route :: "string \<Rightarrow> save_store \<Rightarrow> save_answer \<times> save_store" where
  "delete_route route st =
    (if ss_routes st route = None then (Refuse (route_error 404 ''ROUTE_NOT_FOUND'' ''validation'' ''The route no longer exists.'' []), st)
     else if route_in_use route st then (Reply 409 (JObj
       [(''error'', JStr ''Unassign this route from every vehicle and device before deleting it.''),
        (''code'', JStr ''ROUTE_IN_USE''), (''phase'', JStr ''validation'')]), st)
     else (Reply 200 (JObj [(''deleted'', JBool True)]), st\<lparr>ss_routes := (ss_routes st)(route := None)\<rparr>))"

definition find_save_operation :: "jsval \<Rightarrow> jsval \<Rightarrow> save_store \<Rightarrow> api_error + string \<times> string \<times> fields" where
  "find_save_operation route_param save_param st = (case (safe_document_id route_param, safe_document_id save_param) of
      (Some route, Some save_id) \<Rightarrow> (case ss_operations st save_id of
          Some op \<Rightarrow> (if obj_get op ''routeId'' = JStr route then Inr (route, save_id, op)
            else Inl (route_error 404 ''SAVE_OPERATION_NOT_FOUND'' ''validation'' ''Save operation not found.'' []))
        | None \<Rightarrow> Inl (route_error 404 ''SAVE_OPERATION_NOT_FOUND'' ''validation'' ''Save operation not found.'' []))
    | _ \<Rightarrow> Inl (route_error 400 ''INVALID_SAVE_OPERATION'' ''validation'' ''Invalid save operation.'' []))"

definition read_save_operation :: "host \<Rightarrow> jsval \<Rightarrow> jsval \<Rightarrow> save_store \<Rightarrow> save_answer" where
  "read_save_operation h route_param save_param st = (case find_save_operation route_param save_param st of
      Inl e \<Rightarrow> Refuse e
    | Inr (route, save_id, op) \<Rightarrow>
       (if obj_get op ''status'' = JStr ''succeeded'' then Reply 200 (obj_get op ''result'')
        else if obj_get op ''status'' = JStr ''failed'' then
          (let code = js_number (h_parse h) (obj_get op ''httpStatus'') in
           Reply (if truthy (JNum code) then code else 409) (obj_get op ''error''))
        else Reply 202 (processing_answer save_id)))"

definition read_save_resource :: "host \<Rightarrow> jsnum \<Rightarrow> jsval \<Rightarrow> jsval \<Rightarrow> save_store \<Rightarrow> save_answer" where
  "read_save_resource h now route_param save_param st = (case find_save_operation route_param save_param st of
      Inl e \<Rightarrow> Refuse e
    | Inr (route, save_id, op) \<Rightarrow>
       (let status = (if obj_get op ''status'' = JStr ''succeeded'' \<or> obj_get op ''status'' = JStr ''failed'' then obj_get op ''status'' else JStr ''processing'');
          error = obj_get op ''error'' in
        Reply 200 (JObj ([(''operationId'', JStr save_id), (''routeId'', JStr route), (''status'', status)] @
          (if status = JStr ''succeeded'' then [(''result'', obj_get op ''result'')] else []) @
          (if status = JStr ''failed'' then [(''error'', JObj ([(''code'', nullish (js_prop error ''code'') (JStr ''ROUTE_SAVE_FAILED'')),
              (''error'', JStr ''The route save failed; reload the route before submitting a new save.'')] @
              (if truthy (js_prop error ''outcomeUnknown'') then unknown_outcome else [])))] else []) @
          (if status = JStr ''processing'' then (''retryAfterMs'', JNum 1000) #
              (if js_number (h_parse h) (obj_get op ''leaseUntil'') \<le> now then unknown_outcome else []) else [])))))"

text \<open>The stored geometry that \<open>GET /:routeId/geometry\<close> serves; it never computes one.\<close>

definition serve_geometry :: "jsval \<Rightarrow> (string \<Rightarrow> fields option) \<Rightarrow> save_answer" where
  "serve_geometry route_param routes = (case safe_document_id route_param of
      None \<Rightarrow> Reply 400 (JObj [(''error'', JStr ''Invalid route ID.'')])
    | Some i \<Rightarrow> (case routes i of
        None \<Rightarrow> Reply 404 (JObj [(''error'', JStr ''Route not found.'')])
      | Some route \<Rightarrow>
         (if obj_get route ''polylineQuality'' = JStr ''HIGH_QUALITY'' \<and> valid_encoded_polyline (obj_get route ''forwardPolyline'') \<and>
             valid_encoded_polyline (obj_get route ''reversePolyline'')
          then Reply 200 (JObj ((''polyline'', obj_get route ''forwardPolyline'') #
            map (\<lambda>k. (k, obj_get route k)) [''forwardPolyline'', ''reversePolyline'', ''distanceMeters'', ''forwardDistanceMeters'',
              ''reverseDistanceMeters'', ''duration'', ''forwardDuration'', ''reverseDuration'', ''polylineQuality''] @
            [(''configVersion'', JNum (route_document_version (Some route))), (''geometryVersion'', JNum (route_geometry_version (Some route))),
             (''cached'', JBool True)]))
          else if route_waypoints route = None then Reply 422 (JObj [(''error'', JStr ''Route has no valid coordinates.'')])
          else Refuse (route_error 409 ''GEOMETRY_REPAIR_REQUIRED'' ''validation''
            ''Stored directional geometry needs repair. An administrator must save the current route with its expected version.'' []))))"

section \<open>Interleaved saves\<close>

text \<open>
  The saves of all replicas: an attempt is what a request holds after its claim. A commit or the record of a failure may
  come at any time after it, also repeatedly, since an acknowledgement can be lost and a process can stall. Rides, locks,
  buses and devices change as they like, and the retention sweep removes old operations.
\<close>

record attempt =
  at_request :: save_request
  at_owner :: string
  at_existing :: "fields option"

record save_state =
  sa_store :: save_store
  sa_attempts :: "attempt list"

datatype save_event =
    Begin_Save jsval "jsnum \<times> jsnum" string save_request
  | Commit_Attempt nat jsval dir_geometry
  | Fail_Attempt nat jsval save_failure
  | Delete_Route string
  | Sweep_Operation string
  | Fleet_Changed "fields list" "fields list" "fields list" "fields list"

datatype save_note = Answered save_request save_claim | Saved save_request jsval | Nothing

definition attempt_geometry :: "host \<Rightarrow> attempt \<Rightarrow> dir_geometry \<Rightarrow> dir_geometry" where
  "attempt_geometry h a g = opt_default (reused_geometry h (at_request a) (at_existing a)) g"

fun save_do :: "host \<Rightarrow> save_event \<Rightarrow> save_state \<Rightarrow> save_note \<times> save_state" where
  "save_do h (Begin_Save tm clock owner q) s = (case claim_save h tm clock owner q (sa_store s) of
     (c, st) \<Rightarrow> (Answered q c, s\<lparr>sa_store := st, sa_attempts := sa_attempts s @
        (case c of Claimed e \<Rightarrow> [\<lparr>at_request = q, at_owner = owner, at_existing = e\<rparr>] | _ \<Rightarrow> [])\<rparr>))"
| "save_do h (Commit_Attempt i tm g) s =
    (if i < length (sa_attempts s) then (let a = sa_attempts s ! i; q = at_request a; geometry = attempt_geometry h a g in
       case commit_save h tm (at_owner a) q (at_existing a) geometry (sa_store s) of
         Inl e \<Rightarrow> (Nothing, s) | Inr st \<Rightarrow> (Saved q (save_result h q (at_existing a) geometry), s\<lparr>sa_store := st\<rparr>))
     else (Nothing, s))"
| "save_do h (Fail_Attempt i tm f) s =
    (if i < length (sa_attempts s) then (let a = sa_attempts s ! i in
       (Nothing, s\<lparr>sa_store := record_failure h tm (at_owner a) (at_request a) (save_error f) (sa_store s)\<rparr>))
     else (Nothing, s))"
| "save_do h (Delete_Route r) s = (Nothing, s\<lparr>sa_store := snd (delete_route r (sa_store s))\<rparr>)"
| "save_do h (Sweep_Operation i) s = (Nothing, s\<lparr>sa_store := (sa_store s)\<lparr>ss_operations := (ss_operations (sa_store s))(i := None)\<rparr>\<rparr>)"
| "save_do h (Fleet_Changed rides locks buses devices) s =
    (Nothing, s\<lparr>sa_store := (sa_store s)\<lparr>ss_rides := rides, ss_locks := locks, ss_buses := buses, ss_devices := devices\<rparr>\<rparr>)"

fun save_run :: "host \<Rightarrow> save_event list \<Rightarrow> save_state \<Rightarrow> save_note list \<times> save_state" where
  "save_run h [] s = ([], s)"
| "save_run h (e # es) s = (case save_do h e s of (n, s1) \<Rightarrow> (case save_run h es s1 of (ns, s2) \<Rightarrow> (n # ns, s2)))"

definition save_start :: save_state where
  "save_start = \<lparr>sa_store = \<lparr>ss_routes = \<lambda>_. None, ss_operations = \<lambda>_. None, ss_rides = [], ss_locks = [], ss_buses = [], ss_devices = []\<rparr>,
     sa_attempts = []\<rparr>"

section \<open>One operation, one save\<close>

definition succeeded :: "string \<Rightarrow> save_state \<Rightarrow> bool" where
  "succeeded i s \<longleftrightarrow> doc_prop (ss_operations (sa_store s) i) ''status'' = JStr ''succeeded''"

definition holds_result :: "host \<Rightarrow> save_request \<Rightarrow> jsval \<Rightarrow> save_state \<Rightarrow> bool" where
  "holds_result h q r s \<longleftrightarrow> succeeded (sv_save_id q) s \<and>
     doc_prop (ss_operations (sa_store s) (sv_save_id q)) ''payloadHash'' = JStr (route_save_payload_hash h q) \<and>
     doc_prop (ss_operations (sa_store s) (sv_save_id q)) ''result'' = r"

fun saved_under :: "string \<Rightarrow> save_note \<Rightarrow> bool" where
  "saved_under i (Saved q r) \<longleftrightarrow> sv_save_id q = i"
| "saved_under i _ \<longleftrightarrow> False"

lemma decide_succeeded:
  assumes "op = Some fs" "obj_get fs ''status'' = JStr ''succeeded''"
  shows "decide_route_save_operation op hash now = (if obj_get fs ''payloadHash'' = JStr hash then Replay (obj_get fs ''result'') else Key_Conflict)"
  using assms by (simp add: decide_route_save_operation_def)

lemma decide_replay: "decide_route_save_operation op hash now = Replay r \<longleftrightarrow>
    doc_prop op ''payloadHash'' = JStr hash \<and> doc_prop op ''status'' = JStr ''succeeded'' \<and> doc_prop op ''result'' = r"
  by (auto simp: decide_route_save_operation_def doc_prop_def split: option.splits)

lemma claim_cases:
  assumes "claim_save h tm clock owner q st = (c, st')"
  shows "(st' = st \<and> (\<forall>e. c \<noteq> Claimed e)) \<or>
    (c = Claimed (ss_routes st (sv_route q)) \<and>
     decide_route_save_operation (ss_operations st (sv_save_id q)) (route_save_payload_hash h q) (fst clock) = Claim_Free \<and>
     st' = st\<lparr>ss_operations := (ss_operations st)(sv_save_id q := Some (claimed_operation h tm (snd clock) owner q (ss_operations st (sv_save_id q))))\<rparr> \<and>
     num_eq (route_document_version (ss_routes st (sv_route q))) (sv_expected q) \<and> (sv_mode q = Create \<longrightarrow> ss_routes st (sv_route q) = None))"
proof (cases "decide_route_save_operation (ss_operations st (sv_save_id q)) (route_save_payload_hash h q) (fst clock) = Claim_Free")
  case True
  then show ?thesis using assms by (auto simp: claim_save_def Let_def split: if_split_asm)
next
  case False
  then show ?thesis using assms by (simp add: claim_save_def Let_def split: save_decision.split_asm) auto
qed

lemma free_not_succeeded:
  "decide_route_save_operation op hash now = Claim_Free \<Longrightarrow> doc_prop op ''status'' \<noteq> JStr ''succeeded''"
  by (auto simp: decide_route_save_operation_def doc_prop_def split: option.splits if_splits)

lemma claim_routes: "claim_save h tm clock owner q st = (c, st') \<Longrightarrow> ss_routes st' = ss_routes st"
  by (drule claim_cases) auto

lemma claim_replays: "fst (claim_save h tm clock owner q st) = Decided d \<longleftrightarrow>
    d \<noteq> Claim_Free \<and> decide_route_save_operation (ss_operations st (sv_save_id q)) (route_save_payload_hash h q) (fst clock) = d"
  by (auto simp: claim_save_def Let_def split: save_decision.splits)

lemma commit_saveE:
  assumes "commit_save h tm owner q existing g st = Inr st'"
  shows "owns_operation h owner q st" "num_eq (route_document_version (ss_routes st (sv_route q))) (sv_expected q)"
    "sv_mode q = Create \<longleftrightarrow> ss_routes st (sv_route q) = None" "sv_mode q = Edit \<Longrightarrow> \<not> ride_owns_route (sv_route q) st"
    "ss_routes st' = (ss_routes st)(sv_route q := Some (route_data h tm q existing g))"
    "ss_operations st' = (ss_operations st)(sv_save_id q := merge_doc (ss_operations st (sv_save_id q))
       [(''status'', JStr ''succeeded''), (''result'', save_result h q existing g), (''completedAt'', tm), (''leaseUntil'', JNum 0)])"
  using assms by (auto simp: commit_save_def Let_def split: if_splits intro: save_mode.exhaust [of "sv_mode q"])

lemma merge_props:
  "doc_prop (merge_doc op kvs) k = opt_default (map_of (rev kvs) k) (doc_prop op k)"
  by (cases op) (simp_all add: merge_doc_def doc_prop_def obj_get_put_all opt_default_def)

lemma commit_holds:
  assumes "commit_save h tm owner q existing g (sa_store s) = Inr st'"
  shows "holds_result h q (save_result h q existing g) (s\<lparr>sa_store := st'\<rparr>)" "\<not> succeeded (sv_save_id q) s"
  using commit_saveE(1,6) [OF assms]
  by (simp_all add: holds_result_def succeeded_def merge_props opt_default_def owns_operation_def Let_def)

lemma failure_operations:
  "ss_operations (record_failure h tm owner q f st) i =
     (if i = sv_save_id q \<and> owns_operation h owner q st then merge_doc (ss_operations st i)
       [(''status'', JStr ''failed''), (''error'', ae_payload f), (''httpStatus'', JNum (ae_status f)), (''completedAt'', tm), (''leaseUntil'', JNum 0)]
      else ss_operations st i)"
  "ss_routes (record_failure h tm owner q f st) = ss_routes st"
  by (simp_all add: record_failure_def)

lemma delete_operations: "ss_operations (snd (delete_route r st)) = ss_operations st"
  by (simp add: delete_route_def)

lemma saved_note:
  assumes "save_do h e s = (Saved q r, s')"
  obtains k tm g st' where "e = Commit_Attempt k tm g" "k < length (sa_attempts s)" "q = at_request (sa_attempts s ! k)"
    "commit_save h tm (at_owner (sa_attempts s ! k)) q (at_existing (sa_attempts s ! k)) (attempt_geometry h (sa_attempts s ! k) g) (sa_store s) = Inr st'"
    "s' = s\<lparr>sa_store := st'\<rparr>" "r = save_result h q (at_existing (sa_attempts s ! k)) (attempt_geometry h (sa_attempts s ! k) g)"
proof (cases e)
  case (Commit_Attempt k tm g)
  then show ?thesis using assms that by (auto simp: Let_def split: if_split_asm sum.split_asm)
qed (use assms in \<open>simp_all add: Let_def split: prod.split_asm if_split_asm\<close>)

lemma saved_commit:
  assumes "save_do h e s = (Saved q r, s')"
  shows "\<exists>tm owner x y st'. commit_save h tm owner q x y (sa_store s) = Inr st' \<and> s' = s\<lparr>sa_store := st'\<rparr>"
  by (rule saved_note [OF assms]) blast

lemma answered_claim:
  assumes "save_do h e s = (Answered q c, s')"
  shows "\<exists>tm clock owner. fst (claim_save h tm clock owner q (sa_store s)) = c"
proof (cases e)
  case (Begin_Save tm clock owner q')
  then have "fst (claim_save h tm clock owner q (sa_store s)) = c" using assms by (simp split: prod.split_asm)
  then show ?thesis by blast
qed (use assms in \<open>auto simp: Let_def split: if_split_asm sum.split_asm\<close>)

lemma saved_holds:
  assumes "save_do h e s = (Saved q r, s')"
  shows "holds_result h q r s'" "\<not> succeeded (sv_save_id q) s"
  using assms by (auto elim!: saved_note dest: commit_holds)

text \<open>An operation that succeeded stays as it is until the sweep removes it.\<close>

lemma operation_kept:
  assumes "save_do h e s = (n, s')" "succeeded i s" "e \<noteq> Sweep_Operation i"
  shows "ss_operations (sa_store s') i = ss_operations (sa_store s) i \<and> \<not> saved_under i n"
proof (cases e)
  case (Begin_Save tm clock owner q)
  obtain c st where c: "claim_save h tm clock owner q (sa_store s) = (c, st)" by (metis surj_pair)
  then have "ss_operations st i = ss_operations (sa_store s) i"
    using claim_cases [OF c] free_not_succeeded assms(2) by (auto simp: succeeded_def)
  then show ?thesis using assms(1) Begin_Save c by auto
next
  case (Commit_Attempt k tm g)
  show ?thesis
  proof (cases n)
    case (Saved q r)
    then obtain tm' owner x y st' where c: "commit_save h tm' owner q x y (sa_store s) = Inr st'" "s' = s\<lparr>sa_store := st'\<rparr>"
      using saved_commit [OF assms(1) [unfolded Saved]] by blast
    then have "sv_save_id q \<noteq> i" using commit_holds(2) assms(2) by blast
    then show ?thesis using Saved c commit_saveE(6) [OF c(1)] by simp
  qed (use assms Commit_Attempt in \<open>auto simp: Let_def split: if_split_asm sum.split_asm\<close>)
next
  case (Fail_Attempt k tm f)
  then show ?thesis using assms(1,2)
    by (auto simp: Let_def failure_operations succeeded_def owns_operation_def split: if_splits)
qed (use assms in \<open>auto simp: delete_operations\<close>)

lemma saved_step:
  assumes "save_do h e s = (n, s')"
  shows "of_bool (saved_under i n) + of_bool (succeeded i s) \<le> of_bool (succeeded i s') + (of_bool (e = Sweep_Operation i) :: nat)"
proof (cases "succeeded i s \<and> e \<noteq> Sweep_Operation i")
  case True
  then show ?thesis using operation_kept [OF assms] by (auto simp: succeeded_def)
next
  case False
  then have "saved_under i n \<Longrightarrow> succeeded i s' \<and> \<not> succeeded i s"
    using assms saved_holds by (cases n) (auto simp: holds_result_def)
  then show ?thesis using False by auto
qed

lemma saved_count:
  "save_run h es s = (ns, s') \<Longrightarrow> length (filter (saved_under i) ns) + of_bool (succeeded i s) \<le>
    of_bool (succeeded i s') + length (filter ((=) (Sweep_Operation i)) es)"
proof (induction es arbitrary: s ns)
  case (Cons e es)
  obtain n s1 ns1 where st: "save_do h e s = (n, s1)" "save_run h es s1 = (ns1, s')" "ns = n # ns1"
    using Cons.prems by (auto split: prod.splits)
  have "of_bool (e = Sweep_Operation i) = (if Sweep_Operation i = e then 1 else 0 :: nat)" by auto
  then show ?case using saved_step [OF st(1), of i] Cons.IH [OF st(2)] st(3) by (auto split: if_splits)
qed auto

lemma saves_in_notes:
  "save_run h es s = (ns, s') \<Longrightarrow> Saved q r \<in> set ns \<Longrightarrow> Sweep_Operation (sv_save_id q) \<notin> set es \<Longrightarrow> holds_result h q r s'"
  and result_kept:
  "save_run h es s = (ns, s') \<Longrightarrow> holds_result h q r s \<Longrightarrow> Sweep_Operation (sv_save_id q) \<notin> set es \<Longrightarrow> holds_result h q r s'"
proof (induction es arbitrary: s ns)
  case (Cons e es)
  case 2
  obtain n s1 ns1 where st: "save_do h e s = (n, s1)" "save_run h es s1 = (ns1, s')" "ns = n # ns1"
    using 2(1) by (auto split: prod.splits)
  have "holds_result h q r s1" using 2 operation_kept [OF st(1), of "sv_save_id q"] by (auto simp: holds_result_def succeeded_def)
  then show ?case using Cons.IH(2) [OF st(2)] 2 by simp
next
  case (Cons e es)
  case 1
  obtain n s1 ns1 where st: "save_do h e s = (n, s1)" "save_run h es s1 = (ns1, s')" "ns = n # ns1"
    using 1(1) by (auto split: prod.splits)
  show ?case
  proof (cases "n = Saved q r")
    case True
    then show ?thesis using saved_holds(1) [of h e s q r s1] st Cons.IH(2) [OF st(2)] 1 by simp
  next
    case False
    then show ?thesis using Cons.IH(1) [OF st(2)] 1 st(3) by simp
  qed
qed auto

lemma succeeded_before:
  assumes "save_do h e s = (n, s')" "succeeded i s'"
  shows "(succeeded i s \<and> ss_operations (sa_store s') i = ss_operations (sa_store s) i) \<or> saved_under i n"
proof (cases e)
  case (Begin_Save tm clock owner q)
  obtain c st where c: "claim_save h tm clock owner q (sa_store s) = (c, st)" by (metis surj_pair)
  then have "ss_operations st i = ss_operations (sa_store s) i \<or> doc_prop (ss_operations st i) ''status'' = JStr ''processing''"
    using claim_cases [OF c] by (auto simp: claimed_operation_def doc_prop_def)
  then show ?thesis using assms Begin_Save c by (auto simp: succeeded_def)
next
  case (Commit_Attempt k tm g)
  show ?thesis
  proof (cases n)
    case (Saved q r)
    then obtain tm' owner x y st' where c: "commit_save h tm' owner q x y (sa_store s) = Inr st'" "s' = s\<lparr>sa_store := st'\<rparr>"
      using saved_commit [OF assms(1) [unfolded Saved]] by blast
    then show ?thesis using Saved commit_saveE(6) [OF c(1)] assms(2) by (auto simp: succeeded_def)
  qed (use assms Commit_Attempt in \<open>auto simp: Let_def split: if_split_asm sum.split_asm\<close>)
next
  case (Fail_Attempt k tm f)
  then show ?thesis using assms by (auto simp: Let_def failure_operations succeeded_def merge_props opt_default_def split: if_split_asm)
qed (use assms in \<open>auto simp: delete_operations succeeded_def doc_prop_def split: if_split_asm\<close>)

lemma replays_in_notes:
  "save_run h es s = (ns, s') \<Longrightarrow> Answered q (Decided (Replay r)) \<in> set ns \<Longrightarrow>
    holds_result h q r s \<or> (\<exists>q'. Saved q' r \<in> set ns \<and> sv_save_id q' = sv_save_id q \<and> route_save_payload_hash h q' = route_save_payload_hash h q)"
proof (induction es arbitrary: s ns)
  case (Cons e es)
  obtain n s1 ns1 where st: "save_do h e s = (n, s1)" "save_run h es s1 = (ns1, s')" "ns = n # ns1"
    using Cons.prems by (auto split: prod.splits)
  show ?case
  proof (cases "n = Answered q (Decided (Replay r))")
    case True
    then have "\<exists>tm clock owner. fst (claim_save h tm clock owner q (sa_store s)) = Decided (Replay r)"
      using answered_claim st(1) by blast
    then show ?thesis by (auto simp: claim_replays decide_replay holds_result_def succeeded_def)
  next
    case False
    then consider "holds_result h q r s1" | "\<exists>q'. Saved q' r \<in> set ns1 \<and> sv_save_id q' = sv_save_id q \<and> route_save_payload_hash h q' = route_save_payload_hash h q"
      using Cons st by auto
    then show ?thesis
    proof cases
      case 1
      then consider "holds_result h q r s" | q' r' where "n = Saved q' r'" "sv_save_id q' = sv_save_id q"
        using succeeded_before [OF st(1), of "sv_save_id q"] by (cases n) (auto simp: holds_result_def)
      then show ?thesis
      proof cases
        case (2 q' r')
        then have "r' = r \<and> route_save_payload_hash h q' = route_save_payload_hash h q"
          using saved_holds(1) [of h e s q' r' s1] st(1) 1 by (auto simp: holds_result_def)
        then show ?thesis using 2 st(3) by auto
      qed simp
    next
      case 2
      then show ?thesis using st(3) by auto
    qed
  qed
qed simp

text \<open>C35. Whatever saves, retries, lost acknowledgements, failures, deletions and fleet changes interleave, an operation id
  commits at most once while the retention sweep keeps its record; from then on each claim under it replays exactly the
  committed result, or is refused when its content differs; and nothing is ever replayed that was not committed.\<close>

theorem save_applied_once:
  assumes "save_run h es s = (ns, s')" "\<forall>i. ss_operations (sa_store s) i = None" "Sweep_Operation i \<notin> set es"
  shows "length (filter (saved_under i) ns) \<le> 1 \<and>
    (\<forall>q r tm clock owner q'. Saved q r \<in> set ns \<and> sv_save_id q = i \<and> sv_save_id q' = i \<longrightarrow>
      fst (claim_save h tm clock owner q' (sa_store s')) =
        Decided (if route_save_payload_hash h q' = route_save_payload_hash h q then Replay r else Key_Conflict)) \<and>
    (\<forall>q r. Answered q (Decided (Replay r)) \<in> set ns \<longrightarrow>
      (\<exists>q'. Saved q' r \<in> set ns \<and> sv_save_id q' = sv_save_id q \<and> route_save_payload_hash h q' = route_save_payload_hash h q))"
proof (intro conjI allI impI)
  have "filter ((=) (Sweep_Operation i)) es = []" using assms(3) by (auto simp: filter_empty_conv)
  then have "length (filter (saved_under i) ns) \<le> of_bool (succeeded i s')" using saved_count [OF assms(1), of i] by simp
  then show "length (filter (saved_under i) ns) \<le> 1" by (cases "succeeded i s'") simp_all
next
  fix q :: save_request and r tm clock owner and q' :: save_request
  assume "Saved q r \<in> set ns \<and> sv_save_id q = i \<and> sv_save_id q' = i"
  then have "holds_result h q r s'" "sv_save_id q' = sv_save_id q" using saves_in_notes [OF assms(1)] assms(3) by auto
  then show "fst (claim_save h tm clock owner q' (sa_store s')) =
        Decided (if route_save_payload_hash h q' = route_save_payload_hash h q then Replay r else Key_Conflict)"
    by (auto simp: claim_replays holds_result_def succeeded_def decide_succeeded doc_prop_def split: option.split_asm)
next
  fix q :: save_request and r
  assume "Answered q (Decided (Replay r)) \<in> set ns"
  moreover have "\<not> holds_result h q r s" using assms(2) by (simp add: holds_result_def succeeded_def doc_prop_def)
  ultimately show "\<exists>q'. Saved q' r \<in> set ns \<and> sv_save_id q' = sv_save_id q \<and> route_save_payload_hash h q' = route_save_payload_hash h q"
    using replays_in_notes [OF assms(1)] by blast
qed

section \<open>Versions\<close>

definition version_of_route :: "string \<Rightarrow> save_state \<Rightarrow> jsnum" where
  "version_of_route r s = route_document_version (ss_routes (sa_store s) r)"

definition next_version_ok :: "save_request \<Rightarrow> bool" where
  "next_version_ok q \<longleftrightarrow> is_safe_integer (sv_expected q) \<and> 0 \<le> sv_expected q \<and> sv_expected q < 9007199254740991"

fun event_ok :: "save_event \<Rightarrow> bool" where
  "event_ok (Begin_Save tm clock owner q) \<longleftrightarrow> next_version_ok q"
| "event_ok _ \<longleftrightarrow> True"

fun saved_at :: "string \<Rightarrow> jsnum \<Rightarrow> save_note \<Rightarrow> bool" where
  "saved_at r v (Saved q x) \<longleftrightarrow> sv_route q = r \<and> num_eq (sv_expected q) v"
| "saved_at r v _ \<longleftrightarrow> False"

lemma document_version_fin: "\<exists>k. route_document_version doc = Fin (of_int k) \<and> 0 \<le> k"
proof (cases "\<exists>v. doc_prop doc ''configVersion'' = JNum v \<and> is_safe_integer v \<and> v \<ge> 0")
  case True
  then show ?thesis by (auto simp: route_document_version_def zero_fin elim!: is_safe_integerE)
next
  case False
  then have "route_document_version doc = Fin (of_int 0)" by (auto simp: route_document_version_def zero_fin split: jsval.split)
  then show ?thesis by blast
qed

lemma route_data_get:
  "obj_get (route_data h tm q existing g) ''configVersion'' = JNum (sv_expected q + 1)"
  "obj_get (route_data h tm q existing g) ''geometryVersion'' = JNum (next_geometry_version h q existing)"
  "obj_get (route_data h tm q existing g) ''forwardPolyline'' = JStr (dg_forward g)"
  "obj_get (route_data h tm q existing g) ''reversePolyline'' = JStr (dg_reverse g)"
  "obj_get (route_data h tm q existing g) ''geometrySignature'' = JStr (route_geometry_signature h (map vs_at (sv_stops q)))"
  "obj_get (route_data h tm q existing g) ''stops'' = JArr (map saved_stop_value (sv_stops q))"
  by (simp_all add: route_data_def geometry_fields_def)

lemma saved_version:
  assumes "next_version_ok q"
  shows "route_document_version (Some (route_data h tm q existing g)) = sv_expected q + 1"
proof -
  obtain k where k: "sv_expected q = Fin (of_int k)" using assms by (auto simp: next_version_ok_def elim: is_safe_integerE)
  then have "0 \<le> k" "k + 1 \<le> 9007199254740991" using assms by (auto simp: next_version_ok_def zero_fin)
  then have "is_safe_integer (Fin (of_int (k + 1)))" "0 \<le> (of_int (k + 1) :: real)" by (simp_all add: is_safe_of_int del: of_int_add)
  then show ?thesis by (simp add: route_document_version_def doc_prop_def route_data_get k one_fin zero_fin)
qed

lemma attempts_step:
  assumes "save_do h e s = (n, s')" "a \<in> set (sa_attempts s') - set (sa_attempts s)"
  shows "\<exists>tm clock owner. e = Begin_Save tm clock owner (at_request a) \<and>
    claim_save h tm clock owner (at_request a) (sa_store s) = (Claimed (at_existing a), sa_store s')"
proof (cases e)
  case (Begin_Save tm clock owner q)
  obtain c st where c: "claim_save h tm clock owner q (sa_store s) = (c, st)" by (metis surj_pair)
  then show ?thesis using assms Begin_Save by (cases c) auto
qed (use assms in \<open>auto simp: Let_def split: if_split_asm sum.split_asm\<close>)

lemma attempts_ok_step:
  assumes "save_do h e s = (n, s')" "event_ok e" "\<forall>a\<in>set (sa_attempts s). next_version_ok (at_request a)"
  shows "\<forall>a\<in>set (sa_attempts s'). next_version_ok (at_request a)"
  using attempts_step [OF assms(1)] assms(2,3) by (metis Diff_iff event_ok.simps(1))

lemma routes_step:
  assumes "save_do h e s = (n, s')"
  shows "(\<exists>q x k tm g. n = Saved q x \<and> e = Commit_Attempt k tm g \<and> k < length (sa_attempts s) \<and> q = at_request (sa_attempts s ! k) \<and>
      num_eq (version_of_route (sv_route q) s) (sv_expected q) \<and> (sv_mode q = Create \<longleftrightarrow> ss_routes (sa_store s) (sv_route q) = None) \<and>
      ss_routes (sa_store s') = (ss_routes (sa_store s))(sv_route q := Some (route_data h tm q (at_existing (sa_attempts s ! k)) (attempt_geometry h (sa_attempts s ! k) g)))) \<or>
    (\<exists>r. e = Delete_Route r \<and> ss_routes (sa_store s') = (ss_routes (sa_store s))(r := None) \<and> n = Nothing) \<or>
    (ss_routes (sa_store s') = ss_routes (sa_store s) \<and> (\<forall>q x. n \<noteq> Saved q x))"
proof (cases n)
  case (Saved q x)
  from saved_note [OF assms [unfolded Saved]] obtain k tm g st' where c: "e = Commit_Attempt k tm g" "k < length (sa_attempts s)" "q = at_request (sa_attempts s ! k)"
    "commit_save h tm (at_owner (sa_attempts s ! k)) q (at_existing (sa_attempts s ! k)) (attempt_geometry h (sa_attempts s ! k) g) (sa_store s) = Inr st'"
    "s' = s\<lparr>sa_store := st'\<rparr>" by metis
  show ?thesis using c Saved commit_saveE(2,3,5) [OF c(4)] by (auto simp: version_of_route_def)
next
  case (Answered q c)
  then show ?thesis using assms claim_routes by (cases e) (auto simp: Let_def split: prod.split_asm if_split_asm sum.split_asm)
next
  case Nothing
  then show ?thesis using assms
    by (cases e) (auto simp: Let_def failure_operations delete_route_def split: prod.split_asm if_split_asm sum.split_asm)
qed

lemma less_mono: "v < Fin a \<Longrightarrow> a \<le> b \<Longrightarrow> v < Fin b"
  by (cases v) auto

lemma less_irrefl_num: "\<not> v < (v :: jsnum)"
  by (cases v) auto

lemma saved_at_step:
  assumes e: "save_do h e s = (n, s')" and ok: "\<forall>a\<in>set (sa_attempts s). next_version_ok (at_request a)"
  shows "of_bool (saved_at r v n) + of_bool (v < version_of_route r s) \<le> of_bool (v < version_of_route r s') + (of_bool (e = Delete_Route r) :: nat)"
  using routes_step [OF e]
proof (elim disjE exE conjE)
  fix q x k tm g
  assume q: "n = Saved q x" "k < length (sa_attempts s)" "q = at_request (sa_attempts s ! k)"
    "num_eq (version_of_route (sv_route q) s) (sv_expected q)"
    "ss_routes (sa_store s') = (ss_routes (sa_store s))(sv_route q := Some (route_data h tm q (at_existing (sa_attempts s ! k)) (attempt_geometry h (sa_attempts s ! k) g)))"
  have ok': "next_version_ok q" using ok q(2,3) by simp
  obtain a where a: "version_of_route (sv_route q) s = Fin (of_int a)" using document_version_fin by (metis version_of_route_def)
  have "version_of_route (sv_route q) s' = sv_expected q + 1" using q(5) saved_version [OF ok'] by (simp add: version_of_route_def)
  moreover have x: "sv_expected q = Fin (of_int a)" using q(4) a by (simp add: num_eq_def)
  ultimately have "version_of_route (sv_route q) s' = Fin (of_int a + 1)" by (simp add: one_fin)
  moreover have "version_of_route r s' = version_of_route r s" if "r \<noteq> sv_route q" using that q(5) by (simp add: version_of_route_def)
  ultimately show ?thesis using q(1,4) a less_mono [of v "of_int a" "of_int a + 1"] by (cases "r = sv_route q") (auto simp: num_eq_def x)
qed (auto simp: version_of_route_def split: if_split_asm, (cases n; simp)+)

lemma saved_at_count:
  "save_run h es s = (ns, s') \<Longrightarrow> list_all event_ok es \<Longrightarrow> \<forall>a\<in>set (sa_attempts s). next_version_ok (at_request a) \<Longrightarrow>
    length (filter (saved_at r v) ns) + of_bool (v < version_of_route r s) \<le>
    of_bool (v < version_of_route r s') + length (filter ((=) (Delete_Route r)) es)"
proof (induction es arbitrary: s ns)
  case (Cons e es)
  obtain n s1 ns1 where st: "save_do h e s = (n, s1)" "save_run h es s1 = (ns1, s')" "ns = n # ns1"
    using Cons.prems(1) by (auto split: prod.splits)
  have ok: "\<forall>a\<in>set (sa_attempts s1). next_version_ok (at_request a)"
    using attempts_ok_step [OF st(1)] Cons.prems by simp
  have "of_bool (e = Delete_Route r) = (if Delete_Route r = e then 1 else 0 :: nat)" by auto
  then show ?case using saved_at_step [OF st(1) Cons.prems(3), of r v] Cons.IH [OF st(2) _ ok] Cons.prems(2) st(3) by (auto split: if_splits)
qed auto

text \<open>C36. No save is lost under another: however saves interleave, on as many replicas as there are, at most one save
  that was prepared from a given version of a route commits, unless the route was deleted in between.\<close>

theorem no_lost_update:
  assumes "save_run h es s = (ns, s')" "sa_attempts s = []" "list_all event_ok es"
  shows "length (filter (saved_at r v) ns) \<le> 1 + length (filter ((=) (Delete_Route r)) es)"
proof -
  have "length (filter (saved_at r v) ns) \<le> of_bool (v < version_of_route r s') + length (filter ((=) (Delete_Route r)) es)"
    using saved_at_count [OF assms(1,3), of r v] assms(2) by simp
  then show ?thesis by (cases "v < version_of_route r s'") simp_all
qed

text \<open>What an attempt read at its claim is the route as it still is, or the version has moved on.\<close>

definition attempt_current :: "save_state \<Rightarrow> attempt \<Rightarrow> bool" where
  "attempt_current s a \<longleftrightarrow> (let q = at_request a; current = ss_routes (sa_store s) (sv_route q) in
     (current = at_existing a \<and> num_eq (route_document_version current) (sv_expected q)) \<or> sv_expected q < route_document_version current)"

lemma claimed_current:
  assumes "claim_save h tm clock owner (at_request a) (sa_store s) = (Claimed (at_existing a), sa_store s')"
  shows "attempt_current s' a"
  using claim_cases [OF assms] claim_routes [OF assms] by (auto simp: attempt_current_def Let_def)

lemma current_step:
  assumes e: "save_do h e s = (n, s')" "e \<noteq> Delete_Route (sv_route (at_request a))" and a: "attempt_current s a"
    and ok: "\<forall>a\<in>set (sa_attempts s). next_version_ok (at_request a)"
  shows "attempt_current s' a"
  using routes_step [OF e(1)]
proof (elim disjE exE conjE)
  fix q x k tm g
  assume q: "n = Saved q x" "k < length (sa_attempts s)" "q = at_request (sa_attempts s ! k)"
    "num_eq (version_of_route (sv_route q) s) (sv_expected q)"
    "ss_routes (sa_store s') = (ss_routes (sa_store s))(sv_route q := Some (route_data h tm q (at_existing (sa_attempts s ! k)) (attempt_geometry h (sa_attempts s ! k) g)))"
  obtain i where i: "version_of_route (sv_route q) s = Fin (of_int i)" using document_version_fin by (metis version_of_route_def)
  have x: "sv_expected q = Fin (of_int i)" using q(4) i by (simp add: num_eq_def)
  have "version_of_route (sv_route q) s' = Fin (of_int i + 1)"
    using q(2,3,5) ok saved_version [of q] x by (simp add: version_of_route_def one_fin)
  moreover have "sv_expected (at_request a) < Fin (of_int i + 1)" if "sv_route (at_request a) = sv_route q"
  proof -
    have "sv_expected (at_request a) = Fin (of_int i) \<or> sv_expected (at_request a) < Fin (of_int i)"
      using a that i by (auto simp: attempt_current_def version_of_route_def Let_def num_eq_def)
    then show ?thesis using less_mono [of _ "of_int i" "of_int i + 1"] by auto
  qed
  ultimately show ?thesis using a q(5)
    by (cases "sv_route (at_request a) = sv_route q") (auto simp: attempt_current_def version_of_route_def Let_def)
qed (use a e(2) in \<open>auto simp: attempt_current_def Let_def\<close>)

lemma attempts_grow: "save_do h e s = (n, s') \<Longrightarrow> set (sa_attempts s) \<subseteq> set (sa_attempts s')"
  by (cases e) (auto simp: Let_def split: prod.split_asm if_split_asm sum.split_asm)

lemma attempts_current:
  "save_run h es s = (ns, s') \<Longrightarrow> list_all event_ok es \<Longrightarrow> Delete_Route r \<notin> set es \<Longrightarrow>
    \<forall>a\<in>set (sa_attempts s). next_version_ok (at_request a) \<and> (sv_route (at_request a) = r \<longrightarrow> attempt_current s a) \<Longrightarrow>
    \<forall>a\<in>set (sa_attempts s'). next_version_ok (at_request a) \<and> (sv_route (at_request a) = r \<longrightarrow> attempt_current s' a)"
proof (induction es arbitrary: s ns)
  case (Cons e es)
  obtain n s1 ns1 where st: "save_do h e s = (n, s1)" "save_run h es s1 = (ns1, s')" "ns = n # ns1"
    using Cons.prems(1) by (auto split: prod.splits)
  have ok: "\<forall>a\<in>set (sa_attempts s). next_version_ok (at_request a)" using Cons.prems(4) by blast
  have "next_version_ok (at_request a) \<and> (sv_route (at_request a) = r \<longrightarrow> attempt_current s1 a)" if a: "a \<in> set (sa_attempts s1)" for a
  proof (cases "a \<in> set (sa_attempts s)")
    case True
    then show ?thesis using Cons.prems(3,4) current_step [OF st(1) _ _ ok, of a] by auto
  next
    case False
    then obtain tm clock owner where c: "e = Begin_Save tm clock owner (at_request a)"
        "claim_save h tm clock owner (at_request a) (sa_store s) = (Claimed (at_existing a), sa_store s1)"
      using attempts_step [OF st(1)] a by blast
    then show ?thesis using claimed_current [OF c(2)] Cons.prems(2) by simp
  qed
  then show ?case using Cons.IH [OF st(2)] Cons.prems(2,3) by simp
qed simp

lemma reused_fields:
  assumes "reused_geometry h q existing = Some g"
  shows "doc_prop existing ''forwardPolyline'' = JStr (dg_forward g)" "doc_prop existing ''reversePolyline'' = JStr (dg_reverse g)"
    "doc_prop existing ''geometrySignature'' = JStr (route_geometry_signature h (map vs_at (sv_stops q)))"
proof -
  obtain route where r: "existing = Some route" "reusable_directional_geometry route (route_geometry_signature h (map vs_at (sv_stops q))) = Some g"
    using assms by (cases existing) (auto simp: reused_geometry_def)
  have g: "obj_get route ''geometrySignature'' = JStr (route_geometry_signature h (map vs_at (sv_stops q)))"
    "(case (obj_get route ''forwardPolyline'', obj_get route ''reversePolyline'', obj_get route ''forwardDistanceMeters'',
              obj_get route ''reverseDistanceMeters'', obj_get route ''forwardDuration'', obj_get route ''reverseDuration'') of
         (JStr f, JStr r, JNum fm, JNum rm, JStr fd, JStr rd) \<Rightarrow> Some
           \<lparr>dg_forward = f, dg_reverse = r, dg_forward_meters = fm, dg_reverse_meters = rm, dg_forward_duration = fd, dg_reverse_duration = rd\<rparr>
       | _ \<Rightarrow> None) = Some g"
    using r(2) by (simp_all add: reusable_directional_geometry_def split: if_split_asm)
  show "doc_prop existing ''forwardPolyline'' = JStr (dg_forward g)" "doc_prop existing ''reversePolyline'' = JStr (dg_reverse g)"
    using g(2) r(1) by (auto simp: doc_prop_def split: jsval.split_asm)
  show "doc_prop existing ''geometrySignature'' = JStr (route_geometry_signature h (map vs_at (sv_stops q)))"
    using g(1) r(1) by (simp add: doc_prop_def)
qed

lemma geometry_version_fin: "\<exists>k. route_geometry_version doc = Fin (of_int k) \<and> 0 \<le> k"
proof (cases "\<exists>v. doc_prop doc ''geometryVersion'' = JNum v \<and> is_safe_integer v \<and> v \<ge> 0")
  case True
  then show ?thesis by (auto simp: route_geometry_version_def zero_fin elim!: is_safe_integerE)
next
  case False
  then have "route_geometry_version doc = Fin (of_int 0)" by (auto simp: route_geometry_version_def zero_fin split: jsval.split)
  then show ?thesis by blast
qed

lemma next_geometry_version:
  assumes "route_geometry_version existing < 9007199254740991"
  shows "route_geometry_version (Some (route_data h tm q existing g)) = next_geometry_version h q existing"
proof -
  obtain k where k: "route_geometry_version existing = Fin (of_int k)" "0 \<le> k" using geometry_version_fin by metis
  then have "k + 1 \<le> 9007199254740991" using assms by simp
  then have "is_safe_integer (Fin (of_int (k + 1)))" "is_safe_integer (Fin (of_int k))" "0 \<le> (of_int (k + 1) :: real)"
    using k(2) by (simp_all add: is_safe_of_int del: of_int_add)
  then show ?thesis using k
    by (auto simp: route_geometry_version_def [of "Some _"] doc_prop_def [of "Some _"] route_data_get next_geometry_version_def one_fin zero_fin)
qed

text \<open>C37. While a route is not deleted, its geometry version names its geometry: a save that commits, however long after
  its claim, never lowers the version, raises it by one when the geometry was computed, and leaves both polylines and the
  signature of the stops unchanged when it leaves the version.\<close>

theorem geometry_version_names_geometry:
  assumes "save_run h es s0 = (ns, s)" "sa_attempts s0 = []" "list_all event_ok es" "Delete_Route r \<notin> set es"
    and "save_do h e s = (Saved q x, s')" "sv_route q = r" "route_geometry_version (ss_routes (sa_store s) r) < 9007199254740991"
  shows "let old = ss_routes (sa_store s) r; new = ss_routes (sa_store s') r in
    route_geometry_version new = route_geometry_version old + 1 \<or>
    (route_geometry_version new = route_geometry_version old \<and>
     (\<forall>k\<in>{''forwardPolyline'', ''reversePolyline'', ''geometrySignature''}. doc_prop new k = doc_prop old k))"
proof -
  obtain k tm g where k: "k < length (sa_attempts s)" "q = at_request (sa_attempts s ! k)" "num_eq (version_of_route r s) (sv_expected q)"
      "ss_routes (sa_store s') = (ss_routes (sa_store s))(r := Some (route_data h tm q (at_existing (sa_attempts s ! k)) (attempt_geometry h (sa_attempts s ! k) g)))"
    using routes_step [OF assms(5)] assms(6) by auto
  define a where "a = sa_attempts s ! k"
  have "attempt_current s a" using attempts_current [OF assms(1,3,4)] assms(2,6) k(1,2) by (simp add: a_def)
  moreover have "\<not> sv_expected q < route_document_version (ss_routes (sa_store s) r)"
  proof -
    obtain i where "version_of_route r s = Fin (of_int i)" using document_version_fin by (metis version_of_route_def)
    then show ?thesis using k(3) less_irrefl_num by (auto simp: num_eq_def version_of_route_def)
  qed
  ultimately have old: "ss_routes (sa_store s) r = at_existing a" using k(2) assms(6) by (auto simp: attempt_current_def Let_def a_def)
  have new: "ss_routes (sa_store s') r = Some (route_data h tm q (at_existing a) (attempt_geometry h a g))" using k(4) by (simp add: a_def)
  have v: "route_geometry_version (ss_routes (sa_store s') r) = next_geometry_version h q (at_existing a)"
    using next_geometry_version assms(7) old new by simp
  show ?thesis
  proof (cases "reused_geometry h q (at_existing a)")
    case None
    then show ?thesis using v old by (simp add: next_geometry_version_def)
  next
    case (Some g')
    then have "attempt_geometry h a g = g'" using k(2) by (simp add: attempt_geometry_def a_def opt_default_def)
    then have "\<forall>k\<in>{''forwardPolyline'', ''reversePolyline'', ''geometrySignature''}. doc_prop (ss_routes (sa_store s') r) k = doc_prop (ss_routes (sa_store s) r) k"
      using reused_fields [OF Some] old new by (simp add: doc_prop_def [of "Some (route_data _ _ _ _ _)"] route_data_get)
    then show ?thesis using v old Some by (simp add: next_geometry_version_def)
  qed
qed

section \<open>What is saved is what is served\<close>

lemma drop_space_idem: "dropWhile P (rev (dropWhile P (rev (dropWhile P s)))) = rev (dropWhile P (rev (dropWhile P s)))"
proof -
  obtain us where us: "dropWhile P s = rev (dropWhile P (rev (dropWhile P s))) @ us"
    by (metis rev_append rev_rev_ident takeWhile_dropWhile_id)
  show ?thesis
  proof (cases "rev (dropWhile P (rev (dropWhile P s)))")
    case (Cons c cs)
    then have "dropWhile P s = c # cs @ us" using us by simp
    then have "\<not> P c" by (simp add: dropWhile_eq_Cons_conv)
    then show ?thesis unfolding Cons by simp
  next
    case Nil
    show ?thesis unfolding Nil by simp
  qed
qed

lemma js_trim_idem [simp]: "js_trim (js_trim s) = js_trim s"
  by (simp add: js_trim_def drop_space_idem)

definition stop_ok :: "saved_stop \<Rightarrow> bool" where
  "stop_ok s \<longleftrightarrow> safe_id (vs_id s) \<and> js_trim (vs_id s) = vs_id s \<and>
     vs_name s \<noteq> [] \<and> length (vs_name s) \<le> 100 \<and> js_trim (vs_name s) = vs_name s \<and>
     vs_short_name s \<noteq> [] \<and> length (vs_short_name s) \<le> 32 \<and> js_trim (vs_short_name s) = vs_short_name s \<and>
     valid_lat_lng (saved_stop_value s) = Some (vs_at s)"

lemma trimmed_trim: "trimmed v = s \<Longrightarrow> js_trim s = s"
  by (cases v) (auto simp: js_trim_def [of "[]"])

lemma valid_position:
  assumes "valid_lat_lng v = Some p" shows "valid_lat_lng (saved_stop_value \<lparr>vs_id = i, vs_name = n, vs_short_name = m, vs_at = p\<rparr>) = Some p"
  using assms by (auto simp: valid_lat_lng_def saved_stop_value_def split: jsval.split_asm if_split_asm)

lemma validated_entries:
  "validate_entries ids vs = Some stops \<Longrightarrow> list_all stop_ok stops \<and> length stops = length vs \<and>
    distinct (map vs_id stops) \<and> set (map vs_id stops) \<inter> set ids = {}"
proof (induction ids vs arbitrary: stops rule: validate_entries.induct)
  case (2 ids stop vs)
  define i where "i = trimmed (js_prop stop ''id'')"
  define name where "name = trimmed (js_prop stop ''name'')"
  define short where "short = trimmed (js_prop stop ''shortName'')"
  have g: "safe_id i" "i \<notin> set ids" "name \<noteq> []" "length name \<le> 100" "short \<noteq> []" "length short \<le> 32"
    using "2.prems" by (auto simp: Let_def i_def name_def short_def split: if_split_asm)
  obtain p rest where p: "valid_lat_lng stop = Some p" "validate_entries (i # ids) vs = Some rest"
      "stops = \<lparr>vs_id = i, vs_name = name, vs_short_name = short, vs_at = p\<rparr> # rest"
    using "2.prems" by (auto simp: Let_def i_def name_def short_def split: if_split_asm option.split_asm)
  have "list_all stop_ok rest \<and> length rest = length vs \<and> distinct (map vs_id rest) \<and> set (map vs_id rest) \<inter> set (i # ids) = {}"
    using "2.IH" [OF i_def name_def short_def _ p(1)] g p(2) by (simp add: i_def)
  moreover have "js_trim i = i" "js_trim name = name" "js_trim short = short"
    by (simp_all add: i_def name_def short_def trimmed_trim)
  ultimately show ?case using g p(3) valid_position [OF p(1)] by (auto simp: stop_ok_def [of "\<lparr>vs_id = _, vs_name = _, vs_short_name = _, vs_at = _\<rparr>"])
qed simp

lemma saved_entries:
  "list_all stop_ok stops \<Longrightarrow> distinct (map vs_id stops) \<Longrightarrow> set (map vs_id stops) \<inter> set ids = {} \<Longrightarrow>
    validate_entries ids (map saved_stop_value stops) = Some stops"
proof (induction stops arbitrary: ids)
  case (Cons s stops)
  have "validate_entries (vs_id s # ids) (map saved_stop_value stops) = Some stops" using Cons by simp
  moreover have "stop_ok s" "vs_id s \<notin> set ids" using Cons.prems by auto
  ultimately show ?case by (simp add: stop_ok_def Let_def) (simp add: saved_stop_value_def)
qed simp

lemma validated_stops:
  assumes "validate_stops v = Some stops"
  shows "list_all stop_ok stops" "2 \<le> length stops" "length stops \<le> 100" "distinct (map vs_id stops)"
    "validate_stops (JArr (map saved_stop_value stops)) = Some stops"
proof -
  obtain vs where vs: "2 \<le> length vs" "length vs \<le> 100" "validate_entries [] vs = Some stops"
    using assms by (auto simp: validate_stops_def max_route_stops_def not_less split: jsval.split_asm if_split_asm)
  note f = validated_entries [OF vs(3)]
  show "list_all stop_ok stops" "2 \<le> length stops" "length stops \<le> 100" "distinct (map vs_id stops)" using f vs by simp_all
  show "validate_stops (JArr (map saved_stop_value stops)) = Some stops"
    using f vs saved_entries [of stops "[]"] by (simp add: validate_stops_def max_route_stops_def)
qed

lemma parse_saved_stop: "stop_ok s \<Longrightarrow> parse_stop (saved_stop_value s) = Some \<lparr>rs_id = vs_id s, rs_at = vs_at s\<rparr>"
  by (auto simp: stop_ok_def parse_stop_def saved_stop_value_def safe_id_def)

lemma parse_saved_stops:
  "list_all stop_ok stops \<Longrightarrow> parse_stops (JArr (map saved_stop_value stops)) = map (\<lambda>s. \<lparr>rs_id = vs_id s, rs_at = vs_at s\<rparr>) stops"
  unfolding parse_stops_def jsval.case by (induction stops) (simp_all add: map_filter_simps parse_saved_stop)

lemma finite_position: "stop_ok s \<Longrightarrow> is_finite (pos_lat (vs_at s)) \<and> is_finite (pos_lng (vs_at s))"
  by (auto simp: stop_ok_def valid_lat_lng_def saved_stop_value_def split: if_split_asm)

lemma saved_endpoints:
  assumes "list_all stop_ok stops" "2 \<le> length stops"
  shows "\<exists>v. endpoint_snapshot_version fixed6 (map stop_value (map (\<lambda>s. \<lparr>rs_id = vs_id s, rs_at = vs_at s\<rparr>) stops)) = Some v"
proof -
  have "list_all (\<lambda>p. p \<noteq> None) (map (endpoint_part fixed6) (map stop_value (map (\<lambda>s. \<lparr>rs_id = vs_id s, rs_at = vs_at s\<rparr>) stops)))"
    using assms(1) finite_position by (auto simp: list_all_iff endpoint_part_def stop_value_def)
  then show ?thesis using assms(2) unfolding endpoint_snapshot_version_def Let_def by simp
qed

lemma stored_polyline: "valid_encoded_polyline (JStr p) \<Longrightarrow> \<exists>path. decode_stored_polyline (JStr p) = Some (p, path)"
  by (auto simp: valid_encoded_polyline_def decode_stored_polyline_def max_encoded_polyline_length_def split: sum.split_asm)

text \<open>C38. A saved route is the route the tracking side works with: its stored stops pass the checks of a save again and
  give back the stops of the request, and the catalog of the telemetry service reads from the stored document those stops
  in order, both polylines, the next version and the signature that the save stored, whenever both polylines decode.\<close>

theorem saved_route_reads_back:
  assumes "read_save_request param body = Inr q" "sv_expected q < 9007199254740991"
    and "valid_encoded_polyline (JStr (dg_forward g))" "valid_encoded_polyline (JStr (dg_reverse g))"
  shows "validate_stops (obj_get (route_data h tm q existing g) ''stops'') = Some (sv_stops q) \<and>
    (\<exists>rt. ce_value (catalog_entry h now (Some (route_data h tm q existing g)) generation) = Some rt \<and>
      map rs_id (rt_stops rt) = map vs_id (sv_stops q) \<and> map rs_at (rt_stops rt) = map vs_at (sv_stops q) \<and>
      rt_forward_polyline rt = dg_forward g \<and> rt_reverse_polyline rt = dg_reverse g \<and> rt_config_version rt = sv_expected q + 1 \<and>
      JStr (rt_geometry_signature rt) = obj_get (route_data h tm q existing g) ''geometrySignature'')"
proof -
  have q: "validate_stops (js_prop body ''stops'') = Some (sv_stops q)" "is_safe_integer (sv_expected q)" "\<not> sv_expected q < 0"
    using assms(1) by (auto simp: read_save_request_def Let_def split: option.split_asm if_split_asm)
  note f = validated_stops [OF q(1)]
  have "0 \<le> sv_expected q" using q(2,3) by (auto elim!: is_safe_integerE simp: zero_fin)
  then have v: "route_document_version (Some (route_data h tm q existing g)) = sv_expected q + 1"
    using saved_version assms(2) q(2) by (simp add: next_version_ok_def)
  obtain f' r' where p: "decode_stored_polyline (JStr (dg_forward g)) = Some (dg_forward g, f')" "decode_stored_polyline (JStr (dg_reverse g)) = Some (dg_reverse g, r')"
    using stored_polyline assms(3,4) by metis
  obtain e where e: "endpoint_snapshot_version (h_fixed6 h) (map stop_value (map (\<lambda>s. \<lparr>rs_id = vs_id s, rs_at = vs_at s\<rparr>) (sv_stops q))) = Some e"
    using saved_endpoints [OF f(1,2)] by blast
  have "map rs_at (map (\<lambda>s. \<lparr>rs_id = vs_id s, rs_at = vs_at s\<rparr>) (sv_stops q)) = map vs_at (sv_stops q)"
    "map rs_id (map (\<lambda>s. \<lparr>rs_id = vs_id s, rs_at = vs_at s\<rparr>) (sv_stops q)) = map vs_id (sv_stops q)" by simp_all
  then show ?thesis using f(5) v p e
    by (simp only: catalog_entry_def Let_def doc_prop_def option.case route_data_get parse_saved_stops [OF f(1)] nullish_def)
      (simp add: route_data_get)
qed

section \<open>A concrete route\<close>

definition demo_body :: jsval where
  "demo_body = JObj [(''name'', JStr ''R''), (''color'', JStr ''#000000''), (''mode'', JStr ''create''), (''saveId'', JStr ''s''), (''expectedVersion'', JNum 0),
     (''stops'', JArr [JObj [(''id'', JStr ''p''), (''name'', JStr ''P''), (''shortName'', JStr ''P''), (''lat'', JNum 0), (''lng'', JNum 0)],
        JObj [(''id'', JStr '' q ''), (''name'', JStr ''Q''), (''shortName'', JStr ''Q''), (''lat'', JNum 0), (''lng'', JNum 0)]])]"

definition demo_save :: save_request where
  "demo_save = \<lparr>sv_route = ''r'', sv_name = ''R'', sv_color = ''#000000'', sv_mode = Create, sv_save_id = ''s'', sv_expected = 0,
     sv_stops = [\<lparr>vs_id = ''p'', vs_name = ''P'', vs_short_name = ''P'', vs_at = \<lparr>pos_lat = 0, pos_lng = 0\<rparr>\<rparr>,
       \<lparr>vs_id = ''q'', vs_name = ''Q'', vs_short_name = ''Q'', vs_at = \<lparr>pos_lat = 0, pos_lng = 0\<rparr>\<rparr>]\<rparr>"

definition demo_edit :: save_request where
  "demo_edit = demo_save\<lparr>sv_mode := Edit, sv_save_id := ''t'', sv_expected := 1\<rparr>"

definition demo_geometry :: dir_geometry where
  "demo_geometry = \<lparr>dg_forward = ''????'', dg_reverse = ''????'', dg_forward_meters = 1, dg_reverse_meters = 1,
     dg_forward_duration = ''1s'', dg_reverse_duration = ''1s''\<rparr>"

lemma demo_request: "read_save_request (JStr ''r'') demo_body = Inr demo_save"
  by (simp add: read_save_request_def demo_body_def demo_save_def Let_def safe_id_def safe_id_char_def is_lower_def is_upper_def is_digit_def
      reserved_document_id_def save_mode_of_def validate_stops_def max_route_stops_def valid_lat_lng_def js_trim_def js_space_def
      safe_color_def hex_digit_def opt_default_def num_eq_def zero_fin)

lemma demo_valid: "valid_encoded_polyline (JStr ''????'')"
  using demo_path by (simp add: valid_encoded_polyline_def decode_stored_polyline_def max_encoded_polyline_length_def split: sum.split_asm if_split_asm)

definition demo_created :: save_state where
  "demo_created = snd (save_run demo_host [Begin_Save JNull (0, 0) ''o'' demo_save, Commit_Attempt 0 JNull demo_geometry] save_start)"

lemma demo_version: "route_document_version (Some (route_data demo_host tm demo_save None g)) = 1"
  by (subst saved_version) (simp_all add: next_version_ok_def demo_save_def zero_fin one_fin max_safe_def)

lemma demo_create:
  "save_run demo_host [Begin_Save JNull (0, 0) ''o'' demo_save, Commit_Attempt 0 JNull demo_geometry] save_start =
    ([Answered demo_save (Claimed None), Saved demo_save (save_result demo_host demo_save None demo_geometry)], demo_created)"
  "ss_routes (sa_store demo_created) ''r'' = Some (route_data demo_host JNull demo_save None demo_geometry)"
  "ss_operations (sa_store demo_created) ''t'' = None" "ss_rides (sa_store demo_created) = []" "ss_locks (sa_store demo_created) = []"
  "length (sa_attempts demo_created) = 1"
proof -
  obtain st where st: "save_run demo_host [Begin_Save JNull (0, 0) ''o'' demo_save, Commit_Attempt 0 JNull demo_geometry] save_start =
     ([Answered demo_save (Claimed None), Saved demo_save (save_result demo_host demo_save None demo_geometry)], st)"
     "ss_routes (sa_store st) ''r'' = Some (route_data demo_host JNull demo_save None demo_geometry)"
     "ss_operations (sa_store st) ''t'' = None" "ss_rides (sa_store st) = []" "ss_locks (sa_store st) = []" "length (sa_attempts st) = 1"
    by (simp add: save_start_def claim_save_def decide_route_save_operation_def Let_def commit_save_def owns_operation_def claimed_operation_def
        doc_prop_def attempt_geometry_def reused_geometry_def opt_default_def route_document_version_def num_eq_def demo_save_def zero_fin)
  then have "st = demo_created" by (simp add: demo_created_def)
  then show
    "save_run demo_host [Begin_Save JNull (0, 0) ''o'' demo_save, Commit_Attempt 0 JNull demo_geometry] save_start =
      ([Answered demo_save (Claimed None), Saved demo_save (save_result demo_host demo_save None demo_geometry)], demo_created)"
    "ss_routes (sa_store demo_created) ''r'' = Some (route_data demo_host JNull demo_save None demo_geometry)"
    "ss_operations (sa_store demo_created) ''t'' = None" "ss_rides (sa_store demo_created) = []" "ss_locks (sa_store demo_created) = []"
    "length (sa_attempts demo_created) = 1"
    using st by simp_all
qed

theorem saved_route_reads_back_witness:
  "read_save_request (JStr ''r'') demo_body = Inr demo_save \<and>
   (\<exists>rt. ce_value (catalog_entry demo_host 0 (Some (route_data demo_host JNull demo_save None demo_geometry)) 1) = Some rt \<and>
      map rs_id (rt_stops rt) = [''p'', ''q''] \<and> rt_forward_polyline rt = ''????'')"
proof -
  have "sv_expected demo_save < 9007199254740991" by (simp add: demo_save_def zero_fin)
  moreover have "valid_encoded_polyline (JStr (dg_forward demo_geometry))" "valid_encoded_polyline (JStr (dg_reverse demo_geometry))"
    using demo_valid by (simp_all add: demo_geometry_def)
  ultimately show ?thesis
    using saved_route_reads_back [OF demo_request, of demo_geometry demo_host JNull None 0 1] demo_request
    by (auto simp: demo_save_def demo_geometry_def)
qed

theorem save_applied_once_witness:
  "length (filter (saved_under ''s'') [Answered demo_save (Claimed None), Saved demo_save (save_result demo_host demo_save None demo_geometry)]) \<le> 1 \<and>
   fst (claim_save demo_host JNull (1, 1) ''p'' demo_save (sa_store demo_created)) = Decided (Replay (save_result demo_host demo_save None demo_geometry))"
proof -
  have "\<forall>i. ss_operations (sa_store save_start) i = None" by (simp add: save_start_def)
  note w = save_applied_once [OF demo_create(1) this, of "''s''"]
  have "sv_save_id demo_save = ''s''" by (simp add: demo_save_def)
  then show ?thesis using w by simp
qed

theorem no_lost_update_witness:
  "length (filter (saved_at ''r'' 0) (fst (save_run demo_host [Begin_Save JNull (0, 0) ''o'' demo_save, Commit_Attempt 0 JNull demo_geometry] save_start))) = 1 \<and>
   length (filter (saved_at ''r'' 0) (fst (save_run demo_host [Begin_Save JNull (0, 0) ''o'' demo_save, Commit_Attempt 0 JNull demo_geometry] save_start))) \<le> 1"
proof -
  have "sa_attempts save_start = []" by (simp add: save_start_def)
  moreover have "list_all event_ok [Begin_Save JNull (0, 0) ''o'' demo_save, Commit_Attempt 0 JNull demo_geometry]"
    by (simp add: next_version_ok_def demo_save_def zero_fin max_safe_def)
  ultimately have "length (filter (saved_at ''r'' 0) [Answered demo_save (Claimed None), Saved demo_save (save_result demo_host demo_save None demo_geometry)]) \<le> 1"
    using no_lost_update [OF demo_create(1), of "''r''" 0] by simp
  moreover have "saved_at ''r'' 0 (Saved demo_save (save_result demo_host demo_save None demo_geometry))" by (simp add: demo_save_def num_eq_def zero_fin)
  ultimately show ?thesis unfolding demo_create(1) by simp
qed

lemma save_run_append:
  "save_run h (xs @ ys) s = (case save_run h xs s of (ns, s1) \<Rightarrow> (case save_run h ys s1 of (ms, s2) \<Rightarrow> (ns @ ms, s2)))"
  by (induction xs arbitrary: s) (auto split: prod.splits)

definition demo_claim :: "save_state \<times> save_note" where
  "demo_claim = prod.swap (save_do demo_host (Begin_Save JNull (0, 0) ''o'' demo_edit) demo_created)"

lemma demo_edit_claimed:
  "save_do demo_host (Begin_Save JNull (0, 0) ''o'' demo_edit) demo_created = (snd demo_claim, fst demo_claim)"
  "\<exists>x s'. save_do demo_host (Commit_Attempt 1 JNull demo_geometry) (fst demo_claim) = (Saved demo_edit x, s')"
proof -
  show "save_do demo_host (Begin_Save JNull (0, 0) ''o'' demo_edit) demo_created = (snd demo_claim, fst demo_claim)"
    by (simp add: demo_claim_def prod.swap_def)
  have e: "sv_route demo_edit = ''r''" "sv_save_id demo_edit = ''t''" "sv_mode demo_edit = Edit" "sv_expected demo_edit = 1"
    by (simp_all add: demo_edit_def demo_save_def)
  have c: "claim_save demo_host JNull (0, 0) ''o'' demo_edit (sa_store demo_created) =
      (Claimed (Some (route_data demo_host JNull demo_save None demo_geometry)), (sa_store demo_created)\<lparr>ss_operations :=
        (ss_operations (sa_store demo_created))(''t'' \<mapsto> claimed_operation demo_host JNull 0 ''o'' demo_edit None)\<rparr>)"
    using demo_version by (simp add: claim_save_def e demo_create decide_route_save_operation_def ride_owns_route_def num_eq_def one_fin)
  define s where "s = fst demo_claim"
  have s: "sa_store s = (sa_store demo_created)\<lparr>ss_operations :=
        (ss_operations (sa_store demo_created))(''t'' \<mapsto> claimed_operation demo_host JNull 0 ''o'' demo_edit None)\<rparr>"
    "sa_attempts s = sa_attempts demo_created @ [\<lparr>at_request = demo_edit, at_owner = ''o'', at_existing = Some (route_data demo_host JNull demo_save None demo_geometry)\<rparr>]"
    unfolding s_def demo_claim_def save_do.simps c prod.case by (simp_all add: prod.swap_def)
  have "sa_attempts s ! 1 = \<lparr>at_request = demo_edit, at_owner = ''o'', at_existing = Some (route_data demo_host JNull demo_save None demo_geometry)\<rparr>"
    "1 < length (sa_attempts s)"
    using demo_create(6) s(2) by (simp_all add: nth_append)
  moreover have "commit_save demo_host JNull ''o'' demo_edit x g (sa_store s) \<noteq> Inl err" for x g err
    using demo_version by (simp add: commit_save_def owns_operation_def s(1) e claimed_operation_def doc_prop_def [of "Some [_, _, _, _, _, _, _, _]"] demo_create ride_owns_route_def Let_def num_eq_def one_fin)
  ultimately show "\<exists>x s'. save_do demo_host (Commit_Attempt 1 JNull demo_geometry) (fst demo_claim) = (Saved demo_edit x, s')"
    unfolding s_def by (auto simp: Let_def split: sum.split)
qed

theorem geometry_version_names_geometry_witness:
  "\<exists>x s s'. save_do demo_host (Commit_Attempt 1 JNull demo_geometry) s = (Saved demo_edit x, s') \<and>
     ss_routes (sa_store s) ''r'' \<noteq> None \<and>
     (let old = ss_routes (sa_store s) ''r''; new = ss_routes (sa_store s') ''r'' in
       route_geometry_version new = route_geometry_version old + 1 \<or>
       (route_geometry_version new = route_geometry_version old \<and>
        (\<forall>k\<in>{''forwardPolyline'', ''reversePolyline'', ''geometrySignature''}. doc_prop new k = doc_prop old k)))"
proof -
  obtain x s' where d: "save_do demo_host (Commit_Attempt 1 JNull demo_geometry) (fst demo_claim) = (Saved demo_edit x, s')"
    using demo_edit_claimed(2) by blast
  obtain ns where r: "save_run demo_host ([Begin_Save JNull (0, 0) ''o'' demo_save, Commit_Attempt 0 JNull demo_geometry] @
      [Begin_Save JNull (0, 0) ''o'' demo_edit]) save_start = (ns, fst demo_claim)"
    unfolding save_run_append demo_create(1) prod.case unfolding save_run.simps demo_edit_claimed(1) prod.case by blast
  have "ss_routes (sa_store (fst demo_claim)) ''r'' = Some (route_data demo_host JNull demo_save None demo_geometry)"
    using demo_create(2) routes_step [OF demo_edit_claimed(1)] by auto
  moreover from this have "route_geometry_version (ss_routes (sa_store (fst demo_claim)) ''r'') < 9007199254740991"
    by (simp add: next_geometry_version route_geometry_version_def [of None] doc_prop_def [of None] zero_fin)
      (simp add: next_geometry_version_def reused_geometry_def route_geometry_version_def doc_prop_def zero_fin one_fin)
  moreover have "sa_attempts save_start = []" "sv_route demo_edit = ''r''"
      "list_all event_ok ([Begin_Save JNull (0, 0) ''o'' demo_save, Commit_Attempt 0 JNull demo_geometry] @ [Begin_Save JNull (0, 0) ''o'' demo_edit])"
    by (simp_all add: save_start_def next_version_ok_def demo_save_def demo_edit_def zero_fin one_fin max_safe_def)
  ultimately have "let old = ss_routes (sa_store (fst demo_claim)) ''r''; new = ss_routes (sa_store s') ''r'' in
       route_geometry_version new = route_geometry_version old + 1 \<or>
       (route_geometry_version new = route_geometry_version old \<and>
        (\<forall>k\<in>{''forwardPolyline'', ''reversePolyline'', ''geometrySignature''}. doc_prop new k = doc_prop old k))"
    using geometry_version_names_geometry [OF r _ _ _ d, of "''r''"] by simp
  then show ?thesis using d \<open>ss_routes (sa_store (fst demo_claim)) ''r'' = Some _\<close> by blast
qed

end
