(* ===== verification/Http_Operations.thy ===== *)
theory Http_Operations imports Route_Save begin

text \<open>
  Durable admin operations (\<open>services/httpOperations.ts\<close>): a submission claims a record under its key, one
  executor runs it once, checkpoints and the outcome are written only by the owner of the record, and an operator
  may abandon the work of a stopped executor. The single flight and the bounded executor in front of it are
  \<open>Read_Cache\<close> and \<open>Keyed_Executor\<close>; here their answers (is the admission current, is the time budget left) are
  arguments. A merge of the database merges the one nested map that is written twice, \<open>progress\<close>.
\<close>

section \<open>Records\<close>

definition operation_id :: "string \<Rightarrow> bool" where
  "operation_id s \<longleftrightarrow> 16 \<le> length s \<and> length s \<le> 128 \<and> list_all safe_id_char s"

definition generation_of_operation :: "fields \<Rightarrow> jsnum" where
  "generation_of_operation data = (case obj_get data ''generation'' of JNum g \<Rightarrow> (if is_safe_integer g \<and> g > 0 then g else 0) | _ \<Rightarrow> 0)"

definition executor_of :: "fields \<Rightarrow> string" where
  "executor_of data = (case obj_get data ''executorId'' of JStr x \<Rightarrow> x | _ \<Rightarrow> ''legacy'')"

definition operation_expired :: "host \<Rightarrow> jsnum \<Rightarrow> fields \<Rightarrow> bool" where
  "operation_expired h now data \<longleftrightarrow> (let t = js_number (h_parse h) (obj_get data ''deadlineAt'') in \<not> is_finite t \<or> t \<le> now)"

definition settled_status :: "jsval \<Rightarrow> bool" where
  "settled_status v \<longleftrightarrow> v = JStr ''succeeded'' \<or> v = JStr ''failed''"

text \<open>\<open>String(v)\<close>.\<close>

fun comma_joined :: "string list \<Rightarrow> string" where
  "comma_joined [] = []"
| "comma_joined [s] = s"
| "comma_joined (s # ss) = s @ '','' @ comma_joined ss"

fun js_to_string :: "host \<Rightarrow> jsval \<Rightarrow> string" where
  "js_to_string h JUndef = ''undefined''"
| "js_to_string h JNull = ''null''"
| "js_to_string h (JBool b) = (if b then ''true'' else ''false'')"
| "js_to_string h (JNum n) = h_string h n"
| "js_to_string h (JStr s) = s"
| "js_to_string h (JArr vs) = comma_joined (map (\<lambda>v. if v = JUndef \<or> v = JNull then [] else js_to_string h v) vs)"
| "js_to_string h (JObj fs) = ''[object Object]''"

definition operation_phases :: "string list" where
  "operation_phases = [''claimed'', ''executing'', ''locking'', ''authorizing'']"

definition count_value :: "jsval \<Rightarrow> bool" where
  "count_value v \<longleftrightarrow> (case v of JNum n \<Rightarrow> is_safe_integer n \<and> n \<ge> 0 | _ \<Rightarrow> False)"

fun safe_id_value :: "jsval \<Rightarrow> bool" where
  "safe_id_value (JStr s) \<longleftrightarrow> safe_id s"
| "safe_id_value _ \<longleftrightarrow> False"

definition public_progress :: "host \<Rightarrow> jsval \<Rightarrow> fields option" where
  "public_progress h raw =
    (if \<not> truthy raw \<or> js_to_string h (js_prop raw ''phase'') \<notin> set operation_phases then None
     else Some ([(''phase'', js_prop raw ''phase'')] @
       (case js_prop raw ''cursor'' of JStr c \<Rightarrow> (if c = [] \<or> safe_id c then [(''cursor'', JStr c)] else []) | _ \<Rightarrow> []) @
       map (\<lambda>k. (k, js_prop raw k)) (filter (\<lambda>k. count_value (js_prop raw k)) [''checked'', ''repaired'', ''failed'']) @
       (case js_prop raw ''batchDriverIds'' of JArr vs \<Rightarrow> [(''batchDriverIds'', JArr (take 10 (filter safe_id_value vs)))] | _ \<Rightarrow> [])))"

definition operation_snapshot :: "host \<Rightarrow> jsnum \<Rightarrow> string \<Rightarrow> fields \<Rightarrow> fields" where
  "operation_snapshot h now i data =
    (let status = (if settled_status (obj_get data ''status'') then obj_get data ''status'' else JStr ''processing'');
       processing = (status = JStr ''processing'');
       recovery = (processing \<and> (obj_get data ''phase'' = JStr ''recovery_required'' \<or> operation_expired h now data)) in
     [(''operationId'', JStr i), (''status'', status)] @
     (if \<not> processing \<and> obj_get data ''result'' \<noteq> JUndef then [(''result'', obj_get data ''result'')] else []) @
     (if status = JStr ''failed'' \<and> truthy (obj_get data ''error'') then [(''error'', obj_get data ''error'')] else []) @
     (case public_progress h (obj_get data ''progress'') of Some p \<Rightarrow> [(''progress'', JObj p)] | None \<Rightarrow> []) @
     (if processing then [(''retryAfterMs'', JNum 1000)] else []) @
     (if recovery then [(''outcomeUnknown'', JBool True), (''recovery'', JObj [(''required'', JBool True), (''executorId'', JStr (executor_of data)),
        (''generation'', JNum (generation_of_operation data)), (''requiresStoppedExecutor'', JBool True)])] else []))"

section \<open>Writes\<close>

datatype operation_error = Operation_Conflict | Operations_Unavailable | Operation_Recovery_Conflict

type_synonym operations = "string \<Rightarrow> fields option"

definition merge_record :: "fields option \<Rightarrow> fields \<Rightarrow> fields option" where
  "merge_record doc patch = merge_doc doc (map (\<lambda>(k, v). (k, merge_field (doc_prop doc k) v)) patch)"

definition owns_record :: "string \<Rightarrow> jsnum \<Rightarrow> fields option \<Rightarrow> bool" where
  "owns_record executor generation doc \<longleftrightarrow> (case doc of
      None \<Rightarrow> False
    | Some data \<Rightarrow> obj_get data ''status'' = JStr ''processing'' \<and> obj_get data ''executorId'' = JStr executor \<and>
        num_eq (generation_of_operation data) generation)"

definition write_owned :: "string \<Rightarrow> jsnum \<Rightarrow> string \<Rightarrow> fields \<Rightarrow> operations \<Rightarrow> operation_error + operations" where
  "write_owned executor generation i patch docs =
    (if \<not> owns_record executor generation (docs i) then Inl Operation_Recovery_Conflict
     else Inr (docs(i := merge_record (docs i) patch)))"

definition operation_payload_hash :: "host \<Rightarrow> jsval \<Rightarrow> string" where
  "operation_payload_hash h payload = h_sha256 h (h_json h payload)"

text \<open>The first read of a submission: a replay, a conflict, or on to the claim.\<close>

definition replay_operation :: "host \<Rightarrow> jsnum \<Rightarrow> string \<Rightarrow> string \<Rightarrow> bool \<Rightarrow> operations \<Rightarrow> operation_error + fields option" where
  "replay_operation h now i hash is_current docs = (case docs i of
      Some data \<Rightarrow> (if obj_get data ''payloadHash'' \<noteq> JStr hash then Inl Operation_Conflict else Inr (Some (operation_snapshot h now i data)))
    | None \<Rightarrow> (if is_current then Inr None else Inl Operations_Unavailable))"

definition claimed_record :: "jsval \<Rightarrow> jsnum \<Rightarrow> jsnum \<Rightarrow> jsval \<Rightarrow> string \<Rightarrow> string \<Rightarrow> fields" where
  "claimed_record server_time now budget uid executor hash =
    [(''payloadHash'', JStr hash), (''adminUid'', nullish uid JNull), (''status'', JStr ''processing''), (''phase'', JStr ''claimed''),
     (''progress'', JObj [(''phase'', JStr ''claimed'')]), (''executorId'', JStr executor), (''generation'', JNum 1),
     (''deadlineAt'', JNum (now + budget)), (''createdAt'', server_time)]"

text \<open>The claim: true with the new record, or false with the one that is there.\<close>

definition claim_operation ::
    "jsval \<Rightarrow> jsnum \<Rightarrow> jsnum \<Rightarrow> jsval \<Rightarrow> string \<Rightarrow> string \<Rightarrow> string \<Rightarrow> bool \<Rightarrow> operations \<Rightarrow> operation_error + (bool \<times> fields \<times> operations)" where
  "claim_operation server_time now budget uid executor i hash is_current docs = (case docs i of
      Some data \<Rightarrow> (if obj_get data ''payloadHash'' \<noteq> JStr hash then Inl Operation_Conflict else Inr (False, data, docs))
    | None \<Rightarrow> (if \<not> is_current then Inl Operations_Unavailable
        else (let data = claimed_record server_time now budget uid executor hash in Inr (True, data, docs(i := Some data)))))"

definition operation_failure :: "string \<Rightarrow> string \<Rightarrow> fields \<Rightarrow> jsval" where
  "operation_failure code text extra = JObj ([(''code'', JStr code), (''error'', JStr text)] @ extra)"

definition not_started :: "jsval \<Rightarrow> fields" where
  "not_started server_time = [(''status'', JStr ''failed''), (''phase'', JStr ''not_started''),
     (''error'', operation_failure ''OPERATION_ADMISSION_EXPIRED'' ''Admission expired before external work started.'' []), (''completedAt'', server_time)]"

definition checkpoint_patch :: "jsval \<Rightarrow> fields \<Rightarrow> fields" where
  "checkpoint_patch server_time progress =
    [(''phase'', obj_get progress ''phase''), (''progress'', JObj progress), (''progressAt'', server_time)]"

text \<open>The outcome of the work: a result, an error, or neither; a throw is an error of its own.\<close>

record operation_outcome =
  oo_result :: jsval
  oo_error :: jsval

definition thrown_outcome :: operation_outcome where
  "thrown_outcome = \<lparr>oo_result = JUndef, oo_error = operation_failure ''OPERATION_FAILED''
     ''Inspect the operation and recovery status before retrying.'' unknown_outcome\<rparr>"

definition outcome_patch :: "jsval \<Rightarrow> operation_outcome \<Rightarrow> fields" where
  "outcome_patch server_time out = [(''status'', JStr (if truthy (oo_error out) then ''failed'' else ''succeeded'')), (''phase'', JStr ''completed'')] @
     (if oo_result out \<noteq> JUndef then [(''result'', oo_result out)] else []) @
     (if oo_error out \<noteq> JUndef then [(''error'', oo_error out)] else []) @ [(''completedAt'', server_time)]"

text \<open>A read also classifies an expired record that this process does not execute.\<close>

definition read_raw_operation :: "host \<Rightarrow> jsval \<Rightarrow> jsnum \<Rightarrow> bool \<Rightarrow> string \<Rightarrow> operations \<Rightarrow> fields option \<times> operations" where
  "read_raw_operation h server_time now locally_executing i docs = (case docs i of
      None \<Rightarrow> (None, docs)
    | Some data \<Rightarrow>
       (if obj_get data ''status'' = JStr ''processing'' \<and> operation_expired h now data \<and> obj_get data ''phase'' \<noteq> JStr ''recovery_required'' \<and> \<not> locally_executing
        then (Some (operation_snapshot h now i (put_all data [(''phase'', JStr ''recovery_required'')])),
          docs(i := merge_record (docs i) [(''phase'', JStr ''recovery_required''), (''recoveryDetectedAt'', server_time)]))
        else (Some (operation_snapshot h now i data), docs)))"

definition recovered_patch :: "jsval \<Rightarrow> string \<Rightarrow> jsnum \<Rightarrow> fields" where
  "recovered_patch server_time uid generation = [(''status'', JStr ''failed''), (''phase'', JStr ''recovered''), (''generation'', JNum (generation + 1)),
     (''error'', operation_failure ''OPERATION_ABANDONED_AFTER_EXECUTOR_STOP''
        ''Prior execution has an unknown outcome; audit effects before a deliberate new-key submission.'' unknown_outcome),
     (''recoveredBy'', JStr uid), (''executorStopped'', JBool True), (''recoveredAt'', server_time), (''completedAt'', server_time)]"

record recovery_request =
  rr_executor :: string
  rr_generation :: jsnum
  rr_stopped :: bool
  rr_uid :: string

definition recover_operation ::
    "host \<Rightarrow> jsval \<Rightarrow> jsnum \<Rightarrow> bool \<Rightarrow> bool \<Rightarrow> recovery_request \<Rightarrow> string \<Rightarrow> operations \<Rightarrow> operation_error + (fields \<times> operations)" where
  "recover_operation h server_time now locally_executing is_current rq i docs =
    (if \<not> rr_stopped rq \<or> rr_uid rq = [] \<or> \<not> is_safe_integer (rr_generation rq) \<or> rr_generation rq < 0 \<or> locally_executing
     then Inl Operation_Recovery_Conflict
     else (case docs i of
        None \<Rightarrow> Inl Operation_Recovery_Conflict
      | Some data \<Rightarrow>
         (if obj_get data ''status'' \<noteq> JStr ''processing'' \<or> \<not> operation_expired h now data \<or> executor_of data \<noteq> rr_executor rq \<or>
             \<not> num_eq (generation_of_operation data) (rr_generation rq) \<or> \<not> is_current then Inl Operation_Recovery_Conflict
          else (let patch = recovered_patch server_time (rr_uid rq) (generation_of_operation data) in
            Inr (operation_snapshot h now i (put_all data patch), docs(i := merge_record (docs i) patch))))))"

text \<open>One page of the operations under way, in the order of their ids, after the cursor.\<close>

definition operation_page_size :: nat where "operation_page_size = 25"

definition list_recoverable_operations :: "host \<Rightarrow> jsnum \<Rightarrow> string option \<Rightarrow> (string \<times> fields) list \<Rightarrow> fields list \<times> string option" where
  "list_recoverable_operations h now cursor docs =
    (let page = take operation_page_size (filter (\<lambda>(i, data). obj_get data ''status'' = JStr ''processing'' \<and>
         (case cursor of Some c \<Rightarrow> c \<noteq> [] \<longrightarrow> lexordp (\<lambda>x y. (of_char x :: nat) < of_char y) c i | None \<Rightarrow> True)) docs) in
     (map (\<lambda>(i, data). operation_snapshot h now i data) page, if length page = operation_page_size then Some (fst (last page)) else None))"

section \<open>The fleet lock\<close>

record linked_records =
  ln_job :: "fields option"
  ln_job_local :: bool
  ln_privacy :: "fields option"
  ln_privacy_local :: bool

definition read_fleet_lock :: "host \<Rightarrow> fields option \<Rightarrow> fields option" where
  "read_fleet_lock h doc = map_option (\<lambda>data. [(''owner'', JStr (js_to_string h (obj_get data ''owner''))), (''executorId'', JStr (executor_of data)),
     (''operationId'', case obj_get data ''operationId'' of JStr i \<Rightarrow> JStr i | _ \<Rightarrow> JNull)] @
     (case obj_get data ''auditOperationId'' of JStr i \<Rightarrow> [(''auditOperationId'', JStr i)] | _ \<Rightarrow> []) @
     (case obj_get data ''privacyRequestId'' of JStr i \<Rightarrow> [(''privacyRequestId'', JStr i)] | _ \<Rightarrow> [])) doc"

text \<open>The lock is released only when the work that is linked to it is settled and not executing here; an audit
  record is written with it.\<close>

definition recover_fleet_lock ::
    "host \<Rightarrow> jsval \<Rightarrow> string \<Rightarrow> bool \<Rightarrow> string \<Rightarrow> bool \<Rightarrow> bool \<Rightarrow> linked_records \<Rightarrow> fields option \<Rightarrow> operation_error + fields" where
  "recover_fleet_lock h server_time expected_owner stopped uid owned_here is_current lk doc =
    (if uid = [] \<or> \<not> stopped \<or> expected_owner = [] \<or> owned_here then Inl Operation_Recovery_Conflict
     else (case doc of
        None \<Rightarrow> Inl Operation_Recovery_Conflict
      | Some data \<Rightarrow>
         (let job_linked = (str_of (obj_get data ''operationId'') \<noteq> None); privacy_linked = (str_of (obj_get data ''privacyRequestId'') \<noteq> None);
            job_status = (if \<not> job_linked then JNull else case ln_job lk of Some j \<Rightarrow> JStr (js_to_string h (obj_get j ''status'')) | None \<Rightarrow> JStr ''missing'');
            privacy_status = (if \<not> privacy_linked then JNull else case ln_privacy lk of Some r \<Rightarrow> JStr (js_to_string h (obj_get r ''status'')) | None \<Rightarrow> JStr ''missing'') in
          if obj_get data ''owner'' \<noteq> JStr expected_owner then Inl Operation_Recovery_Conflict
          else if job_linked \<and> ((ln_job lk \<noteq> None \<and> \<not> settled_status job_status) \<or> ln_job_local lk) then Inl Operation_Recovery_Conflict
          else if privacy_linked \<and> (privacy_status = JStr ''processing'' \<or> ln_privacy_local lk) then Inl Operation_Recovery_Conflict
          else if \<not> is_current then Inl Operation_Recovery_Conflict
          else Inr [(''owner'', obj_get data ''owner''), (''executorId'', JStr (executor_of data)), (''operationId'', nullish (obj_get data ''operationId'') JNull),
            (''linkedOperationStatus'', job_status), (''auditOperationId'', nullish (obj_get data ''auditOperationId'') JNull),
            (''privacyRequestId'', nullish (obj_get data ''privacyRequestId'') JNull), (''linkedPrivacyStatus'', privacy_status),
            (''recoveredBy'', JStr uid), (''executorStopped'', JBool True), (''recoveredAt'', server_time)])))"

section \<open>Executions\<close>

text \<open>
  The operations of one collection and the executions of all processes. An execution is what follows a claim that
  created its record; a process that stops loses its executions. Reads, recoveries and the retention sweep come at any time.
\<close>

datatype execution_phase = Claimed_Now | Executing | Finished

record execution =
  xc_id :: string
  xc_executor :: string
  xc_phase :: execution_phase

record operation_state =
  os_docs :: operations
  os_executions :: "execution list"

datatype operation_event =
    Submit jsval jsnum jsnum jsval string string string bool
  | Start nat jsval bool bool
  | Checkpoint nat jsval fields bool
  | Finish nat jsval operation_outcome
  | Stop_Executor string
  | Read_Operation jsval jsnum string string
  | Recover jsval jsnum string bool recovery_request string
  | Sweep_Record string

datatype operation_note = Created string | External_Work string | Outcome_Written string | Recovered string | Quiet

definition executing_here :: "string \<Rightarrow> string \<Rightarrow> operation_state \<Rightarrow> bool" where
  "executing_here executor i s \<longleftrightarrow> list_ex (\<lambda>x. xc_id x = i \<and> xc_executor x = executor \<and> xc_phase x \<noteq> Finished) (os_executions s)"

definition set_phase :: "nat \<Rightarrow> execution_phase \<Rightarrow> operation_state \<Rightarrow> operation_state" where
  "set_phase k ph s = s\<lparr>os_executions := (os_executions s)[k := (os_executions s ! k)\<lparr>xc_phase := ph\<rparr>]\<rparr>"

definition write_run :: "execution \<Rightarrow> fields \<Rightarrow> operation_state \<Rightarrow> bool \<times> operation_state" where
  "write_run x patch s = (case write_owned (xc_executor x) 1 (xc_id x) patch (os_docs s) of
      Inl e \<Rightarrow> (False, s) | Inr docs \<Rightarrow> (True, s\<lparr>os_docs := docs\<rparr>))"

text \<open>The end of an execution: the outcome is written if the record is still owned, else it is lost.\<close>

definition finish_run :: "nat \<Rightarrow> jsval \<Rightarrow> operation_outcome \<Rightarrow> operation_state \<Rightarrow> operation_note \<times> operation_state" where
  "finish_run k server_time out s = (case write_run (os_executions s ! k) (outcome_patch server_time out) s of
      (written, s1) \<Rightarrow> (if written then Outcome_Written (xc_id (os_executions s ! k)) else Quiet, set_phase k Finished s1))"

fun operation_do :: "host \<Rightarrow> operation_event \<Rightarrow> operation_state \<Rightarrow> operation_note \<times> operation_state" where
  "operation_do h (Submit tm now budget uid executor i hash is_current) s =
    (case claim_operation tm now budget uid executor i hash is_current (os_docs s) of
       Inl e \<Rightarrow> (Quiet, s)
     | Inr (created, data, docs) \<Rightarrow> (if created then (Created i, s\<lparr>os_docs := docs,
         os_executions := os_executions s @ [\<lparr>xc_id = i, xc_executor = executor, xc_phase = Claimed_Now\<rparr>]\<rparr>) else (Quiet, s)))"
| "operation_do h (Start k tm is_current in_budget) s =
    (if k < length (os_executions s) \<and> xc_phase (os_executions s ! k) = Claimed_Now then
       (let x = os_executions s ! k in
        if \<not> is_current then (Quiet, set_phase k Finished (snd (write_run x (not_started tm) s)))
        else (case write_run x (checkpoint_patch tm [(''phase'', JStr ''executing'')]) s of
          (ok, s1) \<Rightarrow> (if ok \<and> in_budget then (External_Work (xc_id x), set_phase k Executing s1) else finish_run k tm thrown_outcome s1)))
     else (Quiet, s))"
| "operation_do h (Checkpoint k tm progress in_budget) s =
    (if k < length (os_executions s) \<and> xc_phase (os_executions s ! k) = Executing \<and> in_budget
     then (Quiet, snd (write_run (os_executions s ! k) (checkpoint_patch tm progress) s)) else (Quiet, s))"
| "operation_do h (Finish k tm out) s =
    (if k < length (os_executions s) \<and> xc_phase (os_executions s ! k) = Executing then finish_run k tm out s else (Quiet, s))"
| "operation_do h (Stop_Executor executor) s =
    (Quiet, s\<lparr>os_executions := map (\<lambda>x. if xc_executor x = executor then x\<lparr>xc_phase := Finished\<rparr> else x) (os_executions s)\<rparr>)"
| "operation_do h (Read_Operation tm now executor i) s =
    (Quiet, s\<lparr>os_docs := snd (read_raw_operation h tm now (executing_here executor i s) i (os_docs s))\<rparr>)"
| "operation_do h (Recover tm now executor is_current rq i) s =
    (case recover_operation h tm now (executing_here executor i s) is_current rq i (os_docs s) of
       Inl e \<Rightarrow> (Quiet, s) | Inr (snapshot, docs) \<Rightarrow> (Recovered i, s\<lparr>os_docs := docs\<rparr>))"
| "operation_do h (Sweep_Record i) s = (Quiet, s\<lparr>os_docs := (os_docs s)(i := None)\<rparr>)"

fun operation_run :: "host \<Rightarrow> operation_event list \<Rightarrow> operation_state \<Rightarrow> operation_note list \<times> operation_state" where
  "operation_run h [] s = ([], s)"
| "operation_run h (e # es) s = (case operation_do h e s of (n, s1) \<Rightarrow> (case operation_run h es s1 of (ns, s2) \<Rightarrow> (n # ns, s2)))"

definition operation_start :: operation_state where
  "operation_start = \<lparr>os_docs = \<lambda>_. None, os_executions = []\<rparr>"

section \<open>One execution, one outcome\<close>

definition record_there :: "string \<Rightarrow> operation_state \<Rightarrow> bool" where
  "record_there i s \<longleftrightarrow> os_docs s i \<noteq> None"

definition record_settled :: "string \<Rightarrow> operation_state \<Rightarrow> bool" where
  "record_settled i s \<longleftrightarrow> settled_status (doc_prop (os_docs s i) ''status'')"

definition live_record :: "string \<Rightarrow> operation_state \<Rightarrow> bool" where
  "live_record i s \<longleftrightarrow> record_there i s \<and> \<not> record_settled i s"

definition pending_runs :: "string \<Rightarrow> operation_state \<Rightarrow> nat" where
  "pending_runs i s = length (filter (\<lambda>x. xc_id x = i \<and> xc_phase x = Claimed_Now) (os_executions s))"

fun settles :: "string \<Rightarrow> operation_note \<Rightarrow> bool" where
  "settles i (Outcome_Written j) \<longleftrightarrow> j = i"
| "settles i (Recovered j) \<longleftrightarrow> j = i"
| "settles i _ \<longleftrightarrow> False"

lemma merge_record_prop:
  "doc_prop (merge_record doc patch) k = (case map_of (rev patch) k of Some v \<Rightarrow> merge_field (doc_prop doc k) v | None \<Rightarrow> doc_prop doc k)"
proof -
  have "map_of (rev (map (\<lambda>(k, v). (k, merge_field (doc_prop doc k) v)) patch)) k = map_option (merge_field (doc_prop doc k)) (map_of (rev patch) k)"
    by (induction patch) (auto simp: map_add_def split: option.splits)
  then show ?thesis by (simp add: merge_record_def merge_props opt_default_def split: option.split)
qed

text \<open>What a write of the owner leaves: only the record changed, and it was not settled.\<close>

lemma write_runE:
  assumes "write_run x patch s = (b, s')"
  obtains "\<not> b" "s' = s"
    | "b" "s' = s\<lparr>os_docs := (os_docs s)(xc_id x := merge_record (os_docs s (xc_id x)) patch)\<rparr>" "record_there (xc_id x) s" "\<not> record_settled (xc_id x) s"
proof (cases "owns_record (xc_executor x) 1 (os_docs s (xc_id x))")
  case True
  then have "record_there (xc_id x) s" "\<not> record_settled (xc_id x) s"
    by (auto simp: owns_record_def record_there_def record_settled_def settled_status_def doc_prop_def split: option.split_asm)
  then show ?thesis using assms that(2) True by (auto simp: write_run_def write_owned_def)
next
  case False
  then show ?thesis using assms that(1) by (auto simp: write_run_def write_owned_def)
qed

lemma merge_there: "merge_record doc patch \<noteq> None"
  by (simp add: merge_record_def merge_doc_def)

lemma write_run_facts:
  assumes "write_run x patch s = (b, s')"
  shows "os_executions s' = os_executions s" "record_there i s' = record_there i s" "record_settled i s \<Longrightarrow> os_docs s' i = os_docs s i"
  using assms by (auto elim!: write_runE simp: record_there_def record_settled_def merge_there simp del: not_None_eq split: if_split_asm)

lemma set_phase_docs [simp]: "os_docs (set_phase k ph s) = os_docs s"
  by (simp add: set_phase_def)

lemma set_phase_there [simp]: "record_there i (set_phase k ph s) = record_there i s" "record_settled i (set_phase k ph s) = record_settled i s"
  by (simp_all add: record_there_def record_settled_def)

lemma filter_update: "k < length xs \<Longrightarrow> length (filter P (xs[k := y])) + of_bool (P (xs ! k)) = length (filter P xs) + of_bool (P y)"
proof (induction xs arbitrary: k)
  case (Cons x xs)
  then show ?case by (cases k) auto
qed simp

lemma pending_set_phase:
  assumes "k < length (os_executions s)" "xc_phase (os_executions s ! k) = Claimed_Now" "ph \<noteq> Claimed_Now"
  shows "pending_runs i (set_phase k ph s) + of_bool (xc_id (os_executions s ! k) = i) = pending_runs i s"
  using filter_update [OF assms(1), of "\<lambda>x. xc_id x = i \<and> xc_phase x = Claimed_Now" "(os_executions s ! k)\<lparr>xc_phase := ph\<rparr>"] assms
  by (simp add: pending_runs_def set_phase_def)

lemma pending_other:
  assumes "k < length (os_executions s)" "xc_phase (os_executions s ! k) \<noteq> Claimed_Now" "ph \<noteq> Claimed_Now"
  shows "pending_runs i (set_phase k ph s) = pending_runs i s"
  using filter_update [OF assms(1), of "\<lambda>x. xc_id x = i \<and> xc_phase x = Claimed_Now" "(os_executions s ! k)\<lparr>xc_phase := ph\<rparr>"] assms
  by (simp add: pending_runs_def set_phase_def)

lemma outcome_settles: "settled_status (doc_prop (merge_record doc (outcome_patch tm out)) ''status'')"
  by (simp add: merge_record_prop outcome_patch_def settled_status_def map_add_def)

lemma finish_run_facts:
  assumes "finish_run k tm out s = (n, s')" "k < length (os_executions s)"
  shows "(n = Quiet \<and> s' = set_phase k Finished s) \<or>
    (\<exists>s1. n = Outcome_Written (xc_id (os_executions s ! k)) \<and> s' = set_phase k Finished s1 \<and> os_executions s1 = os_executions s \<and>
      live_record (xc_id (os_executions s ! k)) s \<and> \<not> live_record (xc_id (os_executions s ! k)) s1 \<and>
      (\<forall>i. i \<noteq> xc_id (os_executions s ! k) \<longrightarrow> os_docs s1 i = os_docs s i) \<and> (\<forall>i. record_there i s1 = record_there i s))"
proof -
  obtain b s1 where w: "write_run (os_executions s ! k) (outcome_patch tm out) s = (b, s1)" by (metis surj_pair)
  from w show ?thesis
  proof (cases rule: write_runE)
    case 1
    then show ?thesis using assms w by (simp add: finish_run_def)
  next
    case 2
    then have "\<not> live_record (xc_id (os_executions s ! k)) s1"
      using outcome_settles by (simp add: live_record_def record_settled_def)
    then show ?thesis using assms w 2 write_run_facts [OF w] by (auto simp: finish_run_def live_record_def)
  qed
qed

lemma start_cases:
  assumes "operation_do h (Start k tm cur bud) s = (n, s')"
  obtains "n = Quiet" "s' = s"
    | s1 ph where "k < length (os_executions s)" "xc_phase (os_executions s ! k) = Claimed_Now" "ph \<noteq> Claimed_Now" "s' = set_phase k ph s1"
      "os_executions s1 = os_executions s" "n = Quiet \<or> n = External_Work (xc_id (os_executions s ! k))"
      "\<And>i. record_there i s1 = record_there i s" "\<And>i. record_settled i s \<Longrightarrow> os_docs s1 i = os_docs s i"
    | s1 where "k < length (os_executions s)" "xc_phase (os_executions s ! k) = Claimed_Now" "os_executions s1 = os_executions s"
      "\<And>i. record_there i s1 = record_there i s" "\<And>i. record_settled i s \<Longrightarrow> os_docs s1 i = os_docs s i"
      "finish_run k tm thrown_outcome s1 = (n, s')"
proof (cases "k < length (os_executions s) \<and> xc_phase (os_executions s ! k) = Claimed_Now")
  case False
  then show ?thesis using assms that(1) by auto
next
  case True
  let ?x = "os_executions s ! k"
  show ?thesis
  proof (cases cur)
    case False
    obtain b s1 where w: "write_run ?x (not_started tm) s = (b, s1)" by (metis surj_pair)
    then have "n = Quiet" "s' = set_phase k Finished s1" using assms True False by simp_all
    then show ?thesis using that(2) [of Finished s1] True write_run_facts [OF w] by simp
  next
    case cur: True
    obtain b s1 where w: "write_run ?x (checkpoint_patch tm [(''phase'', JStr ''executing'')]) s = (b, s1)" by (metis surj_pair)
    show ?thesis
    proof (cases "b \<and> bud")
      case ok: True
      then have "n = External_Work (xc_id ?x)" "s' = set_phase k Executing s1" using assms True cur w by simp_all
      then show ?thesis using that(2) [of Executing s1] True write_run_facts [OF w] by simp
    next
      case False
      then have "finish_run k tm thrown_outcome s1 = (n, s')" using assms True cur w by auto
      then show ?thesis using that(3) [of s1] True write_run_facts [OF w] by simp
    qed
  qed
qed

lemma pending_eq: "os_executions s1 = os_executions s \<Longrightarrow> pending_runs i s1 = pending_runs i s"
  "os_executions s1 = os_executions s \<Longrightarrow> pending_runs i (set_phase k ph s1) = pending_runs i (set_phase k ph s)"
  by (simp_all add: pending_runs_def set_phase_def)

lemma finish_there:
  assumes "finish_run k tm out s = (n, s')" "k < length (os_executions s)"
  shows "record_there i s' = record_there i s" "n \<noteq> Created i" "n \<noteq> External_Work i"
    "record_settled i s \<Longrightarrow> os_docs s' i = os_docs s i" "settles i n \<Longrightarrow> live_record i s \<and> \<not> live_record i s'"
    "pending_runs i s' = pending_runs i (set_phase k Finished s)"
proof -
  let ?j = "xc_id (os_executions s ! k)"
  consider "n = Quiet" "s' = set_phase k Finished s"
    | s1 where "n = Outcome_Written ?j" "s' = set_phase k Finished s1" "os_executions s1 = os_executions s"
      "live_record ?j s" "\<not> live_record ?j s1" "\<forall>i. i \<noteq> ?j \<longrightarrow> os_docs s1 i = os_docs s i" "\<forall>i. record_there i s1 = record_there i s"
    using finish_run_facts [OF assms] by blast
  then have "(record_there i s' = record_there i s) \<and> (n \<noteq> Created i) \<and> (n \<noteq> External_Work i) \<and>
      (record_settled i s \<longrightarrow> os_docs s' i = os_docs s i) \<and> (settles i n \<longrightarrow> live_record i s \<and> \<not> live_record i s') \<and>
      pending_runs i s' = pending_runs i (set_phase k Finished s)"
  proof cases
    case 1
    then show ?thesis by simp
  next
    case (2 s1)
    then have "record_settled i s \<longrightarrow> i \<noteq> ?j" by (auto simp: live_record_def)
    then show ?thesis
      using 2 pending_eq(2) [OF 2(3)] by (auto simp: live_record_def)
  qed
  then show "record_there i s' = record_there i s" "n \<noteq> Created i" "n \<noteq> External_Work i"
    "record_settled i s \<Longrightarrow> os_docs s' i = os_docs s i" "settles i n \<Longrightarrow> live_record i s \<and> \<not> live_record i s'"
    "pending_runs i s' = pending_runs i (set_phase k Finished s)" by simp_all
qed

lemma submit_cases:
  assumes "operation_do h (Submit tm now budget uid executor j hash cur) s = (n, s')"
  obtains "n = Quiet" "s' = s"
    | "n = Created j" "os_docs s j = None" "s' = s\<lparr>os_docs := (os_docs s)(j := Some (claimed_record tm now budget uid executor hash)),
         os_executions := os_executions s @ [\<lparr>xc_id = j, xc_executor = executor, xc_phase = Claimed_Now\<rparr>]\<rparr>"
  using assms by (auto simp: claim_operation_def Let_def split: option.split_asm if_split_asm)

lemma recover_cases:
  assumes "operation_do h (Recover tm now executor cur rq j) s = (n, s')"
  obtains "n = Quiet" "s' = s"
    | "n = Recovered j" "live_record j s" "record_there j s'" "record_settled j s'" "\<And>i. i \<noteq> j \<Longrightarrow> os_docs s' i = os_docs s i"
      "os_executions s' = os_executions s"
proof (cases "recover_operation h tm now (executing_here executor j s) cur rq j (os_docs s)")
  case (Inl e)
  then show ?thesis using assms that(1) by simp
next
  case (Inr r)
  obtain snapshot docs where r: "r = (snapshot, docs)" by (cases r)
  obtain data where d: "os_docs s j = Some data" "obj_get data ''status'' = JStr ''processing''"
      "docs = (os_docs s)(j := merge_record (os_docs s j) (recovered_patch tm (rr_uid rq) (generation_of_operation data)))"
    using Inr r by (auto simp: recover_operation_def Let_def split: if_split_asm option.split_asm)
  have "settled_status (doc_prop (docs j) ''status'')"
    by (simp add: d(3) merge_record_prop recovered_patch_def settled_status_def)
  moreover have "n = Recovered j" "s' = s\<lparr>os_docs := docs\<rparr>" using assms Inr r by simp_all
  ultimately show ?thesis using that(2) d merge_there
    by (simp add: live_record_def record_there_def record_settled_def settled_status_def doc_prop_def [of "Some data"])
qed

lemma read_facts:
  assumes "snd (read_raw_operation h tm now l j docs) = docs'"
  shows "(docs' i = None) = (docs i = None)" "settled_status (doc_prop (docs i) ''status'') \<Longrightarrow> docs' i = docs i"
proof -
  have "docs' = docs \<or> (docs' = docs(j := merge_record (docs j) [(''phase'', JStr ''recovery_required''), (''recoveryDetectedAt'', tm)]) \<and>
      doc_prop (docs j) ''status'' = JStr ''processing'' \<and> docs j \<noteq> None)"
    using assms by (auto simp: read_raw_operation_def doc_prop_def split: option.split_asm if_split_asm)
  then show "(docs' i = None) = (docs i = None)" "settled_status (doc_prop (docs i) ''status'') \<Longrightarrow> docs' i = docs i"
    using merge_there by (auto simp: settled_status_def simp del: not_None_eq split: if_split_asm)
qed

definition step_facts :: "string \<Rightarrow> operation_event \<Rightarrow> operation_state \<Rightarrow> operation_note \<Rightarrow> operation_state \<Rightarrow> bool" where
  "step_facts i e s n s' \<longleftrightarrow>
     of_bool (n = External_Work i) + pending_runs i s' \<le> of_bool (n = Created i) + pending_runs i s \<and>
     of_bool (n = Created i) + of_bool (record_there i s) \<le> of_bool (record_there i s') + (of_bool (e = Sweep_Record i) :: nat) \<and>
     of_bool (settles i n) + of_bool (live_record i s') \<le> of_bool (n = Created i) + (of_bool (live_record i s) :: nat) \<and>
     (record_settled i s \<and> e \<noteq> Sweep_Record i \<longrightarrow> os_docs s' i = os_docs s i)"

lemma live_back: "record_there i s' = record_there i s \<Longrightarrow> (record_settled i s \<Longrightarrow> os_docs s' i = os_docs s i) \<Longrightarrow> live_record i s' \<Longrightarrow> live_record i s"
  by (auto simp: live_record_def record_settled_def)

text \<open>A step that keeps every record and adds no execution.\<close>

lemma quiet_facts:
  assumes "n = Quiet" "record_there i s' = record_there i s" "record_settled i s \<Longrightarrow> os_docs s' i = os_docs s i" "pending_runs i s' \<le> pending_runs i s"
  shows "step_facts i e s n s'"
  using assms live_back [OF assms(2,3)] by (auto simp: step_facts_def)

lemma finish_step:
  assumes f: "finish_run k tm out s1 = (n, s')" and k: "k < length (os_executions s)" and x: "os_executions s1 = os_executions s"
    and t: "record_there i s1 = record_there i s" "record_settled i s \<Longrightarrow> os_docs s1 i = os_docs s i"
  shows "step_facts i e s n s'"
proof -
  note g = finish_there [OF f, unfolded x, OF k, of i]
  have "pending_runs i (set_phase k Finished s) \<le> pending_runs i s"
    using pending_set_phase [OF k, of Finished i] pending_other [OF k, of Finished i]
    by (cases "xc_phase (os_executions s ! k) = Claimed_Now") auto
  then have p: "pending_runs i s' \<le> pending_runs i s" using g(6) pending_eq(2) [OF x] by simp
  have l: "live_record i s1 \<Longrightarrow> live_record i s" using live_back [OF t] .
  have d: "record_settled i s \<Longrightarrow> os_docs s' i = os_docs s i" using t(2) g(4) by (simp add: record_settled_def)
  have th: "record_there i s' = record_there i s" using g(1) t(1) by simp
  have "live_record i s' \<Longrightarrow> live_record i s" using live_back [OF th d] .
  then show ?thesis using g p l d th by (auto simp: step_facts_def)
qed

lemma filter_map_mono: "(\<And>x. P (f x) \<Longrightarrow> P x) \<Longrightarrow> length (filter P (map f xs)) \<le> length (filter P xs)"
  by (induction xs) (auto simp: le_SucI)

lemma operation_step: "operation_do h e s = (n, s') \<Longrightarrow> step_facts i e s n s'"
proof (cases e)
  assume o': "operation_do h e s = (n, s')"
  case (Submit tm now budget uid executor j hash cur)
  from o' [unfolded Submit] show ?thesis
  proof (cases rule: submit_cases)
    case 1
    then show ?thesis by (simp add: quiet_facts)
  next
    case 2
    have "settled_status (JStr ''processing'') = False" by (simp add: settled_status_def)
    then have "live_record j s'" using 2(3) by (simp add: live_record_def record_there_def record_settled_def doc_prop_def claimed_record_def)
    moreover have "\<not> record_there j s" "\<not> record_settled j s" "record_there j s'"
      using 2(2,3) by (simp_all add: record_there_def record_settled_def settled_status_def doc_prop_def)
    moreover have "pending_runs i s' = pending_runs i s + of_bool (j = i)" using 2(3) by (simp add: pending_runs_def)
    moreover have "os_docs s' i = os_docs s i" if "i \<noteq> j" using that 2(3) by simp
    ultimately show ?thesis using 2(1) live_back [of i s' s]
      by (cases "i = j") (auto simp: step_facts_def live_record_def record_there_def)
  qed
next
  assume o': "operation_do h e s = (n, s')"
  case (Start k tm cur bud)
  from o' [unfolded Start] show ?thesis
  proof (cases rule: start_cases)
    case 1
    then show ?thesis by (simp add: quiet_facts)
  next
    case (2 s1 ph)
    have p: "pending_runs i s' + of_bool (xc_id (os_executions s ! k) = i) = pending_runs i s"
      using pending_set_phase [OF 2(1,2,3)] pending_eq(2) [OF 2(5)] 2(4) by simp
    have t: "record_there i s' = record_there i s" "record_settled i s \<Longrightarrow> os_docs s' i = os_docs s i" using 2(4,7,8) by simp_all
    show ?thesis using 2(6) p t live_back [OF t] by (auto simp: step_facts_def)
  next
    case (3 s1)
    then show ?thesis using finish_step [OF 3(6,1,3)] by simp
  qed
next
  assume o': "operation_do h e s = (n, s')"
  case (Checkpoint k tm progress bud)
  obtain b s1 where w: "write_run (os_executions s ! k) (checkpoint_patch tm progress) s = (b, s1)" by (metis surj_pair)
  show ?thesis using o' Checkpoint w write_run_facts [OF w] pending_eq(1) [of s1 s i]
    by (auto intro!: quiet_facts split: if_split_asm)
next
  assume o': "operation_do h e s = (n, s')"
  case (Finish k tm out)
  then show ?thesis using o' finish_step [of k tm out s n s' s] by (auto intro: quiet_facts split: if_split_asm)
next
  assume o': "operation_do h e s = (n, s')"
  case (Stop_Executor executor)
  have "length (filter (\<lambda>x. xc_id x = i \<and> xc_phase x = Claimed_Now)
      (map (\<lambda>x. if xc_executor x = executor then x\<lparr>xc_phase := Finished\<rparr> else x) (os_executions s))) \<le>
    length (filter (\<lambda>x. xc_id x = i \<and> xc_phase x = Claimed_Now) (os_executions s))"
    by (rule filter_map_mono) (simp split: if_split_asm)
  moreover have "os_executions s' = map (\<lambda>x. if xc_executor x = executor then x\<lparr>xc_phase := Finished\<rparr> else x) (os_executions s)"
    using o' Stop_Executor by auto
  ultimately have "pending_runs i s' \<le> pending_runs i s" by (simp only: pending_runs_def)
  then show ?thesis using o' Stop_Executor by (auto intro!: quiet_facts simp: record_there_def)
next
  assume o': "operation_do h e s = (n, s')"
  case (Read_Operation tm now executor j)
  then show ?thesis using o' read_facts [OF refl, where h = h and tm = tm and now = now and l = "executing_here executor j s" and j = j and docs = "os_docs s" and i = i]
    by (auto intro!: quiet_facts simp: record_there_def record_settled_def pending_runs_def simp del: not_None_eq)
next
  assume o': "operation_do h e s = (n, s')"
  case (Recover tm now executor cur rq j)
  from o' [unfolded Recover] show ?thesis
  proof (cases rule: recover_cases)
    case 1
    then show ?thesis by (simp add: quiet_facts)
  next
    case 2
    have t: "record_there i s' = record_there i s" "record_settled i s \<Longrightarrow> os_docs s' i = os_docs s i"
      using 2(2-5) by (cases "i = j"; simp add: live_record_def record_there_def record_settled_def)+
    show ?thesis using 2 t live_back [OF t] pending_eq(1) [OF 2(6), of i] by (auto simp: step_facts_def live_record_def)
  qed
next
  assume o': "operation_do h e s = (n, s')"
  case (Sweep_Record j)
  then show ?thesis using o'
    by (auto simp: step_facts_def pending_runs_def record_there_def live_record_def record_settled_def)
qed

lemma operation_counts:
  "operation_run h es s = (ns, s') \<Longrightarrow>
    length (filter ((=) (External_Work i)) ns) + pending_runs i s' \<le> length (filter ((=) (Created i)) ns) + pending_runs i s \<and>
    length (filter ((=) (Created i)) ns) + of_bool (record_there i s) \<le> of_bool (record_there i s') + length (filter ((=) (Sweep_Record i)) es) \<and>
    length (filter (settles i) ns) + of_bool (live_record i s') \<le> length (filter ((=) (Created i)) ns) + of_bool (live_record i s)"
proof (induction es arbitrary: s ns)
  case (Cons e es)
  obtain n s1 ns1 where st: "operation_do h e s = (n, s1)" "operation_run h es s1 = (ns1, s')" "ns = n # ns1"
    using Cons.prems by (auto split: prod.splits)
  have count: "length (filter ((=) x) (y # ys)) = of_bool (y = x) + length (filter ((=) x) ys)" for x y :: 'a and ys by auto
  have "length (filter ((=) (Created i)) ns) = of_bool (n = Created i) + length (filter ((=) (Created i)) ns1)"
    "length (filter ((=) (External_Work i)) ns) = of_bool (n = External_Work i) + length (filter ((=) (External_Work i)) ns1)"
    "length (filter ((=) (Sweep_Record i)) (e # es)) = of_bool (e = Sweep_Record i) + length (filter ((=) (Sweep_Record i)) es)"
    "length (filter (settles i) ns) = of_bool (settles i n) + length (filter (settles i) ns1)"
    using st(3) by auto
  then show ?case using operation_step [OF st(1), of i] Cons.IH [OF st(2)] unfolding step_facts_def by linarith
qed auto

lemma settled_kept:
  "operation_run h es s = (ns, s') \<Longrightarrow> record_settled i s \<Longrightarrow> Sweep_Record i \<notin> set es \<Longrightarrow> os_docs s' i = os_docs s i"
proof (induction es arbitrary: s ns)
  case (Cons e es)
  obtain n s1 ns1 where st: "operation_do h e s = (n, s1)" "operation_run h es s1 = (ns1, s')" "ns = n # ns1"
    using Cons.prems(1) by (auto split: prod.splits)
  have "os_docs s1 i = os_docs s i" using operation_step [OF st(1), of i] Cons.prems(2,3) by (auto simp: step_facts_def)
  then show ?case using Cons.IH [OF st(2)] Cons.prems(2,3) by (simp add: record_settled_def)
qed simp

text \<open>C39. An operation key starts its external work at most once and gets at most one outcome, whether its executor wrote
  it or an operator recovered the record, per record that the retention sweep removes: whatever submissions, polls,
  stopped executors, late answers and recoveries of any processes interleave.\<close>

theorem operation_executes_once:
  assumes "operation_run h es operation_start = (ns, s')"
  shows "length (filter ((=) (External_Work i)) ns) \<le> 1 + length (filter ((=) (Sweep_Record i)) es) \<and>
    length (filter (settles i) ns) \<le> 1 + length (filter ((=) (Sweep_Record i)) es)"
proof -
  have z: "pending_runs i operation_start = 0" "\<not> record_there i operation_start" "\<not> live_record i operation_start"
    by (simp_all add: operation_start_def pending_runs_def record_there_def live_record_def)
  have "of_bool (record_there i s') \<le> (1 :: nat)" by simp
  then show ?thesis using operation_counts [OF assms, of i] z by auto
qed

text \<open>C40. The outcome of an operation is final: once its record is a success or a failure, nothing that any process does,
  neither the executor that was recovered nor a second recovery, changes the record before it is removed, and every
  submission of the same content answers with it.\<close>

theorem settled_operation_final:
  assumes "operation_run h es s = (ns, s')" "os_docs s i = Some data" "settled_status (obj_get data ''status'')" "Sweep_Record i \<notin> set es"
  shows "os_docs s' i = Some data \<and>
    (obj_get data ''payloadHash'' = JStr hash \<longrightarrow> replay_operation h now i hash is_current (os_docs s') = Inr (Some (operation_snapshot h now i data)) \<and>
      claim_operation tm now budget uid executor i hash is_current (os_docs s') = Inr (False, data, os_docs s'))"
proof -
  have "record_settled i s" using assms(2,3) by (simp add: record_settled_def doc_prop_def)
  then have "os_docs s' i = Some data" using settled_kept [OF assms(1) _ assms(4)] assms(2) by simp
  then show ?thesis by (simp add: replay_operation_def claim_operation_def)
qed

section \<open>What is shown\<close>

definition snapshot_fields :: "string list" where
  "snapshot_fields = [''operationId'', ''status'', ''result'', ''error'', ''progress'', ''retryAfterMs'', ''outcomeUnknown'', ''recovery'']"

definition progress_fields :: "string list" where
  "progress_fields = [''phase'', ''cursor'', ''checked'', ''repaired'', ''failed'', ''batchDriverIds'']"

lemma key_absent: "k \<notin> fst ` S \<Longrightarrow> (k, v) \<notin> S"
  by force

lemma progress_closed:
  assumes "public_progress h raw = Some p"
  shows "fst ` set p \<subseteq> set progress_fields \<and> (\<forall>c. (''cursor'', JStr c) \<in> set p \<longrightarrow> c = [] \<or> safe_id c) \<and>
    (\<forall>v. (''batchDriverIds'', v) \<in> set p \<longrightarrow> (\<exists>vs. v = JArr vs \<and> length vs \<le> 10 \<and> list_all safe_id_value vs))"
proof -
  define cursor where "cursor = (case js_prop raw ''cursor'' of JStr c \<Rightarrow> (if c = [] \<or> safe_id c then [(''cursor'', JStr c)] else []) | _ \<Rightarrow> [])"
  define counts where "counts = map (\<lambda>k. (k, js_prop raw k)) (filter (\<lambda>k. count_value (js_prop raw k)) [''checked'', ''repaired'', ''failed''])"
  define batch where "batch = (case js_prop raw ''batchDriverIds'' of
      JArr vs \<Rightarrow> [(''batchDriverIds'', JArr (take 10 (filter safe_id_value vs)))] | _ \<Rightarrow> [])"
  have p: "p = [(''phase'', js_prop raw ''phase'')] @ cursor @ counts @ batch"
    using assms by (simp add: public_progress_def cursor_def counts_def batch_def split: if_split_asm)
  have c: "cursor = [] \<or> (\<exists>c. cursor = [(''cursor'', JStr c)] \<and> (c = [] \<or> safe_id c))"
    by (simp add: cursor_def split: jsval.split)
  have b: "batch = [] \<or> (\<exists>vs. batch = [(''batchDriverIds'', JArr vs)] \<and> length vs \<le> 10 \<and> list_all safe_id_value vs)"
    by (auto simp: batch_def list_all_iff dest: in_set_takeD split: jsval.split)
  have "map fst counts = filter (\<lambda>k. count_value (js_prop raw k)) [''checked'', ''repaired'', ''failed'']"
    by (simp only: counts_def map_map comp_def fst_conv list.map_ident)
  then have "set (map fst counts) \<subseteq> set [''checked'', ''repaired'', ''failed'']" by (simp only: filter_is_subset)
  then have n: "fst ` set counts \<subseteq> {''checked'', ''repaired'', ''failed''}" by simp
  have "fst ` set cursor \<subseteq> {''cursor''}" "fst ` set batch \<subseteq> {''batchDriverIds''}" using b c by auto
  then have s: "fst ` set p \<subseteq> set progress_fields" using n unfolding p by (simp add: progress_fields_def image_Un) blast
  have nk: "''cursor'' \<notin> {''checked'', ''repaired'', ''failed''}" "''batchDriverIds'' \<notin> {''checked'', ''repaired'', ''failed''}" by simp_all
  have nc: "''cursor'' \<notin> fst ` set counts" "''batchDriverIds'' \<notin> fst ` set counts"
    by (rule contra_subsetD [OF n nk(1)], rule contra_subsetD [OF n nk(2)])
  have k: "(''cursor'', v) \<notin> set counts" "(''batchDriverIds'', v) \<notin> set counts" for v
    by (rule key_absent [OF nc(1)], rule key_absent [OF nc(2)])
  show ?thesis
  proof (intro conjI allI impI)
    show "fst ` set p \<subseteq> set progress_fields" by (rule s)
    show "c' = [] \<or> safe_id c'" if "(''cursor'', JStr c') \<in> set p" for c' using that c b k by (auto simp: p)
    show "\<exists>vs. v = JArr vs \<and> length vs \<le> 10 \<and> list_all safe_id_value vs" if "(''batchDriverIds'', v) \<in> set p" for v
      using that c b k by (auto simp: p)
  qed
qed

text \<open>The answer about an operation has a fixed shape, whatever its record holds: only the public names, no payload
  hash, no user id and no executor outside the recovery section, and of the progress only the known fields, with safe
  cursors and at most ten safe driver ids.\<close>

theorem operation_snapshot_closed:
  "fst ` set (operation_snapshot h now i data) \<subseteq> set snapshot_fields \<and>
   (\<forall>v. (''progress'', v) \<in> set (operation_snapshot h now i data) \<longrightarrow>
      (\<exists>p. v = JObj p \<and> fst ` set p \<subseteq> set progress_fields \<and> (\<forall>c. (''cursor'', JStr c) \<in> set p \<longrightarrow> c = [] \<or> safe_id c) \<and>
        (\<forall>u. (''batchDriverIds'', u) \<in> set p \<longrightarrow> (\<exists>vs. u = JArr vs \<and> length vs \<le> 10 \<and> list_all safe_id_value vs))))"
proof (intro conjI allI impI)
  show "fst ` set (operation_snapshot h now i data) \<subseteq> set snapshot_fields"
    by (auto simp: operation_snapshot_def snapshot_fields_def Let_def split: if_split_asm option.split_asm)
next
  fix v
  assume "(''progress'', v) \<in> set (operation_snapshot h now i data)"
  then obtain p where "public_progress h (obj_get data ''progress'') = Some p" "v = JObj p"
    by (cases "public_progress h (obj_get data ''progress'')") (auto simp: operation_snapshot_def Let_def split: if_split_asm)
  then show "\<exists>p. v = JObj p \<and> fst ` set p \<subseteq> set progress_fields \<and> (\<forall>c. (''cursor'', JStr c) \<in> set p \<longrightarrow> c = [] \<or> safe_id c) \<and>
        (\<forall>u. (''batchDriverIds'', u) \<in> set p \<longrightarrow> (\<exists>vs. u = JArr vs \<and> length vs \<le> 10 \<and> list_all safe_id_value vs))"
    using progress_closed by blast
qed

section \<open>A concrete operation\<close>

definition demo_operation_events :: "operation_event list" where
  "demo_operation_events =
    [Submit JNull 0 10 JNull ''x'' ''k'' ''h'' True, Submit JNull 1 10 JNull ''y'' ''k'' ''h'' True, Start 0 JNull True True,
     Recover JNull 20 ''y'' True \<lparr>rr_executor = ''x'', rr_generation = 1, rr_stopped = True, rr_uid = ''a''\<rparr> ''k'',
     Finish 0 JNull \<lparr>oo_result = JNull, oo_error = JUndef\<rparr>]"

definition demo_claimed_record :: fields where
  "demo_claimed_record = claimed_record JNull 0 10 JNull ''x'' ''h''"

lemma demo_operation_run:
  "\<exists>s. operation_run demo_host demo_operation_events operation_start =
    ([Created ''k'', Quiet, External_Work ''k'', Recovered ''k'', Quiet], s)"
  by (simp add: demo_operation_events_def operation_start_def claim_operation_def claimed_record_def write_run_def write_owned_def owns_record_def
      generation_of_operation_def checkpoint_patch_def merge_record_def merge_doc_def merge_field_def put_all_def opt_default_def doc_prop_def
      set_phase_def finish_run_def recover_operation_def executing_here_def operation_expired_def executor_of_def num_eq_def recovered_patch_def
      Let_def nullish_def zero_fin one_fin max_safe_def)

theorem operation_executes_once_witness:
  "\<exists>s. operation_run demo_host demo_operation_events operation_start = ([Created ''k'', Quiet, External_Work ''k'', Recovered ''k'', Quiet], s) \<and>
     length (filter (settles ''k'') [Created ''k'', Quiet, External_Work ''k'', Recovered ''k'', Quiet]) \<le> 1"
proof -
  obtain s where r: "operation_run demo_host demo_operation_events operation_start = ([Created ''k'', Quiet, External_Work ''k'', Recovered ''k'', Quiet], s)"
    using demo_operation_run by blast
  have "filter ((=) (Sweep_Record ''k'')) demo_operation_events = []" by (simp add: demo_operation_events_def)
  then show ?thesis using operation_executes_once [OF r, of "''k''"] r by simp
qed

theorem settled_operation_final_witness:
  "\<exists>s data. os_docs s ''k'' = Some data \<and> settled_status (obj_get data ''status'') \<and>
     os_docs (snd (operation_run demo_host demo_operation_events s)) ''k'' = Some data"
proof -
  define data where "data = [(''payloadHash'', JStr ''h''), (''status'', JStr ''succeeded'')]"
  define s where "s = \<lparr>os_docs = (\<lambda>_. None)(''k'' \<mapsto> data), os_executions = []\<rparr>"
  obtain ns s' where r: "operation_run demo_host demo_operation_events s = (ns, s')" by (metis surj_pair)
  have d: "os_docs s ''k'' = Some data" "settled_status (obj_get data ''status'')" "Sweep_Record ''k'' \<notin> set demo_operation_events"
    by (simp_all add: s_def data_def settled_status_def demo_operation_events_def)
  have "os_docs s' ''k'' = Some data" using settled_operation_final [OF r d] by blast
  then show ?thesis using d r by (metis snd_conv)
qed

theorem operation_snapshot_closed_witness:
  "\<exists>p. (''progress'', JObj p) \<in> set (operation_snapshot demo_host 0 ''k''
       [(''adminUid'', JStr ''u''), (''progress'', JObj [(''phase'', JStr ''claimed''), (''secret'', JNull)])]) \<and> fst ` set p \<subseteq> set progress_fields"
proof -
  let ?data = "[(''adminUid'', JStr ''u''), (''progress'', JObj [(''phase'', JStr ''claimed''), (''secret'', JNull)])]"
  have "(''progress'', JObj [(''phase'', JStr ''claimed'')]) \<in> set (operation_snapshot demo_host 0 ''k'' ?data)"
    by (simp add: operation_snapshot_def public_progress_def operation_phases_def count_value_def Let_def)
  moreover have "\<exists>p. JObj [(''phase'', JStr ''claimed'')] = JObj p \<and> fst ` set p \<subseteq> set progress_fields"
    using operation_snapshot_closed [of demo_host 0 "''k''" ?data] calculation by blast
  ultimately show ?thesis by blast
qed

end
