(* ===== verification/Keyed_Executor.thy ===== *)
theory Keyed_Executor imports Js_Map Js_Number begin

text \<open>
  The bounded keyed executor (\<open>lib/boundedKeyedExecutor.ts\<close>): a first-in first-out queue per key, at
  most one running task per key and at most \<open>maxConcurrent\<close> over all keys, a bound on the waiting
  tasks and a deadline on the time a task waits. The promises and closures of the source become the
  events that run them: \<open>Run\<close> is a call of \<open>run\<close>, \<open>Timer\<close> the queue timer of a task, \<open>Begin\<close> the
  microtask \<open>pump\<close> schedules for a dispatched task, \<open>Settle\<close> the settlement of the task's work and
  \<open>Refresh\<close> a call of \<open>refreshPending\<close>. A task is identified by the number of its promise, so a timer
  that fires for a task no longer queued finds nothing. \<open>lib/concurrency.ts\<close> is the instance with one
  fresh key per call.
\<close>

section \<open>State\<close>

record task =
  task_id :: nat
  enqueued_at :: real

datatype phase = Dispatched | Working

record key_state =
  st_active :: "(task \<times> phase) option"
  st_pending :: "task list"

record 'k executor =
  ex_states :: "('k, key_state) jsmap"
  ex_ready :: "'k list"
  ex_ready_set :: "'k set"
  ex_active :: int
  ex_waiting :: int
  ex_rejected :: int
  ex_expired :: int
  ex_peak :: int
  ex_max_concurrent :: int
  ex_max_pending :: int
  ex_max_per_key :: int
  ex_max_age :: real
  ex_next :: nat

record budgets =
  bud_concurrent :: "jsnum option"
  bud_pending :: "jsnum option"
  bud_per_key :: "jsnum option"
  bud_age :: "jsnum option"

text \<open>The constructor: the defaults, the validation, and an empty executor; \<open>Inl\<close> is its exception.
  The accepted values are safe integers, so they are kept as integers.\<close>

definition exec_new :: "budgets \<Rightarrow> unit + 'k executor" where
  "exec_new b = (let c = opt_default (bud_concurrent b) 8; p = opt_default (bud_pending b) 256;
      q = opt_default (bud_per_key b) 32; a = opt_default (bud_age b) 5000 in
    if \<not> (is_safe_integer c \<and> 0 < c \<and> is_safe_integer q \<and> 0 < q) \<or> \<not> is_safe_integer p \<or> p < 0
      \<or> \<not> is_finite a \<or> a \<le> 0
    then Inl ()
    else Inr \<lparr>ex_states = [], ex_ready = [], ex_ready_set = {}, ex_active = 0, ex_waiting = 0,
      ex_rejected = 0, ex_expired = 0, ex_peak = 0, ex_max_concurrent = num_floor c,
      ex_max_pending = num_floor p, ex_max_per_key = num_floor q, ex_max_age = num_real a, ex_next = 0\<rparr>)"

section \<open>Operations\<close>

definition mark_ready :: "'k \<Rightarrow> 'k executor \<Rightarrow> 'k executor" where
  "mark_ready k e = (if k \<notin> ex_ready_set e
    then e\<lparr>ex_ready_set := insert k (ex_ready_set e), ex_ready := ex_ready e @ [k]\<rparr> else e)"

text \<open>One round of the loop of \<open>pump\<close>, for a nonempty ready list.\<close>

definition pump_one :: "'k executor \<Rightarrow> 'k executor" where
  "pump_one e = (let k = hd (ex_ready e);
      e1 = e\<lparr>ex_ready := tl (ex_ready e), ex_ready_set := ex_ready_set e - {k}\<rparr> in
    case jm_get (ex_states e) k of
      None \<Rightarrow> e1
    | Some s \<Rightarrow> (if st_active s \<noteq> None then e1
        else case st_pending s of
          [] \<Rightarrow> e1\<lparr>ex_states := jm_delete (ex_states e) k\<rparr>
        | t # ts \<Rightarrow> e1\<lparr>ex_states := jm_set (ex_states e) k (\<lparr>st_active = Some (t, Dispatched), st_pending = ts\<rparr>),
            ex_waiting := ex_waiting e - 1, ex_active := ex_active e + 1\<rparr>))"

lemma pump_one_ready: "ex_ready (pump_one e) = tl (ex_ready e)"
  by (simp add: pump_one_def Let_def split: option.split list.split)

function pump :: "'k executor \<Rightarrow> 'k executor" where
  "pump e = (if ex_active e < ex_max_concurrent e \<and> ex_ready e \<noteq> [] then pump (pump_one e) else e)"
  by pat_completeness auto
termination
  by (relation "measure (\<lambda>e. length (ex_ready e))") (simp_all add: pump_one_ready)

declare pump.simps [simp del]

lemma pump_idle: "ex_max_concurrent e \<le> ex_active e \<or> ex_ready e = [] \<Longrightarrow> pump e = e"
  by (subst pump.simps) auto

lemma pump_round: "ex_active e < ex_max_concurrent e \<Longrightarrow> ex_ready e \<noteq> [] \<Longrightarrow> pump e = pump (pump_one e)"
  by (subst pump.simps) simp

definition can_run :: "'k executor \<Rightarrow> 'k \<Rightarrow> bool" where
  "can_run e k = (let s = jm_get (ex_states e) k;
      immediately = (case s of None \<Rightarrow> True | Some s \<Rightarrow> st_active s = None \<and> st_pending s = [])
        \<and> ex_active e < ex_max_concurrent e in
    (immediately \<or> ex_waiting e < ex_max_pending e) \<and>
    int (case s of None \<Rightarrow> 0 | Some s \<Rightarrow> length (st_pending s)) < ex_max_per_key e)"

definition exec_run :: "'k executor \<Rightarrow> 'k \<Rightarrow> real \<Rightarrow> (unit + nat) \<times> 'k executor" where
  "exec_run e k now = (if \<not> can_run e k then (Inl (), e\<lparr>ex_rejected := ex_rejected e + 1\<rparr>)
    else (let s = (case jm_get (ex_states e) k of None \<Rightarrow> \<lparr>st_active = None, st_pending = []\<rparr> | Some s \<Rightarrow> s);
        i = ex_next e;
        s1 = s\<lparr>st_pending := st_pending s @ [\<lparr>task_id = i, enqueued_at = now\<rparr>]\<rparr>;
        e1 = e\<lparr>ex_states := jm_set (ex_states e) k s1, ex_next := Suc i, ex_waiting := ex_waiting e + 1\<rparr>;
        e2 = (if st_active s1 = None then mark_ready k e1 else e1);
        e3 = pump e2 in
      (Inr i, e3\<lparr>ex_peak := max (ex_peak e3) (ex_waiting e3)\<rparr>)))"

text \<open>The queue timer of task \<open>i\<close>: \<open>True\<close> when its promise is rejected with \<open>WorkQueueExpired\<close>.\<close>

definition exec_expire :: "'k executor \<Rightarrow> 'k \<Rightarrow> nat \<Rightarrow> bool \<times> 'k executor" where
  "exec_expire e k i = (case jm_get (ex_states e) k of
      None \<Rightarrow> (False, e)
    | Some s \<Rightarrow> (if \<not> (\<exists>t\<in>set (st_pending s). task_id t = i) then (False, e)
        else (let ts = filter (\<lambda>t. task_id t \<noteq> i) (st_pending s);
            e1 = e\<lparr>ex_states := jm_set (ex_states e) k (s\<lparr>st_pending := ts\<rparr>),
              ex_waiting := ex_waiting e - 1, ex_expired := ex_expired e + 1\<rparr> in
          (True, if st_active s = None \<and> ts = []
            then e1\<lparr>ex_states := jm_delete (ex_states e1) k, ex_ready_set := ex_ready_set e1 - {k},
              ex_ready := remove1 k (ex_ready e1)\<rparr>
            else e1))))"

definition complete :: "'k \<Rightarrow> key_state \<Rightarrow> 'k executor \<Rightarrow> 'k executor" where
  "complete k s e = (let e1 = e\<lparr>ex_states := jm_set (ex_states e) k (s\<lparr>st_active := None\<rparr>), ex_active := ex_active e - 1\<rparr>;
      e2 = (if st_pending s \<noteq> [] then mark_ready k e1 else e1\<lparr>ex_states := jm_delete (ex_states e1) k\<rparr>) in
    pump e2)"

definition refresh_pending :: "'k executor \<Rightarrow> 'k \<Rightarrow> nat \<Rightarrow> real \<Rightarrow> 'k executor" where
  "refresh_pending e k i now = (case jm_get (ex_states e) k of
      None \<Rightarrow> e
    | Some s \<Rightarrow> e\<lparr>ex_states := jm_set (ex_states e) k
        (s\<lparr>st_pending := map (\<lambda>t. if task_id t = i then t\<lparr>enqueued_at := now\<rparr> else t) (st_pending s)\<rparr>)\<rparr>)"

definition is_dispatched :: "'k executor \<Rightarrow> 'k \<Rightarrow> nat \<Rightarrow> bool" where
  "is_dispatched e k i = (case jm_get (ex_states e) k of
      None \<Rightarrow> False
    | Some s \<Rightarrow> (case st_active s of None \<Rightarrow> False | Some (t, _) \<Rightarrow> task_id t = i))"

definition state_ids :: "key_state \<Rightarrow> nat list" where
  "state_ids s = (case st_active s of None \<Rightarrow> [] | Some (t, _) \<Rightarrow> [task_id t]) @ map task_id (st_pending s)"

definition exec_pending :: "'k executor \<Rightarrow> nat list" where
  "exec_pending e = concat (map state_ids (jm_values (ex_states e)))"

section \<open>Events\<close>

datatype 'k command = Run 'k | Timer 'k nat | Begin 'k | Settle 'k | Refresh 'k nat

datatype 'k observation =
    Admitted 'k nat | Refused 'k | Expired 'k nat | Started 'k nat | Finished 'k nat

text \<open>The microtask of a dispatched task: the task whose age has reached the deadline is rejected, any
  other starts its work. It runs once, so it finds its task in phase \<open>Dispatched\<close>.\<close>

definition exec_begin :: "'k executor \<Rightarrow> 'k \<Rightarrow> real \<Rightarrow> 'k observation list \<times> 'k executor" where
  "exec_begin e k now = (case jm_get (ex_states e) k of
      None \<Rightarrow> ([], e)
    | Some s \<Rightarrow> (case st_active s of
        Some (t, Dispatched) \<Rightarrow>
          (if ex_max_age e \<le> now - enqueued_at t
           then ([Expired k (task_id t)], complete k s (e\<lparr>ex_expired := ex_expired e + 1\<rparr>))
           else ([Started k (task_id t)], e\<lparr>ex_states := jm_set (ex_states e) k (s\<lparr>st_active := Some (t, Working)\<rparr>)\<rparr>))
      | _ \<Rightarrow> ([], e)))"

definition exec_settle :: "'k executor \<Rightarrow> 'k \<Rightarrow> 'k observation list \<times> 'k executor" where
  "exec_settle e k = (case jm_get (ex_states e) k of
      None \<Rightarrow> ([], e)
    | Some s \<Rightarrow> (case st_active s of
        Some (t, Working) \<Rightarrow> ([Finished k (task_id t)], complete k s e)
      | _ \<Rightarrow> ([], e)))"

fun exec_step :: "'k command \<Rightarrow> real \<Rightarrow> 'k executor \<Rightarrow> 'k observation list \<times> 'k executor" where
  "exec_step (Run k) now e = (case exec_run e k now of
      (Inl _, f) \<Rightarrow> ([Refused k], f) | (Inr i, f) \<Rightarrow> ([Admitted k i], f))"
| "exec_step (Timer k i) now e = (case exec_expire e k i of (b, f) \<Rightarrow> (if b then [Expired k i] else [], f))"
| "exec_step (Begin k) now e = exec_begin e k now"
| "exec_step (Settle k) now e = exec_settle e k"
| "exec_step (Refresh k i) now e = ([], refresh_pending e k i now)"

fun exec_trace :: "('k command \<times> real) list \<Rightarrow> 'k executor \<Rightarrow> 'k observation list \<times> 'k executor" where
  "exec_trace [] e = ([], e)"
| "exec_trace ((c, now) # cs) e = (case exec_step c now e of (out, f) \<Rightarrow>
    (case exec_trace cs f of (outs, g) \<Rightarrow> (out @ outs, g)))"

section \<open>The invariant\<close>

definition busy :: "key_state \<Rightarrow> int" where
  "busy s = (if st_active s = None then 0 else 1)"

definition queued :: "key_state \<Rightarrow> int" where
  "queued s = int (length (st_pending s))"

definition key_ok :: "'k executor \<Rightarrow> 'k \<Rightarrow> key_state \<Rightarrow> bool" where
  "key_ok e k s \<longleftrightarrow> (st_active s = None \<longrightarrow> st_pending s \<noteq> []) \<and> (k \<in> set (ex_ready e) \<longleftrightarrow> st_active s = None) \<and>
    queued s \<le> ex_max_per_key e \<and> sorted_wrt (<) (state_ids s) \<and> (\<forall>i\<in>set (state_ids s). i < ex_next e)"

definition exec_core :: "'k executor \<Rightarrow> bool" where
  "exec_core e \<longleftrightarrow> jm_ok (ex_states e) \<and> distinct (ex_ready e) \<and> ex_ready_set e = set (ex_ready e) \<and>
    ex_active e = jm_sum busy (ex_states e) \<and> ex_waiting e = jm_sum queued (ex_states e) \<and>
    (\<forall>k s. jm_get (ex_states e) k = Some s \<longrightarrow> key_ok e k s) \<and>
    (\<forall>k\<in>set (ex_ready e). jm_has (ex_states e) k) \<and> ex_active e \<le> ex_max_concurrent e"

definition exec_ok :: "'k executor \<Rightarrow> bool" where
  "exec_ok e \<longleftrightarrow> exec_core e \<and> (ex_active e < ex_max_concurrent e \<longrightarrow> ex_ready e = []) \<and>
    ex_waiting e \<le> ex_max_pending e \<and> ex_peak e \<le> ex_max_pending e \<and> 0 < ex_max_concurrent e"

text \<open>What dispatching leaves unchanged in a key's state: the identities not yet started, in order, and
  the one that works.\<close>

definition unstarted :: "key_state \<Rightarrow> nat list" where
  "unstarted s = (case st_active s of Some (t, Dispatched) \<Rightarrow> [task_id t] | _ \<Rightarrow> []) @ map task_id (st_pending s)"

definition working :: "key_state \<Rightarrow> nat option" where
  "working s = (case st_active s of Some (t, Working) \<Rightarrow> Some (task_id t) | _ \<Rightarrow> None)"

definition view :: "key_state \<Rightarrow> nat list \<times> nat option" where
  "view s = (unstarted s, working s)"

definition config :: "'k executor \<Rightarrow> int \<times> int \<times> int \<times> real \<times> nat \<times> int" where
  "config e = (ex_max_concurrent e, ex_max_pending e, ex_max_per_key e, ex_max_age e, ex_next e, ex_peak e)"

lemma exec_coreD:
  assumes "exec_core e"
  shows "jm_ok (ex_states e)" "distinct (ex_ready e)" "ex_ready_set e = set (ex_ready e)"
    "ex_active e = jm_sum busy (ex_states e)" "ex_waiting e = jm_sum queued (ex_states e)"
    "jm_get (ex_states e) k = Some s \<Longrightarrow> key_ok e k s" "k \<in> set (ex_ready e) \<Longrightarrow> jm_has (ex_states e) k"
    "ex_active e \<le> ex_max_concurrent e"
  using assms by (auto simp: exec_core_def)

lemma pump_one_unfold:
  assumes "exec_core e" "ex_ready e = k # ks"
  obtains t ts where "jm_get (ex_states e) k = Some \<lparr>st_active = None, st_pending = t # ts\<rparr>"
    "pump_one e = e\<lparr>ex_ready := ks, ex_ready_set := set ks,
      ex_states := jm_set (ex_states e) k \<lparr>st_active = Some (t, Dispatched), st_pending = ts\<rparr>,
      ex_waiting := ex_waiting e - 1, ex_active := ex_active e + 1\<rparr>"
proof -
  have k: "k \<in> set (ex_ready e)" "k \<notin> set ks" using assms exec_coreD(2) [OF assms(1)] by auto
  with exec_coreD(7) [OF assms(1)] obtain s where s: "jm_get (ex_states e) k = Some s"
    by (auto simp: jm_has_def)
  with exec_coreD(6) [OF assms(1)] k have "st_active s = None" "st_pending s \<noteq> []"
    by (auto simp: key_ok_def)
  then obtain t ts where ts: "s = \<lparr>st_active = None, st_pending = t # ts\<rparr>"
    by (cases s; cases "st_pending s") auto
  show thesis
  proof (rule that)
    show "jm_get (ex_states e) k = Some \<lparr>st_active = None, st_pending = t # ts\<rparr>" using s ts by simp
    show "pump_one e = e\<lparr>ex_ready := ks, ex_ready_set := set ks,
      ex_states := jm_set (ex_states e) k \<lparr>st_active = Some (t, Dispatched), st_pending = ts\<rparr>,
      ex_waiting := ex_waiting e - 1, ex_active := ex_active e + 1\<rparr>"
      using assms(2) s ts k(2) exec_coreD(3) [OF assms(1)] by (simp add: pump_one_def Let_def)
  qed
qed

lemma pump_one_core:
  assumes "exec_core e" "ex_active e < ex_max_concurrent e" "ex_ready e \<noteq> []"
  shows "exec_core (pump_one e) \<and> config (pump_one e) = config e \<and> ex_waiting (pump_one e) = ex_waiting e - 1 \<and>
    map_option view (jm_get (ex_states (pump_one e)) j) = map_option view (jm_get (ex_states e) j) \<and>
    jm_sum (\<lambda>s. f (view s)) (ex_states (pump_one e)) = jm_sum (\<lambda>s. f (view s)) (ex_states e)"
proof -
  from assms(3) obtain k ks where r: "ex_ready e = k # ks" by (cases "ex_ready e") auto
  obtain t ts where g: "jm_get (ex_states e) k = Some \<lparr>st_active = None, st_pending = t # ts\<rparr>"
    and p: "pump_one e = e\<lparr>ex_ready := ks, ex_ready_set := set ks,
      ex_states := jm_set (ex_states e) k \<lparr>st_active = Some (t, Dispatched), st_pending = ts\<rparr>,
      ex_waiting := ex_waiting e - 1, ex_active := ex_active e + 1\<rparr>"
    by (rule pump_one_unfold [OF assms(1) r])
  note core = exec_coreD [OF assms(1)]
  have "key_ok (pump_one e) i s" if "jm_get (ex_states (pump_one e)) i = Some s" for i s
  proof (cases "i = k")
    case True
    with that p have "s = \<lparr>st_active = Some (t, Dispatched), st_pending = ts\<rparr>" by simp
    with True core(6) [OF g] core(2) r p show ?thesis
      by (auto simp: key_ok_def queued_def state_ids_def)
  next
    case False
    with that p have "jm_get (ex_states e) i = Some s" by simp
    with core(6) False r p show ?thesis by (auto simp: key_ok_def)
  qed
  moreover have "jm_has (ex_states (pump_one e)) i" if "i \<in> set ks" for i
    using that core(7) [of i] r p by (simp add: jm_has_def)
  ultimately have "exec_core (pump_one e)"
    using core(1,2,4,5) assms(2) r p g
    by (auto simp: exec_core_def jm_sum_set busy_def queued_def)
  then show ?thesis using p g
    by (auto simp: config_def view_def unstarted_def working_def jm_sum_set)
qed

lemma pump_core:
  assumes "exec_core e"
  shows "exec_core (pump e) \<and> (ex_active (pump e) < ex_max_concurrent e \<longrightarrow> ex_ready (pump e) = []) \<and>
    config (pump e) = config e \<and> ex_waiting (pump e) \<le> ex_waiting e \<and>
    map_option view (jm_get (ex_states (pump e)) j) = map_option view (jm_get (ex_states e) j) \<and>
    jm_sum (\<lambda>s. f (view s)) (ex_states (pump e)) = jm_sum (\<lambda>s. f (view s)) (ex_states e)"
  using assms
proof (induction e rule: pump.induct)
  case (1 e)
  show ?case
  proof (cases "ex_active e < ex_max_concurrent e \<and> ex_ready e \<noteq> []")
    case True
    with pump_one_core [OF 1(2), of j f] have one: "exec_core (pump_one e)" "config (pump_one e) = config e"
      "ex_waiting (pump_one e) = ex_waiting e - 1"
      "map_option view (jm_get (ex_states (pump_one e)) j) = map_option view (jm_get (ex_states e) j)"
      "jm_sum (\<lambda>s. f (view s)) (ex_states (pump_one e)) = jm_sum (\<lambda>s. f (view s)) (ex_states e)"
      by auto
    moreover from one(2) have "ex_max_concurrent (pump_one e) = ex_max_concurrent e" by (simp add: config_def)
    ultimately show ?thesis
      using 1(1) [OF True one(1)] True by (simp add: pump.simps [of e])
  next
    case False
    with 1(2) show ?thesis by (auto simp: pump.simps [of e])
  qed
qed

lemma pump_coreD:
  assumes "exec_core e"
  shows "exec_core (pump e)" "ex_active (pump e) < ex_max_concurrent e \<Longrightarrow> ex_ready (pump e) = []"
    "config (pump e) = config e" "ex_waiting (pump e) \<le> ex_waiting e"
    "map_option view (jm_get (ex_states (pump e)) j) = map_option view (jm_get (ex_states e) j)"
    "jm_sum (\<lambda>s. f (view s)) (ex_states (pump e)) = jm_sum (\<lambda>s. f (view s)) (ex_states e)"
  using pump_core [OF assms, of j f] by simp_all

lemma pump_one_coreD:
  assumes "exec_core e" "ex_active e < ex_max_concurrent e" "ex_ready e \<noteq> []"
  shows "exec_core (pump_one e)" "ex_waiting (pump_one e) = ex_waiting e - 1"
  using pump_one_core [OF assms] by simp_all

text \<open>The state \<open>run\<close> hands to \<open>pump\<close>.\<close>

definition push_task :: "'k executor \<Rightarrow> 'k \<Rightarrow> real \<Rightarrow> 'k executor" where
  "push_task e k now = (let s = (case jm_get (ex_states e) k of None \<Rightarrow> \<lparr>st_active = None, st_pending = []\<rparr> | Some s \<Rightarrow> s);
      s1 = s\<lparr>st_pending := st_pending s @ [\<lparr>task_id = ex_next e, enqueued_at = now\<rparr>]\<rparr>;
      e1 = e\<lparr>ex_states := jm_set (ex_states e) k s1, ex_next := Suc (ex_next e), ex_waiting := ex_waiting e + 1\<rparr> in
    if st_active s1 = None then mark_ready k e1 else e1)"

lemma exec_run_push:
  "exec_run e k now = (if \<not> can_run e k then (Inl (), e\<lparr>ex_rejected := ex_rejected e + 1\<rparr>)
    else (let f = pump (push_task e k now) in (Inr (ex_next e), f\<lparr>ex_peak := max (ex_peak f) (ex_waiting f)\<rparr>)))"
  by (simp add: exec_run_def push_task_def Let_def)

lemma state_ids_append:
  "state_ids (s\<lparr>st_pending := st_pending s @ [t]\<rparr>) = state_ids s @ [task_id t]"
  by (simp add: state_ids_def split: option.split)

lemma key_ok_frame:
  "key_ok e k s \<Longrightarrow> ex_ready f = ex_ready e \<Longrightarrow> ex_max_per_key f = ex_max_per_key e \<Longrightarrow> ex_next e \<le> ex_next f \<Longrightarrow> key_ok f k s"
  by (force simp: key_ok_def)

lemma push_task_core:
  assumes "exec_core e" "can_run e k"
  shows "exec_core (push_task e k now) \<and> ex_waiting (push_task e k now) = ex_waiting e + 1 \<and>
    ex_next (push_task e k now) = Suc (ex_next e)"
proof -
  note core = exec_coreD [OF assms(1)]
  define s where "s = (case jm_get (ex_states e) k of None \<Rightarrow> \<lparr>st_active = None, st_pending = []\<rparr> | Some s \<Rightarrow> s)"
  define s1 where "s1 = s\<lparr>st_pending := st_pending s @ [\<lparr>task_id = ex_next e, enqueued_at = now\<rparr>]\<rparr>"
  define r where "r = (if st_active s = None \<and> k \<notin> set (ex_ready e) then ex_ready e @ [k] else ex_ready e)"
  have f: "push_task e k now = e\<lparr>ex_states := jm_set (ex_states e) k s1, ex_next := Suc (ex_next e),
      ex_waiting := ex_waiting e + 1, ex_ready := r, ex_ready_set := set r\<rparr>"
    using core(3) by (auto simp: push_task_def mark_ready_def Let_def s_def [symmetric] s1_def r_def)
  have old: "sorted_wrt (<) (state_ids s) \<and> (\<forall>i\<in>set (state_ids s). i < ex_next e) \<and> queued s < ex_max_per_key e"
    using core(6) [of k] assms(2)
    by (auto simp: s_def key_ok_def state_ids_def can_run_def Let_def queued_def split: option.splits)
  have new: "k \<in> set r \<longleftrightarrow> st_active s1 = None"
  proof (cases "jm_get (ex_states e) k")
    case None
    with core(7) [of k] have "k \<notin> set (ex_ready e)" by (auto simp: jm_has_def)
    with None show ?thesis by (simp add: r_def s1_def s_def)
  next
    case (Some w)
    with core(6) [OF Some] show ?thesis by (auto simp: r_def s1_def s_def key_ok_def)
  qed
  have key: "key_ok (push_task e k now) j w" if "jm_get (jm_set (ex_states e) k s1) j = Some w" for j w
  proof (cases "j = k")
    case True
    with that have "w = s1" by simp
    with old new True show ?thesis
      by (auto simp: key_ok_def f s1_def state_ids_append sorted_wrt_append queued_def)
  next
    case False
    with that have "key_ok e j w" using core(6) by simp
    with False show ?thesis by (auto simp: key_ok_def f r_def)
  qed
  have "jm_has (jm_set (ex_states e) k s1) j" if "j \<in> set r" for j
    using that core(7) [of j] by (auto simp: r_def jm_has_def split: if_splits)
  moreover have "jm_sum busy (jm_set (ex_states e) k s1) = jm_sum busy (ex_states e)"
    by (simp add: jm_sum_set s1_def s_def busy_def split: option.split)
  moreover have "jm_sum queued (jm_set (ex_states e) k s1) = jm_sum queued (ex_states e) + 1"
    by (simp add: jm_sum_set s1_def s_def queued_def split: option.split)
  ultimately show ?thesis using key core(1,2,4,5,8)
    by (auto simp: exec_core_def f r_def)
qed

lemma exec_run_ok:
  assumes "exec_ok e"
  shows "exec_ok (snd (exec_run e k now))"
proof (cases "can_run e k")
  case False
  with assms show ?thesis
    by (simp add: exec_run_push exec_ok_def exec_core_def key_ok_def)
next
  case True
  have core: "exec_core e" using assms by (simp add: exec_ok_def)
  let ?f = "push_task e k now"
  have push: "exec_core ?f" "ex_waiting ?f = ex_waiting e + 1" using push_task_core [OF core True] by auto
  have conf: "ex_max_concurrent ?f = ex_max_concurrent e \<and> ex_max_pending ?f = ex_max_pending e \<and> ex_peak ?f = ex_peak e
      \<and> ex_active ?f = ex_active e"
    by (simp add: push_task_def mark_ready_def Let_def)
  have wait: "ex_waiting (pump ?f) \<le> ex_max_pending e"
  proof (cases "ex_waiting e < ex_max_pending e")
    case True
    with push pump_coreD(4) [OF push(1)] show ?thesis by simp
  next
    case False
    with \<open>can_run e k\<close> have free: "ex_active e < ex_max_concurrent e"
      and new: "jm_get (ex_states e) k = None \<or> (\<exists>s. jm_get (ex_states e) k = Some s \<and> st_active s = None \<and> st_pending s = [])"
      by (auto simp: can_run_def Let_def split: option.splits)
    have "jm_get (ex_states e) k = None" using new exec_coreD(6) [OF core, of k] by (auto simp: key_ok_def)
    moreover have "ex_ready e = []" using free assms by (simp add: exec_ok_def)
    ultimately have "ex_ready ?f = [k]" using exec_coreD(3) [OF core]
      by (simp add: push_task_def mark_ready_def Let_def)
    with free conf have round: "ex_active ?f < ex_max_concurrent ?f" "ex_ready ?f \<noteq> []" by auto
    note one = pump_one_coreD [OF push(1) round]
    then have "ex_waiting (pump (pump_one ?f)) \<le> ex_waiting e" using pump_coreD(4) [OF one(1)] push(2) by simp
    with round have "ex_waiting (pump ?f) \<le> ex_waiting e" by (simp add: pump.simps [of ?f])
    with assms show ?thesis by (simp add: exec_ok_def)
  qed
  have "config (pump ?f) = config ?f" "exec_core (pump ?f)"
    "ex_active (pump ?f) < ex_max_concurrent ?f \<longrightarrow> ex_ready (pump ?f) = []"
    using pump_coreD [OF push(1)] by simp_all
  with wait conf assms \<open>can_run e k\<close> show ?thesis
    by (simp add: exec_run_push Let_def config_def exec_ok_def exec_core_def key_ok_def)
qed

text \<open>\<open>complete\<close>, for a key whose task is running.\<close>

definition release :: "'k \<Rightarrow> key_state \<Rightarrow> 'k executor \<Rightarrow> 'k executor" where
  "release k s e = (let e1 = e\<lparr>ex_states := jm_set (ex_states e) k (s\<lparr>st_active := None\<rparr>), ex_active := ex_active e - 1\<rparr> in
    if st_pending s \<noteq> [] then mark_ready k e1 else e1\<lparr>ex_states := jm_delete (ex_states e1) k\<rparr>)"

lemma complete_release: "complete k s e = pump (release k s e)"
  by (simp add: complete_def release_def Let_def)

lemma release_core:
  assumes "exec_core e" and s: "jm_get (ex_states e) k = Some s" and a: "st_active s = Some a"
  shows "exec_core (release k s e) \<and> config (release k s e) = config e \<and> ex_waiting (release k s e) = ex_waiting e"
proof -
  note core = exec_coreD [OF assms(1)]
  have notin: "k \<notin> set (ex_ready e)" using core(6) [OF s] a by (simp add: key_ok_def)
  have busy: "busy s = 1" by (simp add: busy_def a)
  show ?thesis
  proof (cases "st_pending s = []")
    case True
    let ?S = "jm_delete (jm_set (ex_states e) k (s\<lparr>st_active := None\<rparr>)) k"
    have r: "release k s e = e\<lparr>ex_states := ?S, ex_active := ex_active e - 1\<rparr>"
      using True by (simp add: release_def Let_def)
    have get: "jm_get ?S j = (if j = k then None else jm_get (ex_states e) j)" for j
      using core(1) by (simp add: jm_get_delete)
    have "queued s = 0" using True by (simp add: queued_def)
    with busy s core(1,4,5) have "jm_sum busy ?S = ex_active e - 1" "jm_sum queued ?S = ex_waiting e"
      by (auto simp: jm_sum_delete jm_sum_set queued_def)
    moreover have "key_ok (release k s e) j w" if "jm_get ?S j = Some w" for j w
      using that get core(6) [of j w] r by (auto simp: key_ok_def split: if_splits)
    moreover have "jm_has ?S j" if "j \<in> set (ex_ready e)" for j
      using that core(7) notin get by (auto simp: jm_has_def)
    ultimately show ?thesis using core(1,2,3,8) r by (auto simp: exec_core_def config_def)
  next
    case False
    let ?S = "jm_set (ex_states e) k (s\<lparr>st_active := None\<rparr>)"
    have r: "release k s e = e\<lparr>ex_states := ?S, ex_active := ex_active e - 1, ex_ready := ex_ready e @ [k],
        ex_ready_set := set (ex_ready e @ [k])\<rparr>"
      using False notin core(3) by (auto simp: release_def Let_def mark_ready_def)
    have "jm_sum busy ?S = ex_active e - 1" "jm_sum queued ?S = ex_waiting e"
      using s busy core(4,5) by (auto simp: jm_sum_set queued_def busy_def)
    moreover have "key_ok (release k s e) j w" if "jm_get ?S j = Some w" for j w
    proof (cases "j = k")
      case True
      with that core(6) [OF s] False r show ?thesis
        by (auto simp: key_ok_def queued_def state_ids_def a split: prod.splits)
    next
      case ne: False
      with that core(6) [of j w] r show ?thesis by (auto simp: key_ok_def)
    qed
    moreover have "jm_has ?S j" if "j \<in> set (ex_ready e @ [k])" for j
      using that core(7) by (auto simp: jm_has_def)
    ultimately show ?thesis using core(1,2,8) r notin by (auto simp: exec_core_def config_def)
  qed
qed

lemma exec_ok_pump:
  assumes "exec_core e" "ex_waiting e \<le> ex_max_pending e" "ex_peak e \<le> ex_max_pending e" "0 < ex_max_concurrent e"
  shows "exec_ok (pump e)"
  using pump_coreD [OF assms(1)] assms by (simp add: exec_ok_def config_def)

lemma complete_ok:
  assumes "exec_ok e" "jm_get (ex_states e) k = Some s" "st_active s = Some a"
  shows "exec_ok (complete k s e)"
  unfolding complete_release
  using release_core [OF _ assms(2,3)] assms(1)
  by (intro exec_ok_pump) (simp_all add: exec_ok_def config_def)

lemma exec_ok_count [simp]: "exec_ok (e\<lparr>ex_expired := n\<rparr>) = exec_ok e"
  by (simp add: exec_ok_def exec_core_def key_ok_def)

lemma exec_settle_ok: "exec_ok e \<Longrightarrow> exec_ok (snd (exec_settle e k))"
  by (auto simp: exec_settle_def intro: complete_ok split: option.split prod.split phase.split)

text \<open>Rewriting the state of a key without touching the ready list.\<close>

lemma exec_ok_update:
  assumes "exec_ok e" "jm_get (ex_states e) k = Some s" "st_active s = None \<longleftrightarrow> st_active w = None"
    "length (st_pending w) = length (st_pending s)" "state_ids w = state_ids s"
  shows "exec_ok (e\<lparr>ex_states := jm_set (ex_states e) k w\<rparr>)"
proof -
  have core: "exec_core e" using assms(1) by (simp add: exec_ok_def)
  note core' = exec_coreD [OF core]
  have "st_pending w = [] \<longleftrightarrow> st_pending s = []" using assms(4) by (metis length_0_conv)
  then have "key_ok (e\<lparr>ex_states := jm_set (ex_states e) k w\<rparr>) j u" if "jm_get (jm_set (ex_states e) k w) j = Some u" for j u
    using that core'(6) [of j u] core'(6) [OF assms(2)] assms(3-5)
    by (auto simp: key_ok_def queued_def split: if_splits)
  moreover have "jm_sum busy (jm_set (ex_states e) k w) = jm_sum busy (ex_states e)"
    "jm_sum queued (jm_set (ex_states e) k w) = jm_sum queued (ex_states e)"
    using assms(2-4) by (auto simp: jm_sum_set busy_def queued_def)
  moreover have "jm_has (jm_set (ex_states e) k w) j" if "j \<in> set (ex_ready e)" for j
    using that core'(7) by (auto simp: jm_has_def)
  ultimately show ?thesis using core'(1-5,8) assms(1) by (simp add: exec_ok_def exec_core_def)
qed

lemma exec_begin_ok: "exec_ok e \<Longrightarrow> exec_ok (snd (exec_begin e k now))"
  by (auto simp: exec_begin_def state_ids_def intro!: complete_ok exec_ok_update
      split: option.split prod.split phase.split)

lemma refresh_ok: "exec_ok e \<Longrightarrow> exec_ok (refresh_pending e k i now)"
  by (auto simp: refresh_pending_def state_ids_def comp_def intro!: exec_ok_update split: option.split)

lemma filter_task_ids:
  "map task_id (filter (\<lambda>t. task_id t \<noteq> i) ts) = filter (\<lambda>j. j \<noteq> i) (map task_id ts)"
  by (simp add: filter_map comp_def)

lemma length_filter_once:
  "distinct (map f ts) \<Longrightarrow> \<exists>t\<in>set ts. f t = i \<Longrightarrow> Suc (length (filter (\<lambda>t. f t \<noteq> i) ts)) = length ts"
proof (induction ts)
  case (Cons t ts)
  show ?case
  proof (cases "f t = i")
    case True
    with Cons.prems(1) have "\<forall>u\<in>set ts. f u \<noteq> i" by (auto simp: image_iff)
    then have "filter (\<lambda>t. f t \<noteq> i) ts = ts" by (simp add: filter_id_conv)
    with True show ?thesis by simp
  next
    case False
    with Cons show ?thesis by auto
  qed
qed simp

lemma sorted_state_idsD:
  "sorted_wrt (<) (state_ids s) \<Longrightarrow> distinct (map task_id (st_pending s))"
  by (auto simp: state_ids_def sorted_wrt_append strict_sorted_iff)

lemma exec_expire_ok:
  assumes "exec_ok e"
  shows "exec_ok (snd (exec_expire e k i))"
proof (cases "\<exists>s. jm_get (ex_states e) k = Some s \<and> (\<exists>t\<in>set (st_pending s). task_id t = i)")
  case False
  with assms show ?thesis by (auto simp: exec_expire_def split: option.split)
next
  case True
  then obtain s where s: "jm_get (ex_states e) k = Some s" and t: "\<exists>t\<in>set (st_pending s). task_id t = i" by blast
  have core: "exec_core e" using assms by (simp add: exec_ok_def)
  note core' = exec_coreD [OF core]
  note ok = core'(6) [OF s, unfolded key_ok_def]
  define ts where "ts = filter (\<lambda>t. task_id t \<noteq> i) (st_pending s)"
  have len: "Suc (length ts) = length (st_pending s)"
    unfolding ts_def using ok t sorted_state_idsD by (intro length_filter_once) blast+
  have ids: "sorted_wrt (<) (state_ids (s\<lparr>st_pending := ts\<rparr>))"
    "set (state_ids (s\<lparr>st_pending := ts\<rparr>)) \<subseteq> set (state_ids s)"
    using ok by (auto simp: state_ids_def ts_def filter_task_ids sorted_wrt_append sorted_wrt_filter split: option.splits)
  have wait: "ex_waiting e \<le> ex_max_pending e" "ex_peak e \<le> ex_max_pending e" "0 < ex_max_concurrent e"
    "ex_active e < ex_max_concurrent e \<longrightarrow> ex_ready e = []"
    using assms by (auto simp: exec_ok_def)
  show ?thesis
  proof (cases "st_active s = None \<and> ts = []")
    case True
    let ?S = "jm_delete (jm_set (ex_states e) k (s\<lparr>st_pending := ts\<rparr>)) k"
    have f: "snd (exec_expire e k i) = e\<lparr>ex_states := ?S, ex_waiting := ex_waiting e - 1, ex_expired := ex_expired e + 1,
        ex_ready_set := set (remove1 k (ex_ready e)), ex_ready := remove1 k (ex_ready e)\<rparr>"
      using s t True core'(2,3) by (auto simp: exec_expire_def ts_def Let_def)
    have get: "jm_get ?S j = (if j = k then None else jm_get (ex_states e) j)" for j
      using core'(1) by (simp add: jm_get_delete)
    have "jm_sum busy ?S = ex_active e" "jm_sum queued ?S = ex_waiting e - 1"
      using s True len core'(1,4,5) by (auto simp: jm_sum_delete jm_sum_set busy_def queued_def)
    moreover have "key_ok (snd (exec_expire e k i)) j w" if "jm_get ?S j = Some w" for j w
      using that get core'(6) [of j w] core'(2) f by (auto simp: key_ok_def split: if_splits)
    moreover have "jm_has ?S j" if "j \<in> set (remove1 k (ex_ready e))" for j
      using that core'(2) core'(7) [of j] get by (auto simp: jm_has_def)
    ultimately show ?thesis using core'(1,2,8) wait f by (auto simp: exec_ok_def exec_core_def)
  next
    case False
    let ?S = "jm_set (ex_states e) k (s\<lparr>st_pending := ts\<rparr>)"
    have f: "snd (exec_expire e k i) = e\<lparr>ex_states := ?S, ex_waiting := ex_waiting e - 1, ex_expired := ex_expired e + 1\<rparr>"
      using s t False by (auto simp: exec_expire_def ts_def Let_def)
    have "jm_sum busy ?S = ex_active e" "jm_sum queued ?S = ex_waiting e - 1"
      using s len core'(4,5) by (auto simp: jm_sum_set busy_def queued_def)
    moreover have "key_ok (snd (exec_expire e k i)) j w" if "jm_get ?S j = Some w" for j w
      using that core'(6) [of j w] ok ids len False f
      by (auto simp: key_ok_def queued_def split: if_splits)
    moreover have "jm_has ?S j" if "j \<in> set (ex_ready e)" for j
      using that core'(7) by (auto simp: jm_has_def)
    ultimately show ?thesis using core'(1,2,3,8) wait f by (auto simp: exec_ok_def exec_core_def)
  qed
qed

lemma exec_step_ok:
  assumes "exec_ok e" "exec_step c now e = (out, f)"
  shows "exec_ok f"
proof (cases c)
  case (Run k)
  with assms exec_run_ok [OF assms(1), of k now] show ?thesis
    by (auto split: prod.splits sum.splits)
next
  case (Timer k i)
  with assms exec_expire_ok [OF assms(1), of k i] show ?thesis by (auto split: prod.splits)
next
  case (Begin k)
  with assms exec_begin_ok [OF assms(1), of k now] show ?thesis by simp
next
  case (Settle k)
  with assms exec_settle_ok [OF assms(1), of k] show ?thesis by simp
next
  case (Refresh k i)
  with assms refresh_ok [OF assms(1)] show ?thesis by auto
qed

lemma exec_trace_ok: "exec_ok e \<Longrightarrow> exec_ok (snd (exec_trace cs e))"
proof (induction cs arbitrary: e)
  case (Cons c cs)
  obtain a now where c: "c = (a, now)" by (cases c)
  obtain out f where s: "exec_step a now e = (out, f)" by (cases "exec_step a now e")
  from exec_step_ok [OF Cons.prems s] have "exec_ok (snd (exec_trace cs f))" by (rule Cons.IH)
  then show ?case by (simp add: c s case_prod_beta)
qed simp

lemma exec_ok_new: "exec_new b = Inr e \<Longrightarrow> exec_ok e"
  by (auto simp: exec_new_def Let_def exec_ok_def exec_core_def
      elim!: is_safe_integerE split: if_splits)

section \<open>The contract\<close>

text \<open>What a client sees: per key the queue of admitted tasks that have not started and the task that
  runs. An event admits at the end of a queue, refuses, drops a task that has not started, starts the
  first task of a queue when nothing runs for its key, or ends the running task.\<close>

type_synonym 'k queues = "('k \<Rightarrow> nat list) \<times> ('k \<Rightarrow> nat option) \<times> nat"

inductive keyed_step :: "'k queues \<Rightarrow> 'k observation list \<Rightarrow> 'k queues \<Rightarrow> bool" where
  idle: "keyed_step a [] a"
| refuse: "keyed_step a [Refused k] a"
| admit: "keyed_step (q, w, n) [Admitted k n] (q(k := q k @ [n]), w, Suc n)"
| expire: "i \<in> set (q k) \<Longrightarrow> keyed_step (q, w, n) [Expired k i] (q(k := filter (\<lambda>j. j \<noteq> i) (q k)), w, n)"
| start: "q k = i # is \<Longrightarrow> w k = None \<Longrightarrow> keyed_step (q, w, n) [Started k i] (q(k := is), w(k \<mapsto> i), n)"
| finish: "w k = Some i \<Longrightarrow> keyed_step (q, w, n) [Finished k i] (q, w(k := None), n)"

inductive_cases keyed_stepE: "keyed_step a out b"

inductive keyed_run :: "'k queues \<Rightarrow> 'k observation list \<Rightarrow> 'k queues \<Rightarrow> bool" where
  stop: "keyed_run a [] a"
| more: "keyed_run a out b \<Longrightarrow> keyed_step b obs c \<Longrightarrow> keyed_run a (out @ obs) c"

lemma keyed_run_trans:
  assumes "keyed_run b obs c" "keyed_run a out b"
  shows "keyed_run a (out @ obs) c"
  using assms(1,2)
proof (induction b obs c rule: keyed_run.induct)
  case (more b out' c obs d)
  then show ?case using keyed_run.more [of a "out @ out'" c obs d] by simp
qed simp

definition key_view :: "'k executor \<Rightarrow> 'k \<Rightarrow> nat list \<times> nat option" where
  "key_view e k = (case jm_get (ex_states e) k of None \<Rightarrow> ([], None) | Some s \<Rightarrow> view s)"

definition queues_of :: "'k executor \<Rightarrow> 'k queues" where
  "queues_of e = (\<lambda>k. fst (key_view e k), \<lambda>k. snd (key_view e k), ex_next e)"

definition empty_queues :: "'k queues" where
  "empty_queues = (\<lambda>k. [], \<lambda>k. None, 0)"

lemma queues_of_eqI:
  assumes "\<And>j. key_view f j = (if j = k then (is, v) else key_view e j)" "ex_next f = n"
  shows "queues_of f = ((fst (queues_of e))(k := is), (fst (snd (queues_of e)))(k := v), n)"
  using assms by (auto simp: queues_of_def)

lemma key_view_pump: "exec_core e \<Longrightarrow> key_view (pump e) k = key_view e k"
  using pump_coreD(5) [of e k] by (auto simp: key_view_def split: option.splits)

lemma queues_of_pump: "exec_core e \<Longrightarrow> queues_of (pump e) = queues_of e"
  using pump_coreD(3) [of e] by (simp add: queues_of_def key_view_pump config_def)

lemma key_view_push:
  "key_view (push_task e k now) j = (if j = k then (fst (key_view e k) @ [ex_next e], snd (key_view e k)) else key_view e j)"
  by (auto simp: key_view_def push_task_def mark_ready_def Let_def view_def unstarted_def working_def split: option.split)

lemma key_view_release:
  assumes "jm_ok (ex_states e)" "jm_get (ex_states e) k = Some s"
  shows "key_view (release k s e) j = (if j = k then (map task_id (st_pending s), None) else key_view e j)"
  using assms
  by (auto simp: key_view_def release_def mark_ready_def Let_def view_def unstarted_def working_def jm_get_delete)

lemma queues_of_sel: "queues_of e = (\<lambda>k. fst (key_view e k), \<lambda>k. snd (key_view e k), ex_next e)"
  by (rule queues_of_def)

lemma refines_run:
  assumes "exec_ok e" "exec_run e k now = (r, f)"
  shows "keyed_step (queues_of e) [case r of Inl _ \<Rightarrow> Refused k | Inr i \<Rightarrow> Admitted k i] (queues_of f)"
proof (cases "can_run e k")
  case False
  with assms have "r = Inl ()" "queues_of f = queues_of e"
    by (auto simp: exec_run_push queues_of_def key_view_def)
  then show ?thesis by (simp add: keyed_step.refuse)
next
  case True
  have core: "exec_core e" using assms(1) by (simp add: exec_ok_def)
  note push = push_task_core [OF core True, of now]
  from True assms(2) have r: "r = Inr (ex_next e)"
    and "queues_of f = queues_of (pump (push_task e k now))"
    by (auto simp: exec_run_push Let_def queues_of_def key_view_def)
  with push have "queues_of f = queues_of (push_task e k now)" by (simp add: queues_of_pump)
  also have "\<dots> = ((fst (queues_of e))(k := fst (queues_of e) k @ [ex_next e]), fst (snd (queues_of e)), Suc (ex_next e))"
    using push by (auto simp: queues_of_def key_view_push)
  finally show ?thesis
    using keyed_step.admit [of "fst (queues_of e)" "fst (snd (queues_of e))" "ex_next e" k] r
    by (simp add: queues_of_def)
qed

lemma refines_release:
  assumes "exec_ok e" "jm_get (ex_states e) k = Some s" "st_active s = Some a"
  shows "queues_of (complete k s (e\<lparr>ex_expired := n\<rparr>)) =
    ((fst (queues_of e))(k := map task_id (st_pending s)), (fst (snd (queues_of e)))(k := None), ex_next e)"
proof -
  let ?e = "e\<lparr>ex_expired := n\<rparr>"
  have core: "exec_core ?e" using assms(1) exec_ok_count [of n e] by (simp add: exec_ok_def)
  have get: "jm_get (ex_states ?e) k = Some s" using assms(2) by simp
  have rel: "exec_core (release k s ?e)" "ex_next (release k s ?e) = ex_next e"
    using release_core [OF core get assms(3)] by (simp_all add: config_def)
  have "key_view (release k s ?e) j = (if j = k then (map task_id (st_pending s), None) else key_view e j)" for j
    using key_view_release [OF exec_coreD(1) [OF core] get, of j] by (simp add: key_view_def)
  then have "queues_of (release k s ?e) = ((fst (queues_of e))(k := map task_id (st_pending s)),
      (fst (snd (queues_of e)))(k := None), ex_next e)"
    using rel(2) by (rule queues_of_eqI)
  then show ?thesis using rel(1) by (simp add: complete_release queues_of_pump)
qed

lemma refines_begin:
  assumes "exec_ok e" "exec_begin e k now = (out, f)"
  shows "keyed_step (queues_of e) out (queues_of f)"
proof (cases "\<exists>s t. jm_get (ex_states e) k = Some s \<and> st_active s = Some (t, Dispatched)")
  case False
  with assms show ?thesis
    by (auto simp: exec_begin_def keyed_step.idle split: option.splits prod.splits phase.splits)
next
  case True
  then obtain s t where s: "jm_get (ex_states e) k = Some s" and a: "st_active s = Some (t, Dispatched)" by blast
  let ?q = "fst (queues_of e)" and ?w = "fst (snd (queues_of e))" and ?n = "ex_next e" and ?i = "task_id t"
  have head: "?q k = ?i # map task_id (st_pending s)" "?w k = None"
    using s a by (simp_all add: queues_of_def key_view_def view_def unstarted_def working_def)
  show ?thesis
  proof (cases "ex_max_age e \<le> now - enqueued_at t")
    case late: True
    have "sorted_wrt (<) (state_ids s)" using assms(1) s by (auto simp: exec_ok_def exec_core_def key_ok_def)
    then have "filter (\<lambda>j. j \<noteq> ?i) (?q k) = map task_id (st_pending s)"
      using head a by (auto simp: state_ids_def filter_id_conv)
    moreover have "queues_of f = (?q(k := map task_id (st_pending s)), ?w, ?n)" "out = [Expired k ?i]"
      using assms late s a refines_release [OF assms(1) s a] head(2)
      by (auto simp: exec_begin_def fun_upd_idem)
    ultimately show ?thesis
      using keyed_step.expire [of ?i ?q k ?w ?n] head(1) by (simp add: queues_of_def)
  next
    case False
    with assms s a have f: "f = e\<lparr>ex_states := jm_set (ex_states e) k (s\<lparr>st_active := Some (t, Working)\<rparr>)\<rparr>"
      "out = [Started k ?i]" by (auto simp: exec_begin_def)
    have "queues_of f = (?q(k := map task_id (st_pending s)), ?w(k \<mapsto> ?i), ?n)"
      by (rule queues_of_eqI) (auto simp: f key_view_def view_def unstarted_def working_def)
    then show ?thesis
      using keyed_step.start [of ?q k ?i "map task_id (st_pending s)" ?w ?n] head f by (simp add: queues_of_def)
  qed
qed

lemma refines_settle:
  assumes "exec_ok e" "exec_settle e k = (out, f)"
  shows "keyed_step (queues_of e) out (queues_of f)"
proof (cases "\<exists>s t. jm_get (ex_states e) k = Some s \<and> st_active s = Some (t, Working)")
  case False
  with assms show ?thesis
    by (auto simp: exec_settle_def keyed_step.idle split: option.splits prod.splits phase.splits)
next
  case True
  then obtain s t where s: "jm_get (ex_states e) k = Some s" and a: "st_active s = Some (t, Working)" by blast
  let ?q = "fst (queues_of e)" and ?w = "fst (snd (queues_of e))" and ?n = "ex_next e"
  have head: "?q k = map task_id (st_pending s)" "?w k = Some (task_id t)"
    using s a by (simp_all add: queues_of_def key_view_def view_def unstarted_def working_def)
  have "e\<lparr>ex_expired := ex_expired e\<rparr> = e" by simp
  then have "queues_of f = (?q, ?w(k := None), ?n)" "out = [Finished k (task_id t)]"
    using assms s a refines_release [OF assms(1) s a, of "ex_expired e"] head(1)
    by (auto simp: exec_settle_def fun_upd_idem)
  then show ?thesis using keyed_step.finish [of ?w k "task_id t" ?q ?n] head(2) by (simp add: queues_of_def)
qed

lemma refines_expire:
  assumes "exec_ok e" "exec_expire e k i = (b, f)"
  shows "keyed_step (queues_of e) (if b then [Expired k i] else []) (queues_of f)"
proof (cases "\<exists>s. jm_get (ex_states e) k = Some s \<and> (\<exists>t\<in>set (st_pending s). task_id t = i)")
  case False
  with assms show ?thesis by (auto simp: exec_expire_def keyed_step.idle split: option.splits)
next
  case True
  then obtain s where s: "jm_get (ex_states e) k = Some s" and t: "\<exists>t\<in>set (st_pending s). task_id t = i" by blast
  let ?q = "fst (queues_of e)" and ?w = "fst (snd (queues_of e))" and ?n = "ex_next e"
  have okm: "jm_ok (ex_states e)" and sorted: "sorted_wrt (<) (state_ids s)"
    using assms(1) s by (auto simp: exec_ok_def exec_core_def key_ok_def)
  have q: "i \<in> set (?q k)" using s t
    by (auto simp: queues_of_def key_view_def view_def unstarted_def split: option.split)
  have act: "task_id u \<noteq> i" if "st_active s = Some (u, p)" for u p
    using sorted that t by (force simp: state_ids_def)
  have "key_view f j = (if j = k then (filter (\<lambda>j. j \<noteq> i) (?q k), ?w k) else key_view e j)" for j
  proof -
    have f: "f = snd (exec_expire e k i)" using assms(2) by simp
    have v: "view (s\<lparr>st_pending := filter (\<lambda>t. task_id t \<noteq> i) (st_pending s)\<rparr>) = (filter (\<lambda>j. j \<noteq> i) (unstarted s), working s)"
      using act by (auto simp: view_def unstarted_def working_def filter_task_ids split: option.split phase.split)
    have key: "key_view e k = view s" using s by (simp add: key_view_def)
    show ?thesis
    proof (cases "st_active s = None \<and> filter (\<lambda>t. task_id t \<noteq> i) (st_pending s) = []")
      case True
      then have "view s = (unstarted s, None)" "filter (\<lambda>j. j \<noteq> i) (unstarted s) = []"
        by (auto simp: view_def unstarted_def working_def filter_task_ids [symmetric])
      with True s t okm key show ?thesis
        by (auto simp: f exec_expire_def Let_def key_view_def queues_of_def jm_get_delete)
    next
      case False
      with s t v key show ?thesis
        by (auto simp: f exec_expire_def Let_def key_view_def queues_of_def) (simp_all add: view_def)
    qed
  qed
  moreover have "ex_next f = ?n" using assms(2) s t by (auto simp: exec_expire_def Let_def)
  ultimately have "queues_of f = (?q(k := filter (\<lambda>j. j \<noteq> i) (?q k)), ?w(k := ?w k), ?n)" by (rule queues_of_eqI)
  moreover have "b" using assms(2) s t by (auto simp: exec_expire_def Let_def)
  ultimately show ?thesis using keyed_step.expire [of i ?q k ?w ?n] q by (simp add: queues_of_def fun_upd_idem)
qed

lemma refines_refresh: "queues_of (refresh_pending e k i now) = queues_of e"
proof -
  have "key_view (refresh_pending e k i now) j = key_view e j" for j
    by (auto simp: refresh_pending_def key_view_def view_def unstarted_def working_def comp_def split: option.split)
  moreover have "ex_next (refresh_pending e k i now) = ex_next e"
    by (simp add: refresh_pending_def split: option.split)
  ultimately show ?thesis by (simp add: queues_of_def)
qed

lemma refines_step:
  assumes "exec_ok e" "exec_step c now e = (out, f)"
  shows "keyed_step (queues_of e) out (queues_of f)"
proof (cases c)
  case (Run k)
  obtain r g where "exec_run e k now = (r, g)" by (cases "exec_run e k now")
  with Run assms refines_run [OF assms(1) this] show ?thesis by (auto split: sum.splits)
next
  case (Timer k i)
  obtain b g where "exec_expire e k i = (b, g)" by (cases "exec_expire e k i")
  with Timer assms refines_expire [OF assms(1) this] show ?thesis by auto
next
  case (Refresh k i)
  with assms(2) have "out = []" "queues_of f = queues_of e" by (auto simp: refines_refresh)
  then show ?thesis by (simp add: keyed_step.idle)
qed (use assms refines_begin refines_settle in auto)

lemma refines_trace:
  assumes "exec_ok e"
  shows "keyed_run (queues_of e) (fst (exec_trace cs e)) (queues_of (snd (exec_trace cs e)))"
  using assms
proof (induction cs arbitrary: e)
  case Nil
  show ?case by (simp add: keyed_run.stop)
next
  case (Cons c cs)
  obtain a now where c: "c = (a, now)" by (cases c)
  obtain out f where s: "exec_step a now e = (out, f)" by (cases "exec_step a now e")
  have "keyed_run (queues_of e) ([] @ out) (queues_of f)"
    by (rule keyed_run.more [OF keyed_run.stop refines_step [OF Cons.prems s]])
  with keyed_run_trans [OF Cons.IH [OF exec_step_ok [OF Cons.prems s]]] show ?case
    by (simp add: c s case_prod_beta)
qed

section \<open>Consequences of the contract\<close>

definition started_of :: "'k \<Rightarrow> 'k observation list \<Rightarrow> nat list" where
  "started_of k out = concat (map (\<lambda>x. case x of Started j i \<Rightarrow> (if j = k then [i] else []) | _ \<Rightarrow> []) out)"

definition finished_of :: "'k \<Rightarrow> 'k observation list \<Rightarrow> nat list" where
  "finished_of k out = concat (map (\<lambda>x. case x of Finished j i \<Rightarrow> (if j = k then [i] else []) | _ \<Rightarrow> []) out)"

definition admitted_to :: "'k observation list \<Rightarrow> ('k \<times> nat) list" where
  "admitted_to out = concat (map (\<lambda>x. case x of Admitted k i \<Rightarrow> [(k, i)] | _ \<Rightarrow> []) out)"

definition settled_in :: "'k observation list \<Rightarrow> ('k \<times> nat) list" where
  "settled_in out = concat (map (\<lambda>x. case x of Expired k i \<Rightarrow> [(k, i)] | Finished k i \<Rightarrow> [(k, i)] | _ \<Rightarrow> []) out)"

lemmas trace_views = started_of_def finished_of_def admitted_to_def settled_in_def

lemma trace_views_append [simp]:
  "started_of k (a @ b) = started_of k a @ started_of k b" "finished_of k (a @ b) = finished_of k a @ finished_of k b"
  "admitted_to (a @ b) = admitted_to a @ admitted_to b" "settled_in (a @ b) = settled_in a @ settled_in b"
  by (simp_all add: trace_views)

lemma trace_views_nil [simp]:
  "started_of k [] = []" "finished_of k [] = []" "admitted_to [] = []" "settled_in [] = []"
  by (simp_all add: trace_views)

lemma trace_views_single [simp]:
  "started_of k [Started j i] = (if j = k then [i] else [])" "started_of k [Admitted j i] = []"
  "started_of k [Refused j] = []" "started_of k [Expired j i] = []" "started_of k [Finished j i] = []"
  "finished_of k [Finished j i] = (if j = k then [i] else [])" "finished_of k [Admitted j i] = []"
  "finished_of k [Refused j] = []" "finished_of k [Expired j i] = []" "finished_of k [Started j i] = []"
  "admitted_to [Admitted j i] = [(j, i)]" "admitted_to [Refused j] = []" "admitted_to [Expired j i] = []"
  "admitted_to [Started j i] = []" "admitted_to [Finished j i] = []"
  "settled_in [Expired j i] = [(j, i)]" "settled_in [Finished j i] = [(j, i)]" "settled_in [Admitted j i] = []"
  "settled_in [Refused j] = []" "settled_in [Started j i] = []"
  by (simp_all add: trace_views)

text \<open>What every run from empty queues keeps: the started tasks of a key come in the order of admission
  and before the queued ones, at most the last of them has not finished, and a queued or running task
  was admitted to its key and is not settled.\<close>

definition run_inv :: "'k observation list \<Rightarrow> 'k queues \<Rightarrow> bool" where
  "run_inv out s = (case s of (q, w, n) \<Rightarrow>
    map snd (admitted_to out) = [0..<n] \<and>
    (\<forall>k. sorted_wrt (<) (started_of k out @ q k)) \<and>
    (\<forall>k. started_of k out = finished_of k out @ (case w k of None \<Rightarrow> [] | Some i \<Rightarrow> [i])) \<and>
    distinct (map snd (settled_in out)) \<and>
    (\<forall>k i. (k, i) \<in> set (admitted_to out) \<longleftrightarrow> (k, i) \<in> set (settled_in out) \<or> i \<in> set (q k) \<or> w k = Some i) \<and>
    (\<forall>k j i. i \<in> set (q k) \<or> w k = Some i \<longrightarrow> (j, i) \<notin> set (settled_in out)))"

lemma finished_settled: "i \<in> set (finished_of k out) \<Longrightarrow> (k, i) \<in> set (settled_in out)"
  by (induction out) (auto simp: trace_views split: observation.splits if_splits)

lemma admitted_once:
  assumes "map snd (admitted_to out) = [0..<n]" "(k, i) \<in> set (admitted_to out)" "(j, i) \<in> set (admitted_to out)"
  shows "j = k"
proof -
  have "inj_on snd (set (admitted_to out))" using assms(1) by (metis distinct_map distinct_upt)
  from inj_onD [OF this _ assms(2,3)] show ?thesis by simp
qed

lemma admitted_less:
  "map snd (admitted_to out) = [0..<n] \<Longrightarrow> (k, i) \<in> set (admitted_to out) \<Longrightarrow> i < n"
  by (metis atLeastLessThan_iff image_eqI list.set_map set_upt snd_conv)

lemma run_invD:
  assumes "run_inv out (q, w, n)"
  shows "map snd (admitted_to out) = [0..<n]" "sorted_wrt (<) (started_of k out @ q k)"
    "started_of k out = finished_of k out @ (case w k of None \<Rightarrow> [] | Some i \<Rightarrow> [i])"
    "distinct (map snd (settled_in out))"
    "(k, i) \<in> set (admitted_to out) \<longleftrightarrow> (k, i) \<in> set (settled_in out) \<or> i \<in> set (q k) \<or> w k = Some i"
    "i \<in> set (q k) \<or> w k = Some i \<Longrightarrow> (j, i) \<notin> set (settled_in out)"
  using assms unfolding run_inv_def by blast+

lemma run_invI:
  assumes "map snd (admitted_to out) = [0..<n]" "\<And>k. sorted_wrt (<) (started_of k out @ q k)"
    "\<And>k. started_of k out = finished_of k out @ (case w k of None \<Rightarrow> [] | Some i \<Rightarrow> [i])"
    "distinct (map snd (settled_in out))"
    "\<And>k i. (k, i) \<in> set (admitted_to out) \<longleftrightarrow> (k, i) \<in> set (settled_in out) \<or> i \<in> set (q k) \<or> w k = Some i"
    "\<And>k j i. i \<in> set (q k) \<or> w k = Some i \<Longrightarrow> (j, i) \<notin> set (settled_in out)"
  shows "run_inv out (q, w, n)"
  using assms unfolding run_inv_def by blast

lemma run_inv_less:
  assumes "run_inv out (q, w, n)" "i \<in> set (started_of k out @ q k)"
  shows "i < n"
proof -
  have "(k, i) \<in> set (settled_in out) \<or> i \<in> set (q k) \<or> w k = Some i"
    using assms(2) run_invD(3) [OF assms(1), of k] finished_settled by (force split: option.splits)
  then show ?thesis using run_invD(1,5) [OF assms(1)] admitted_less by metis
qed

lemma run_inv_unique:
  assumes "run_inv out (q, w, n)" "i \<in> set (q k) \<or> w k = Some i" "i \<in> set (q j) \<or> w j = Some i"
  shows "j = k"
  using assms(2,3) run_invD(5) [OF assms(1)] by (intro admitted_once [OF run_invD(1) [OF assms(1)], of k i j]) auto

lemma run_inv_queue:
  assumes "run_inv out (q, w, n)" "w k = Some i"
  shows "i \<notin> set (q k)"
  using run_invD(2,3) [OF assms(1), of k] assms(2) by (auto simp: sorted_wrt_append)

lemma run_inv_admit:
  assumes "run_inv out (q, w, n)"
  shows "run_inv (out @ [Admitted k n]) (q(k := q k @ [n]), w, Suc n)"
proof (rule run_invI)
  note inv = run_invD [OF assms]
  have fresh: "(j, n) \<notin> set (settled_in out)" for j
    using admitted_less [OF inv(1), of j n] inv(5) by blast
  show "map snd (admitted_to (out @ [Admitted k n])) = [0..<Suc n]" using inv(1) by simp
  show "sorted_wrt (<) (started_of j (out @ [Admitted k n]) @ (q(k := q k @ [n])) j)" for j
    using inv(2) [of j] run_inv_less [OF assms, of _ j] by (auto simp: sorted_wrt_append)
  show "started_of j (out @ [Admitted k n]) = finished_of j (out @ [Admitted k n]) @ (case w j of None \<Rightarrow> [] | Some i \<Rightarrow> [i])" for j
    using inv(3) [of j] by simp
  show "distinct (map snd (settled_in (out @ [Admitted k n])))" using inv(4) by simp
  show "(j, i) \<in> set (admitted_to (out @ [Admitted k n])) \<longleftrightarrow>
      (j, i) \<in> set (settled_in (out @ [Admitted k n])) \<or> i \<in> set ((q(k := q k @ [n])) j) \<or> w j = Some i" for j i
    using inv(5) [of j i] by auto
  show "(m, i) \<notin> set (settled_in (out @ [Admitted k n]))" if "i \<in> set ((q(k := q k @ [n])) j) \<or> w j = Some i" for j m i
    using that inv(6) [of i j m] fresh by (auto split: if_splits)
qed

text \<open>Expiry and completion: task \<open>i\<close> of key \<open>k\<close> leaves and is settled.\<close>

lemma run_inv_leave:
  assumes inv: "run_inv out (q, w, n)"
    and views: "admitted_to obs = []" "settled_in obs = [(k, i)]" "\<And>j. started_of j obs = []"
    and held: "i \<in> set (q k) \<or> w k = Some i"
    and sub: "\<And>j. sorted_wrt (<) (started_of j out @ q' j)"
    and fin: "\<And>j. started_of j out = finished_of j (out @ obs) @ (case w' j of None \<Rightarrow> [] | Some i \<Rightarrow> [i])"
    and left: "\<And>j v. v \<in> set (q' j) \<or> w' j = Some v \<longleftrightarrow> (v \<in> set (q j) \<or> w j = Some v) \<and> v \<noteq> i"
  shows "run_inv (out @ obs) (q', w', n)"
proof (rule run_invI)
  note inv' = run_invD [OF inv]
  have one: "j = k" if "i \<in> set (q j) \<or> w j = Some i" for j
    using run_inv_unique [OF inv held that] .
  show "map snd (admitted_to (out @ obs)) = [0..<n]" using inv'(1) views by simp
  show "sorted_wrt (<) (started_of j (out @ obs) @ q' j)" for j using sub views by simp
  show "started_of j (out @ obs) = finished_of j (out @ obs) @ (case w' j of None \<Rightarrow> [] | Some i \<Rightarrow> [i])" for j
    using fin [of j] views by simp
  show "distinct (map snd (settled_in (out @ obs)))"
    using inv'(4) inv'(6) [OF held] views by (auto simp: image_iff)
  show "(j, v) \<in> set (admitted_to (out @ obs)) \<longleftrightarrow> (j, v) \<in> set (settled_in (out @ obs)) \<or> v \<in> set (q' j) \<or> w' j = Some v" for j v
    using inv'(5) [of j v] left [of v j] views held one [of j] by auto
  show "(m, v) \<notin> set (settled_in (out @ obs))" if "v \<in> set (q' j) \<or> w' j = Some v" for j m v
    using inv'(6) [of v j m] left [of v j] views that by auto
qed

lemma run_inv_start:
  assumes "run_inv out (q, w, n)" "q k = i # is" "w k = None"
  shows "run_inv (out @ [Started k i]) (q(k := is), w(k \<mapsto> i), n)"
proof (rule run_invI)
  note inv = run_invD [OF assms(1)]
  show "map snd (admitted_to (out @ [Started k i])) = [0..<n]" using inv(1) by simp
  show "sorted_wrt (<) (started_of j (out @ [Started k i]) @ (q(k := is)) j)" for j
    using inv(2) [of j] assms(2) by (auto simp: sorted_wrt_append)
  show "started_of j (out @ [Started k i]) = finished_of j (out @ [Started k i]) @
      (case (w(k \<mapsto> i)) j of None \<Rightarrow> [] | Some i \<Rightarrow> [i])" for j
    using inv(3) [of j] assms(3) by simp
  show "distinct (map snd (settled_in (out @ [Started k i])))" using inv(4) by simp
  show "(j, v) \<in> set (admitted_to (out @ [Started k i])) \<longleftrightarrow>
      (j, v) \<in> set (settled_in (out @ [Started k i])) \<or> v \<in> set ((q(k := is)) j) \<or> (w(k \<mapsto> i)) j = Some v" for j v
    using inv(5) [of j v] assms(2,3) by auto
  show "(m, v) \<notin> set (settled_in (out @ [Started k i]))" if "v \<in> set ((q(k := is)) j) \<or> (w(k \<mapsto> i)) j = Some v" for j m v
    using that inv(6) [of v j m] assms(2) by (auto split: if_splits)
qed

lemma run_inv_step:
  assumes inv: "run_inv out a" and step: "keyed_step a obs b"
  shows "run_inv (out @ obs) b"
  using step
proof cases
  case idle
  then show ?thesis using inv by simp
next
  case refuse
  then show ?thesis using inv by (simp add: run_inv_def)
next
  case (admit q w n k)
  then show ?thesis using inv by (simp add: run_inv_admit)
next
  case (expire i q k w n)
  note inv' = inv [unfolded expire(1)]
  have "w j \<noteq> Some i" for j
    using run_inv_unique [OF inv', of i k j] run_inv_queue [OF inv', of k i] expire(4) by auto
  moreover have "i \<notin> set (q j)" if "j \<noteq> k" for j
    using run_inv_unique [OF inv', of i k j] expire(4) that by auto
  ultimately show ?thesis unfolding expire(2,3)
    using run_invD(2,3) [OF inv'] expire(4)
    by (intro run_inv_leave [OF inv', where k = k and i = i]) (auto simp: sorted_wrt_append sorted_wrt_filter)
next
  case (start q k i "is" w n)
  then show ?thesis using inv run_inv_start by metis
next
  case (finish w k i q n)
  note inv' = inv [unfolded finish(1)]
  have "i \<notin> set (q j)" for j
    using run_inv_unique [OF inv', of i k j] run_inv_queue [OF inv', of k i] finish(4) by auto
  moreover have "w j \<noteq> Some i" if "j \<noteq> k" for j
    using run_inv_unique [OF inv', of i k j] finish(4) that by auto
  ultimately show ?thesis unfolding finish(2,3)
    using run_invD(2,3) [OF inv'] finish(4)
    by (intro run_inv_leave [OF inv', where k = k and i = i]) (auto split: if_splits)
qed

lemma run_inv_run: "keyed_run a out b \<Longrightarrow> a = empty_queues \<Longrightarrow> run_inv out b"
proof (induction rule: keyed_run.induct)
  case (stop a)
  then show ?case by (simp add: empty_queues_def run_inv_def)
next
  case (more a out b obs c)
  then show ?case by (blast intro: run_inv_step)
qed

lemma queues_of_new: "exec_new b = Inr e \<Longrightarrow> queues_of e = empty_queues"
  by (auto simp: exec_new_def Let_def queues_of_def key_view_def empty_queues_def split: if_splits)

lemma trace_inv:
  assumes "exec_new b = Inr e"
  shows "run_inv (fst (exec_trace cs e)) (queues_of (snd (exec_trace cs e)))"
  using refines_trace [OF exec_ok_new [OF assms], of cs] queues_of_new [OF assms] by (rule run_inv_run)

definition limits :: "'k executor \<Rightarrow> int \<times> int \<times> int \<times> real" where
  "limits e = (ex_max_concurrent e, ex_max_pending e, ex_max_per_key e, ex_max_age e)"

lemma limits_pump: "limits (pump e) = limits e"
proof (induction e rule: pump.induct)
  case (1 e)
  have "limits (pump_one e) = limits e"
    by (simp add: limits_def pump_one_def Let_def split: option.split list.split)
  with 1 show ?case by (simp add: pump.simps [of e])
qed

lemma limits_simps [simp]:
  "limits (mark_ready k e) = limits e" "limits (complete k s e) = limits e" "limits (e\<lparr>ex_states := S\<rparr>) = limits e"
  "limits (e\<lparr>ex_expired := n\<rparr>) = limits e"
  by (simp_all add: complete_release limits_pump) (simp_all add: release_def Let_def limits_def mark_ready_def)

lemma limits_step: "exec_step c now e = (out, f) \<Longrightarrow> limits f = limits e"
proof (cases c)
  case (Run k)
  have "limits (push_task e k now) = limits e" by (simp add: push_task_def Let_def limits_def mark_ready_def)
  with limits_pump [of "push_task e k now"] have "limits (snd (exec_run e k now)) = limits e"
    by (simp add: exec_run_push Let_def) (simp add: limits_def)
  then show "exec_step c now e = (out, f) \<Longrightarrow> limits f = limits e"
    using Run by (auto split: prod.splits sum.splits)
next
  case (Timer k i)
  have "limits (snd (exec_expire e k i)) = limits e"
    by (simp add: exec_expire_def Let_def limits_def split: option.split)
  then show "exec_step c now e = (out, f) \<Longrightarrow> limits f = limits e"
    using Timer by (auto split: prod.splits)
qed (auto simp: exec_begin_def exec_settle_def refresh_pending_def split: option.splits prod.splits phase.splits if_splits)

lemma limits_trace: "limits (snd (exec_trace cs e)) = limits e"
proof (induction cs arbitrary: e)
  case (Cons c cs)
  obtain a now where c: "c = (a, now)" by (cases c)
  obtain out f where s: "exec_step a now e = (out, f)" by (cases "exec_step a now e")
  from Cons.IH [of f] limits_step [OF s] show ?case by (simp add: c s case_prod_beta)
qed simp

text \<open>The counters against the observations: the events a client sees of a run determine the refusals
  and the expiries, and the peak follows the waiting count from state to state.\<close>

definition refusals :: "'k observation list \<Rightarrow> int" where
  "refusals out = int (length [u \<leftarrow> out. case u of Refused _ \<Rightarrow> True | _ \<Rightarrow> False])"

definition expiries :: "'k observation list \<Rightarrow> int" where
  "expiries out = int (length [u \<leftarrow> out. case u of Expired _ _ \<Rightarrow> True | _ \<Rightarrow> False])"

definition counts :: "'k executor \<Rightarrow> int \<times> int \<times> int" where
  "counts e = (ex_rejected e, ex_expired e, ex_peak e)"

lemma counts_pump: "counts (pump e) = counts e \<and> ex_waiting (pump e) \<le> ex_waiting e"
proof (induction e rule: pump.induct)
  case (1 e)
  have "counts (pump_one e) = counts e" "ex_waiting (pump_one e) \<le> ex_waiting e"
    by (simp_all add: pump_one_def Let_def counts_def split: option.split list.split)
  with 1 show ?case by (cases "ex_active e < ex_max_concurrent e \<and> ex_ready e \<noteq> []")
    (auto simp: pump_round pump_idle)
qed

lemma counts_mark_ready [simp]: "counts (mark_ready k e) = counts e" "ex_waiting (mark_ready k e) = ex_waiting e"
  by (simp_all add: mark_ready_def counts_def)

lemma counts_complete: "counts (complete k s e) = counts e \<and> ex_waiting (complete k s e) \<le> ex_waiting e"
proof -
  have "counts (release k s e) = counts e" "ex_waiting (release k s e) = ex_waiting e"
    by (simp_all add: release_def Let_def) (simp_all add: counts_def)
  with counts_pump [of "release k s e"] show ?thesis by (simp add: complete_release)
qed

lemmas complete_counts = counts_complete [THEN conjunct1, unfolded counts_def prod.inject, THEN conjunct1]
  counts_complete [THEN conjunct1, unfolded counts_def prod.inject, THEN conjunct2, THEN conjunct1]
  counts_complete [THEN conjunct1, unfolded counts_def prod.inject, THEN conjunct2, THEN conjunct2]

lemma complete_waiting: "ex_waiting e \<le> n \<Longrightarrow> ex_waiting (complete k s e) \<le> n"
  using counts_complete [of k s e] by simp

text \<open>One event: the counters grow by what it is seen to do, and the peak is raised to the waiting count
  of the new state.\<close>

lemma counts_step:
  assumes "exec_step c now e = (out, f)"
  shows "ex_rejected f = ex_rejected e + refusals out \<and> ex_expired f = ex_expired e + expiries out \<and>
    (ex_waiting e \<le> ex_peak e \<longrightarrow> ex_peak f = max (ex_peak e) (ex_waiting f))"
proof (cases c)
  case (Run k)
  have "counts (push_task e k now) = counts e" by (simp add: push_task_def Let_def) (simp add: counts_def)
  with counts_pump [of "push_task e k now"] have "counts (pump (push_task e k now)) = counts e" by simp
  with Run assms show ?thesis
    by (auto simp: exec_run_push Let_def counts_def refusals_def expiries_def split: if_splits)
next
  case (Timer k i)
  with assms show ?thesis
    by (auto simp: exec_expire_def Let_def refusals_def expiries_def split: option.splits if_splits)
next
  case (Begin k)
  with assms show ?thesis
    by (auto simp: exec_begin_def complete_counts complete_waiting refusals_def expiries_def
      split: option.splits phase.splits if_splits)
next
  case (Settle k)
  with assms show ?thesis
    by (auto simp: exec_settle_def complete_counts complete_waiting refusals_def expiries_def
      split: option.splits phase.splits)
next
  case (Refresh k i)
  with assms show ?thesis by (auto simp: refresh_pending_def refusals_def expiries_def split: option.splits)
qed

lemma counts_append [simp]:
  "refusals (a @ b) = refusals a + refusals b" "expiries (a @ b) = expiries a + expiries b"
  by (simp_all add: refusals_def expiries_def)

lemma counts_trace:
  "exec_trace cs e = (out, f) \<Longrightarrow> ex_rejected f = ex_rejected e + refusals out \<and> ex_expired f = ex_expired e + expiries out"
proof (induction cs arbitrary: e out f)
  case Nil
  then show ?case by (simp add: refusals_def expiries_def)
next
  case (Cons c cs)
  obtain a now where c: "c = (a, now)" by (cases c)
  obtain o1 g where s: "exec_step a now e = (o1, g)" by (cases "exec_step a now e")
  obtain o2 h where t: "exec_trace cs g = (o2, h)" by (cases "exec_trace cs g")
  with Cons.prems c s have "out = o1 @ o2" "f = h" by auto
  with Cons.IH [OF t] counts_step [OF s] show ?case by simp
qed

lemma peak_nonneg: "ex_waiting e \<le> Max ((\<lambda>n. ex_waiting (snd (exec_trace (take n cs) e))) ` {..length cs})"
  by (rule Max_ge) (auto intro!: image_eqI [of _ _ 0])

lemma peak_trace:
  "ex_waiting e \<le> ex_peak e \<Longrightarrow> ex_peak (snd (exec_trace cs e)) =
    max (ex_peak e) (Max ((\<lambda>n. ex_waiting (snd (exec_trace (take n cs) e))) ` {..length cs}))"
proof (induction cs arbitrary: e)
  case (Cons c cs)
  obtain a now where c: "c = (a, now)" by (cases c)
  obtain out f where s: "exec_step a now e = (out, f)" by (cases "exec_step a now e")
  let ?W = "(\<lambda>n. ex_waiting (snd (exec_trace (take n cs) f))) ` {..length cs}"
  have peak: "ex_peak f = max (ex_peak e) (ex_waiting f)" using counts_step [OF s] Cons.prems by simp
  have "(\<lambda>n. ex_waiting (snd (exec_trace (take n (c # cs)) e))) ` {..length (c # cs)} = insert (ex_waiting e) ?W"
    by (simp add: atMost_Suc_eq_insert_0 image_image c s case_prod_beta)
  moreover have "ex_peak (snd (exec_trace (c # cs) e)) = max (ex_peak f) (Max ?W)"
    using Cons.IH [of f] peak by (simp add: c s case_prod_beta)
  moreover have "ex_waiting f \<le> Max ?W" by (rule peak_nonneg)
  ultimately show ?case using peak Cons.prems by simp
qed simp

text \<open>\<open>createConcurrencyLimiter\<close>: a fresh key for every call.\<close>

record limiter_state =
  cl_executor :: "nat executor"
  cl_sequence :: nat

definition concurrency_limiter :: "jsnum \<Rightarrow> budgets \<Rightarrow> unit + limiter_state" where
  "concurrency_limiter n b = (case exec_new \<lparr>bud_concurrent = Some n,
      bud_pending = Some (opt_default (bud_pending b) 32), bud_per_key = Some 1, bud_age = bud_age b\<rparr> of
    Inl _ \<Rightarrow> Inl () | Inr e \<Rightarrow> Inr \<lparr>cl_executor = e, cl_sequence = 0\<rparr>)"

definition concurrency_run :: "limiter_state \<Rightarrow> real \<Rightarrow> (unit + nat) \<times> limiter_state" where
  "concurrency_run l now = (case exec_run (cl_executor l) (cl_sequence l) now of
    (r, e) \<Rightarrow> (r, \<lparr>cl_executor = e, cl_sequence = Suc (cl_sequence l)\<rparr>))"

section \<open>Properties\<close>

definition demo_budgets :: budgets where
  "demo_budgets = \<lparr>bud_concurrent = Some 1, bud_pending = Some 2, bud_per_key = Some 2, bud_age = Some 100\<rparr>"

definition demo_executor :: "string executor" where
  "demo_executor = \<lparr>ex_states = [], ex_ready = [], ex_ready_set = {}, ex_active = 0, ex_waiting = 0,
      ex_rejected = 0, ex_expired = 0, ex_peak = 0, ex_max_concurrent = 1,
      ex_max_pending = 2, ex_max_per_key = 2, ex_max_age = 100, ex_next = 0\<rparr>"

lemma demo_executor_new: "exec_new demo_budgets = Inr demo_executor"
  by (simp add: exec_new_def demo_budgets_def demo_executor_def opt_default_def)

definition demo_events :: "(string command \<times> real) list" where
  "demo_events = [(Run ''a'', 0), (Run ''a'', 1), (Run ''b'', 2), (Run ''b'', 3), (Begin ''a'', 4),
    (Timer ''b'' 2, 102), (Settle ''a'', 103), (Begin ''a'', 104)]"

lemmas exec_eval = exec_run_def can_run_def mark_ready_def pump_idle pump_round pump_one_def exec_expire_def
  exec_begin_def exec_settle_def complete_def

lemma demo_run:
  "exec_run demo_executor ''a'' 0 = (Inr 0, demo_executor\<lparr>
     ex_states := [(''a'', \<lparr>st_active = Some (\<lparr>task_id = 0, enqueued_at = 0\<rparr>, Dispatched), st_pending = []\<rparr>)],
     ex_active := 1, ex_next := 1\<rparr>)"
  by (simp add: demo_executor_def exec_eval)

text \<open>C4. Whatever calls, timers and settlements follow the construction, the executor never runs more
  than \<open>maxConcurrent\<close> tasks, never has more than \<open>maxPending\<close> waiting and never queues more than
  \<open>maxPendingPerKey\<close> for a key. Its five counters are exact: \<open>active\<close> and \<open>waiting\<close> count the running
  and the queued tasks of all keys, \<open>rejected\<close> the calls that threw, \<open>expired\<close> the tasks rejected with
  \<open>WorkQueueExpired\<close>, in the queue or on dispatch, and \<open>peakPending\<close> is the largest number of waiting
  tasks any state between two events of the run has had, so it is within \<open>maxPending\<close> too.\<close>

theorem executor_bounds:
  assumes "exec_new b = Inr e" "exec_trace cs e = (out, f)"
  shows "ex_active f = jm_sum busy (ex_states f) \<and> ex_active f \<le> ex_max_concurrent e \<and>
    ex_waiting f = jm_sum queued (ex_states f) \<and> ex_waiting f \<le> ex_max_pending e \<and> ex_peak f \<le> ex_max_pending e \<and>
    (\<forall>k s. jm_get (ex_states f) k = Some s \<longrightarrow> queued s \<le> ex_max_per_key e) \<and>
    ex_rejected f = refusals out \<and> ex_expired f = expiries out \<and>
    ex_peak f = Max ((\<lambda>n. ex_waiting (snd (exec_trace (take n cs) e))) ` {..length cs})"
proof -
  have new: "ex_rejected e = 0" "ex_expired e = 0" "ex_peak e = 0" "ex_waiting e = 0"
    using assms(1) by (auto simp: exec_new_def Let_def split: if_splits)
  have "ex_active f = jm_sum busy (ex_states f) \<and> ex_active f \<le> ex_max_concurrent e \<and>
    ex_waiting f = jm_sum queued (ex_states f) \<and> ex_waiting f \<le> ex_max_pending e \<and> ex_peak f \<le> ex_max_pending e \<and>
    (\<forall>k s. jm_get (ex_states f) k = Some s \<longrightarrow> queued s \<le> ex_max_per_key e)"
    using exec_trace_ok [OF exec_ok_new [OF assms(1)], of cs] limits_trace [of cs e] assms(2)
    by (auto simp: exec_ok_def exec_core_def key_ok_def limits_def)
  moreover have "ex_rejected f = refusals out \<and> ex_expired f = expiries out"
    using counts_trace [OF assms(2)] new by simp
  moreover have "ex_peak f = Max ((\<lambda>n. ex_waiting (snd (exec_trace (take n cs) e))) ` {..length cs})"
    using peak_trace [of e cs] assms(2) new peak_nonneg [of e cs] by simp
  ultimately show ?thesis by simp
qed

text \<open>One permit and two waiting places: the fourth call is refused, one task misses its deadline in
  the queue and one is found too old on dispatch, and the peak stays at two when nothing waits any more.\<close>

theorem executor_bounds_witness:
  "ex_rejected (snd (exec_trace demo_events demo_executor)) = 1 \<and>
   ex_expired (snd (exec_trace demo_events demo_executor)) = 2 \<and>
   ex_peak (snd (exec_trace demo_events demo_executor)) = 2 \<and>
   ex_waiting (snd (exec_trace demo_events demo_executor)) = 0 \<and>
   Max ((\<lambda>n. ex_waiting (snd (exec_trace (take n demo_events) demo_executor))) ` {..length demo_events}) = 2"
proof -
  let ?r = "exec_trace demo_events demo_executor"
  have run: "refusals (fst ?r) = 1 \<and> expiries (fst ?r) = 2 \<and> ex_peak (snd ?r) = 2 \<and> ex_waiting (snd ?r) = 0"
    by (simp add: demo_events_def demo_run) (simp add: demo_executor_def exec_eval refusals_def expiries_def)
  from executor_bounds [OF demo_executor_new prod.collapse [symmetric], of demo_events] run show ?thesis by presburger
qed

text \<open>C5. Work conservation: while some key has queued work that nothing is doing, all permits are in
  use, so a permit never idles beside runnable work, and a key with no work is forgotten.\<close>

theorem executor_work_conserving:
  assumes "exec_new b = Inr e" "snd (exec_trace cs e) = f" "jm_get (ex_states f) k = Some s" "st_active s = None"
  shows "st_pending s \<noteq> [] \<and> jm_sum busy (ex_states f) = ex_max_concurrent e \<and> k \<in> set (ex_ready f)"
proof -
  have ok: "exec_ok f" using exec_trace_ok [OF exec_ok_new [OF assms(1)], of cs] assms(2) by simp
  moreover have "ex_max_concurrent f = ex_max_concurrent e"
    using limits_trace [of cs e] assms(2) by (simp add: limits_def)
  moreover have "key_ok f k s" using ok assms(3) by (auto simp: exec_ok_def exec_core_def)
  ultimately show ?thesis using assms(4) by (auto simp: exec_ok_def exec_core_def key_ok_def)
qed

theorem executor_work_conserving_witness:
  "jm_sum busy (ex_states (snd (exec_trace [(Run ''a'', 0), (Run ''b'', 2)] demo_executor))) = 1"
proof -
  have "jm_get (ex_states (snd (exec_trace [(Run ''a'', 0), (Run ''b'', 2)] demo_executor))) ''b'' =
      Some \<lparr>st_active = None, st_pending = [\<lparr>task_id = 1, enqueued_at = 2\<rparr>]\<rparr>"
    by (simp add: demo_run) (simp add: demo_executor_def exec_eval)
  from executor_work_conserving [OF demo_executor_new refl this]
  show ?thesis by (simp add: demo_executor_def)
qed

text \<open>C6. The executor implements one first-in first-out queue per key: every run of it is a run of the
  abstract queues, in which an admission appends, a deadline drops a task that has not started, a start
  takes the head of the queue of a key with nothing running, and a completion frees the key.\<close>

theorem executor_refines_queues:
  assumes "exec_new b = Inr e" "exec_trace cs e = (out, f)"
  shows "keyed_run empty_queues out (queues_of f)"
  using refines_trace [OF exec_ok_new [OF assms(1)], of cs] queues_of_new [OF assms(1)] assms(2) by simp

theorem executor_refines_queues_witness:
  "keyed_run empty_queues [Admitted ''a'' 0] (queues_of (snd (exec_trace [(Run ''a'', 0)] demo_executor)))"
  using executor_refines_queues [OF demo_executor_new, of "[(Run ''a'', 0)]" "[Admitted ''a'' 0]" "snd (exec_run demo_executor ''a'' 0)"]
  by (simp add: demo_run)

text \<open>The work of a key starts in the order it was admitted and one at a time: the started tasks are
  strictly increasing, and all but at most the last of them have finished.\<close>

theorem executor_fifo_exclusive:
  assumes "exec_new b = Inr e" "exec_trace cs e = (out, f)"
  shows "sorted_wrt (<) (started_of k out) \<and>
    (started_of k out = finished_of k out \<or> (\<exists>i. started_of k out = finished_of k out @ [i] \<and> is_dispatched f k i))"
proof -
  have inv: "run_inv out (queues_of f)" using trace_inv [OF assms(1), of cs] assms(2) by simp
  note inv' = run_invD [OF inv [unfolded queues_of_def]]
  have "is_dispatched f k i" if "snd (key_view f k) = Some i" for i
    using that by (auto simp: key_view_def view_def working_def is_dispatched_def split: option.splits phase.splits)
  then show ?thesis using inv'(2) [of k] inv'(3) [of k] by (auto simp: sorted_wrt_append split: option.splits)
qed

theorem executor_fifo_exclusive_witness:
  "started_of ''a'' (fst (exec_trace [(Run ''a'', 0), (Begin ''a'', 4)] demo_executor)) = [0] \<and>
   sorted_wrt (<) (started_of ''a'' (fst (exec_trace [(Run ''a'', 0), (Begin ''a'', 4)] demo_executor)))"
proof -
  have t: "fst (exec_trace [(Run ''a'', 0), (Begin ''a'', 4)] demo_executor) = [Admitted ''a'' 0, Started ''a'' 0]"
    by (simp add: demo_run) (simp add: demo_executor_def exec_eval)
  from executor_fifo_exclusive [OF demo_executor_new surjective_pairing, where cs = "[(Run ''a'', 0), (Begin ''a'', 4)]" and k = "''a''"]
  show ?thesis unfolding t by (simp add: started_of_def)
qed

text \<open>No promise is lost and none is settled twice: every admitted task is either settled, by a
  completion or by the queue deadline, or still held by the executor, never both, and each is settled
  at most once.\<close>

theorem executor_settles_once:
  assumes "exec_new b = Inr e" "exec_trace cs e = (out, f)"
  shows "distinct (map snd (settled_in out)) \<and> distinct (map snd (admitted_to out)) \<and>
    set (map snd (settled_in out)) \<inter> set (exec_pending f) = {} \<and>
    set (map snd (admitted_to out)) = set (map snd (settled_in out)) \<union> set (exec_pending f)"
proof -
  have ok: "jm_ok (ex_states f)"
    using exec_trace_ok [OF exec_ok_new [OF assms(1)], of cs] assms(2) by (simp add: exec_ok_def exec_core_def)
  have inv: "run_inv out (queues_of f)" using trace_inv [OF assms(1), of cs] assms(2) by simp
  note inv' = run_invD [OF inv [unfolded queues_of_def]]
  have ids: "set (state_ids s) = set (unstarted s) \<union> set_option (working s)" for s
    by (auto simp: state_ids_def unstarted_def working_def split: option.split phase.split)
  have held: "i \<in> set (exec_pending f) \<longleftrightarrow> (\<exists>k. i \<in> set (fst (key_view f k)) \<or> snd (key_view f k) = Some i)" for i
  proof -
    have "i \<in> set (exec_pending f) \<longleftrightarrow> (\<exists>k s. jm_get (ex_states f) k = Some s \<and> i \<in> set (state_ids s))"
      by (force simp: exec_pending_def jm_values_def jm_get_iff [OF ok])
    then show ?thesis by (auto simp: ids key_view_def view_def split: option.splits)
  qed
  have "set (map snd (settled_in out)) \<inter> set (exec_pending f) = {}"
    using inv'(6) held by fastforce
  moreover have all: "i \<in> snd ` set (admitted_to out) \<longleftrightarrow> i \<in> snd ` set (settled_in out) \<or> i \<in> set (exec_pending f)" for i
    unfolding held using inv'(5) [of _ i] by force
  have "set (map snd (admitted_to out)) = set (map snd (settled_in out)) \<union> set (exec_pending f)"
    by (rule set_eqI) (simp only: set_map Un_iff all)
  moreover have "distinct (map snd (admitted_to out))" using inv'(1) by simp
  ultimately show ?thesis using inv'(4) by blast
qed

theorem executor_settles_once_witness:
  "set (exec_pending (snd (exec_trace [(Run ''a'', 0), (Begin ''a'', 100)] demo_executor))) \<inter> {0} = {}"
proof -
  have t: "fst (exec_trace [(Run ''a'', 0), (Begin ''a'', 100)] demo_executor) = [Admitted ''a'' 0, Expired ''a'' 0]"
    by (simp add: demo_run) (simp add: demo_executor_def exec_eval)
  from executor_settles_once [OF demo_executor_new surjective_pairing, where cs = "[(Run ''a'', 0), (Begin ''a'', 100)]"]
  show ?thesis unfolding t by (simp add: settled_in_def)
qed

text \<open>Admission: in every reachable state a call is refused exactly when its key already has
  \<open>maxPendingPerKey\<close> tasks waiting, or the waiting room is full and the call could not start at once;
  a refusal changes nothing but the count of refusals, and a call for an idle key that finds a free
  permit is dispatched at once, even when the waiting room is full.\<close>

theorem executor_admission:
  assumes "exec_ok e" "0 < ex_max_per_key e"
  shows "(fst (exec_run e k now) = Inl () \<longleftrightarrow>
      (\<exists>s. jm_get (ex_states e) k = Some s \<and> queued s \<ge> ex_max_per_key e)
      \<or> (ex_waiting e = ex_max_pending e \<and> (jm_has (ex_states e) k \<or> ex_active e = ex_max_concurrent e))) \<and>
    (fst (exec_run e k now) = Inl () \<longrightarrow> snd (exec_run e k now) = e\<lparr>ex_rejected := ex_rejected e + 1\<rparr>) \<and>
    (\<not> jm_has (ex_states e) k \<and> ex_active e < ex_max_concurrent e \<longrightarrow>
      is_dispatched (snd (exec_run e k now)) k (ex_next e) \<and> ex_waiting (snd (exec_run e k now)) = ex_waiting e)"
proof (intro conjI)
  have core: "exec_core e" using assms(1) by (simp add: exec_ok_def)
  note core' = exec_coreD [OF core]
  have bounds: "ex_waiting e \<le> ex_max_pending e" "ex_active e \<le> ex_max_concurrent e"
    using assms(1) core'(8) by (auto simp: exec_ok_def)
  have iff: "fst (exec_run e k now) = Inl () \<longleftrightarrow> \<not> can_run e k" by (simp add: exec_run_push Let_def)
  show "fst (exec_run e k now) = Inl () \<longleftrightarrow>
      (\<exists>s. jm_get (ex_states e) k = Some s \<and> queued s \<ge> ex_max_per_key e)
      \<or> (ex_waiting e = ex_max_pending e \<and> (jm_has (ex_states e) k \<or> ex_active e = ex_max_concurrent e))"
    unfolding iff using core'(6) [of k] bounds assms(2)
    by (auto simp: can_run_def Let_def key_ok_def queued_def jm_has_def split: option.splits)
  show "fst (exec_run e k now) = Inl () \<longrightarrow> snd (exec_run e k now) = e\<lparr>ex_rejected := ex_rejected e + 1\<rparr>"
    by (simp add: exec_run_push Let_def)
  show "\<not> jm_has (ex_states e) k \<and> ex_active e < ex_max_concurrent e \<longrightarrow>
      is_dispatched (snd (exec_run e k now)) k (ex_next e) \<and> ex_waiting (snd (exec_run e k now)) = ex_waiting e"
  proof
    assume idle: "\<not> jm_has (ex_states e) k \<and> ex_active e < ex_max_concurrent e"
    then have "ex_ready e = []" "ex_ready_set e = {}" "jm_get (ex_states e) k = None"
      using assms(1) core'(3) by (auto simp: exec_ok_def jm_has_def)
    with idle assms(2) show "is_dispatched (snd (exec_run e k now)) k (ex_next e) \<and>
        ex_waiting (snd (exec_run e k now)) = ex_waiting e"
      by (simp add: exec_eval is_dispatched_def Let_def)
  qed
qed

theorem executor_admission_witness:
  "is_dispatched (snd (exec_run demo_executor ''a'' 0)) ''a'' 0"
  using executor_admission [OF exec_ok_new [OF demo_executor_new], of "''a''" 0]
  by (simp add: demo_executor_def jm_has_def)

end
