(* ===== verification/Live_Projection.thy ===== *)
theory Live_Projection imports Telemetry_State Boarding begin

text \<open>
  The public projection of live buses (\<open>services/liveBusProjection.ts\<close>): the explicit public contract of a
  node, the availability of a route, and the database transactions that publish a route's view and its
  entry in the catalog. The records these transactions read are the ones they write, so they are typed; a
  public bus is compared by deep equality, so it is an element of any type.
\<close>

section \<open>The public contract of a live node\<close>

definition public_fields :: "string list" where
  "public_fields = [''busId'', ''routeId'', ''driverId'', ''sessionId'', ''lat'', ''lng'', ''speed'', ''heading'', ''timestamp'', ''seq'',
     ''deviceSentAt'', ''backendReceivedAt'', ''receivedAt'', ''status'', ''deviceState'', ''signalState'', ''motionState'',
     ''tripState'', ''currentStopIndex'', ''delayMinutes'', ''direction'', ''directionState'', ''originStopId'', ''destinationStopId'',
     ''automaticServicePaused'', ''automaticServiceState'',
     ''activeRouteId'', ''routeVersion'', ''routeSource'', ''routeState'', ''routeDirection'', ''routeGeometryVersion'',
     ''routeComputedAt'', ''routeTrafficState'',
     ''mapMatchSeq'', ''mapMatchSampledAt'', ''mapMatchUpdatedAt'', ''matchConfidence'', ''distanceToActiveRoute'']"

definition raw_fields :: "string list" where
  "raw_fields = [''lat'', ''lng'', ''speed'', ''heading'', ''gpsHdop'', ''motionState'', ''seq'', ''sampledAt'']"

definition max_public_stop_index :: jsnum where "max_public_stop_index = 500"

definition match_fields :: "string list" where
  "match_fields = [''lat'', ''lng'', ''segmentIndex'', ''segmentFraction'', ''alongRouteDistanceM'', ''distanceToRouteM'',
     ''headingDifference'', ''matchConfidence'', ''seq'', ''sampledAt'', ''routeVersion'']"

definition projection_route_key :: "string \<Rightarrow> string" where "projection_route_key route_id = ''route:'' @ route_id"
definition projection_bus_key :: "string \<Rightarrow> string" where "projection_bus_key key = ''node:'' @ key"
definition decode_route :: "string \<Rightarrow> string" where
  "decode_route key = (if starts_with key ''route:'' then drop 6 key else key)"
definition decode_bus :: "string \<Rightarrow> string" where
  "decode_bus key = (if starts_with key ''node:'' then drop 5 key else key)"

fun public_scalar :: "jsval \<Rightarrow> bool" where
  "public_scalar (JStr s) \<longleftrightarrow> length s \<le> 512"
| "public_scalar (JBool _) \<longleftrightarrow> True"
| "public_scalar (JNum x) \<longleftrightarrow> is_finite x"
| "public_scalar _ \<longleftrightarrow> False"

definition pick :: "fields \<Rightarrow> string list \<Rightarrow> fields" where
  "pick fs names = List.map_filter (\<lambda>name. let item = obj_get fs name in if public_scalar item then Some (name, item) else None) names"

fun is_safe_id :: "jsval \<Rightarrow> bool" where
  "is_safe_id (JStr s) \<longleftrightarrow> safe_id s"
| "is_safe_id _ \<longleftrightarrow> False"

fun is_number :: "jsval \<Rightarrow> bool" where
  "is_number (JNum _) \<longleftrightarrow> True"
| "is_number _ \<longleftrightarrow> False"

definition public_index :: "jsval \<Rightarrow> int option" where
  "public_index v = (case v of
      JNum x \<Rightarrow> (if is_safe_integer x \<and> x \<ge> 0 \<and> x < max_public_stop_index then Some (num_floor x) else None)
    | _ \<Rightarrow> None)"

text \<open>\<open>record.sessionId === live.sessionId\<close> for a string id and a truthy record.\<close>

definition recorded_by_session :: "fields \<Rightarrow> jsval \<Rightarrow> bool" where
  "recorded_by_session live record \<longleftrightarrow> truthy record \<and> str_of (obj_get live ''sessionId'') \<noteq> None \<and>
     js_prop record ''sessionId'' = obj_get live ''sessionId''"

definition unobserved_indices :: "jsval \<Rightarrow> int list" where
  "unobserved_indices indices = take 500 (sort (remdups (List.map_filter public_index
     (case indices of JArr vs \<Rightarrow> vs | JObj fs \<Rightarrow> map snd fs | _ \<Rightarrow> []))))"

definition completed_proof :: "fields \<Rightarrow> fields" where
  "completed_proof live = (if is_safe_id (obj_get live ''lastCompletedSessionId'') \<and> finite_num (obj_get live ''lastCompletedAt'') \<noteq> None \<and>
       is_safe_id (obj_get live ''lastCompletedRouteId'')
     then [(''lastCompletedSessionId'', obj_get live ''lastCompletedSessionId''), (''lastCompletedAt'', obj_get live ''lastCompletedAt''),
       (''lastCompletedRouteId'', obj_get live ''lastCompletedRouteId'')] else [])"

definition predecessor_proof :: "fields \<Rightarrow> fields" where
  "predecessor_proof live = (if obj_get live ''automaticTurnaround'' = JBool True \<and> is_safe_id (obj_get live ''previousSessionId'') \<and>
       obj_get live ''previousSessionId'' \<noteq> obj_get live ''sessionId''
     then [(''automaticTurnaround'', JBool True), (''previousSessionId'', obj_get live ''previousSessionId'')] else [])"

definition stop_record :: "fields \<Rightarrow> fields" where
  "stop_record live = (let at_stop = obj_get live ''atStop''; unobserved = obj_get live ''unobservedStops'' in
     (if recorded_by_session live at_stop then (case public_index (js_prop at_stop ''index'') of
          Some i \<Rightarrow> [(''atStopIndex'', JNum (Fin (of_int i)))] | None \<Rightarrow> []) else []) @
     (if recorded_by_session live unobserved then (let indices = unobserved_indices (js_prop unobserved ''indices'') in
        if indices \<noteq> [] then [(''unobservedStopIndices'', JArr (map (\<lambda>i. JNum (Fin (of_int i))) indices))] else []) else []))"

definition nested_location :: "fields \<Rightarrow> string \<Rightarrow> string list \<Rightarrow> fields" where
  "nested_location live field names = (case obj_get live field of
      JObj nested \<Rightarrow> (let selected = pick nested names in if selected \<noteq> [] then [(field, JObj selected)] else [])
    | _ \<Rightarrow> [])"

definition public_live_bus :: "jsval \<Rightarrow> fields option" where
  "public_live_bus v = (case v of
      JObj live \<Rightarrow> (if is_number (obj_get live ''retiredAssignmentRevision'') then None
        else if \<not> is_safe_id (obj_get live ''busId'') \<or> \<not> is_safe_id (obj_get live ''routeId'') then None
        else Some (pick live public_fields @ completed_proof live @ predecessor_proof live @ stop_record live @
          nested_location live ''rawLocation'' raw_fields @ nested_location live ''matchedLocation'' match_fields))
    | _ \<Rightarrow> None)"

section \<open>The availability of a route\<close>

record availability =
  av_active :: nat
  av_available :: nat
  av_freshest_at :: jsnum
  av_active_receipts :: "jsnum list"
  av_available_receipts :: "jsnum list"

definition is_ride :: "jsval \<Rightarrow> bool" where
  "is_ride bus \<longleftrightarrow> js_prop bus ''status'' = JStr ''active'' \<and> str_of (js_prop bus ''sessionId'') \<noteq> None \<and>
     js_prop bus ''tripState'' \<in> {JStr ''pre_departure'', JStr ''in_service''}"

definition seen_at :: "jsval \<Rightarrow> jsnum" where
  "seen_at bus = (let sample = (case js_prop bus ''timestamp'' of JNum t \<Rightarrow> t | _ \<Rightarrow> NaN) in
     case js_prop bus ''backendReceivedAt'' of
       JNum received \<Rightarrow> (if is_finite received \<and> received - sample \<ge> - 10000 \<and> received - sample \<le> 60000 then received else sample)
     | _ \<Rightarrow> sample)"

text \<open>The lease of a bus that counts, or \<open>None\<close> where the loop continues.\<close>

definition bus_receipt :: "jsnum \<Rightarrow> jsval \<Rightarrow> jsnum option" where
  "bus_receipt now bus =
    (if js_prop bus ''tripState'' = JStr ''completed'' then None
     else (let seen = seen_at bus in
       if js_prop bus ''deviceState'' \<noteq> JStr ''online'' \<or> js_prop bus ''automaticServicePaused'' = JBool True \<or> \<not> is_finite seen \<or>
          seen > now + 10000 \<or> now - seen > 90000 then None
       else (let receipt = js_floor (seen / 30000) * 30000 in if now - receipt > 90000 then None else Some receipt)))"

definition route_availability :: "jsval list \<Rightarrow> jsnum \<Rightarrow> availability" where
  "route_availability buses now =
    (let rides = List.map_filter (bus_receipt now) (filter is_ride buses);
       others = List.map_filter (bus_receipt now) (filter (\<lambda>b. \<not> is_ride b) buses) in
     \<lparr>av_active = length rides, av_available = length others,
       av_freshest_at = foldl js_max 0 (List.map_filter (bus_receipt now) buses),
       av_active_receipts = sort_key num_real rides, av_available_receipts = sort_key num_real others\<rparr>)"

section \<open>Publication\<close>

record 'b route_view =
  rv_buses :: "string \<Rightarrow> 'b option"
  rv_revision :: nat
  rv_worker_generation :: "int option"

record catalog =
  ca_values :: "string \<Rightarrow> availability option"
  ca_revisions :: "string \<Rightarrow> nat option"
  ca_generations :: "string \<Rightarrow> int option"
  ca_worker_generation :: "int option"

definition empty_view :: "'b route_view" where
  "empty_view = \<lparr>rv_buses = (\<lambda>_. None), rv_revision = 0, rv_worker_generation = None\<rparr>"

definition empty_catalog :: catalog where
  "empty_catalog = \<lparr>ca_values = (\<lambda>_. None), ca_revisions = (\<lambda>_. None), ca_generations = (\<lambda>_. None), ca_worker_generation = None\<rparr>"

text \<open>The worker fence around each transaction: a newer generation's record aborts it (\<open>None\<close>), a write
  carries the writer's generation. \<open>None\<close> as the current value is \<open>null\<close>.\<close>

definition fenced_view :: "int \<Rightarrow> ('b route_view option \<Rightarrow> 'b route_view option) \<Rightarrow> 'b route_view option \<Rightarrow> 'b route_view option" where
  "fenced_view generation update current =
    (if opt_default (Option.bind current rv_worker_generation) 0 > generation then None
     else map_option (\<lambda>v. v\<lparr>rv_worker_generation := Some generation\<rparr>) (update current))"

definition fenced_catalog :: "int \<Rightarrow> (catalog option \<Rightarrow> catalog option) \<Rightarrow> catalog option \<Rightarrow> catalog option" where
  "fenced_catalog generation update current =
    (if opt_default (Option.bind current ca_worker_generation) 0 > generation then None
     else map_option (\<lambda>c. c\<lparr>ca_worker_generation := Some generation\<rparr>) (update current))"

definition view_update :: "int \<Rightarrow> bool \<Rightarrow> string \<Rightarrow> 'b option \<Rightarrow> 'b route_view option \<Rightarrow> 'b route_view option" where
  "view_update generation stopped bus_key v current =
    (if stopped then None
     else (let cur = opt_default current empty_view in
       if rv_buses cur bus_key = v
       then (if Option.bind current rv_worker_generation = Some generation then None else Some cur)
       else Some (cur\<lparr>rv_buses := (rv_buses cur)(bus_key := v), rv_revision := rv_revision cur + 1\<rparr>)))"

definition restore_view :: "int \<Rightarrow> bool \<Rightarrow> nat \<Rightarrow> 'b route_view option \<Rightarrow> 'b route_view option" where
  "restore_view generation stopped revision_floor current =
    (if stopped then None
     else (let cur = opt_default current empty_view; rebuilding = (current = None \<or> rv_revision cur < revision_floor) in
       if \<not> rebuilding \<and> Option.bind current rv_worker_generation = Some generation then None
       else Some (cur\<lparr>rv_revision := (if rebuilding then max (rv_revision cur) revision_floor + 1 else rv_revision cur)\<rparr>)))"

definition catalog_generations :: "catalog option \<Rightarrow> string \<Rightarrow> int option" where
  "catalog_generations current key = (case current of
      None \<Rightarrow> None
    | Some c \<Rightarrow> (if ca_values c key = None then None
        else Some (case ca_generations c key of Some g \<Rightarrow> g | None \<Rightarrow> opt_default (ca_worker_generation c) 0)))"

definition publish_catalog :: "int \<Rightarrow> bool \<Rightarrow> string \<Rightarrow> availability \<Rightarrow> nat \<Rightarrow> catalog option \<Rightarrow> catalog option" where
  "publish_catalog generation stopped route_key v revision current =
    (let generations = catalog_generations current; c = opt_default current empty_catalog in
     if stopped \<or> (generations route_key = Some generation \<and> opt_default (ca_revisions c route_key) 0 > revision) then None
     else Some (c\<lparr>ca_values := (ca_values c)(route_key := Some v), ca_revisions := (ca_revisions c)(route_key := Some revision),
       ca_generations := generations(route_key := Some generation)\<rparr>))"

definition no_availability :: availability where
  "no_availability = \<lparr>av_active = 0, av_available = 0, av_freshest_at = 0, av_active_receipts = [], av_available_receipts = []\<rparr>"

definition register_route :: "int \<Rightarrow> bool \<Rightarrow> string \<Rightarrow> catalog option \<Rightarrow> catalog option" where
  "register_route generation stopped route_key current =
    (if stopped then None
     else (let c = opt_default current empty_catalog in
       if ca_values c route_key \<noteq> None
       then (if Option.bind current ca_worker_generation = Some generation then None
             else Some (c\<lparr>ca_generations := catalog_generations current\<rparr>))
       else Some (c\<lparr>ca_generations := catalog_generations current, ca_values := (ca_values c)(route_key := Some no_availability)\<rparr>)))"

section \<open>The contract: facts\<close>

definition public_contract :: "string list" where
  "public_contract = public_fields @ [''lastCompletedSessionId'', ''lastCompletedAt'', ''lastCompletedRouteId'', ''automaticTurnaround'',
     ''previousSessionId'', ''atStopIndex'', ''unobservedStopIndices'', ''rawLocation'', ''matchedLocation'']"

text \<open>What may stand under a public name.\<close>

definition public_nested :: "string list \<Rightarrow> jsval \<Rightarrow> bool" where
  "public_nested names w \<longleftrightarrow> (\<exists>fs. w = JObj fs \<and> set (map fst fs) \<subseteq> set names \<and> (\<forall>v\<in>set (map snd fs). public_scalar v))"

definition public_value :: "string \<Rightarrow> jsval \<Rightarrow> bool" where
  "public_value k w \<longleftrightarrow>
    (if k = ''rawLocation'' then public_nested raw_fields w
     else if k = ''matchedLocation'' then public_nested match_fields w
     else if k = ''unobservedStopIndices'' then (\<exists>is. w = JArr (map (\<lambda>i. JNum (Fin (of_int i))) is) \<and> sorted is \<and> distinct is \<and>
       set is \<subseteq> {0..<500} \<and> length is \<le> 500)
     else public_scalar w)"

lemma map_filter_iff: "y \<in> set (List.map_filter f xs) \<longleftrightarrow> (\<exists>x\<in>set xs. f x = Some y)"
  by (force simp: map_filter_def)

lemma pick_subset: "set (map fst (pick fs names)) \<subseteq> set names" "\<forall>v\<in>set (map snd (pick fs names)). public_scalar v"
  by (auto simp: pick_def map_filter_def Let_def split: if_splits)

lemma pick_entry: "(k, w) \<in> set (pick fs names) \<Longrightarrow> k \<in> set names \<and> public_scalar w \<and> w = obj_get fs k"
  by (auto simp: pick_def map_filter_def Let_def split: if_splits)

lemma pick_has: "k \<in> set names \<Longrightarrow> public_scalar (obj_get fs k) \<Longrightarrow> (k, obj_get fs k) \<in> set (pick fs names)"
  by (force simp: pick_def map_filter_def Let_def)

lemma pick_distinct: "distinct names \<Longrightarrow> distinct (map fst (pick fs names))"
  by (induction names) (use pick_subset(1) in \<open>force simp: pick_def map_filter_def Let_def split: if_splits\<close>)+

lemma safe_scalar: "is_safe_id v \<Longrightarrow> public_scalar v"
  by (cases v) (auto simp: safe_id_def)

lemma finite_scalar: "finite_num v \<noteq> None \<Longrightarrow> public_scalar v"
  by (cases v) (auto split: if_splits)

lemma public_index_range: "public_index v = Some i \<Longrightarrow> 0 \<le> i \<and> i < 500"
proof -
  assume a: "public_index v = Some i"
  then obtain x where x: "v = JNum x" "is_safe_integer x" "x \<ge> 0" "x < 500" "i = num_floor x"
    by (auto simp: public_index_def max_public_stop_index_def split: jsval.splits if_splits)
  then obtain r where "x = Fin r" by (cases x) auto
  then show ?thesis using x by (simp add: le_floor_iff floor_less_iff)
qed

lemma unobserved_indices_props:
  "sorted (unobserved_indices v)" "distinct (unobserved_indices v)" "set (unobserved_indices v) \<subseteq> {0..<500}" "length (unobserved_indices v) \<le> 500"
proof -
  let ?m = "List.map_filter public_index (case v of JArr vs \<Rightarrow> vs | JObj fs \<Rightarrow> map snd fs | _ \<Rightarrow> [])"
  have "set ?m \<subseteq> {0..<500}" by (auto simp: map_filter_iff dest!: public_index_range)
  then show "set (unobserved_indices v) \<subseteq> {0..<500}" unfolding unobserved_indices_def using set_take_subset by fastforce
qed (simp_all add: unobserved_indices_def sorted_wrt_take)

lemma public_fields_plain: "k \<in> set public_fields \<Longrightarrow> k \<noteq> ''rawLocation'' \<and> k \<noteq> ''matchedLocation'' \<and> k \<noteq> ''unobservedStopIndices''"
  by (auto simp: public_fields_def)

lemma completed_entry:
  assumes "(k, w) \<in> set (completed_proof live)"
  shows "k \<in> {''lastCompletedSessionId'', ''lastCompletedAt'', ''lastCompletedRouteId''}" "public_scalar w"
proof -
  have g: "is_safe_id (obj_get live ''lastCompletedSessionId'')" "finite_num (obj_get live ''lastCompletedAt'') \<noteq> None"
      "is_safe_id (obj_get live ''lastCompletedRouteId'')" and e: "completed_proof live = [(''lastCompletedSessionId'', obj_get live ''lastCompletedSessionId''),
        (''lastCompletedAt'', obj_get live ''lastCompletedAt''), (''lastCompletedRouteId'', obj_get live ''lastCompletedRouteId'')]"
    using assms by (simp_all add: completed_proof_def split: if_splits)
  show "k \<in> {''lastCompletedSessionId'', ''lastCompletedAt'', ''lastCompletedRouteId''}" using assms unfolding e by auto
  show "public_scalar w" using assms safe_scalar [OF g(1)] finite_scalar [OF g(2)] safe_scalar [OF g(3)] unfolding e by auto
qed

lemma predecessor_entry:
  assumes "(k, w) \<in> set (predecessor_proof live)"
  shows "k \<in> {''automaticTurnaround'', ''previousSessionId''}" "public_scalar w"
proof -
  have g: "is_safe_id (obj_get live ''previousSessionId'')"
    and e: "predecessor_proof live = [(''automaticTurnaround'', JBool True), (''previousSessionId'', obj_get live ''previousSessionId'')]"
    using assms by (simp_all add: predecessor_proof_def split: if_splits)
  show "k \<in> {''automaticTurnaround'', ''previousSessionId''}" using assms unfolding e by auto
  show "public_scalar w" using assms safe_scalar [OF g] unfolding e by auto
qed

lemma nested_entry:
  "(k, w) \<in> set (nested_location live field names) \<Longrightarrow> k = field \<and> public_nested names w"
  using pick_subset [of _ names]
  by (cases "obj_get live field") (auto simp: nested_location_def public_nested_def Let_def split: if_splits)

definition extra_names :: "string list" where
  "extra_names = [''lastCompletedSessionId'', ''lastCompletedAt'', ''lastCompletedRouteId'', ''automaticTurnaround'', ''previousSessionId'']"

text \<open>What an entry of the published object can be.\<close>

definition entry_ok :: "fields \<Rightarrow> string \<Rightarrow> jsval \<Rightarrow> bool" where
  "entry_ok live k w \<longleftrightarrow> k \<in> set public_fields \<and> public_scalar w \<or> k \<in> set extra_names \<and> public_scalar w \<or>
    k = ''atStopIndex'' \<and> recorded_by_session live (obj_get live ''atStop'') \<and> public_scalar w \<or>
    k = ''unobservedStopIndices'' \<and> recorded_by_session live (obj_get live ''unobservedStops'') \<and> public_value k w \<or>
    k = ''rawLocation'' \<and> public_nested raw_fields w \<or> k = ''matchedLocation'' \<and> public_nested match_fields w"

lemma entry_ok_pick: "(k, w) \<in> set (pick live public_fields) \<Longrightarrow> entry_ok live k w"
  unfolding entry_ok_def by (rule disjI1) (metis pick_entry)

lemma entry_ok_completed: "(k, w) \<in> set (completed_proof live) \<Longrightarrow> entry_ok live k w"
proof -
  assume a: "(k, w) \<in> set (completed_proof live)"
  have "k \<in> set extra_names" using completed_entry(1) [OF a] by (auto simp: extra_names_def)
  with completed_entry(2) [OF a] show ?thesis by (simp add: entry_ok_def)
qed

lemma entry_ok_predecessor: "(k, w) \<in> set (predecessor_proof live) \<Longrightarrow> entry_ok live k w"
proof -
  assume a: "(k, w) \<in> set (predecessor_proof live)"
  have "k \<in> set extra_names" using predecessor_entry(1) [OF a] by (auto simp: extra_names_def)
  with predecessor_entry(2) [OF a] show ?thesis by (simp add: entry_ok_def)
qed

lemma entry_ok_nested:
  "(k, w) \<in> set (nested_location live ''rawLocation'' raw_fields) \<Longrightarrow> entry_ok live k w"
  "(k, w) \<in> set (nested_location live ''matchedLocation'' match_fields) \<Longrightarrow> entry_ok live k w"
  by (drule nested_entry, simp add: entry_ok_def)+

lemma indices_value: "public_value ''unobservedStopIndices'' (JArr (map (\<lambda>i. JNum (Fin (of_int i))) (unobserved_indices v)))"
  using unobserved_indices_props [of v] by (auto simp: public_value_def intro!: exI [of _ "unobserved_indices v"])

lemma entry_ok_stops:
  assumes "(k, w) \<in> set (stop_record live)"
  shows "entry_ok live k w"
proof -
  let ?at = "obj_get live ''atStop''" and ?un = "obj_get live ''unobservedStops''"
  let ?is = "unobserved_indices (js_prop ?un ''indices'')"
  define a where "a = (if recorded_by_session live ?at then (case public_index (js_prop ?at ''index'') of
      Some i \<Rightarrow> [(''atStopIndex'', JNum (Fin (of_int i)))] | None \<Rightarrow> []) else [])"
  define b where "b = (if recorded_by_session live ?un then
      (if ?is \<noteq> [] then [(''unobservedStopIndices'', JArr (map (\<lambda>i. JNum (Fin (of_int i))) ?is))] else []) else [])"
  have "stop_record live = a @ b" unfolding stop_record_def a_def b_def Let_def by (rule refl)
  then consider "(k, w) \<in> set a" | "(k, w) \<in> set b" using assms by auto
  then show ?thesis
  proof cases
    case 1
    then have r: "recorded_by_session live ?at" unfolding a_def by (rule contrapos_pp) simp
    obtain i where "public_index (js_prop ?at ''index'') = Some i" using 1 r unfolding a_def by (cases "public_index (js_prop ?at ''index'')") simp_all
    then have "k = ''atStopIndex''" "public_scalar w" using 1 r unfolding a_def by simp_all
    then show ?thesis using r by (simp only: entry_ok_def simp_thms)
  next
    case 2
    have r: "recorded_by_session live ?un" using 2 unfolding b_def by (rule contrapos_pp) simp
    have "?is \<noteq> []" using 2 unfolding b_def by (rule contrapos_pp) simp
    then have "k = ''unobservedStopIndices''" "w = JArr (map (\<lambda>i. JNum (Fin (of_int i))) ?is)" using 2 r unfolding b_def by simp_all
    then show ?thesis using r indices_value unfolding entry_ok_def by (simp only: simp_thms)
  qed
qed

lemma entry_ok_contract: "entry_ok live k w \<Longrightarrow> k \<in> set public_contract \<and> public_value k w"
proof -
  assume "entry_ok live k w"
  then consider "k \<in> set public_fields" "public_scalar w" | "k \<in> set extra_names" "public_scalar w"
    | "k = ''atStopIndex''" "public_scalar w" | "k = ''unobservedStopIndices''" "public_value k w"
    | "k = ''rawLocation''" "public_nested raw_fields w" | "k = ''matchedLocation''" "public_nested match_fields w"
    unfolding entry_ok_def by argo
  then show ?thesis
  proof cases
    case 1
    then show ?thesis using public_fields_plain [of k] by (simp add: public_contract_def public_value_def)
  next
    case 2
    then show ?thesis by (auto simp: extra_names_def public_contract_def public_value_def)
  qed (simp_all add: public_contract_def public_value_def)
qed

text \<open>The parts of the published object have names of their own.\<close>

definition fits :: "string list \<Rightarrow> fields \<Rightarrow> bool" where
  "fits names fs \<longleftrightarrow> distinct (map fst fs) \<and> set (map fst fs) \<subseteq> set names"

lemma fits_append: "fits ns fs \<Longrightarrow> fits ms gs \<Longrightarrow> set ns \<inter> set ms = {} \<Longrightarrow> fits (ns @ ms) (fs @ gs)"
  unfolding fits_def by auto

lemma fits_if: "fits ns fs \<Longrightarrow> fits ns (if b then fs else [])"
  by (simp add: fits_def)

lemma fits_parts:
  "fits public_fields (pick live public_fields)"
  "fits [''lastCompletedSessionId'', ''lastCompletedAt'', ''lastCompletedRouteId''] (completed_proof live)"
  "fits [''automaticTurnaround'', ''previousSessionId''] (predecessor_proof live)"
  "fits [''atStopIndex'', ''unobservedStopIndices''] (stop_record live)"
  "fits [field] (nested_location live field names)"
proof -
  have "distinct public_fields" by (simp add: public_fields_def)
  then show "fits public_fields (pick live public_fields)" unfolding fits_def using pick_distinct pick_subset(1) by blast
  show "fits [''lastCompletedSessionId'', ''lastCompletedAt'', ''lastCompletedRouteId''] (completed_proof live)"
    unfolding completed_proof_def by (rule fits_if) (simp add: fits_def)
  show "fits [''automaticTurnaround'', ''previousSessionId''] (predecessor_proof live)"
    unfolding predecessor_proof_def by (rule fits_if) (simp add: fits_def)
  show "fits [field] (nested_location live field names)" by (simp add: fits_def nested_location_def Let_def split: jsval.split)
  define a where "a = (case public_index (js_prop (obj_get live ''atStop'') ''index'') of
      Some i \<Rightarrow> [(''atStopIndex'', JNum (Fin (of_int i)))] | None \<Rightarrow> [])"
  have "fits [''atStopIndex''] a" by (simp add: fits_def a_def split: option.split)
  then show "fits [''atStopIndex'', ''unobservedStopIndices''] (stop_record live)"
    unfolding stop_record_def Let_def a_def [symmetric] by (auto simp: fits_def)
qed

lemma fits_public:
  "fits (public_fields @ [''lastCompletedSessionId'', ''lastCompletedAt'', ''lastCompletedRouteId''] @ [''automaticTurnaround'', ''previousSessionId''] @
      [''atStopIndex'', ''unobservedStopIndices''] @ [''rawLocation''] @ [''matchedLocation''])
    (pick live public_fields @ completed_proof live @ predecessor_proof live @ stop_record live @
      nested_location live ''rawLocation'' raw_fields @ nested_location live ''matchedLocation'' match_fields)"
  by (intro fits_append fits_parts) (simp_all add: public_fields_def)

section \<open>Properties\<close>

text \<open>C26. Only the explicit public contract leaves the backend. Whatever a live node holds, what is published
  of it has names of the contract only, each once; a name carries a short string, a boolean or a finite
  number, a location of such fields, or at most 500 increasing stop indices below 500; a retired
  assignment and a node without safe bus and route ids publish nothing; and the stop records are those of
  the session that recorded them.\<close>

theorem public_contract_only:
  assumes "public_live_bus v = Some out"
  shows "\<exists>live. v = JObj live \<and> \<not> is_number (obj_get live ''retiredAssignmentRevision'') \<and>
    set (map fst out) \<subseteq> set public_contract \<and> distinct (map fst out) \<and> (\<forall>(k, w) \<in> set out. public_value k w) \<and>
    is_safe_id (obj_get live ''busId'') \<and> is_safe_id (obj_get live ''routeId'') \<and>
    {(''busId'', obj_get live ''busId''), (''routeId'', obj_get live ''routeId'')} \<subseteq> set out \<and>
    (''atStopIndex'' \<in> set (map fst out) \<longrightarrow> recorded_by_session live (obj_get live ''atStop'')) \<and>
    (''unobservedStopIndices'' \<in> set (map fst out) \<longrightarrow> recorded_by_session live (obj_get live ''unobservedStops''))"
proof -
  obtain live where v: "v = JObj live" using assms by (cases v) (simp_all add: public_live_bus_def)
  have g: "\<not> is_number (obj_get live ''retiredAssignmentRevision'')" "is_safe_id (obj_get live ''busId'')" "is_safe_id (obj_get live ''routeId'')"
    using assms v by (auto simp: public_live_bus_def split: if_splits)
  define nested where "nested = nested_location live ''rawLocation'' raw_fields @ nested_location live ''matchedLocation'' match_fields"
  have out: "out = pick live public_fields @ completed_proof live @ predecessor_proof live @ stop_record live @ nested"
    using assms v g by (simp add: public_live_bus_def nested_def)
  have entry: "entry_ok live k w" if pair: "(k, w) \<in> set out" for k w
    using pair entry_ok_pick entry_ok_completed entry_ok_predecessor entry_ok_stops entry_ok_nested
    unfolding out nested_def set_append Un_iff by metis
  then have names: "set (map fst out) \<subseteq> set public_contract" "\<forall>(k, w) \<in> set out. public_value k w"
    using entry_ok_contract by fastforce+
  have "recorded_by_session live (obj_get live ''atStop'')" if "(''atStopIndex'', w) \<in> set out" for w
    using entry [OF that] by (simp add: entry_ok_def public_fields_def extra_names_def)
  then have "''atStopIndex'' \<in> set (map fst out) \<longrightarrow> recorded_by_session live (obj_get live ''atStop'')" by force
  moreover have "recorded_by_session live (obj_get live ''unobservedStops'')" if "(''unobservedStopIndices'', w) \<in> set out" for w
    using entry [OF that] by (simp add: entry_ok_def public_fields_def extra_names_def)
  then have "''unobservedStopIndices'' \<in> set (map fst out) \<longrightarrow> recorded_by_session live (obj_get live ''unobservedStops'')" by force
  moreover have "distinct (map fst out)" using fits_public [of live] unfolding out nested_def fits_def by blast
  moreover have "{(''busId'', obj_get live ''busId''), (''routeId'', obj_get live ''routeId'')} \<subseteq> set out"
    using pick_has [of _ public_fields live] g(2,3) safe_scalar unfolding out by (auto simp: public_fields_def)
  ultimately show ?thesis using v g names by blast
qed

theorem public_contract_only_witness:
  "\<exists>out. public_live_bus (JObj [(''busId'', JStr ''b1''), (''routeId'', JStr ''r1''), (''sessionId'', JStr ''s''), (''lat'', JNum 1), (''secret'', JStr ''x''),
      (''atStop'', JObj [(''sessionId'', JStr ''s''), (''index'', JNum 3)])]) = Some out \<and> set (map fst out) \<subseteq> set public_contract"
proof -
  have "safe_id ''b1'' \<and> safe_id ''r1''" by (simp add: safe_id_def safe_id_char_def is_lower_def is_upper_def is_digit_def)
  then have "public_live_bus (JObj [(''busId'', JStr ''b1''), (''routeId'', JStr ''r1''), (''sessionId'', JStr ''s''), (''lat'', JNum 1), (''secret'', JStr ''x''),
      (''atStop'', JObj [(''sessionId'', JStr ''s''), (''index'', JNum 3)])]) \<noteq> None"
    by (simp add: public_live_bus_def)
  then show ?thesis using public_contract_only by blast
qed

section \<open>The catalog over time\<close>

datatype catalog_op = Publish string availability nat | Register string

fun catalog_try :: "int \<times> bool \<times> catalog_op \<Rightarrow> catalog option \<Rightarrow> catalog option" where
  "catalog_try (g, stopped, Publish key a r) current = fenced_catalog g (publish_catalog g stopped key a r) current"
| "catalog_try (g, stopped, Register key) current = fenced_catalog g (register_route g stopped key) current"

definition catalog_apply :: "catalog option \<Rightarrow> int \<times> bool \<times> catalog_op \<Rightarrow> catalog option" where
  "catalog_apply current op = (case catalog_try op current of None \<Rightarrow> current | Some c \<Rightarrow> Some c)"

definition catalog_run :: "(int \<times> bool \<times> catalog_op) list \<Rightarrow> catalog option" where
  "catalog_run ops = foldl catalog_apply None ops"

text \<open>The generation and the revision of a route's entry, in the order of publication.\<close>

definition lineage :: "catalog option \<Rightarrow> string \<Rightarrow> int \<times> nat" where
  "lineage current key = (opt_default (catalog_generations current key) 0, opt_default (Option.bind current (\<lambda>c. ca_revisions c key)) 0)"

definition lineage_le :: "int \<times> nat \<Rightarrow> int \<times> nat \<Rightarrow> bool" where
  "lineage_le a b \<longleftrightarrow> fst a < fst b \<or> fst a = fst b \<and> snd a \<le> snd b"

definition newest_generation :: "catalog option \<Rightarrow> int" where
  "newest_generation current = opt_default (Option.bind current ca_worker_generation) 0"

definition catalog_ok :: "catalog option \<Rightarrow> bool" where
  "catalog_ok current \<longleftrightarrow> 0 \<le> newest_generation current \<and>
    (\<forall>key g. catalog_generations current key = Some g \<longrightarrow> 0 \<le> g \<and> g \<le> newest_generation current) \<and>
    (\<forall>c key. current = Some c \<and> ca_values c key = None \<longrightarrow> ca_revisions c key = None)"

lemma lineage_le_refl [simp]: "lineage_le a a"
  by (simp add: lineage_le_def)

lemma lineage_le_trans: "lineage_le a b \<Longrightarrow> lineage_le b c \<Longrightarrow> lineage_le a c"
  by (auto simp: lineage_le_def)

lemma catalog_commit:
  assumes "catalog_try (g, stopped, op) current = Some c"
  shows "newest_generation current \<le> g" "ca_worker_generation c = Some g" "\<not> stopped"
    "(\<exists>key a r. op = Publish key a r \<and> \<not> (catalog_generations current key = Some g \<and> opt_default (Option.bind current (\<lambda>c. ca_revisions c key)) 0 > r) \<and>
        ca_values c = (ca_values (opt_default current empty_catalog))(key := Some a) \<and>
        ca_revisions c = (ca_revisions (opt_default current empty_catalog))(key := Some r) \<and>
        ca_generations c = (catalog_generations current)(key := Some g)) \<or>
     (\<exists>key. op = Register key \<and> ca_revisions c = ca_revisions (opt_default current empty_catalog) \<and>
        ca_generations c = catalog_generations current \<and>
        (ca_values c = ca_values (opt_default current empty_catalog) \<or>
         ca_values (opt_default current empty_catalog) key = None \<and> ca_values c = (ca_values (opt_default current empty_catalog))(key := Some no_availability)))"
  using assms
  by (cases op; cases current; auto simp: fenced_catalog_def publish_catalog_def register_route_def newest_generation_def Let_def empty_catalog_def
      opt_default_def split: if_splits)+

lemma known_generation: "catalog_generations current k = None \<longleftrightarrow> ca_values (opt_default current empty_catalog) k = None"
  by (cases current) (auto simp: catalog_generations_def opt_default_def empty_catalog_def)

lemma committed_generations:
  assumes "catalog_try (g, stopped, op) current = Some c"
  shows "catalog_generations (Some c) k = (case op of
      Publish key a r \<Rightarrow> (if k = key then Some g else catalog_generations current k)
    | Register key \<Rightarrow> (if k = key \<and> catalog_generations current k = None then
        (if ca_values c k = None then None else Some g) else catalog_generations current k))"
proof -
  note com = catalog_commit [OF assms]
  define known where "known = catalog_generations current k"
  define vals where "vals = ca_values (opt_default current empty_catalog)"
  have k: "known = None \<longleftrightarrow> vals k = None" using known_generation [of current k] by (simp add: known_def vals_def)
  have new: "catalog_generations (Some c) k = (if ca_values c k = None then None else Some (case ca_generations c k of Some h \<Rightarrow> h | None \<Rightarrow> g))"
    using com(2) by (simp add: catalog_generations_def opt_default_def split: option.split)
  show ?thesis
  proof (cases op)
    case (Publish key a r)
    then have "ca_values c k = (if k = key then Some a else vals k)" "ca_generations c k = (if k = key then Some g else known)"
      using com(4) by (auto simp: known_def vals_def)
    then show ?thesis unfolding new Publish using k by (cases "k = key"; cases known) (simp_all add: known_def [symmetric])
  next
    case (Register key)
    then have "ca_generations c k = known" "ca_values c k = vals k \<or> k = key \<and> vals k = None"
      using com(4) by (auto simp: known_def vals_def split: if_splits)
    then show ?thesis unfolding new Register catalog_op.case known_def [symmetric] using k by (cases "k = key"; cases known) auto
  qed
qed

lemma known_lineage: "catalog_ok current \<Longrightarrow> catalog_generations current k = None \<Longrightarrow> lineage current k = (0, 0)"
  by (cases current) (auto simp: catalog_ok_def lineage_def catalog_generations_def opt_default_def split: if_splits)

lemma catalog_commit_ok:
  assumes "catalog_ok current" "catalog_try (g, stopped, op) current = Some c"
  shows "catalog_ok (Some c)"
proof -
  note com = catalog_commit [OF assms(2)]
  have g: "0 \<le> g" "newest_generation (Some c) = g" using assms(1) com(1,2) by (auto simp: catalog_ok_def newest_generation_def opt_default_def)
  have "0 \<le> h \<and> h \<le> g" if "catalog_generations (Some c) k = Some h" for k h
    using that assms(1) com(1) g(1) unfolding committed_generations [OF assms(2)] catalog_ok_def
    by (fastforce split: catalog_op.splits if_splits)
  moreover have "ca_revisions c k = None" if "ca_values c k = None" for k
    using that com(4) assms(1) by (cases current) (auto simp: catalog_ok_def opt_default_def empty_catalog_def split: if_splits)
  ultimately show ?thesis using g by (simp add: catalog_ok_def)
qed

lemma published_lineage:
  assumes "catalog_try (g, stopped, Publish k a r) current = Some c"
  shows "lineage (Some c) k = (g, r)"
  using catalog_commit(4) [OF assms] committed_generations [OF assms, of k] by (simp add: lineage_def opt_default_def)

lemma catalog_commit_le:
  assumes "catalog_ok current" "catalog_try (g, stopped, op) current = Some c"
  shows "lineage_le (lineage current k) (lineage (Some c) k)"
proof (cases "catalog_generations current k")
  case None
  have "0 \<le> fst (lineage (Some c) k)"
    using catalog_commit_ok [OF assms] by (auto simp: catalog_ok_def lineage_def opt_default_def split: option.split)
  then show ?thesis unfolding known_lineage [OF assms(1) None] by (auto simp: lineage_le_def)
next
  case (Some h)
  note com = catalog_commit [OF assms(2)]
  have "h \<le> newest_generation current" using Some assms(1) unfolding catalog_ok_def by blast
  then have le: "h \<le> g" using com(1) by simp
  have rev: "opt_default (Option.bind current (\<lambda>c. ca_revisions c k)) 0 = opt_default (ca_revisions (opt_default current empty_catalog) k) 0"
    by (cases current) (simp_all add: opt_default_def empty_catalog_def)
  show ?thesis
  proof (cases "\<exists>a r. op = Publish k a r")
    case True
    then obtain a r where op: "op = Publish k a r" by blast
    have "lineage (Some c) k = (g, r)" using published_lineage assms(2) op by simp
    then show ?thesis using com(4) Some le unfolding op by (auto simp: lineage_le_def lineage_def opt_default_def split: if_splits)
  next
    case False
    have "catalog_generations (Some c) k = Some h"
      using False Some unfolding committed_generations [OF assms(2)] by (auto split: catalog_op.splits)
    moreover have "ca_revisions c k = ca_revisions (opt_default current empty_catalog) k" using com(4) False by auto
    ultimately show ?thesis using Some rev by (simp add: lineage_le_def lineage_def opt_default_def)
  qed
qed

lemma catalog_apply_step:
  assumes "catalog_ok current"
  shows "catalog_ok (catalog_apply current op)" "lineage_le (lineage current k) (lineage (catalog_apply current op) k)"
    "newest_generation current \<le> newest_generation (catalog_apply current op)"
proof -
  obtain g st o' where op: "op = (g, st, o')" by (cases op) auto
  have "catalog_ok (catalog_apply current op) \<and> lineage_le (lineage current k) (lineage (catalog_apply current op) k) \<and>
      newest_generation current \<le> newest_generation (catalog_apply current op)"
  proof (cases "catalog_try op current")
    case None
    then show ?thesis using assms by (simp add: catalog_apply_def)
  next
    case (Some c)
    then have "catalog_apply current op = Some c" by (simp add: catalog_apply_def)
    then show ?thesis using catalog_commit_ok [OF assms, of g st o' c] catalog_commit_le [OF assms, of g st o' c k] catalog_commit(1,2) [of g st o' current c] Some op
      by (simp add: newest_generation_def opt_default_def)
  qed
  then show "catalog_ok (catalog_apply current op)" "lineage_le (lineage current k) (lineage (catalog_apply current op) k)"
    "newest_generation current \<le> newest_generation (catalog_apply current op)" by blast+
qed

lemma catalog_run_from:
  "catalog_ok current \<Longrightarrow> catalog_ok (foldl catalog_apply current ops) \<and> lineage_le (lineage current k) (lineage (foldl catalog_apply current ops) k) \<and>
    newest_generation current \<le> newest_generation (foldl catalog_apply current ops)"
proof (induction ops arbitrary: current)
  case (Cons op ops)
  let ?n = "catalog_apply current op"
  have n: "catalog_ok ?n" "lineage_le (lineage current k) (lineage ?n k)" "newest_generation current \<le> newest_generation ?n"
    using catalog_apply_step [OF Cons.prems] by blast+
  show ?case using Cons.IH [OF n(1)] n(2,3) lineage_le_trans order_trans unfolding foldl_Cons by blast
qed simp

lemma catalog_ok_none: "catalog_ok None"
  by (simp add: catalog_ok_def newest_generation_def catalog_generations_def opt_default_def)

text \<open>C27. The catalog never goes back. However the transactions of publishers of any generations interleave
  and are retried late, the entry of a route only advances in the order of publication: first the worker's
  generation, then the revision of the view; and no publication of the newest generation is ever newer than
  the entry, so the last view published by the elected worker is the one passengers read.\<close>

theorem catalog_never_goes_back:
  "lineage_le (lineage (catalog_run before) key) (lineage (catalog_run (before @ after)) key) \<and>
   (\<forall>g a r. (g, False, Publish key a r) \<in> set before \<and> g = newest_generation (catalog_run before) \<longrightarrow>
     lineage_le (g, r) (lineage (catalog_run before) key))"
proof (intro conjI allI impI)
  have "catalog_ok (catalog_run before)" unfolding catalog_run_def using catalog_run_from [OF catalog_ok_none] by blast
  then show "lineage_le (lineage (catalog_run before) key) (lineage (catalog_run (before @ after)) key)"
    using catalog_run_from [of "catalog_run before" after] by (simp add: catalog_run_def)
next
  fix g a r
  assume a: "(g, False, Publish key a r) \<in> set before \<and> g = newest_generation (catalog_run before)"
  then obtain us vs where split: "before = us @ (g, False, Publish key a r) # vs" by (meson split_list)
  define cur where "cur = foldl catalog_apply None us"
  define nxt where "nxt = catalog_apply cur (g, False, Publish key a r)"
  have ok: "catalog_ok cur" unfolding cur_def using catalog_run_from [OF catalog_ok_none] by blast
  have fin: "catalog_run before = foldl catalog_apply nxt vs" by (simp add: catalog_run_def split cur_def nxt_def)
  have ok2: "catalog_ok nxt" unfolding nxt_def by (rule catalog_apply_step(1) [OF ok])
  have "newest_generation cur \<le> newest_generation nxt" unfolding nxt_def by (rule catalog_apply_step(3) [OF ok])
  also have "\<dots> \<le> newest_generation (catalog_run before)" using catalog_run_from [OF ok2, of vs] unfolding fin by blast
  finally have gen: "newest_generation cur \<le> g" using a by simp
  have "lineage_le (g, r) (lineage nxt key)"
  proof (cases "catalog_try (g, False, Publish key a r) cur")
    case None
    then have "catalog_generations cur key = Some g \<and> opt_default (Option.bind cur (\<lambda>c. ca_revisions c key)) 0 > r"
      using gen by (cases cur) (auto simp: fenced_catalog_def publish_catalog_def newest_generation_def Let_def opt_default_def empty_catalog_def split: if_splits)
    then show ?thesis using None by (simp add: nxt_def catalog_apply_def lineage_le_def lineage_def opt_default_def)
  next
    case (Some c)
    then show ?thesis using published_lineage [OF Some] by (simp add: nxt_def catalog_apply_def)
  qed
  then show "lineage_le (g, r) (lineage (catalog_run before) key)"
    using catalog_run_from [OF ok2, of vs key] lineage_le_trans unfolding fin by blast
qed

theorem catalog_never_goes_back_witness:
  "lineage_le (2, 5) (lineage (catalog_run [(2, False, Publish ''route:r'' no_availability 5), (1, False, Publish ''route:r'' no_availability 9),
     (2, False, Publish ''route:r'' no_availability 4)]) ''route:r'')"
proof -
  let ?ops = "[(2, False, Publish ''route:r'' no_availability 5), (1, False, Publish ''route:r'' no_availability 9), (2, False, Publish ''route:r'' no_availability 4)]"
  have "newest_generation (catalog_run ?ops) = 2"
    by (simp add: catalog_run_def catalog_apply_def fenced_catalog_def publish_catalog_def newest_generation_def catalog_generations_def
        empty_catalog_def opt_default_def Let_def)
  then show ?thesis using catalog_never_goes_back [of ?ops "''route:r''" "[]"] by (metis list.set_intros(1))
qed

end
