(* ===== verification/Paged_Reconciliation.thy ===== *)
theory Paged_Reconciliation imports Js_Number begin

text \<open>
  Work in pages (\<open>lib/reconciliationPages.ts\<close>, \<open>services/pagedLifecycleReplay.ts\<close>): reading a
  collection a hundred documents at a time, running bounded batches of work, and the replay that scans
  a durable source again until a whole pass went through. A query is the function \<open>get\<close> from the limit
  and the document id to start after to the documents; the outcome of a promise is \<open>Inl\<close> of its
  rejection or \<open>Inr\<close> of its value.
\<close>

section \<open>Settling and batches\<close>

definition settle_together :: "('e + 'a) list \<Rightarrow> 'e + 'a list" where
  "settle_together outcomes = (case find isl outcomes of
      Some failure \<Rightarrow> Inl (projl failure)
    | None \<Rightarrow> Inr (map projr outcomes))"

text \<open>The batches of \<open>forEachBounded\<close>: the items whose work was dispatched, and the rejection it throws.\<close>

function for_each_from :: "nat \<Rightarrow> ('a \<Rightarrow> 'e + 'b) \<Rightarrow> 'a list \<Rightarrow> 'a list \<times> 'e option" where
  "for_each_from n work items = (if items = [] \<or> n = 0 then ([], None)
    else (case find isl (map work (take n items)) of
        Some failure \<Rightarrow> (take n items, Some (projl failure))
      | None \<Rightarrow> (let (dispatched, rejection) = for_each_from n work (drop n items) in (take n items @ dispatched, rejection))))"
  by pat_completeness auto
termination
  by (relation "measure (\<lambda>(n, work, items). length items)") auto

declare for_each_from.simps [simp del]

datatype 'e bounded_error = Invalid_Concurrency | Work_Rejected 'e

definition for_each_bounded :: "'a list \<Rightarrow> jsnum \<Rightarrow> ('a \<Rightarrow> 'e + 'b) \<Rightarrow> 'a list \<times> 'e bounded_error option" where
  "for_each_bounded items concurrency work =
    (if \<not> is_safe_integer concurrency \<or> concurrency < 1 \<or> concurrency > 100 then ([], Some Invalid_Concurrency)
     else (let (dispatched, rejection) = for_each_from (nat (num_floor concurrency)) work items in
       (dispatched, map_option Work_Rejected rejection)))"

section \<open>Pages of a query\<close>

definition reconciliation_page_size :: nat where "reconciliation_page_size = 100"

definition reconciliation_page ::
    "(nat \<Rightarrow> string option \<Rightarrow> 'd list) \<Rightarrow> ('d \<Rightarrow> string) \<Rightarrow> string option \<Rightarrow> 'd list \<times> string option" where
  "reconciliation_page get doc_id cursor =
    (let docs = get reconciliation_page_size (case cursor of Some c \<Rightarrow> (if c \<noteq> [] then Some c else None) | None \<Rightarrow> None) in
     (docs, if length docs = reconciliation_page_size then Some (doc_id (last docs)) else None))"

text \<open>The generator as the list of all it yields; \<open>None\<close> would be a scan that never ends.\<close>

partial_function (option) pages_from ::
    "(nat \<Rightarrow> string option \<Rightarrow> 'd list) \<Rightarrow> ('d \<Rightarrow> string) \<Rightarrow> string option \<Rightarrow> 'd list list option" where
  "pages_from get doc_id cursor = (case reconciliation_page get doc_id cursor of (docs, next) \<Rightarrow>
     (case next of
        None \<Rightarrow> Some [docs]
      | Some c \<Rightarrow> (if c = [] then Some [docs]
          else Option.bind (pages_from get doc_id (Some c)) (\<lambda>pages. Some (docs # pages)))))"

definition reconciliation_pages :: "(nat \<Rightarrow> string option \<Rightarrow> 'd list) \<Rightarrow> ('d \<Rightarrow> string) \<Rightarrow> 'd list list option" where
  "reconciliation_pages get doc_id = pages_from get doc_id None"

section \<open>The paged replay\<close>

text \<open>One execution of the asynchronous body of \<open>tick\<close> is a sequence of phases, one per await: the page
  is being read, an item is being admitted (with the rest of its page), the promise is settling.\<close>

datatype 'a replay_phase =
    Idle
  | Reading
  | Admitting 'a "'a list" "string option"
  | Closing

record 'a replay =
  rp_requested :: bool
  rp_again :: bool
  rp_stopped :: bool
  rp_cursor :: "string option"
  rp_phase :: "'a replay_phase"
  rp_scanned :: nat
  rp_failures :: nat

definition replay_page_size :: nat where "replay_page_size = 25"

definition replay_new :: "'a replay" where
  "replay_new = \<lparr>rp_requested = False, rp_again = False, rp_stopped = False, rp_cursor = None, rp_phase = Idle,
     rp_scanned = 0, rp_failures = 0\<rparr>"

definition replay_request :: "'a replay \<Rightarrow> 'a replay" where
  "replay_request s = (if rp_requested s then s\<lparr>rp_again := True\<rparr> else s\<lparr>rp_requested := True\<rparr>)"

definition replay_tick :: "bool \<Rightarrow> 'a replay \<Rightarrow> 'a replay" where
  "replay_tick capacity s =
    (if rp_stopped s \<or> \<not> rp_requested s \<or> rp_phase s \<noteq> Idle \<or> \<not> capacity then s else s\<lparr>rp_phase := Reading\<rparr>)"

definition replay_report :: "'a replay \<Rightarrow> 'a replay" where
  "replay_report s = s\<lparr>rp_failures := rp_failures s + 1\<rparr>"

definition finish_page :: "string option \<Rightarrow> 'a replay \<Rightarrow> 'a replay" where
  "finish_page next s = (let s1 = s\<lparr>rp_cursor := next, rp_phase := Closing\<rparr> in
     if next = None then s1\<lparr>rp_requested := rp_again s1, rp_again := False\<rparr> else s1)"

definition next_item :: "bool \<Rightarrow> 'a list \<Rightarrow> string option \<Rightarrow> 'a replay \<Rightarrow> 'a replay" where
  "next_item capacity items next s = (case items of
      [] \<Rightarrow> finish_page next s
    | item # rest \<Rightarrow> (if rp_stopped s then s\<lparr>rp_phase := Closing\<rparr>
        else if \<not> capacity then finish_page next (s\<lparr>rp_again := True\<rparr>)
        else s\<lparr>rp_scanned := rp_scanned s + 1, rp_phase := Admitting item rest next\<rparr>))"

text \<open>\<open>readPage\<close> answers: \<open>None\<close> is a rejection.\<close>

definition replay_page :: "('a list \<times> string option) option \<Rightarrow> bool \<Rightarrow> 'a replay \<Rightarrow> 'a replay" where
  "replay_page answer capacity s = (case answer of
      None \<Rightarrow> replay_report (s\<lparr>rp_phase := Closing\<rparr>)
    | Some (items, next) \<Rightarrow> (if rp_stopped s then s\<lparr>rp_phase := Closing\<rparr>
        else if length items > replay_page_size then replay_report (s\<lparr>rp_phase := Closing\<rparr>)
        else next_item capacity items next s))"

text \<open>\<open>admit\<close> answers for the item in flight: \<open>None\<close> is a rejection.\<close>

definition replay_admitted :: "bool option \<Rightarrow> bool \<Rightarrow> 'a replay \<Rightarrow> 'a replay" where
  "replay_admitted answer capacity s = (case rp_phase s of
      Admitting item rest next \<Rightarrow> next_item capacity rest next
        (case answer of
           None \<Rightarrow> replay_report (s\<lparr>rp_again := True\<rparr>)
         | Some ok \<Rightarrow> (if ok then s else s\<lparr>rp_again := True\<rparr>))
    | _ \<Rightarrow> s)"

definition replay_settled :: "'a replay \<Rightarrow> 'a replay" where
  "replay_settled s = s\<lparr>rp_phase := Idle\<rparr>"

definition replay_stop :: "'a replay \<Rightarrow> 'a replay" where
  "replay_stop s = s\<lparr>rp_stopped := True\<rparr>"

datatype 'a replay_event =
    Request
  | Tick bool
  | Page "('a list \<times> string option) option" bool
  | Admit 'a "bool option" bool
  | Settled
  | Stop

text \<open>The steps of the program over a source whose page after a cursor is \<open>read\<close>: a callback runs only in
  the phase that awaits it.\<close>

inductive replay_step :: "(string option \<Rightarrow> 'a list \<times> string option) \<Rightarrow> 'a replay \<Rightarrow> 'a replay_event \<Rightarrow> 'a replay \<Rightarrow> bool"
  for read where
  request: "replay_step read s Request (replay_request s)"
| tick: "replay_step read s (Tick capacity) (replay_tick capacity s)"
| page: "rp_phase s = Reading \<Longrightarrow> replay_step read s (Page (Some (read (rp_cursor s))) capacity)
    (replay_page (Some (read (rp_cursor s))) capacity s)"
| page_rejected: "rp_phase s = Reading \<Longrightarrow> replay_step read s (Page None capacity) (replay_page None capacity s)"
| admit: "rp_phase s = Admitting item rest next \<Longrightarrow> replay_step read s (Admit item answer capacity) (replay_admitted answer capacity s)"
| settled: "rp_phase s = Closing \<Longrightarrow> replay_step read s Settled (replay_settled s)"
| stop: "replay_step read s Stop (replay_stop s)"

inductive_cases replay_stepE: "replay_step read s ev t"

inductive replay_run :: "(string option \<Rightarrow> 'a list \<times> string option) \<Rightarrow> 'a replay \<Rightarrow> 'a replay_event list \<Rightarrow> 'a replay \<Rightarrow> bool"
  for read where
  start: "replay_run read s [] s"
| snoc: "replay_run read s evs t \<Longrightarrow> replay_step read t ev u \<Longrightarrow> replay_run read s (evs @ [ev]) u"

text \<open>What a pass over the source has to admit: the pages from a cursor to the end.\<close>

partial_function (option) scan_from :: "(string option \<Rightarrow> 'a list \<times> string option) \<Rightarrow> string option \<Rightarrow> 'a list option" where
  "scan_from read cursor = (case read cursor of (items, next) \<Rightarrow>
     (case next of
        None \<Rightarrow> Some items
      | Some c \<Rightarrow> Option.bind (scan_from read (Some c)) (\<lambda>rest. Some (items @ rest))))"

fun admitted_items :: "'a replay_event list \<Rightarrow> 'a list" where
  "admitted_items [] = []"
| "admitted_items (Admit item _ _ # evs) = item # admitted_items evs"
| "admitted_items (_ # evs) = admitted_items evs"

fun all_admitted :: "'a replay_event list \<Rightarrow> bool" where
  "all_admitted [] \<longleftrightarrow> True"
| "all_admitted (Admit _ answer _ # evs) \<longleftrightarrow> answer = Some True \<and> all_admitted evs"
| "all_admitted (_ # evs) \<longleftrightarrow> all_admitted evs"

section \<open>Pages: facts\<close>

text \<open>What the database documents of a query in document order: \<open>limit\<close> takes a prefix, \<open>startAfter\<close> skips
  up to the document with that id.\<close>

definition paged_query :: "(nat \<Rightarrow> string option \<Rightarrow> 'd list) \<Rightarrow> ('d \<Rightarrow> string) \<Rightarrow> 'd list \<Rightarrow> bool" where
  "paged_query get doc_id docs \<longleftrightarrow> (\<forall>n. get n None = take n docs) \<and>
    (\<forall>n pre d post. docs = pre @ d # post \<longrightarrow> get n (Some (doc_id d)) = take n post) \<and> (\<forall>d\<in>set docs. doc_id d \<noteq> [])"

definition cursor_at :: "('d \<Rightarrow> string) \<Rightarrow> 'd list \<Rightarrow> string option \<Rightarrow> bool" where
  "cursor_at doc_id pre cursor \<longleftrightarrow> (case cursor of None \<Rightarrow> pre = [] | Some c \<Rightarrow> pre \<noteq> [] \<and> c = doc_id (last pre))"

lemma page_at:
  assumes "paged_query get doc_id (pre @ rest)" "cursor_at doc_id pre cursor"
  shows "reconciliation_page get doc_id cursor =
    (take 100 rest, if 100 \<le> length rest then Some (doc_id (last (take 100 rest))) else None)"
proof -
  have len: "length (take 100 rest) = 100 \<longleftrightarrow> 100 \<le> length rest" by auto
  have "get 100 (case cursor of Some c \<Rightarrow> (if c \<noteq> [] then Some c else None) | None \<Rightarrow> None) = take 100 rest"
  proof (cases cursor)
    case None
    then show ?thesis using assms by (simp add: paged_query_def cursor_at_def)
  next
    case (Some c)
    then obtain us d where pre: "pre = us @ [d]" "c = doc_id d" using assms(2)
      by (cases pre rule: rev_cases) (auto simp: cursor_at_def)
    then have "doc_id d \<noteq> []" "get 100 (Some (doc_id d)) = take 100 rest" using assms(1) by (simp_all add: paged_query_def)
    then show ?thesis using Some pre by simp
  qed
  then show ?thesis unfolding reconciliation_page_def reconciliation_page_size_def Let_def len by (simp add: len)
qed

lemma pages_from_complete:
  assumes "paged_query get doc_id (pre @ rest)" "cursor_at doc_id pre cursor"
  shows "\<exists>ps. pages_from get doc_id cursor = Some ps \<and> concat ps = rest \<and> (\<forall>p\<in>set ps. length p \<le> 100) \<and>
    length ps = length rest div 100 + 1"
  using assms
proof (induction "length rest" arbitrary: pre rest cursor rule: less_induct)
  case less
  note page = page_at [OF less.prems]
  show ?case
  proof (cases "100 \<le> length rest")
    case False
    then have "pages_from get doc_id cursor = Some [rest]" by (simp add: pages_from.simps page)
    with False show ?thesis by simp
  next
    case True
    define d where "d = doc_id (last (take 100 rest))"
    have ne: "take 100 rest \<noteq> []" using True by auto
    have "last (take 100 rest) \<in> set (pre @ rest)" using last_in_set [OF ne] set_take_subset by fastforce
    then have "d \<noteq> []" using less.prems(1) by (auto simp: d_def paged_query_def)
    moreover have "cursor_at doc_id (pre @ take 100 rest) (Some d)" using ne by (simp add: cursor_at_def d_def)
    moreover have "paged_query get doc_id ((pre @ take 100 rest) @ drop 100 rest)" using less.prems(1) by simp
    moreover have "length (drop 100 rest) < length rest" using True by simp
    ultimately obtain ps where ps: "pages_from get doc_id (Some d) = Some ps" "concat ps = drop 100 rest"
        "\<forall>p\<in>set ps. length p \<le> 100" "length ps = length (drop 100 rest) div 100 + 1"
      using less.hyps by blast
    have "pages_from get doc_id cursor = Some (take 100 rest # ps)"
      using \<open>d \<noteq> []\<close> ps(1) True by (subst pages_from.simps) (simp add: page flip: d_def)
    moreover have "length (take 100 rest # ps) = length rest div 100 + 1"
      using ps(4) True by (simp add: le_div_geq)
    ultimately show ?thesis using ps(2,3) by auto
  qed
qed

lemma for_each_from_prefix:
  "0 < n \<Longrightarrow> for_each_from n work items = (dispatched, rejection) \<Longrightarrow>
   (case rejection of
      None \<Rightarrow> dispatched = items \<and> (\<forall>x\<in>set items. \<not> isl (work x))
    | Some e \<Rightarrow> \<exists>us vs x ws zs. items = us @ (vs @ x # ws) @ zs \<and> dispatched = us @ vs @ x # ws \<and> n dvd length us \<and>
        length (vs @ x # ws) \<le> n \<and> (length (vs @ x # ws) = n \<or> zs = []) \<and> (\<forall>y\<in>set (us @ vs). \<not> isl (work y)) \<and> work x = Inl e)"
proof (induction n work items arbitrary: dispatched rule: for_each_from.induct)
  case (1 n work items)
  show ?case
  proof (cases "items = []")
    case True
    then show ?thesis using "1.prems" by (simp add: for_each_from.simps)
  next
    case ne: False
    show ?thesis
    proof (cases "find isl (map work (take n items))")
      case (Some f)
      then obtain i where i: "i < length (take n items)" "isl (work (take n items ! i))" "f = work (take n items ! i)"
          "\<forall>j<i. \<not> isl (work (take n items ! j))" by (auto simp: find_Some_iff)
      define vs x ws where "vs = take i (take n items)" and "x = take n items ! i" and "ws = drop (Suc i) (take n items)"
      have split: "take n items = vs @ x # ws" using i(1) unfolding vs_def x_def ws_def by (rule id_take_nth_drop)
      have r: "rejection = Some (projl f)" "dispatched = vs @ x # ws"
        using "1.prems" ne Some unfolding split [symmetric] by (auto simp: for_each_from.simps)
      have "items = [] @ (vs @ x # ws) @ drop n items" using split by (metis append_take_drop_id append_Nil)
      moreover have "length (vs @ x # ws) \<le> n \<and> (length (vs @ x # ws) = n \<or> drop n items = [])"
        unfolding split [symmetric] by auto
      moreover have "\<forall>y\<in>set vs. \<not> isl (work y)" using i(1,4) by (auto simp: vs_def in_set_conv_nth)
      moreover have "work x = Inl (projl f)" using i(2,3) by (simp add: x_def)
      ultimately show ?thesis unfolding r option.case using append_Nil dvd_0_right list.size(3) by metis
    next
      case None
      then have clean: "\<forall>y\<in>set (take n items). \<not> isl (work y)" by (auto simp: find_None_iff)
      obtain d2 where d2: "for_each_from n work (drop n items) = (d2, rejection)" "dispatched = take n items @ d2"
        using "1.prems" ne None by (auto simp: for_each_from.simps [of n work items] split: prod.splits)
      have guard: "\<not> (items = [] \<or> n = 0)" using ne "1.prems"(1) by simp
      note IH = "1.IH" [OF guard None "1.prems"(1) d2(1)]
      show ?thesis
      proof (cases rejection)
        case N: None
        have "set items = set (take n items) \<union> set (drop n items)" by (metis append_take_drop_id set_append)
        then show ?thesis using IH clean d2(2) unfolding N option.case by (auto simp del: set_append)
      next
        case (Some e)
        then obtain us vs x ws zs where h: "drop n items = us @ (vs @ x # ws) @ zs" "d2 = us @ vs @ x # ws" "n dvd length us"
            "length (vs @ x # ws) \<le> n" "length (vs @ x # ws) = n \<or> zs = []" "\<forall>y\<in>set (us @ vs). \<not> isl (work y)" "work x = Inl e"
          using IH unfolding Some option.case by blast
        have "items \<noteq> take n items" using h(1) by (metis append_is_Nil_conv append_self_conv append_take_drop_id list.distinct(1))
        then have "n < length items" by (metis linorder_not_le take_all)
        then have "n dvd length (take n items @ us)" using h(3) by simp
        moreover have "items = (take n items @ us) @ (vs @ x # ws) @ zs" using h(1) by (metis append_assoc append_take_drop_id)
        moreover have "dispatched = (take n items @ us) @ vs @ x # ws" using d2(2) h(2) by simp
        moreover have "\<forall>y\<in>set ((take n items @ us) @ vs). \<not> isl (work y)" using clean h(6) by auto
        ultimately show ?thesis using h(4,5,7) unfolding Some option.case by blast
      qed
    qed
  qed
qed

section \<open>Properties of paging\<close>

text \<open>C23. A scan of a collection by \<open>reconciliationPages\<close> ends, and yields every document once and in
  order: whatever the size of the collection, in pages of at most a hundred, with one more query than
  full pages. (A query whose last page is full needs the empty one that ends it.)\<close>

theorem reconciliation_pages_complete:
  assumes "\<forall>n. get n None = take n docs"
    and "\<forall>n pre d post. docs = pre @ d # post \<longrightarrow> get n (Some (doc_id d)) = take n post"
    and "\<forall>d\<in>set docs. doc_id d \<noteq> []"
  shows "\<exists>pages. reconciliation_pages get doc_id = Some pages \<and> concat pages = docs \<and>
    (\<forall>p\<in>set pages. length p \<le> reconciliation_page_size) \<and> length pages = length docs div reconciliation_page_size + 1"
proof -
  have "paged_query get doc_id ([] @ docs)" using assms by (simp add: paged_query_def)
  then show ?thesis using pages_from_complete [of get doc_id "[]" docs None]
    by (simp add: reconciliation_pages_def cursor_at_def reconciliation_page_size_def)
qed

definition demo_docs :: "string list" where "demo_docs = map (\<lambda>k. replicate (Suc k) (CHR ''d'')) [0..<250]"

definition demo_get :: "nat \<Rightarrow> string option \<Rightarrow> string list" where
  "demo_get n cursor = take n (case cursor of None \<Rightarrow> demo_docs | Some c \<Rightarrow> drop (length c) demo_docs)"

lemma demo_docs_after: "demo_docs = pre @ d # post \<Longrightarrow> drop (length d) demo_docs = post"
proof -
  assume a: "demo_docs = pre @ d # post"
  have "length pre < length demo_docs" using arg_cong [OF a, of length] by simp
  then have "length pre < 250" by (simp add: demo_docs_def)
  then have "demo_docs ! length pre = replicate (Suc (length pre)) (CHR ''d'')" by (simp add: demo_docs_def del: replicate.simps upt.simps)
  moreover have "demo_docs ! length pre = d" unfolding a by simp
  ultimately have "length d = Suc (length pre)" by (simp del: replicate.simps)
  then show ?thesis unfolding a by simp
qed

theorem reconciliation_pages_complete_witness:
  "\<exists>pages. reconciliation_pages demo_get id = Some pages \<and> concat pages = demo_docs \<and>
    (\<forall>p\<in>set pages. length p \<le> reconciliation_page_size) \<and> length pages = 3"
proof -
  have "\<forall>n. demo_get n None = take n demo_docs" by (simp add: demo_get_def)
  moreover have "\<forall>n pre d post. demo_docs = pre @ d # post \<longrightarrow> demo_get n (Some (id d)) = take n post"
    using demo_docs_after by (metis demo_get_def id_apply option.case(2))
  moreover have "\<forall>d\<in>set demo_docs. id d \<noteq> []" by (auto simp: demo_docs_def)
  moreover have "length demo_docs div reconciliation_page_size + 1 = 3" by (simp add: demo_docs_def reconciliation_page_size_def)
  ultimately show ?thesis using reconciliation_pages_complete [of demo_get demo_docs id] by simp
qed

section \<open>The replay: facts\<close>

lemma admitted_items_append [simp]: "admitted_items (xs @ ys) = admitted_items xs @ admitted_items ys"
  by (induction xs rule: admitted_items.induct) auto

lemma all_admitted_append [simp]: "all_admitted (xs @ ys) \<longleftrightarrow> all_admitted xs \<and> all_admitted ys"
  by (induction xs rule: all_admitted.induct) auto

fun page_chain :: "(string option \<Rightarrow> 'a list \<times> string option) \<Rightarrow> string option \<Rightarrow> 'a list \<Rightarrow> string option \<Rightarrow> bool" where
  "page_chain read c items c' \<longleftrightarrow> (\<forall>tail. scan_from read c' = Some tail \<longrightarrow> scan_from read c = Some (items @ tail))"

declare page_chain.simps [simp del]

lemma page_chain_refl [simp]: "page_chain read c [] c"
  by (simp add: page_chain.simps)

lemma page_chain_more: "page_chain read c xs c' \<Longrightarrow> read c' = (items, Some n) \<Longrightarrow> page_chain read c (xs @ items) (Some n)"
  by (auto simp: page_chain.simps scan_from.simps [of read c'])

lemma page_chain_last: "page_chain read c xs c' \<Longrightarrow> read c' = (items, None) \<Longrightarrow> scan_from read c = Some (xs @ items)"
  by (simp add: page_chain.simps scan_from.simps [of read c'])

text \<open>Where a clean pass stands: every item of the pages before the cursor, and of the page in flight up to
  the item in flight, was admitted.\<close>

definition pass_progress :: "(string option \<Rightarrow> 'a list \<times> string option) \<Rightarrow> 'a replay \<Rightarrow> 'a list \<Rightarrow> bool" where
  "pass_progress read s admitted \<longleftrightarrow>
    (if rp_requested s then (\<exists>xs. page_chain read None xs (rp_cursor s) \<and>
       (case rp_phase s of
          Admitting item rest next \<Rightarrow> \<exists>before. read (rp_cursor s) = (before @ item # rest, next) \<and> admitted = xs @ before
        | _ \<Rightarrow> admitted = xs))
     else scan_from read None = Some admitted)"

definition clean_pass :: "(string option \<Rightarrow> 'a list \<times> string option) \<Rightarrow> 'a replay_event list \<Rightarrow> 'a replay \<Rightarrow> bool" where
  "clean_pass read evs s \<longleftrightarrow> (\<exists>pre mid. evs = pre @ mid \<and> Request \<in> set pre \<and> Request \<notin> set mid \<and> all_admitted mid \<and>
     pass_progress read s (admitted_items mid))"

definition replay_inv :: "(string option \<Rightarrow> 'a list \<times> string option) \<Rightarrow> 'a replay_event list \<Rightarrow> 'a replay \<Rightarrow> bool" where
  "replay_inv read evs s \<longleftrightarrow>
    (\<not> rp_requested s \<longrightarrow> \<not> rp_again s \<and> rp_cursor s = None \<and> (rp_phase s = Idle \<or> rp_phase s = Closing)) \<and>
    (rp_requested s \<longrightarrow> Request \<in> set evs) \<and>
    (\<forall>item rest next. rp_phase s = Admitting item rest next \<longrightarrow> (\<exists>before. read (rp_cursor s) = (before @ item # rest, next))) \<and>
    (Request \<in> set evs \<and> \<not> rp_stopped s \<and> \<not> rp_again s \<longrightarrow> clean_pass read evs s)"

lemma new_pass: "Request \<in> set evs \<Longrightarrow> rp_requested s \<Longrightarrow> rp_cursor s = None \<Longrightarrow>
    (\<And>item rest next. rp_phase s \<noteq> Admitting item rest next) \<Longrightarrow> clean_pass read evs s"
  unfolding clean_pass_def pass_progress_def
  by (intro exI [of _ evs] exI [of _ "[]"] conjI) (auto intro!: exI [of _ "[]"] split: replay_phase.split)

lemma extend_pass: "clean_pass read evs s \<Longrightarrow> ev \<noteq> Request \<Longrightarrow> all_admitted [ev] \<Longrightarrow>
    (\<And>admitted. pass_progress read s admitted \<Longrightarrow> pass_progress read t (admitted @ admitted_items [ev])) \<Longrightarrow> clean_pass read (evs @ [ev]) t"
proof -
  assume a: "clean_pass read evs s" "ev \<noteq> Request" "all_admitted [ev]"
    and step: "\<And>admitted. pass_progress read s admitted \<Longrightarrow> pass_progress read t (admitted @ admitted_items [ev])"
  from a(1) obtain pre mid where h: "evs = pre @ mid" "Request \<in> set pre" "Request \<notin> set mid" "all_admitted mid"
      "pass_progress read s (admitted_items mid)" by (auto simp: clean_pass_def)
  have "evs @ [ev] = pre @ (mid @ [ev])" using h(1) by simp
  moreover have "Request \<notin> set (mid @ [ev])" "all_admitted (mid @ [ev])" using h(3,4) a(2,3) by auto
  moreover have "pass_progress read t (admitted_items (mid @ [ev]))" using step [OF h(5)] by simp
  ultimately show ?thesis using h(2) unfolding clean_pass_def by blast
qed

text \<open>A clean pass inside a page of which \<open>before\<close> is admitted.\<close>

definition pass_at :: "(string option \<Rightarrow> 'a list \<times> string option) \<Rightarrow> 'a replay_event list \<Rightarrow> 'a replay \<Rightarrow> 'a list \<Rightarrow> bool" where
  "pass_at read evs s before \<longleftrightarrow> (\<exists>pre mid xs. evs = pre @ mid \<and> Request \<in> set pre \<and> Request \<notin> set mid \<and> all_admitted mid \<and>
     page_chain read None xs (rp_cursor s) \<and> admitted_items mid = xs @ before)"

lemma clean_pass_at:
  assumes "clean_pass read evs s" "rp_requested s" "ev \<noteq> Request" "all_admitted [ev]"
    and "rp_phase s = Reading \<and> before = [] \<and> admitted_items [ev] = [] \<or>
      (\<exists>item rest next b. rp_phase s = Admitting item rest next \<and> read (rp_cursor s) = (b @ item # rest, next) \<and>
        before = b @ [item] \<and> admitted_items [ev] = [item])"
  shows "pass_at read (evs @ [ev]) s before"
proof -
  from assms(1) obtain pre mid where h: "evs = pre @ mid" "Request \<in> set pre" "Request \<notin> set mid" "all_admitted mid"
      "pass_progress read s (admitted_items mid)" by (auto simp: clean_pass_def)
  have "\<exists>xs. page_chain read None xs (rp_cursor s) \<and> admitted_items (mid @ [ev]) = xs @ before"
    using h(5) assms(2,5) by (auto simp: pass_progress_def)
  moreover have "evs @ [ev] = pre @ (mid @ [ev])" "Request \<notin> set (mid @ [ev])" "all_admitted (mid @ [ev])"
    using h assms(3,4) by auto
  ultimately show ?thesis using h(2) unfolding pass_at_def by blast
qed

lemma finish_page_inv:
  assumes "rp_requested s" "Request \<in> set evs" "read (rp_cursor s) = (items, next)"
    and "\<not> rp_stopped s \<and> \<not> rp_again s \<Longrightarrow> pass_at read evs s items"
  shows "replay_inv read evs (finish_page next s)"
proof (cases "rp_again s")
  case True
  show ?thesis
  proof (cases "next")
    case None
    then show ?thesis using True assms(2) by (auto simp: replay_inv_def finish_page_def Let_def intro: new_pass)
  next
    case (Some n)
    then show ?thesis using True assms(1,2) by (simp add: replay_inv_def finish_page_def Let_def)
  qed
next
  case False
  have "clean_pass read evs (finish_page next s)" if running: "\<not> rp_stopped s"
  proof -
    obtain pre mid xs where h: "evs = pre @ mid" "Request \<in> set pre" "Request \<notin> set mid" "all_admitted mid"
        "page_chain read None xs (rp_cursor s)" "admitted_items mid = xs @ items"
      using assms(4) running False by (auto simp: pass_at_def)
    have "pass_progress read (finish_page next s) (admitted_items mid)"
    proof (cases "next")
      case None
      then show ?thesis using False page_chain_last [OF h(5)] assms(3) h(6) by (simp add: pass_progress_def finish_page_def Let_def)
    next
      case (Some n)
      then show ?thesis using assms(1) page_chain_more [OF h(5)] assms(3) h(6) by (simp add: pass_progress_def finish_page_def Let_def)
    qed
    then show ?thesis using h unfolding clean_pass_def by blast
  qed
  then show ?thesis using False assms(1,2) by (cases "next") (simp_all add: replay_inv_def finish_page_def Let_def)
qed

lemma next_item_inv:
  assumes "rp_requested s" "Request \<in> set evs" "read (rp_cursor s) = (before @ items, next)"
    and "\<not> rp_stopped s \<and> \<not> rp_again s \<Longrightarrow> pass_at read evs s before"
  shows "replay_inv read evs (next_item capacity items next s)"
proof (cases items)
  case Nil
  then show ?thesis using finish_page_inv [of s evs read "before" "next"] assms by (simp add: next_item_def)
next
  case (Cons item rest)
  consider (stopped) "rp_stopped s" | (full) "\<not> rp_stopped s" "\<not> capacity" | (admits) "\<not> rp_stopped s" "capacity" by blast
  then show ?thesis
  proof cases
    case stopped
    then show ?thesis using Cons assms(1,2) by (simp add: next_item_def replay_inv_def)
  next
    case full
    have "replay_inv read evs (finish_page next (s\<lparr>rp_again := True\<rparr>))"
      by (rule finish_page_inv) (use assms in simp_all)
    then show ?thesis using Cons full by (simp add: next_item_def)
  next
    case h: admits
    have "clean_pass read evs (next_item capacity items next s)" if "\<not> rp_again s"
      using assms(1,3) assms(4) h Cons that unfolding pass_at_def clean_pass_def pass_progress_def next_item_def by fastforce
    then show ?thesis using Cons h assms(1-3) by (auto simp: next_item_def replay_inv_def)
  qed
qed

lemma replay_step_inv:
  assumes "replay_inv read evs s" "replay_step read s ev t"
  shows "replay_inv read (evs @ [ev]) t"
  using assms(2)
proof (cases rule: replay_step.cases)
  case request
  show ?thesis
  proof (cases "rp_requested s")
    case True
    then show ?thesis using assms(1) request by (auto simp: replay_inv_def replay_request_def)
  next
    case False
    then have "rp_cursor s = None" "rp_phase s = Idle \<or> rp_phase s = Closing" using assms(1) by (simp_all add: replay_inv_def)
    moreover from this have "clean_pass read (evs @ [ev]) t"
      using request False by (intro new_pass) (auto simp: replay_request_def)
    ultimately show ?thesis using request False by (auto simp: replay_inv_def replay_request_def)
  qed
next
  case (tick capacity)
  have "clean_pass read (evs @ [ev]) t" if "clean_pass read evs s"
    using that
  proof (rule extend_pass)
    fix admitted
    assume "pass_progress read s admitted"
    then show "pass_progress read t (admitted @ admitted_items [ev])" using tick by (auto simp: pass_progress_def replay_tick_def)
  qed (use tick in simp_all)
  then show ?thesis using assms(1) tick by (auto simp: replay_inv_def replay_tick_def)
next
  case (page capacity)
  have req: "rp_requested s" "Request \<in> set (evs @ [ev])" using assms(1) page(3) by (auto simp: replay_inv_def)
  obtain items "next" where r: "read (rp_cursor s) = (items, next)" by (cases "read (rp_cursor s)")
  have at: "pass_at read (evs @ [ev]) s []" if "\<not> rp_stopped s \<and> \<not> rp_again s"
    using assms(1) req that page by (intro clean_pass_at) (auto simp: replay_inv_def)
  show ?thesis
  proof (cases "rp_stopped s \<or> replay_page_size < length items")
    case True
    have "clean_pass read (evs @ [ev]) t" if "\<not> rp_stopped s" "\<not> rp_again s"
    proof (rule extend_pass)
      show "clean_pass read evs s" using assms(1) req that page(3) by (auto simp: replay_inv_def)
      fix admitted
      assume "pass_progress read s admitted"
      then show "pass_progress read t (admitted @ admitted_items [ev])"
        using page True r req that(1) by (auto simp: pass_progress_def replay_page_def replay_report_def)
    qed (use page in simp_all)
    then show ?thesis using True page r req by (auto simp: replay_inv_def replay_page_def replay_report_def)
  next
    case False
    have "replay_inv read (evs @ [ev]) (next_item capacity items next s)"
      by (rule next_item_inv [where before = "[]"]) (use req r at in auto)
    then show ?thesis using False page r by (simp add: replay_page_def)
  qed
next
  case (page_rejected capacity)
  have req: "rp_requested s" "Request \<in> set evs" using assms(1) page_rejected(3) by (auto simp: replay_inv_def)
  have "clean_pass read (evs @ [ev]) t" if "clean_pass read evs s"
    using that
  proof (rule extend_pass)
    fix admitted
    assume "pass_progress read s admitted"
    then show "pass_progress read t (admitted @ admitted_items [ev])"
      using page_rejected req by (auto simp: pass_progress_def replay_page_def replay_report_def)
  qed (use page_rejected in simp_all)
  then show ?thesis using assms(1) page_rejected req by (auto simp: replay_inv_def replay_page_def replay_report_def)
next
  case (admit item rest "next" answer capacity)
  have req: "rp_requested s" "Request \<in> set (evs @ [ev])" using assms(1) admit(3) by (auto simp: replay_inv_def)
  obtain b where b: "read (rp_cursor s) = (b @ item # rest, next)" using assms(1) admit(3) by (auto simp: replay_inv_def)
  define s1 where "s1 = (case answer of None \<Rightarrow> replay_report (s\<lparr>rp_again := True\<rparr>) | Some ok \<Rightarrow> (if ok then s else s\<lparr>rp_again := True\<rparr>))"
  have s1: "rp_requested s1" "rp_cursor s1 = rp_cursor s" "rp_stopped s1 = rp_stopped s"
    "rp_again s1 \<longleftrightarrow> rp_again s \<or> answer \<noteq> Some True" "answer = Some True \<Longrightarrow> s1 = s"
    using req(1) by (auto simp: s1_def replay_report_def split: option.splits)
  have "replay_inv read (evs @ [ev]) (next_item capacity rest next s1)"
  proof (rule next_item_inv [where before = "b @ [item]"])
    assume a: "\<not> rp_stopped s1 \<and> \<not> rp_again s1"
    then have "answer = Some True" "s1 = s" using s1 by auto
    moreover have "clean_pass read evs s" using a s1 assms(1) req(2) admit(1) by (auto simp: replay_inv_def)
    ultimately show "pass_at read (evs @ [ev]) s1 (b @ [item])"
      using clean_pass_at [of read evs s ev "b @ [item]"] req b admit(1,3) by auto
  qed (use s1 req b in auto)
  moreover have "t = next_item capacity rest next s1" using admit by (simp add: replay_admitted_def s1_def)
  ultimately show ?thesis by simp
next
  case settled
  have "clean_pass read (evs @ [ev]) t" if "clean_pass read evs s"
    using that
  proof (rule extend_pass)
    fix admitted
    assume "pass_progress read s admitted"
    then show "pass_progress read t (admitted @ admitted_items [ev])" using settled by (auto simp: pass_progress_def replay_settled_def)
  qed (use settled in simp_all)
  then show ?thesis using assms(1) settled by (auto simp: replay_inv_def replay_settled_def)
next
  case stop
  then show ?thesis using assms(1) by (auto simp: replay_inv_def replay_stop_def)
qed

lemma replay_run_inv: "replay_run read s evs t \<Longrightarrow> s = replay_new \<Longrightarrow> replay_inv read evs t"
proof (induction rule: replay_run.induct)
  case (start s)
  then show ?case by (simp add: replay_inv_def replay_new_def)
next
  case (snoc s evs t ev u)
  then show ?case using replay_step_inv by blast
qed

text \<open>The steps as a function, to run examples.\<close>

fun replay_do :: "(string option \<Rightarrow> 'a list \<times> string option) \<Rightarrow> 'a replay \<Rightarrow> 'a replay_event \<Rightarrow> 'a replay option" where
  "replay_do read s Request = Some (replay_request s)"
| "replay_do read s (Tick capacity) = Some (replay_tick capacity s)"
| "replay_do read s (Page answer capacity) =
    (if rp_phase s = Reading \<and> (answer = None \<or> answer = Some (read (rp_cursor s))) then Some (replay_page answer capacity s) else None)"
| "replay_do read s (Admit item answer capacity) = (case rp_phase s of
      Admitting x _ _ \<Rightarrow> (if x = item then Some (replay_admitted answer capacity s) else None) | _ \<Rightarrow> None)"
| "replay_do read s Settled = (if rp_phase s = Closing then Some (replay_settled s) else None)"
| "replay_do read s Stop = Some (replay_stop s)"

lemma replay_do_step: "replay_do read s ev = Some t \<Longrightarrow> replay_step read s ev t"
  by (cases ev) (auto intro: replay_step.intros split: if_splits replay_phase.splits)

fun replay_exec :: "(string option \<Rightarrow> 'a list \<times> string option) \<Rightarrow> 'a replay_event list \<Rightarrow> 'a replay \<Rightarrow> 'a replay option" where
  "replay_exec read [] s = Some s"
| "replay_exec read (ev # evs) s = Option.bind (replay_do read s ev) (replay_exec read evs)"

lemma replay_exec_append: "replay_exec read (xs @ ys) s = Option.bind (replay_exec read xs s) (replay_exec read ys)"
proof (induction xs arbitrary: s)
  case (Cons ev xs)
  then show ?case by (cases "replay_do read s ev") simp_all
qed simp

lemma replay_exec_run: "replay_exec read evs s = Some t \<Longrightarrow> replay_run read s evs t"
proof (induction evs arbitrary: t rule: rev_induct)
  case Nil
  then show ?case by (simp add: replay_run.start)
next
  case (snoc ev evs)
  then obtain u where "replay_exec read evs s = Some u" "replay_do read u ev = Some t"
    by (auto simp: replay_exec_append bind_eq_Some_conv)
  then show ?case using snoc.IH replay_run.snoc replay_do_step by blast
qed

section \<open>Properties of the replay\<close>

text \<open>C24. No request for a replay is lost. Whatever the interleaving of requests, ticks, slow pages, items that
  are refused or fail, exhausted capacity and rejected reads, when the replay has nothing left to do,
  then after the last request it scanned the source from its beginning to its end and every item of every
  page was admitted, in order.\<close>

theorem replay_idle_complete:
  assumes "replay_run read replay_new evs s" "Request \<in> set evs" "\<not> rp_requested s" "\<not> rp_stopped s"
  shows "\<exists>pre pass. evs = pre @ pass \<and> Request \<in> set pre \<and> Request \<notin> set pass \<and> all_admitted pass \<and>
    scan_from read None = Some (admitted_items pass)"
  using replay_run_inv [OF assms(1) refl] assms(2-4) unfolding replay_inv_def clean_pass_def pass_progress_def
  by (metis (no_types, lifting))

definition demo_read :: "string option \<Rightarrow> nat list \<times> string option" where
  "demo_read cursor = (case cursor of None \<Rightarrow> ([1, 2], Some ''b'') | Some _ \<Rightarrow> ([3], None))"

definition demo_replay :: "nat replay_event list" where
  "demo_replay = [Request, Tick True, Page (Some ([1, 2], Some ''b'')) True, Admit 1 (Some True) True, Request, Admit 2 None True, Settled,
     Tick True, Page None True, Settled, Tick True, Page (Some ([3], None)) True, Admit 3 (Some True) True, Settled,
     Tick True, Page (Some ([1, 2], Some ''b'')) True, Admit 1 (Some True) True, Admit 2 (Some True) True, Settled,
     Tick True, Page (Some ([3], None)) True, Admit 3 (Some True) True, Settled]"

theorem replay_idle_complete_witness:
  "\<exists>pre pass. demo_replay = pre @ pass \<and> Request \<in> set pre \<and> Request \<notin> set pass \<and> all_admitted pass \<and>
    scan_from demo_read None = Some (admitted_items pass)"
proof -
  have "\<exists>s. replay_exec demo_read demo_replay replay_new = Some s \<and> \<not> rp_requested s \<and> \<not> rp_stopped s"
    by (simp add: demo_replay_def demo_read_def replay_new_def replay_request_def replay_tick_def replay_page_def next_item_def
        finish_page_def replay_admitted_def replay_settled_def replay_report_def replay_page_size_def)
  then show ?thesis using replay_idle_complete replay_exec_run by (metis demo_replay_def list.set_intros(1))
qed

end
