(* ===== verification/Rate_Limiting.thy ===== *)
theory Rate_Limiting imports Js_Number Js_Map begin

text \<open>
  The per-device rate limiter (backend/src/services/deviceRateLimiter.ts), the shared-store token
  allocator it is given (reserveDistributedDeviceTokens in deviceTelemetryService.ts) and the
  per-replica division of HTTP budgets (shardedLimit in backend/src/lib/rateLimitShard.ts).
  The shared store is a map from device ids to buckets and one reservation transaction is atomic,
  as the RTDB transaction is. The locale \<open>token_allocator\<close> is the contract the limiter checks at
  run time; the reservation code satisfies it, so the limiter's error branches are unreachable.
\<close>

section \<open>Sharded HTTP budgets\<close>

datatype limit_error = BadLimit jsnum | BadReplicas jsnum | TooManyReplicas
  | BadRequested | InvalidGrant | InvalidRetry | ExpiredLease
  | BadConfiguration | LocalNeedsOneReplica | NeedsAllocator

definition sharded_limit :: "jsnum \<Rightarrow> jsnum \<Rightarrow> limit_error + jsnum" where
  "sharded_limit limit replicas =
     (if \<not> is_safe_integer limit \<or> limit < 1 then Inl (BadLimit limit)
      else if \<not> is_safe_integer replicas \<or> replicas < 1 then Inl (BadReplicas replicas)
      else if limit < replicas then Inl TooManyReplicas
      else Inr (js_floor (limit / replicas)))"

section \<open>Buckets\<close>

definition window_ms :: jsnum where
  "window_ms = 60000"

record rate_bucket =
  started_at :: jsnum
  bucket_count :: jsnum

record rate_decision =
  dec_allowed :: bool
  dec_next :: rate_bucket
  dec_retry :: jsnum

record token_reservation =
  res_granted :: jsnum
  res_next :: rate_bucket
  res_retry :: jsnum

definition valid_bucket :: "rate_bucket option \<Rightarrow> jsnum \<Rightarrow> rate_bucket option" where
  "valid_bucket value now = (case value of None \<Rightarrow> None | Some b \<Rightarrow>
     (if is_finite (started_at b) \<and> started_at b \<le> now \<and>
         is_safe_integer (bucket_count b) \<and> 0 \<le> bucket_count b
      then Some \<lparr>started_at = started_at b, bucket_count = bucket_count b\<rparr> else None))"

definition evaluate_device_rate_limit :: "rate_bucket option \<Rightarrow> jsnum \<Rightarrow> jsnum \<Rightarrow> rate_decision" where
  "evaluate_device_rate_limit existing now limit =
     (let fresh = \<lparr>dec_allowed = True, dec_next = \<lparr>started_at = now, bucket_count = 1\<rparr>, dec_retry = 0\<rparr>
      in case valid_bucket existing now of
        None \<Rightarrow> fresh
      | Some current \<Rightarrow>
          if window_ms \<le> now - started_at current then fresh
          else (let next = \<lparr>started_at = started_at current, bucket_count = bucket_count current + 1\<rparr>;
                    allowed = (bucket_count next \<le> limit)
                in \<lparr>dec_allowed = allowed, dec_next = next,
                    dec_retry = (if allowed then 0 else js_max 1 (window_ms - (now - started_at current)))\<rparr>))"

definition reserve_rate_limit_tokens ::
    "rate_bucket option \<Rightarrow> jsnum \<Rightarrow> jsnum \<Rightarrow> jsnum \<Rightarrow> limit_error + token_reservation" where
  "reserve_rate_limit_tokens existing now limit requested =
     (if \<not> is_safe_integer limit \<or> limit < 1 then Inl (BadLimit limit)
      else if \<not> is_safe_integer requested \<or> requested < 1 then Inl BadRequested
      else (let fresh = \<lparr>started_at = now, bucket_count = 0\<rparr>;
                current = (case valid_bucket existing now of None \<Rightarrow> fresh
                  | Some v \<Rightarrow> if window_ms \<le> now - started_at v then fresh else v);
                granted = js_min requested (js_max 0 (limit - bucket_count current))
            in Inr \<lparr>res_granted = granted,
                   res_next = \<lparr>started_at = started_at current, bucket_count = bucket_count current + granted\<rparr>,
                   res_retry = (if 0 < granted then 0
                                else js_max 1 (window_ms - (now - started_at current)))\<rparr>))"

section \<open>The shared allocator\<close>

record distributed_reservation =
  dr_granted :: jsnum
  dr_expires :: jsnum
  dr_retry :: jsnum
  dr_attempts :: jsnum

type_synonym bucket_store = "string \<Rightarrow> rate_bucket option"

text \<open>One transaction on the device's bucket, committed at the first attempt: the bucket is
  written only when tokens were granted.\<close>

definition reserve_distributed ::
    "bucket_store \<Rightarrow> string \<Rightarrow> jsnum \<Rightarrow> jsnum \<Rightarrow> jsnum \<Rightarrow> bucket_store \<times> (limit_error + distributed_reservation)" where
  "reserve_distributed store deviceId now limit requested =
     (case reserve_rate_limit_tokens (store deviceId) now limit requested of
        Inl e \<Rightarrow> (store, Inl e)
      | Inr d \<Rightarrow>
          (if 0 < res_granted d then store(deviceId \<mapsto> res_next d) else store,
           Inr \<lparr>dr_granted = res_granted d, dr_expires = started_at (res_next d) + 60000,
                dr_retry = (if num_eq (res_granted d) 0 then res_retry d else 0), dr_attempts = 1\<rparr>))"

section \<open>The limiter\<close>

datatype limit_mode = ModeLocal | ModeDistributed

record limit_config =
  cfg_mode :: limit_mode
  cfg_limit :: jsnum
  cfg_lease_size :: jsnum
  cfg_max_tracked :: jsnum
  cfg_replicas :: jsnum

record token_lease =
  lease_expires :: jsnum
  lease_remaining :: jsnum

record limiter =
  local_buckets :: "(string, rate_bucket) jsmap"
  local_leases :: "(string, token_lease) jsmap"

datatype limit_source = SrcLocal | SrcLease | SrcReservation

record limit_result =
  lr_retry :: "jsnum option"
  lr_source :: limit_source
  lr_reserved :: jsnum
  lr_attempts :: jsnum

definition limiter_new :: "limit_config \<Rightarrow> bool \<Rightarrow> limit_error + limiter" where
  "limiter_new c has_allocator =
     (if \<not> is_safe_integer (cfg_limit c) \<or> cfg_limit c < 1 \<or>
         \<not> is_safe_integer (cfg_lease_size c) \<or> cfg_lease_size c < 1 \<or> cfg_limit c < cfg_lease_size c \<or>
         \<not> is_safe_integer (cfg_max_tracked c) \<or> cfg_max_tracked c < 1 then Inl BadConfiguration
      else if cfg_mode c = ModeLocal \<and> \<not> num_eq (cfg_replicas c) 1 then Inl LocalNeedsOneReplica
      else if cfg_mode c = ModeDistributed \<and> \<not> has_allocator then Inl NeedsAllocator
      else Inr \<lparr>local_buckets = [], local_leases = []\<rparr>)"

text \<open>\<open>setBounded\<close>: the oldest key goes when a new key would exceed the maximum (an empty key is
  falsy in the source and is not deleted).\<close>

definition set_bounded :: "(string, 'v) jsmap \<Rightarrow> string \<Rightarrow> 'v \<Rightarrow> jsnum \<Rightarrow> (string, 'v) jsmap" where
  "set_bounded m key v maximum =
     (let m' = (if \<not> jm_has m key \<and> maximum \<le> Fin (real (length m))
                then (case m of [] \<Rightarrow> m | (oldest, _) # _ \<Rightarrow> if oldest \<noteq> '''' then jm_delete m oldest else m)
                else m)
      in jm_set m' key v)"

definition consume_local :: "limit_config \<Rightarrow> limiter \<Rightarrow> string \<Rightarrow> jsnum \<Rightarrow> limit_result \<times> limiter" where
  "consume_local c l deviceId now =
     (let known = jm_has (local_buckets l) deviceId;
          buckets = (if known then local_buckets l
                     else filter (\<lambda>(_, b). \<not> window_ms \<le> now - started_at b) (local_buckets l));
          l' = l\<lparr>local_buckets := buckets\<rparr>
      in if \<not> known \<and> cfg_max_tracked c \<le> Fin (real (length buckets))
         then (\<lparr>lr_retry = Some (js_min_list (map (\<lambda>b. js_max 1 (window_ms - (now - started_at b))) (jm_values buckets))),
                lr_source = SrcLocal, lr_reserved = 0, lr_attempts = 0\<rparr>, l')
         else (let d = evaluate_device_rate_limit (jm_get buckets deviceId) now (cfg_limit c)
               in (\<lparr>lr_retry = (if dec_allowed d then None else Some (dec_retry d)),
                    lr_source = SrcLocal, lr_reserved = 0, lr_attempts = 0\<rparr>,
                   l\<lparr>local_buckets := jm_set buckets deviceId (dec_next d)\<rparr>)))"

text \<open>What the limiter does with the allocator's answer.\<close>

definition settle_reservation ::
    "limit_config \<Rightarrow> limiter \<Rightarrow> string \<Rightarrow> jsnum \<Rightarrow> distributed_reservation \<Rightarrow> (limit_error + limit_result) \<times> limiter" where
  "settle_reservation c l deviceId now r =
     (if \<not> is_safe_integer (dr_granted r) \<or> dr_granted r < 0 \<or> cfg_lease_size c < dr_granted r \<or>
         \<not> is_safe_integer (dr_attempts r) \<or> dr_attempts r < 1 then (Inl InvalidGrant, l)
      else if num_eq (dr_granted r) 0 then
        (if \<not> is_finite (dr_retry r) \<or> dr_retry r < 1 then (Inl InvalidRetry, l)
         else (Inr \<lparr>lr_retry = Some (js_max 1 (dr_retry r)), lr_source = SrcReservation,
                    lr_reserved = 0, lr_attempts = dr_attempts r\<rparr>, l))
      else if \<not> is_finite (dr_expires r) \<or> dr_expires r \<le> now then (Inl ExpiredLease, l)
      else (Inr \<lparr>lr_retry = None, lr_source = SrcReservation, lr_reserved = dr_granted r,
                 lr_attempts = dr_attempts r\<rparr>,
            l\<lparr>local_leases := set_bounded (local_leases l) deviceId
                \<lparr>lease_expires = dr_expires r, lease_remaining = dr_granted r - 1\<rparr> (cfg_max_tracked c)\<rparr>))"

definition consume_distributed ::
    "('s \<Rightarrow> string \<Rightarrow> jsnum \<Rightarrow> jsnum \<Rightarrow> jsnum \<Rightarrow> 's \<times> (limit_error + distributed_reservation)) \<Rightarrow>
     limit_config \<Rightarrow> limiter \<Rightarrow> 's \<Rightarrow> string \<Rightarrow> jsnum \<Rightarrow> (limit_error + limit_result) \<times> limiter \<times> 's" where
  "consume_distributed alloc c l s deviceId now =
     (let ask = (\<lambda>l. case alloc s deviceId now (cfg_limit c) (cfg_lease_size c) of
                   (s', Inl e) \<Rightarrow> (Inl e, l, s')
                 | (s', Inr r) \<Rightarrow> (case settle_reservation c l deviceId now r of (res, l') \<Rightarrow> (res, l', s')))
      in case jm_get (local_leases l) deviceId of
           None \<Rightarrow> ask l
         | Some lease \<Rightarrow>
             if now < lease_expires lease \<and> 0 < lease_remaining lease
             then (Inr \<lparr>lr_retry = None, lr_source = SrcLease, lr_reserved = 0, lr_attempts = 0\<rparr>,
                   l\<lparr>local_leases := jm_set (local_leases l) deviceId
                       (lease\<lparr>lease_remaining := lease_remaining lease - 1\<rparr>)\<rparr>, s)
             else ask (l\<lparr>local_leases := jm_delete (local_leases l) deviceId\<rparr>))"

definition consume_unlocked ::
    "('s \<Rightarrow> string \<Rightarrow> jsnum \<Rightarrow> jsnum \<Rightarrow> jsnum \<Rightarrow> 's \<times> (limit_error + distributed_reservation)) \<Rightarrow>
     limit_config \<Rightarrow> limiter \<Rightarrow> 's \<Rightarrow> string \<Rightarrow> jsnum \<Rightarrow> (limit_error + limit_result) \<times> limiter \<times> 's" where
  "consume_unlocked alloc c l s deviceId now =
     (case cfg_mode c of
        ModeLocal \<Rightarrow> (case consume_local c l deviceId now of (r, l') \<Rightarrow> (Inr r, l', s))
      | ModeDistributed \<Rightarrow> consume_distributed alloc c l s deviceId now)"

section \<open>Reservations\<close>

lemmas reserve_defs = reserve_rate_limit_tokens_def valid_bucket_def window_ms_def Let_def

lemma sharded_limit_cases:
  assumes "sharded_limit limit replicas = Inr b"
  obtains l r where "limit = Fin (of_int l)" "replicas = Fin (of_int r)" "1 \<le> r" "r \<le> l"
    "b = Fin (of_int (l div r))"
proof -
  from assms have "is_safe_integer limit" "is_safe_integer replicas"
    by (auto simp: sharded_limit_def split: if_splits)
  then obtain l r where lr: "limit = Fin (of_int l)" "replicas = Fin (of_int r)"
    by (metis is_safe_integerE)
  with assms have "1 \<le> r" "r \<le> l" "b = Fin (of_int (l div r))"
    by (auto simp: sharded_limit_def floor_divide_of_int_eq split: if_splits)
  with lr that show ?thesis by blast
qed

text \<open>The bucket a reservation counts on: the stored one while its window lasts, else a new one.\<close>

definition live_bucket :: "rate_bucket option \<Rightarrow> real \<Rightarrow> real \<times> int" where
  "live_bucket b t = (case b of None \<Rightarrow> (t, 0) | Some v \<Rightarrow>
     (case (started_at v, bucket_count v) of
       (Fin s, Fin n) \<Rightarrow>
         if s \<le> t \<and> is_safe_integer (Fin n) \<and> 0 \<le> n \<and> t - s < 60000 then (s, \<lfloor>n\<rfloor>) else (t, 0)
     | _ \<Rightarrow> (t, 0)))"

lemma reserve_live:
  assumes "1 \<le> L" "L \<le> 9007199254740991" "1 \<le> Z" "Z \<le> 9007199254740991"
    and lb: "live_bucket b t = (s, n)"
  shows "reserve_rate_limit_tokens b (Fin t) (Fin (of_int L)) (Fin (of_int Z)) =
    Inr \<lparr>res_granted = Fin (of_int (min Z (max 0 (L - n)))),
         res_next = \<lparr>started_at = Fin s, bucket_count = Fin (of_int (n + min Z (max 0 (L - n))))\<rparr>,
         res_retry = (if 0 < min Z (max 0 (L - n)) then 0 else js_max 1 (60000 - (Fin t - Fin s)))\<rparr>"
proof -
  let ?fresh = "\<lparr>started_at = Fin t, bucket_count = Fin 0\<rparr>"
  have cur: "(case valid_bucket b (Fin t) of None \<Rightarrow> ?fresh
      | Some v \<Rightarrow> if window_ms \<le> Fin t - started_at v then ?fresh else v)
      = \<lparr>started_at = Fin s, bucket_count = Fin (of_int n)\<rparr>"
  proof (cases b)
    case None
    with lb show ?thesis by (simp add: live_bucket_def valid_bucket_def)
  next
    case (Some x)
    obtain sa bc where x: "x = \<lparr>started_at = sa, bucket_count = bc\<rparr>" by (cases x)
    show ?thesis
    proof (cases "\<exists>s' n'. sa = Fin s' \<and> bc = Fin n' \<and> s' \<le> t \<and> is_safe_integer (Fin n') \<and> 0 \<le> n' \<and> t - s' < 60000")
      case True
      then obtain s' n' where *: "sa = Fin s'" "bc = Fin n'" "s' \<le> t" "is_safe_integer (Fin n')" "0 \<le> n'" "t - s' < 60000"
        by blast
      from *(4) obtain i where "n' = of_int i" by (metis is_safe_integerE jsnum.inject)
      with * lb Some x show ?thesis
        by (simp add: live_bucket_def valid_bucket_def window_ms_def)
    next
      case False
      then show ?thesis using lb Some x
        by (cases sa; cases bc)
          (auto simp: live_bucket_def valid_bucket_def window_ms_def split: if_splits)
    qed
  qed
  have safe: "is_safe_integer (Fin (of_int L))" "is_safe_integer (Fin (of_int Z))"
    using assms by simp_all
  show ?thesis
    unfolding reserve_rate_limit_tokens_def Let_def zero_fin cur
    using assms(1,3) safe by (simp add: window_ms_def min_def max_def)
qed

lemma live_bucket_le: "live_bucket b t = (s, n) \<Longrightarrow> s \<le> t \<and> t - s < 60000 \<and> 0 \<le> n"
  by (auto simp: live_bucket_def split: option.splits jsnum.splits if_splits)

section \<open>The allocator's contract\<close>

definition budget_ok :: "jsnum \<Rightarrow> bool" where
  "budget_ok x \<longleftrightarrow> is_safe_integer x \<and> 1 \<le> x"

lemma budget_okE:
  assumes "budget_ok x"
  obtains i where "x = Fin (of_int i)" "1 \<le> i" "i \<le> 9007199254740991"
proof -
  from assms obtain i where "x = Fin (of_int i)" "\<bar>i\<bar> \<le> 9007199254740991"
    by (auto simp: budget_ok_def elim: is_safe_integerE)
  with assms that show ?thesis by (auto simp: budget_ok_def)
qed

locale token_allocator =
  fixes alloc :: "'s \<Rightarrow> string \<Rightarrow> jsnum \<Rightarrow> jsnum \<Rightarrow> jsnum \<Rightarrow> 's \<times> (limit_error + distributed_reservation)"
  assumes alloc_total: "budget_ok limit \<Longrightarrow> budget_ok requested \<Longrightarrow>
      \<exists>s' r. alloc s d (Fin t) limit requested = (s', Inr r)"
    and alloc_granted: "budget_ok limit \<Longrightarrow> budget_ok requested \<Longrightarrow>
      alloc s d (Fin t) limit requested = (s', Inr r) \<Longrightarrow>
      is_safe_integer (dr_granted r) \<and> 0 \<le> dr_granted r \<and> dr_granted r \<le> requested"
    and alloc_attempts: "alloc s d (Fin t) limit requested = (s', Inr r) \<Longrightarrow>
      is_safe_integer (dr_attempts r) \<and> 1 \<le> dr_attempts r"
    and alloc_denied: "budget_ok limit \<Longrightarrow> budget_ok requested \<Longrightarrow>
      alloc s d (Fin t) limit requested = (s', Inr r) \<Longrightarrow> dr_granted r = 0 \<Longrightarrow>
      is_finite (dr_retry r) \<and> 1 \<le> dr_retry r"
    and alloc_lease: "budget_ok limit \<Longrightarrow> budget_ok requested \<Longrightarrow>
      alloc s d (Fin t) limit requested = (s', Inr r) \<Longrightarrow> 0 < dr_granted r \<Longrightarrow>
      is_finite (dr_expires r) \<and> Fin t < dr_expires r"
begin

lemma settle_never_fails:
  assumes "budget_ok (cfg_limit c)" "budget_ok (cfg_lease_size c)"
    and a: "alloc s d (Fin t) (cfg_limit c) (cfg_lease_size c) = (s', Inr r)"
  shows "\<exists>res. fst (settle_reservation c l d (Fin t) r) = Inr res"
proof -
  note g = alloc_granted [OF assms] and att = alloc_attempts [OF a]
  from g have "\<not> dr_granted r < 0" "\<not> cfg_lease_size c < dr_granted r" "\<not> dr_attempts r < 1"
    using assms(2) att by (cases "dr_granted r"; cases "dr_attempts r"; auto elim!: budget_okE)+
  then have reach: "\<not> (\<not> is_safe_integer (dr_granted r) \<or> dr_granted r < 0 \<or> cfg_lease_size c < dr_granted r \<or>
      \<not> is_safe_integer (dr_attempts r) \<or> dr_attempts r < 1)"
    using g att by blast
  show ?thesis
  proof (cases "dr_granted r = 0")
    case True
    with alloc_denied [OF assms] have "is_finite (dr_retry r)" "\<not> dr_retry r < 1"
      by (auto elim: is_finiteE)
    with reach True show ?thesis by (simp add: settle_reservation_def num_eq_def)
  next
    case False
    then have "0 < dr_granted r" using g by (cases "dr_granted r") auto
    from alloc_lease [OF assms this] have "is_finite (dr_expires r)" "\<not> dr_expires r \<le> Fin t"
      by (auto elim: is_finiteE)
    with reach False show ?thesis by (simp add: settle_reservation_def num_eq_def)
  qed
qed

lemma consume_never_fails:
  assumes "budget_ok (cfg_limit c)" "budget_ok (cfg_lease_size c)"
  shows "\<exists>res. fst (consume_distributed alloc c l s d (Fin t)) = Inr res"
proof -
  obtain s' r where a: "alloc s d (Fin t) (cfg_limit c) (cfg_lease_size c) = (s', Inr r)"
    using alloc_total [OF assms] by blast
  show ?thesis
    using settle_never_fails [OF assms a]
    by (simp add: consume_distributed_def Let_def a case_prod_unfold split: option.split)
qed

end

lemma reserve_distributed_live:
  assumes "1 \<le> L" "L \<le> 9007199254740991" "1 \<le> Z" "Z \<le> 9007199254740991"
    and "live_bucket (st d) t = (s, n)"
  shows "reserve_distributed st d (Fin t) (Fin (of_int L)) (Fin (of_int Z)) =
    (if n < L then st(d \<mapsto> \<lparr>started_at = Fin s, bucket_count = Fin (of_int (n + min Z (L - n)))\<rparr>) else st,
     Inr \<lparr>dr_granted = Fin (of_int (min Z (max 0 (L - n)))), dr_expires = Fin (s + 60000),
          dr_retry = (if n < L then 0 else js_max 1 (60000 - (Fin t - Fin s))), dr_attempts = 1\<rparr>)"
  using assms(1,3) by (auto simp: reserve_distributed_def reserve_live [OF assms] num_eq_def min_def max_def)

interpretation shared: token_allocator reserve_distributed
proof unfold_locales
  fix st :: bucket_store and d t limit requested st' r
  show "reserve_distributed st d (Fin t) limit requested = (st', Inr r) \<Longrightarrow>
      is_safe_integer (dr_attempts r) \<and> 1 \<le> dr_attempts r"
    by (auto simp: reserve_distributed_def max_safe_def split: sum.splits)
  assume "budget_ok limit" "budget_ok requested"
  then obtain L Z where LZ: "limit = Fin (of_int L)" "requested = Fin (of_int Z)"
      "1 \<le> L" "L \<le> 9007199254740991" "1 \<le> Z" "Z \<le> 9007199254740991"
    by (metis budget_okE)
  obtain s n where lb: "live_bucket (st d) t = (s, n)" by (cases "live_bucket (st d) t")
  note live = reserve_distributed_live [OF LZ(3-6), of st d t, OF lb, folded LZ(1,2)]
  note le = live_bucket_le [OF lb]
  show "\<exists>s' r. reserve_distributed st d (Fin t) limit requested = (s', Inr r)"
    by (simp add: live)
  assume "reserve_distributed st d (Fin t) limit requested = (st', Inr r)"
  then have r: "r = \<lparr>dr_granted = Fin (of_int (min Z (max 0 (L - n)))), dr_expires = Fin (s + 60000),
      dr_retry = (if n < L then 0 else js_max 1 (60000 - (Fin t - Fin s))), dr_attempts = 1\<rparr>"
    by (auto simp: live split: if_splits)
  have "is_safe_integer (Fin (of_int (min Z (max 0 (L - n)))))"
    by (rule is_safe_integer_int) (use LZ(5,6) in auto)
  then show "is_safe_integer (dr_granted r) \<and> 0 \<le> dr_granted r \<and> dr_granted r \<le> requested"
    using LZ(5) by (simp add: r LZ(2))
  show "dr_granted r = 0 \<Longrightarrow> is_finite (dr_retry r) \<and> 1 \<le> dr_retry r"
    using LZ(5) by (auto simp: r min_def max_def split: if_splits)
  show "0 < dr_granted r \<Longrightarrow> is_finite (dr_expires r) \<and> Fin t < dr_expires r"
    using le by (simp add: r)
qed

section \<open>The fleet\<close>

text \<open>
  Several replicas, each with its own limiter, share the bucket store. An event is a request of a
  device served by a replica at a time. The trace records, per event, the device, the start of the
  device's bucket after the event and whether the request was let through.
\<close>

record fleet =
  fl_replicas :: "nat \<Rightarrow> limiter"
  fl_store :: bucket_store

definition fleet_init :: "limiter \<Rightarrow> fleet" where
  "fleet_init l = \<lparr>fl_replicas = (\<lambda>_. l), fl_store = Map.empty\<rparr>"

definition fleet_consume :: "limit_config \<Rightarrow> fleet \<Rightarrow> nat \<Rightarrow> string \<Rightarrow> real \<Rightarrow> bool \<times> fleet" where
  "fleet_consume c f r d t =
     (case consume_unlocked reserve_distributed c (fl_replicas f r) (fl_store f) d (Fin t) of (res, l', st') \<Rightarrow>
        ((case res of Inr x \<Rightarrow> lr_retry x = None | Inl _ \<Rightarrow> False),
         \<lparr>fl_replicas = (fl_replicas f)(r := l'), fl_store = st'\<rparr>))"

fun fleet_run :: "limit_config \<Rightarrow> fleet \<Rightarrow> (nat \<times> string \<times> real) list \<Rightarrow> (string \<times> jsnum option \<times> bool) list" where
  "fleet_run c f [] = []"
| "fleet_run c f ((r, d, t) # es) =
     (case fleet_consume c f r d t of (ok, f') \<Rightarrow>
        (d, map_option started_at (fl_store f' d), ok) # fleet_run c f' es)"

definition lease_tokens :: "limiter \<Rightarrow> string \<Rightarrow> real \<Rightarrow> int" where
  "lease_tokens l d e = (case jm_get (local_leases l) d of None \<Rightarrow> 0
     | Some x \<Rightarrow> if lease_expires x = Fin e then (case lease_remaining x of Fin k \<Rightarrow> \<lfloor>k\<rfloor> | _ \<Rightarrow> 0) else 0)"

text \<open>What a device's lease on a replica looks like while its bucket starts at \<open>s\<close>: it expires with
  this window, or it belongs to an earlier one that has ended.\<close>

definition lease_fits :: "limiter \<Rightarrow> string \<Rightarrow> real \<Rightarrow> bool" where
  "lease_fits l d s \<longleftrightarrow> (case jm_get (local_leases l) d of None \<Rightarrow> True
     | Some x \<Rightarrow> \<exists>e k. x = \<lparr>lease_expires = Fin e, lease_remaining = Fin (of_int k)\<rparr> \<and> 0 \<le> k \<and>
         (e = s + 60000 \<or> e \<le> s))"

definition window_inv :: "nat \<Rightarrow> int \<Rightarrow> fleet \<Rightarrow> string \<Rightarrow> real \<Rightarrow> int \<Rightarrow> bool" where
  "window_inv N L f d s u \<longleftrightarrow> (\<exists>n. fl_store f d = Some \<lparr>started_at = Fin s, bucket_count = Fin (of_int n)\<rparr> \<and>
     0 \<le> n \<and> n \<le> L \<and> (\<forall>r<N. jm_ok (local_leases (fl_replicas f r)) \<and> lease_fits (fl_replicas f r) d s) \<and>
     u + (\<Sum>r<N. lease_tokens (fl_replicas f r) d (s + 60000)) \<le> n)"

lemma lease_tokens_nonneg: "lease_fits l d s \<Longrightarrow> 0 \<le> lease_tokens l d e"
  by (auto simp: lease_fits_def lease_tokens_def split: option.splits)

text \<open>Storing a lease for one device keeps or loses the leases of the others.\<close>

lemma set_bounded_get:
  assumes "jm_ok m" "\<not> jm_has m k"
  shows "jm_get (set_bounded m k v mx) k = Some v"
    "j \<noteq> k \<Longrightarrow> jm_get (set_bounded m k v mx) j = None \<or> jm_get (set_bounded m k v mx) j = jm_get m j"
    "jm_ok (set_bounded m k v mx)"
proof -
  define m' where "m' = (if \<not> jm_has m k \<and> mx \<le> Fin (real (length m))
      then (case m of [] \<Rightarrow> m | (oldest, _) # _ \<Rightarrow> if oldest \<noteq> '''' then jm_delete m oldest else m) else m)"
  have "set_bounded m k v mx = jm_set m' k v" by (simp add: set_bounded_def m'_def Let_def)
  moreover have "m' = m \<or> m' = jm_delete m (fst (hd m))"
    unfolding m'_def by (cases m) (auto split: if_splits)
  then have "m' = m \<or> (\<exists>old. m' = jm_delete m old)" by blast
  ultimately show "jm_get (set_bounded m k v mx) k = Some v"
    "j \<noteq> k \<Longrightarrow> jm_get (set_bounded m k v mx) j = None \<or> jm_get (set_bounded m k v mx) j = jm_get m j"
    "jm_ok (set_bounded m k v mx)"
    using assms by (auto simp: jm_get_delete)
qed

definition lease_shrinks :: "limiter \<Rightarrow> limiter \<Rightarrow> string \<Rightarrow> bool" where
  "lease_shrinks l l' d \<longleftrightarrow> jm_get (local_leases l') d = None \<or>
     jm_get (local_leases l') d = jm_get (local_leases l) d"

lemma lease_shrinks_tokens: "lease_shrinks l l' d \<Longrightarrow> lease_fits l d s \<Longrightarrow>
    lease_fits l' d s \<and> lease_tokens l' d e \<le> lease_tokens l d e"
  using lease_tokens_nonneg [of l d s e]
  by (auto simp: lease_shrinks_def lease_fits_def lease_tokens_def)

section \<open>One request of the fleet\<close>

lemma consume_lease:
  assumes "jm_get (local_leases l) d = Some \<lparr>lease_expires = Fin e, lease_remaining = Fin (of_int k)\<rparr>"
    and "t < e" "0 < k"
  shows "consume_distributed alloc c l st d (Fin t) =
    (Inr \<lparr>lr_retry = None, lr_source = SrcLease, lr_reserved = 0, lr_attempts = 0\<rparr>,
     l\<lparr>local_leases := jm_set (local_leases l) d
         \<lparr>lease_expires = Fin e, lease_remaining = Fin (of_int (k - 1))\<rparr>\<rparr>, st)"
  using assms by (simp add: consume_distributed_def Let_def)

text \<open>The limiter after dropping a spent lease of the device, and its answer when it asks.\<close>

definition drop_lease :: "limiter \<Rightarrow> string \<Rightarrow> limiter" where
  "drop_lease l d = l\<lparr>local_leases := jm_delete (local_leases l) d\<rparr>"

definition lease_usable :: "limiter \<Rightarrow> string \<Rightarrow> real \<Rightarrow> bool" where
  "lease_usable l d t \<longleftrightarrow> (case jm_get (local_leases l) d of None \<Rightarrow> False
     | Some x \<Rightarrow> Fin t < lease_expires x \<and> 0 < lease_remaining x)"

lemma consume_ask:
  assumes "\<not> lease_usable l d t"
    and "alloc st d (Fin t) (cfg_limit c) (cfg_lease_size c) = (st', Inr r)"
  shows "consume_distributed alloc c l st d (Fin t) =
    (case settle_reservation c (drop_lease l d) d (Fin t) r of (res, l') \<Rightarrow> (res, l', st'))"
proof (cases "jm_get (local_leases l) d")
  case None
  then have "drop_lease l d = l" by (simp add: drop_lease_def jm_delete_absent jm_has_def)
  with None assms show ?thesis by (simp add: consume_distributed_def Let_def)
next
  case (Some x)
  with assms show ?thesis
    by (auto simp: consume_distributed_def Let_def drop_lease_def lease_usable_def)
qed

lemma consume_asked:
  assumes c: "cfg_limit c = Fin (of_int L)" "cfg_lease_size c = Fin (of_int Z)"
    and b: "1 \<le> L" "L \<le> 9007199254740991" "1 \<le> Z" "Z \<le> 9007199254740991"
    and use: "\<not> lease_usable l d t" and lb: "live_bucket (st d) t = (s, n)"
  defines "g \<equiv> min Z (L - n)"
  shows "n < L \<Longrightarrow> consume_distributed reserve_distributed c l st d (Fin t) =
      (Inr \<lparr>lr_retry = None, lr_source = SrcReservation, lr_reserved = Fin (of_int g), lr_attempts = 1\<rparr>,
       (drop_lease l d)\<lparr>local_leases := set_bounded (local_leases (drop_lease l d)) d
          \<lparr>lease_expires = Fin (s + 60000), lease_remaining = Fin (of_int (g - 1))\<rparr> (cfg_max_tracked c)\<rparr>,
       st(d \<mapsto> \<lparr>started_at = Fin s, bucket_count = Fin (of_int (n + g))\<rparr>))"
    and "L \<le> n \<Longrightarrow> \<exists>w. consume_distributed reserve_distributed c l st d (Fin t) =
      (Inr \<lparr>lr_retry = Some w, lr_source = SrcReservation, lr_reserved = 0, lr_attempts = 1\<rparr>, drop_lease l d, st)"
proof -
  note live = reserve_distributed_live [OF b, of st d t s n, OF lb]
  note le = live_bucket_le [OF lb]
  show "consume_distributed reserve_distributed c l st d (Fin t) =
      (Inr \<lparr>lr_retry = None, lr_source = SrcReservation, lr_reserved = Fin (of_int g), lr_attempts = 1\<rparr>,
       (drop_lease l d)\<lparr>local_leases := set_bounded (local_leases (drop_lease l d)) d
          \<lparr>lease_expires = Fin (s + 60000), lease_remaining = Fin (of_int (g - 1))\<rparr> (cfg_max_tracked c)\<rparr>,
       st(d \<mapsto> \<lparr>started_at = Fin s, bucket_count = Fin (of_int (n + g))\<rparr>))" if n: "n < L"
  proof -
    have g: "min Z (max 0 (L - n)) = g" "1 \<le> g" "g \<le> Z" "\<bar>g\<bar> \<le> 9007199254740991" "g \<noteq> 0"
      using n b by (auto simp: g_def)
    show ?thesis
      using g le n by (simp add: consume_ask [OF use, of reserve_distributed st c, OF live [folded c]] settle_reservation_def c num_eq_def g_def [symmetric])
  qed
  show "\<exists>w. consume_distributed reserve_distributed c l st d (Fin t) =
      (Inr \<lparr>lr_retry = Some w, lr_source = SrcReservation, lr_reserved = 0, lr_attempts = 1\<rparr>, drop_lease l d, st)"
    if n: "L \<le> n"
  proof -
    have g: "min Z (max 0 (L - n)) = 0" using n b by auto
    show ?thesis
      using g le n b by (simp add: consume_ask [OF use, of reserve_distributed st c, OF live [folded c]] settle_reservation_def c num_eq_def)
  qed
qed

lemma drop_lease_get: "jm_ok (local_leases l) \<Longrightarrow> jm_get (local_leases (drop_lease l d)) j =
    (if j = d then None else jm_get (local_leases l) j)"
  by (simp add: drop_lease_def jm_get_delete)

lemma drop_lease_ok: "jm_ok (local_leases l) \<Longrightarrow> jm_ok (local_leases (drop_lease l d))"
  by (simp add: drop_lease_def)

text \<open>The configuration the constructor accepted.\<close>

lemma limiter_new_config:
  assumes "limiter_new c True = Inr l"
  obtains L Z where "cfg_limit c = Fin (of_int L)" "cfg_lease_size c = Fin (of_int Z)"
    "1 \<le> L" "L \<le> 9007199254740991" "1 \<le> Z" "Z \<le> 9007199254740991" "Z \<le> L"
    "local_leases l = []"
proof -
  from assms have ok: "is_safe_integer (cfg_limit c)" "is_safe_integer (cfg_lease_size c)"
    and lo: "\<not> cfg_limit c < 1" "\<not> cfg_lease_size c < 1" "\<not> cfg_limit c < cfg_lease_size c"
    and l: "local_leases l = []"
    by (auto simp: limiter_new_def split: if_splits)
  from ok obtain L Z where LZ: "cfg_limit c = Fin (of_int L)" "\<bar>L\<bar> \<le> 9007199254740991"
      "cfg_lease_size c = Fin (of_int Z)" "\<bar>Z\<bar> \<le> 9007199254740991"
    by (metis is_safe_integerE)
  show ?thesis by (rule that [of L Z]) (use LZ lo l in auto)
qed

section \<open>The window invariant\<close>

lemma sum_replace:
  fixes g h :: "nat \<Rightarrow> int"
  assumes "r < N" "\<And>i. i < N \<Longrightarrow> i \<noteq> r \<Longrightarrow> h i = g i"
  shows "(\<Sum>i<N. h i) = (\<Sum>i<N. g i) - g r + h r"
proof -
  have "(\<Sum>i<N. h i) - (\<Sum>i<N. g i) = (\<Sum>i<N. h i - g i)" by (simp add: sum_subtractf)
  also have "\<dots> = (\<Sum>i\<in>{r}. h i - g i)"
    by (rule sum.mono_neutral_right) (use assms in auto)
  finally show ?thesis by simp
qed

text \<open>Replacing one replica's limiter changes the outstanding tokens by that replica's share.\<close>

lemma window_inv_update:
  assumes inv: "window_inv N L f d s u" and r: "r < N"
    and l': "jm_ok (local_leases l')" "lease_fits l' d s"
    and st: "st' d = Some \<lparr>started_at = Fin s, bucket_count = Fin (of_int n')\<rparr>" "n' \<le> L"
    and old: "fl_store f d = Some \<lparr>started_at = Fin s, bucket_count = Fin (of_int n)\<rparr>"
    and bal: "u' - u + (lease_tokens l' d (s + 60000) - lease_tokens (fl_replicas f r) d (s + 60000)) \<le> n' - n"
    and nn: "0 \<le> n'"
  shows "window_inv N L \<lparr>fl_replicas = (fl_replicas f)(r := l'), fl_store = st'\<rparr> d s u'"
proof -
  let ?R = "(fl_replicas f)(r := l')"
  have "(\<Sum>i<N. lease_tokens (?R i) d (s + 60000)) =
      (\<Sum>i<N. lease_tokens (fl_replicas f i) d (s + 60000)) -
      lease_tokens (fl_replicas f r) d (s + 60000) + lease_tokens (?R r) d (s + 60000)"
    by (rule sum_replace [OF r]) simp
  with inv l' st old bal nn show ?thesis
    by (auto simp: window_inv_def)
qed

lemma other_device_shrinks:
  assumes mode: "cfg_mode c = ModeDistributed" and ok: "jm_ok (local_leases l)" and ne: "d' \<noteq> d"
    and run: "consume_unlocked reserve_distributed c l st d (Fin t) = (res, l', st')"
  shows "lease_shrinks l l' d' \<and> jm_ok (local_leases l') \<and> st' d' = st d'"
proof -
  have settle: "settle_reservation c m d (Fin t) r = (res, l') \<Longrightarrow> jm_ok (local_leases m) \<Longrightarrow>
      jm_get (local_leases m) d = None \<Longrightarrow> lease_shrinks m l' d' \<and> jm_ok (local_leases l')" for m r res l'
    using set_bounded_get(2) [of "local_leases m" d d'] set_bounded_get(3) [of "local_leases m" d] ne
    by (auto simp: settle_reservation_def lease_shrinks_def jm_has_def split: if_splits) metis
  have store: "reserve_distributed st d (Fin t) x y = (st'', a) \<Longrightarrow> st'' d' = st d'" for x y st'' a
    using ne by (auto simp: reserve_distributed_def split: sum.splits if_splits)
  obtain st'' a where a: "reserve_distributed st d (Fin t) (cfg_limit c) (cfg_lease_size c) = (st'', a)"
    by (cases "reserve_distributed st d (Fin t) (cfg_limit c) (cfg_lease_size c)")
  have del: "lease_shrinks (l\<lparr>local_leases := jm_delete (local_leases l) d\<rparr>) l' d' \<Longrightarrow> lease_shrinks l l' d'"
    using ok ne by (simp add: lease_shrinks_def jm_get_delete)
  show ?thesis
  proof (cases "jm_get (local_leases l) d")
    case None
    with run mode a settle [of l] ok store [OF a] show ?thesis
      by (auto simp: consume_unlocked_def consume_distributed_def lease_shrinks_def split: sum.splits prod.splits)
  next
    case (Some x)
    let ?m = "l\<lparr>local_leases := jm_delete (local_leases l) d\<rparr>"
    have m: "jm_ok (local_leases ?m)" "jm_get (local_leases ?m) d = None"
      using ok by (simp_all add: jm_get_delete)
    show ?thesis
    proof (cases "Fin t < lease_expires x \<and> 0 < lease_remaining x")
      case True
      with Some run mode ok ne show ?thesis
        by (auto simp: consume_unlocked_def consume_distributed_def lease_shrinks_def)
    next
      case False
      with Some run mode a settle [of ?m, OF _ m] m store [OF a] del show ?thesis
        by (auto simp: consume_unlocked_def consume_distributed_def lease_shrinks_def split: sum.splits prod.splits)
    qed
  qed
qed

lemma window_inv_other:
  assumes inv: "window_inv N L f d' s u" and r: "r < N" and ne: "d' \<noteq> d"
    and mode: "cfg_mode c = ModeDistributed" and run: "fleet_consume c f r d t = (ok, f')"
  shows "window_inv N L f' d' s u"
proof -
  obtain res l' st' where cu: "consume_unlocked reserve_distributed c (fl_replicas f r) (fl_store f) d (Fin t) = (res, l', st')"
    by (metis prod_cases3)
  from inv r have ok: "jm_ok (local_leases (fl_replicas f r))" "lease_fits (fl_replicas f r) d' s"
    by (auto simp: window_inv_def)
  from other_device_shrinks [OF mode ok(1) ne cu]
  have sh: "lease_shrinks (fl_replicas f r) l' d'" "jm_ok (local_leases l')" "st' d' = fl_store f d'"
    by auto
  note tok = lease_shrinks_tokens [OF sh(1) ok(2)]
  from inv obtain n where n: "fl_store f d' = Some \<lparr>started_at = Fin s, bucket_count = Fin (of_int n)\<rparr>" "0 \<le> n" "n \<le> L"
    by (auto simp: window_inv_def)
  have "window_inv N L \<lparr>fl_replicas = (fl_replicas f)(r := l'), fl_store = st'\<rparr> d' s u"
    by (rule window_inv_update [OF inv r sh(2), of st' n n]) (use tok sh n in auto)
  with run cu show ?thesis by (simp add: fleet_consume_def)
qed

text \<open>A request that finds no running window for its device opens one.\<close>

lemma window_opens:
  assumes c: "cfg_mode c = ModeDistributed" "cfg_limit c = Fin (of_int L)" "cfg_lease_size c = Fin (of_int Z)"
    and b: "1 \<le> L" "L \<le> 9007199254740991" "1 \<le> Z" "Z \<le> 9007199254740991"
    and r: "r < N" and lb: "live_bucket (fl_store f d) t = (t, 0)"
    and leases: "\<forall>i<N. jm_ok (local_leases (fl_replicas f i)) \<and>
      (\<forall>x. jm_get (local_leases (fl_replicas f i)) d = Some x \<longrightarrow>
        (\<exists>e k. x = \<lparr>lease_expires = Fin e, lease_remaining = Fin (of_int k)\<rparr> \<and> 0 \<le> k \<and> e \<le> t))"
    and run: "fleet_consume c f r d t = (ok, f')"
  shows "ok \<and> window_inv N L f' d t 1"
proof -
  let ?l = "fl_replicas f r"
  let ?g = "min Z L"
  let ?l' = "(drop_lease ?l d)\<lparr>local_leases := set_bounded (local_leases (drop_lease ?l d)) d
          \<lparr>lease_expires = Fin (t + 60000), lease_remaining = Fin (of_int (?g - 1))\<rparr> (cfg_max_tracked c)\<rparr>"
  let ?st = "(fl_store f)(d \<mapsto> \<lparr>started_at = Fin t, bucket_count = Fin (of_int ?g)\<rparr>)"
  have okl: "jm_ok (local_leases ?l)" using leases r by blast
  have use: "\<not> lease_usable ?l d t"
  proof (cases "jm_get (local_leases ?l) d")
    case (Some x)
    with leases r obtain e where "lease_expires x = Fin e" "e \<le> t" by fastforce
    with Some show ?thesis by (simp add: lease_usable_def)
  qed (simp add: lease_usable_def)
  have "consume_distributed reserve_distributed c ?l (fl_store f) d (Fin t) =
      (Inr \<lparr>lr_retry = None, lr_source = SrcReservation, lr_reserved = Fin (of_int ?g), lr_attempts = 1\<rparr>, ?l', ?st)"
    using consume_asked(1) [where st = "fl_store f" and d = d, OF c(2,3) b use lb] b(1) by simp
  with run c(1) have f': "ok" "f' = \<lparr>fl_replicas = (fl_replicas f)(r := ?l'), fl_store = ?st\<rparr>"
    by (auto simp: fleet_consume_def consume_unlocked_def)
  have absent: "\<not> jm_has (local_leases (drop_lease ?l d)) d"
    using okl by (simp add: jm_has_def drop_lease_get)
  note sb = set_bounded_get [OF drop_lease_ok [OF okl] absent]
  have mine: "lease_fits ?l' d t" "lease_tokens ?l' d (t + 60000) = ?g - 1" "jm_ok (local_leases ?l')"
    using b by (auto simp: lease_fits_def lease_tokens_def sb intro!: exI [of _ "?g - 1"])
  have others: "lease_fits (fl_replicas f i) d t \<and> lease_tokens (fl_replicas f i) d (t + 60000) = 0" if "i < N" for i
    using leases that by (fastforce simp: lease_fits_def lease_tokens_def split: option.split)
  have "(\<Sum>i<N. lease_tokens (((fl_replicas f)(r := ?l')) i) d (t + 60000)) = ?g - 1"
    using sum_replace [OF r, of "\<lambda>i. lease_tokens (((fl_replicas f)(r := ?l')) i) d (t + 60000)" "\<lambda>_. 0"] others mine
    by (simp only: fun_upd_other fun_upd_same) simp
  with f' mine others leases b show ?thesis
    by (auto simp: window_inv_def)
qed

text \<open>A request inside the running window spends a lease token, or reserves, or is refused.\<close>

lemma window_continues:
  assumes c: "cfg_mode c = ModeDistributed" "cfg_limit c = Fin (of_int L)" "cfg_lease_size c = Fin (of_int Z)"
    and b: "1 \<le> L" "L \<le> 9007199254740991" "1 \<le> Z" "Z \<le> 9007199254740991"
    and r: "r < N" and inv: "window_inv N L f d s u" and t: "s \<le> t" "t < s + 60000"
    and run: "fleet_consume c f r d t = (ok, f')"
  shows "window_inv N L f' d s (u + (if ok then 1 else 0))"
proof -
  let ?l = "fl_replicas f r"
  from inv obtain n where n: "fl_store f d = Some \<lparr>started_at = Fin s, bucket_count = Fin (of_int n)\<rparr>" "0 \<le> n" "n \<le> L"
    by (auto simp: window_inv_def)
  from inv r have okl: "jm_ok (local_leases ?l)" and fit: "lease_fits ?l d s"
    by (auto simp: window_inv_def)
  have lb: "live_bucket (fl_store f d) t = (s, n)"
    using n t b(2) by (simp add: live_bucket_def)
  have absent: "\<not> jm_has (local_leases (drop_lease ?l d)) d"
    using okl by (simp add: jm_has_def drop_lease_get)
  note sb = set_bounded_get [OF drop_lease_ok [OF okl] absent]
  show ?thesis
  proof (cases "lease_usable ?l d t")
    case True
    with fit t obtain k where k: "jm_get (local_leases ?l) d =
        Some \<lparr>lease_expires = Fin (s + 60000), lease_remaining = Fin (of_int k)\<rparr>" "0 < k"
      by (auto simp: lease_usable_def lease_fits_def split: option.splits)
    let ?l' = "?l\<lparr>local_leases := jm_set (local_leases ?l) d
         \<lparr>lease_expires = Fin (s + 60000), lease_remaining = Fin (of_int (k - 1))\<rparr>\<rparr>"
    from consume_lease [OF k(1) t(2) k(2), of reserve_distributed c "fl_store f"] run c(1)
    have f': "ok" "f' = \<lparr>fl_replicas = (fl_replicas f)(r := ?l'), fl_store = fl_store f\<rparr>"
      by (auto simp: fleet_consume_def consume_unlocked_def)
    have "lease_fits ?l' d s" "lease_tokens ?l' d (s + 60000) = k - 1" "lease_tokens ?l d (s + 60000) = k"
      using k by (auto simp: lease_fits_def lease_tokens_def intro!: exI [of _ "k - 1"])
    with f' window_inv_update [OF inv r, of ?l' "fl_store f" n n "u + 1"] okl n show ?thesis
      by simp
  next
    case False
    show ?thesis
    proof (cases "n < L")
      case True
      let ?g = "min Z (L - n)"
      let ?l' = "(drop_lease ?l d)\<lparr>local_leases := set_bounded (local_leases (drop_lease ?l d)) d
          \<lparr>lease_expires = Fin (s + 60000), lease_remaining = Fin (of_int (?g - 1))\<rparr> (cfg_max_tracked c)\<rparr>"
      let ?st = "(fl_store f)(d \<mapsto> \<lparr>started_at = Fin s, bucket_count = Fin (of_int (n + ?g))\<rparr>)"
      from consume_asked(1) [where st = "fl_store f" and d = d, OF c(2,3) b False lb True] run c(1)
      have f': "ok" "f' = \<lparr>fl_replicas = (fl_replicas f)(r := ?l'), fl_store = ?st\<rparr>"
        by (auto simp: fleet_consume_def consume_unlocked_def)
      have g: "1 \<le> ?g" "n + ?g \<le> L" using True b by auto
      have "lease_fits ?l' d s" "lease_tokens ?l' d (s + 60000) = ?g - 1" "jm_ok (local_leases ?l')"
        using g by (auto simp: lease_fits_def lease_tokens_def sb intro!: exI [of _ "?g - 1"])
      with f' g window_inv_update [OF inv r, of ?l' ?st "n + ?g" n "u + 1"] n
        lease_tokens_nonneg [OF fit, of "s + 60000"] show ?thesis
        by simp
    next
      case F: False
      then have "L \<le> n" by simp
      from consume_asked(2) [where st = "fl_store f" and d = d, OF c(2,3) b False lb this] run c(1)
      have f': "\<not> ok" "f' = \<lparr>fl_replicas = (fl_replicas f)(r := drop_lease ?l d), fl_store = fl_store f\<rparr>"
        by (auto simp: fleet_consume_def consume_unlocked_def)
      have "lease_fits (drop_lease ?l d) d s" "lease_tokens (drop_lease ?l d) d (s + 60000) = 0"
        using okl by (auto simp: lease_fits_def lease_tokens_def drop_lease_get)
      with f' window_inv_update [OF inv r, of "drop_lease ?l d" "fl_store f" n n u] n drop_lease_ok [OF okl]
        lease_tokens_nonneg [OF fit, of "s + 60000"] show ?thesis
        by simp
    qed
  qed
qed

section \<open>Every window keeps its budget\<close>

definition window_allowed :: "(string \<times> jsnum option \<times> bool) list \<Rightarrow> string \<Rightarrow> real \<Rightarrow> nat" where
  "window_allowed trace d s = length (filter (\<lambda>(j, w, ok). j = d \<and> w = Some (Fin s) \<and> ok) trace)"

definition times_from :: "real \<Rightarrow> (nat \<times> string \<times> real) list \<Rightarrow> bool" where
  "times_from t es \<longleftrightarrow> sorted_wrt (\<lambda>a b. snd (snd a) \<le> snd (snd b)) es \<and> (\<forall>e\<in>set es. t \<le> snd (snd e))"

lemma times_from_Cons: "times_from t0 ((r, d, t) # es) \<Longrightarrow> t0 \<le> t \<and> times_from t es"
  by (auto simp: times_from_def)

definition no_window :: "nat \<Rightarrow> fleet \<Rightarrow> string \<Rightarrow> bool" where
  "no_window N f d \<longleftrightarrow> fl_store f d = None \<and>
     (\<forall>r<N. jm_ok (local_leases (fl_replicas f r)) \<and> jm_get (local_leases (fl_replicas f r)) d = None)"

lemma no_window_other:
  assumes inv: "no_window N f d'" and r: "r < N" and ne: "d' \<noteq> d"
    and mode: "cfg_mode c = ModeDistributed" and run: "fleet_consume c f r d t = (ok, f')"
  shows "no_window N f' d'"
proof -
  obtain res l' st' where cu: "consume_unlocked reserve_distributed c (fl_replicas f r) (fl_store f) d (Fin t) = (res, l', st')"
    by (metis prod_cases3)
  from other_device_shrinks [OF mode _ ne cu] inv r
  have "lease_shrinks (fl_replicas f r) l' d'" "jm_ok (local_leases l')" "st' d' = fl_store f d'"
    by (auto simp: no_window_def)
  with run cu inv r show ?thesis
    by (auto simp: fleet_consume_def no_window_def lease_shrinks_def)
qed

lemma window_inv_store: "window_inv N L f d s u \<Longrightarrow> map_option started_at (fl_store f d) = Some (Fin s) \<and> u \<le> L"
proof -
  assume inv: "window_inv N L f d s u"
  then have "0 \<le> (\<Sum>r<N. lease_tokens (fl_replicas f r) d (s + 60000))"
    by (intro sum_nonneg) (auto simp: window_inv_def intro: lease_tokens_nonneg)
  with inv show ?thesis by (auto simp: window_inv_def)
qed

lemma window_allowed_Cons: "window_allowed ((j, w, ok) # tr) d s =
    (if j = d \<and> w = Some (Fin s) \<and> ok then 1 else 0) + window_allowed tr d s"
  by (simp add: window_allowed_def)

text \<open>What the rest of a run may still let through, per window of the device.\<close>

lemma fleet_run_budget:
  assumes c: "cfg_mode c = ModeDistributed" "cfg_limit c = Fin (of_int L)" "cfg_lease_size c = Fin (of_int Z)"
    and b: "1 \<le> L" "L \<le> 9007199254740991" "1 \<le> Z" "Z \<le> 9007199254740991"
  shows "times_from t0 es \<Longrightarrow> s \<le> t0 \<Longrightarrow> \<forall>e\<in>set es. fst e < N \<Longrightarrow> window_inv N L f d s u \<Longrightarrow>
    int (window_allowed (fleet_run c f es) d w) + (if w = s then u else 0) \<le> L \<and>
    (w < s \<longrightarrow> window_allowed (fleet_run c f es) d w = 0)"
proof (induction es arbitrary: f s u t0)
  case Nil
  with window_inv_store [OF Nil(4)] b show ?case by (simp add: window_allowed_def)
next
  case (Cons e es)
  obtain r d' t where e: "e = (r, d', t)" by (cases e)
  obtain ok f' where run: "fleet_consume c f r d' t = (ok, f')" by (cases "fleet_consume c f r d' t")
  from Cons.prems e have tm: "t0 \<le> t" "times_from t es" and r: "r < N"
    by (auto dest: times_from_Cons)
  have st: "s \<le> t" using tm Cons.prems by simp
  note IH = Cons.IH [OF tm(2)]
  have tr: "fleet_run c f (e # es) = (d', map_option started_at (fl_store f' d'), ok) # fleet_run c f' es"
    by (simp add: e run)
  show ?case
  proof (cases "d' = d")
    case False
    then have ne: "d \<noteq> d'" by simp
    from IH [OF st _ window_inv_other [OF Cons.prems(4) r ne c(1) run]] Cons.prems(3) False
    show ?thesis by (simp add: tr window_allowed_Cons)
  next
    case True
    note run = run [unfolded True]
    show ?thesis
    proof (cases "t < s + 60000")
      case within: True
      note inv' = window_continues [OF c b r Cons.prems(4) st within run]
      from IH [OF st _ inv'] Cons.prems(3) window_inv_store [OF inv'] \<open>d' = d\<close>
      show ?thesis by (auto simp: tr window_allowed_Cons split: if_splits)
    next
      case after: False
      from Cons.prems(4) after have lb: "live_bucket (fl_store f d) t = (t, 0)"
        by (auto simp: window_inv_def live_bucket_def)
      have "\<forall>i<N. jm_ok (local_leases (fl_replicas f i)) \<and>
        (\<forall>x. jm_get (local_leases (fl_replicas f i)) d = Some x \<longrightarrow>
          (\<exists>e k. x = \<lparr>lease_expires = Fin e, lease_remaining = Fin (of_int k)\<rparr> \<and> 0 \<le> k \<and> e \<le> t))"
        using Cons.prems(4) after st by (fastforce simp: window_inv_def lease_fits_def)
      from window_opens [OF c b r lb this run] have inv': "ok" "window_inv N L f' d t 1" by auto
      have "s < t" using after by simp
      from IH [OF order_refl _ inv'(2)] Cons.prems(3) window_inv_store [OF inv'(2)] inv'(1) \<open>d' = d\<close> \<open>s < t\<close>
        window_inv_store [OF Cons.prems(4)]
      show ?thesis by (auto simp: tr window_allowed_Cons split: if_splits)
    qed
  qed
qed

lemma fleet_run_budget_fresh:
  assumes c: "cfg_mode c = ModeDistributed" "cfg_limit c = Fin (of_int L)" "cfg_lease_size c = Fin (of_int Z)"
    and b: "1 \<le> L" "L \<le> 9007199254740991" "1 \<le> Z" "Z \<le> 9007199254740991"
  shows "times_from t0 es \<Longrightarrow> \<forall>e\<in>set es. fst e < N \<Longrightarrow> no_window N f d \<Longrightarrow>
    int (window_allowed (fleet_run c f es) d w) \<le> L"
proof (induction es arbitrary: f t0)
  case Nil
  with b show ?case by (simp add: window_allowed_def)
next
  case (Cons e es)
  obtain r d' t where e: "e = (r, d', t)" by (cases e)
  obtain ok f' where run: "fleet_consume c f r d' t = (ok, f')" by (cases "fleet_consume c f r d' t")
  from Cons.prems e have tm: "t0 \<le> t" "times_from t es" and r: "r < N"
    by (auto dest: times_from_Cons)
  have tr: "fleet_run c f (e # es) = (d', map_option started_at (fl_store f' d'), ok) # fleet_run c f' es"
    by (simp add: e run)
  show ?case
  proof (cases "d' = d")
    case False
    then have ne: "d \<noteq> d'" by simp
    from Cons.IH [OF tm(2) _ no_window_other [OF Cons.prems(3) r ne c(1) run]] Cons.prems(2) False
    show ?thesis by (simp add: tr window_allowed_Cons)
  next
    case True
    note run = run [unfolded True]
    have lb: "live_bucket (fl_store f d) t = (t, 0)"
      using Cons.prems(3) by (simp add: no_window_def live_bucket_def)
    from window_opens [OF c b r lb _ run] Cons.prems(3) have inv': "ok" "window_inv N L f' d t 1"
      by (auto simp: no_window_def)
    from fleet_run_budget [OF c b tm(2) order_refl _ inv'(2), of w] Cons.prems(2) inv'(1) True
      window_inv_store [OF inv'(2)]
    show ?thesis by (auto simp: tr window_allowed_Cons split: if_splits)
  qed
qed

section \<open>Properties\<close>

text \<open>C1. Fleet-wide budget: however the requests of the devices interleave over the replicas, with
  time not running backwards, at most the configured limit of one device's requests is let through
  in any window of its bucket.\<close>

theorem fleet_window_budget:
  assumes "limiter_new c True = Inr l0" "cfg_mode c = ModeDistributed" "cfg_limit c = Fin (of_int L)"
    and "times_from t0 es" "\<forall>e\<in>set es. fst e < N"
  shows "int (window_allowed (fleet_run c (fleet_init l0) es) d s) \<le> L"
proof -
  obtain L' Z where c: "cfg_limit c = Fin (of_int L')" "cfg_lease_size c = Fin (of_int Z)"
    "1 \<le> L'" "L' \<le> 9007199254740991" "1 \<le> Z" "Z \<le> 9007199254740991" "local_leases l0 = []"
    by (rule limiter_new_config [OF assms(1)]) blast
  have "L' = L" using c(1) assms(3) by simp
  have "no_window N (fleet_init l0) d"
    by (simp add: no_window_def fleet_init_def c(7))
  from fleet_run_budget_fresh [OF assms(2) c(1-6) assms(4,5) this] \<open>L' = L\<close> show ?thesis by simp
qed

definition demo_config :: limit_config where
  "demo_config = \<lparr>cfg_mode = ModeDistributed, cfg_limit = 2, cfg_lease_size = 1,
     cfg_max_tracked = 10, cfg_replicas = 2\<rparr>"

theorem fleet_window_budget_witness:
  "int (window_allowed (fleet_run demo_config (fleet_init \<lparr>local_buckets = [], local_leases = []\<rparr>)
     [(0, ''bus'', 5), (1, ''bus'', 6), (0, ''bus'', 7)]) ''bus'' 5) \<le> 2"
proof -
  have new: "limiter_new demo_config True = Inr \<lparr>local_buckets = [], local_leases = []\<rparr>"
    by (simp add: limiter_new_def demo_config_def)
  have mode: "cfg_mode demo_config = ModeDistributed" and lim: "cfg_limit demo_config = Fin (of_int 2)"
    by (simp_all add: demo_config_def)
  have "times_from 0 [(0::nat, ''bus'', 5), (1, ''bus'', 6), (0, ''bus'', 7)]"
    by (simp add: times_from_def)
  from fleet_window_budget [OF new mode lim this, of 2 "''bus''" 5] show ?thesis by simp
qed

text \<open>C2. With an accepted configuration the limiter never raises: the grants of the shared
  allocator pass every check the limiter makes on them, in any state of the store and the leases.\<close>

theorem distributed_limiter_never_raises:
  assumes "limiter_new c True = Inr l0" "cfg_mode c = ModeDistributed"
  shows "\<exists>res. fst (consume_unlocked reserve_distributed c l st d (Fin t)) = Inr res"
proof -
  obtain L Z where "cfg_limit c = Fin (of_int L)" "cfg_lease_size c = Fin (of_int Z)"
    "1 \<le> L" "L \<le> 9007199254740991" "1 \<le> Z" "Z \<le> 9007199254740991"
    by (rule limiter_new_config [OF assms(1)]) blast
  then have "budget_ok (cfg_limit c)" "budget_ok (cfg_lease_size c)"
    by (simp_all add: budget_ok_def)
  from shared.consume_never_fails [OF this] assms(2) show ?thesis
    by (simp add: consume_unlocked_def)
qed

theorem distributed_limiter_never_raises_witness:
  "\<exists>res. fst (consume_unlocked reserve_distributed demo_config \<lparr>local_buckets = [], local_leases = []\<rparr>
     Map.empty ''bus'' (Fin 5)) = Inr res"
  by (rule distributed_limiter_never_raises [of _ "\<lparr>local_buckets = [], local_leases = []\<rparr>"])
    (simp_all add: limiter_new_def demo_config_def)

text \<open>The HTTP budgets divided over the replicas add up to at most the configured limit, and
  every replica gets at least one request.\<close>

theorem sharded_budget:
  assumes "sharded_limit limit replicas = Inr budget"
  shows "replicas * budget \<le> limit \<and> 1 \<le> budget"
proof -
  obtain l r where lr: "limit = Fin (of_int l)" "replicas = Fin (of_int r)" "1 \<le> r" "r \<le> l"
    "budget = Fin (of_int (l div r))"
    by (rule sharded_limit_cases [OF assms])
  have "r * (l div r) \<le> l" using lr(3) using pos_mod_sign [of r l] by (simp add: minus_mod_eq_mult_div [symmetric])
  then have "of_int (r * (l div r)) \<le> (of_int l :: real)" by (simp only: of_int_le_iff)
  moreover have "1 \<le> l div r" using lr(3,4) by (metis div_self not_one_le_zero zdiv_mono1 zero_less_one order_less_le_trans)
  ultimately show ?thesis using lr by simp
qed

theorem sharded_budget_witness: "(3::jsnum) * 66 \<le> 200 \<and> (1::jsnum) \<le> 66"
  by (rule sharded_budget) (simp add: sharded_limit_def)

text \<open>C3. A replica whose clock is behind the start of a device's bucket resets the bucket: the full
  budget is granted again, whatever had been granted. The fleet-wide bound of C1 therefore needs
  the clocks of the replicas not to run behind one another.\<close>

theorem reserve_clock_behind:
  assumes "1 \<le> L" "L \<le> 9007199254740991" "1 \<le> Z" "Z \<le> 9007199254740991" "t < s"
  shows "reserve_rate_limit_tokens (Some \<lparr>started_at = Fin s, bucket_count = n\<rparr>) (Fin t) (Fin (of_int L)) (Fin (of_int Z)) =
    Inr \<lparr>res_granted = Fin (of_int (min Z L)),
         res_next = \<lparr>started_at = Fin t, bucket_count = Fin (of_int (min Z L))\<rparr>, res_retry = 0\<rparr>"
proof -
  have "live_bucket (Some \<lparr>started_at = Fin s, bucket_count = n\<rparr>) t = (t, 0)"
    using assms(5) by (simp add: live_bucket_def split: jsnum.split)
  from reserve_live [OF assms(1-4) this] assms(1,3) show ?thesis by simp
qed

theorem reserve_clock_behind_witness:
  "reserve_rate_limit_tokens (Some \<lparr>started_at = Fin 1000, bucket_count = 90\<rparr>) (Fin 999)
     (Fin (of_int 90)) (Fin (of_int 90)) =
   Inr \<lparr>res_granted = Fin (of_int (min 90 90)),
        res_next = \<lparr>started_at = Fin 999, bucket_count = Fin (of_int (min 90 90))\<rparr>, res_retry = 0\<rparr>"
  by (rule reserve_clock_behind) simp_all

section \<open>The local mode\<close>

fun local_run :: "rate_bucket option \<Rightarrow> jsnum \<Rightarrow> real list \<Rightarrow> bool list" where
  "local_run b limit [] = []"
| "local_run b limit (t # ts) =
     (let d = evaluate_device_rate_limit b (Fin t) limit
      in dec_allowed d # local_run (Some (dec_next d)) limit ts)"

lemma evaluate_within:
  assumes "s \<le> t" "t < s + 60000" "0 \<le> n" "n \<le> 9007199254740991"
  shows "evaluate_device_rate_limit (Some \<lparr>started_at = Fin s, bucket_count = Fin (of_int n)\<rparr>) (Fin t) (Fin (of_int L)) =
    \<lparr>dec_allowed = (n + 1 \<le> L), dec_next = \<lparr>started_at = Fin s, bucket_count = Fin (of_int (n + 1))\<rparr>,
     dec_retry = (if n + 1 \<le> L then 0 else js_max 1 (60000 - (Fin t - Fin s)))\<rparr>"
proof -
  have le: "(real_of_int n + 1 \<le> real_of_int L) = (n + 1 \<le> L)"
    by (metis of_int_1 of_int_add of_int_le_iff)
  show ?thesis using assms
    by (simp add: evaluate_device_rate_limit_def valid_bucket_def window_ms_def Let_def le)
qed

lemma local_run_within:
  assumes "\<forall>t\<in>set ts. s \<le> t \<and> t < s + 60000" "0 \<le> n" "n + int (length ts) \<le> 9007199254740991"
  shows "local_run (Some \<lparr>started_at = Fin s, bucket_count = Fin (of_int n)\<rparr>) (Fin (of_int L)) ts =
    map (\<lambda>i. n + int i < L) [0..<length ts]"
  using assms
proof (induction ts arbitrary: n)
  case (Cons t ts)
  then have ev: "s \<le> t" "t < s + 60000" "n \<le> 9007199254740991" by auto
  have shift: "map (\<lambda>i. n + int i < L) [0..<length (t # ts)] = (n < L) # map (\<lambda>i. (n + 1) + int i < L) [0..<length ts]"
    by (simp add: upt_conv_Cons map_Suc_upt [symmetric] comp_def ac_simps del: upt_Suc)
  have "local_run (Some \<lparr>started_at = Fin s, bucket_count = Fin (of_int n)\<rparr>) (Fin (of_int L)) (t # ts) =
      (n + 1 \<le> L) # local_run (Some \<lparr>started_at = Fin s, bucket_count = Fin (of_int (n + 1))\<rparr>) (Fin (of_int L)) ts"
    by (simp only: local_run.simps Let_def evaluate_within [OF ev(1,2) Cons.prems(2) ev(3)]
        rate_decision.simps)
  also have "local_run (Some \<lparr>started_at = Fin s, bucket_count = Fin (of_int (n + 1))\<rparr>) (Fin (of_int L)) ts =
      map (\<lambda>i. (n + 1) + int i < L) [0..<length ts]"
    by (rule Cons.IH) (use Cons.prems in auto)
  finally show ?case unfolding shift add1_zle_eq .
qed simp

text \<open>Local mode: of the requests of a device inside one window exactly the first \<open>limit\<close> are let
  through.\<close>

theorem local_window_exact:
  assumes "\<forall>t\<in>set ts. t0 \<le> t \<and> t < t0 + 60000" "int (length ts) < 9007199254740991"
  shows "local_run None (Fin (of_int L)) (t0 # ts) = True # map (\<lambda>i. int i < L) [1..<length (t0 # ts)]"
proof -
  have "evaluate_device_rate_limit None (Fin t0) (Fin (of_int L)) =
      \<lparr>dec_allowed = True, dec_next = \<lparr>started_at = Fin t0, bucket_count = Fin (of_int 1)\<rparr>, dec_retry = 0\<rparr>"
    by (simp add: evaluate_device_rate_limit_def valid_bucket_def Let_def)
  moreover have "map (\<lambda>i. int i < L) [1..<length (t0 # ts)] = map (\<lambda>i. 1 + int i < L) [0..<length ts]"
    by (simp add: map_Suc_upt [symmetric] comp_def del: upt_Suc)
  ultimately show ?thesis
    using local_run_within [of ts t0 1 L] assms by (simp del: upt_Suc)
qed

theorem local_window_exact_witness:
  "local_run None (Fin (of_int 2)) [5, 6, 7] = True # map (\<lambda>i. int i < 2) [1..<length [5::real, 6, 7]]"
  by (rule local_window_exact) simp_all

end
