(* ===== verification/Read_Cache.thy ===== *)
theory Read_Cache imports Lru_Cache begin

text \<open>
  Shared reads: the bounded single flight (\<open>lib/boundedSingleFlight.ts\<close>), where callers of one key wait
  for one underlying fill, and the cache of API reads over it (\<open>services/apiReadCache.ts\<close>). A flight is an
  object shared by the map of flights and by the closures of its callers, so flights live in a store and
  the map holds their numbers; a settled flight stays in the store for the callers that still hold it.
\<close>

section \<open>The single flight\<close>

datatype 'r fill_phase = Queued | Filling | Filled 'r

record 'r flight =
  fl_key :: string
  fl_scope :: string
  fl_current :: bool
  fl_started_at :: real
  fl_waiters :: nat
  fl_phase :: "'r fill_phase"

record 'r single_flight =
  sf_flights :: "(string, nat) jsmap"
  sf_store :: "'r flight list"
  sf_max_fills :: nat
  sf_max_waiters :: nat
  sf_response_ms :: real

datatype flight_error = Invalid_Budgets | Flight_Capacity | Flight_Deadline

definition sf_new :: "jsnum \<Rightarrow> jsnum \<Rightarrow> jsnum \<Rightarrow> flight_error + 'r single_flight" where
  "sf_new max_fills max_waiters response_ms =
    (if \<not> (\<forall>v\<in>set [max_fills, max_waiters]. is_safe_integer v \<and> v > 0) \<or> \<not> is_finite response_ms \<or> response_ms \<le> 0
     then Inl Invalid_Budgets
     else Inr \<lparr>sf_flights = [], sf_store = [], sf_max_fills = nat (num_floor max_fills), sf_max_waiters = nat (num_floor max_waiters),
       sf_response_ms = num_real response_ms\<rparr>)"

definition sf_update :: "nat \<Rightarrow> ('r flight \<Rightarrow> 'r flight) \<Rightarrow> 'r single_flight \<Rightarrow> 'r single_flight" where
  "sf_update i f s = s\<lparr>sf_store := (sf_store s)[i := f (sf_store s ! i)]\<rparr>"

definition sf_invalidate :: "string option \<Rightarrow> 'r single_flight \<Rightarrow> 'r single_flight" where
  "sf_invalidate scope s = foldl (\<lambda>s i. if scope = None \<or> scope = Some (fl_scope (sf_store s ! i))
      then sf_update i (\<lambda>fl. fl\<lparr>fl_current := False\<rparr>) s else s) s (jm_values (sf_flights s))"

definition sf_active_fills :: "'r single_flight \<Rightarrow> nat" where
  "sf_active_fills s = length (sf_flights s)"

definition sf_waiting_callers :: "'r single_flight \<Rightarrow> nat" where
  "sf_waiting_callers s = sum_list (map (\<lambda>i. fl_waiters (sf_store s ! i)) (jm_values (sf_flights s)))"

text \<open>The synchronous part of \<open>run\<close>: the flight the caller waits for, opened if there is none, and how long
  it may wait.\<close>

definition sf_open :: "string \<Rightarrow> string \<Rightarrow> real \<Rightarrow> 'r single_flight \<Rightarrow> 'r single_flight" where
  "sf_open key scope now s = s\<lparr>sf_flights := jm_set (sf_flights s) key (length (sf_store s)),
     sf_store := sf_store s @ [\<lparr>fl_key = key, fl_scope = scope, fl_current = True, fl_started_at = now, fl_waiters = 0, fl_phase = Queued\<rparr>]\<rparr>"

definition sf_join :: "nat \<Rightarrow> real \<Rightarrow> 'r single_flight \<Rightarrow> (flight_error + nat \<times> real) \<times> 'r single_flight" where
  "sf_join i now s = (let fl = sf_store s ! i; remaining = sf_response_ms s - (now - fl_started_at fl) in
     if sf_max_waiters s \<le> fl_waiters fl then (Inl Flight_Capacity, s)
     else if remaining \<le> 0 then (Inl Flight_Deadline, s)
     else (Inr (i, remaining), sf_update i (\<lambda>fl. fl\<lparr>fl_waiters := fl_waiters fl + 1\<rparr>) s))"

definition sf_run :: "string \<Rightarrow> string \<Rightarrow> real \<Rightarrow> 'r single_flight \<Rightarrow> (flight_error + nat \<times> real) \<times> 'r single_flight" where
  "sf_run key scope now s = (case jm_get (sf_flights s) key of
      Some i \<Rightarrow> sf_join i now s
    | None \<Rightarrow> (if sf_max_fills s \<le> length (sf_flights s) then (Inl Flight_Capacity, s)
        else sf_join (length (sf_store s)) now (sf_open key scope now s)))"

text \<open>\<open>isCurrent\<close>, the settlement of the fill, the \<open>finally\<close> that frees its slot.\<close>

definition sf_is_current :: "nat \<Rightarrow> real \<Rightarrow> 'r single_flight \<Rightarrow> bool" where
  "sf_is_current i now s \<longleftrightarrow> fl_current (sf_store s ! i) \<and> now - fl_started_at (sf_store s ! i) < sf_response_ms s"

definition sf_begin :: "nat \<Rightarrow> 'r single_flight \<Rightarrow> 'r single_flight" where
  "sf_begin i = sf_update i (\<lambda>fl. fl\<lparr>fl_phase := Filling\<rparr>)"

definition sf_settle :: "nat \<Rightarrow> 'r \<Rightarrow> 'r single_flight \<Rightarrow> 'r single_flight" where
  "sf_settle i r = sf_update i (\<lambda>fl. fl\<lparr>fl_phase := Filled r\<rparr>)"

definition sf_finish :: "nat \<Rightarrow> 'r single_flight \<Rightarrow> 'r single_flight" where
  "sf_finish i s = (let key = fl_key (sf_store s ! i) in
     if jm_get (sf_flights s) key = Some i then s\<lparr>sf_flights := jm_delete (sf_flights s) key\<rparr> else s)"

text \<open>A waiting caller resumes, because its timer won the race or because the fill settled: the deadline, the
  rejection of the fill, or its value when it is not too late.\<close>

definition sf_resume :: "nat \<Rightarrow> bool \<Rightarrow> real \<Rightarrow> ('x + 'v) single_flight \<Rightarrow> ((flight_error + 'x) + 'v) \<times> ('x + 'v) single_flight" where
  "sf_resume i timer now s = (let fl = sf_store s ! i in
    (case (timer, fl_phase fl) of
        (False, Filled (Inl x)) \<Rightarrow> Inl (Inr x)
      | (False, Filled (Inr v)) \<Rightarrow> (if now - fl_started_at fl \<ge> sf_response_ms s then Inl (Inl Flight_Deadline) else Inr v)
      | _ \<Rightarrow> Inl (Inl Flight_Deadline),
     sf_update i (\<lambda>fl. fl\<lparr>fl_waiters := fl_waiters fl - 1\<rparr>) s))"

section \<open>The read cache\<close>

datatype 'e read_error = Read_Flight flight_error | Load_Failed 'e

record ('e, 'v) read_cache =
  rc_cache :: "(string, 'v \<times> real) lru"
  rc_flights :: "('e read_error + 'v) single_flight"
  rc_name :: string
  rc_ttl_ms :: real
  rc_hits :: nat
  rc_fills :: nat
  rc_failures :: nat
  rc_invalidations :: nat

definition rc_new :: "string \<Rightarrow> real \<Rightarrow> jsnum \<Rightarrow> lru_error + ('e, 'v) read_cache" where
  "rc_new name ttl_ms entries = (case lru_new entries of
      Inl e \<Rightarrow> Inl e
    | Inr c \<Rightarrow> Inr \<lparr>rc_cache = c, rc_flights = projr (sf_new 8 32 3000), rc_name = name, rc_ttl_ms = ttl_ms, rc_hits = 0, rc_fills = 0,
        rc_failures = 0, rc_invalidations = 0\<rparr>)"

definition rc_invalidate :: "('e, 'v) read_cache \<Rightarrow> ('e, 'v) read_cache" where
  "rc_invalidate s = s\<lparr>rc_cache := lru_clear (rc_cache s), rc_flights := sf_invalidate None (rc_flights s),
     rc_invalidations := rc_invalidations s + 1\<rparr>"

datatype 'v read_outcome = Served 'v | Waits nat | Refused flight_error

definition rc_read :: "string \<Rightarrow> real \<Rightarrow> ('e, 'v) read_cache \<Rightarrow> 'v read_outcome \<times> ('e, 'v) read_cache" where
  "rc_read key now s =
    (let (hit, c) = lru_get (rc_cache s) key; s1 = s\<lparr>rc_cache := c\<rparr> in
     (case (case hit of
        Some (v, expires) \<Rightarrow> if expires > now then Some v else None
      | None \<Rightarrow> None) of
        Some v \<Rightarrow> (Served v, s1\<lparr>rc_hits := rc_hits s1 + 1\<rparr>)
      | None \<Rightarrow> (let (r, f) = sf_run key (rc_name s1) now (rc_flights s1); s2 = s1\<lparr>rc_flights := f\<rparr> in
          (case r of Inl e \<Rightarrow> Refused e | Inr (i, _) \<Rightarrow> Waits i, s2))))"

text \<open>The fill of flight \<open>i\<close>: \<open>load\<close> is called, then its outcome is published unless the flight is no longer
  current. \<open>small\<close> says that the value serialises to at most 256 KiB.\<close>

definition rc_start :: "nat \<Rightarrow> ('e, 'v) read_cache \<Rightarrow> ('e, 'v) read_cache" where
  "rc_start i s = s\<lparr>rc_fills := rc_fills s + 1, rc_flights := sf_begin i (rc_flights s)\<rparr>"

definition rc_loaded :: "nat \<Rightarrow> 'e + 'v \<Rightarrow> real \<Rightarrow> bool \<Rightarrow> ('e, 'v) read_cache \<Rightarrow> ('e, 'v) read_cache" where
  "rc_loaded i outcome now small s = (case outcome of
      Inl e \<Rightarrow> s\<lparr>rc_failures := rc_failures s + 1, rc_flights := sf_settle i (Inl (Load_Failed e)) (rc_flights s)\<rparr>
    | Inr v \<Rightarrow> (if \<not> sf_is_current i now (rc_flights s)
        then s\<lparr>rc_failures := rc_failures s + 1, rc_flights := sf_settle i (Inl (Read_Flight Flight_Deadline)) (rc_flights s)\<rparr>
        else (let c = (if rc_ttl_ms s > 0 \<and> small
              then snd (lru_set (rc_cache s) (fl_key (sf_store (rc_flights s) ! i)) (v, now + rc_ttl_ms s)) else rc_cache s) in
          s\<lparr>rc_cache := c, rc_flights := sf_settle i (Inr v) (rc_flights s)\<rparr>)))"

definition rc_finish :: "nat \<Rightarrow> ('e, 'v) read_cache \<Rightarrow> ('e, 'v) read_cache" where
  "rc_finish i s = s\<lparr>rc_flights := sf_finish i (rc_flights s)\<rparr>"

definition rc_resume :: "nat \<Rightarrow> bool \<Rightarrow> real \<Rightarrow> ('e, 'v) read_cache \<Rightarrow> ((flight_error + 'e read_error) + 'v) \<times> ('e, 'v) read_cache" where
  "rc_resume i timer now s = (let (r, f) = sf_resume i timer now (rc_flights s) in (r, s\<lparr>rc_flights := f\<rparr>))"

section \<open>Runs\<close>

datatype ('e, 'v) read_event =
    Read string real "'v read_outcome"
  | Start string nat
  | Loaded nat "'e + 'v" real bool
  | Finish nat
  | Resume nat bool real "(flight_error + 'e read_error) + 'v"
  | Invalidate

inductive rc_step :: "('e, 'v) read_cache \<Rightarrow> ('e, 'v) read_event \<Rightarrow> ('e, 'v) read_cache \<Rightarrow> bool" where
  read: "rc_read key now s = (r, t) \<Longrightarrow> rc_step s (Read key now r) t"
| begun: "i < length (sf_store (rc_flights s)) \<Longrightarrow> fl_phase (sf_store (rc_flights s) ! i) = Queued \<Longrightarrow>
    rc_step s (Start (fl_key (sf_store (rc_flights s) ! i)) i) (rc_start i s)"
| loaded: "i < length (sf_store (rc_flights s)) \<Longrightarrow> fl_phase (sf_store (rc_flights s) ! i) = Filling \<Longrightarrow>
    rc_step s (Loaded i outcome now small) (rc_loaded i outcome now small s)"
| finish: "i < length (sf_store (rc_flights s)) \<Longrightarrow> fl_phase (sf_store (rc_flights s) ! i) = Filled r \<Longrightarrow> rc_step s (Finish i) (rc_finish i s)"
| resume: "i < length (sf_store (rc_flights s)) \<Longrightarrow> 0 < fl_waiters (sf_store (rc_flights s) ! i) \<Longrightarrow>
    timer \<or> (\<exists>r. fl_phase (sf_store (rc_flights s) ! i) = Filled r) \<Longrightarrow> rc_resume i timer now s = (answer, t) \<Longrightarrow>
    rc_step s (Resume i timer now answer) t"
| invalidate: "rc_step s Invalidate (rc_invalidate s)"

inductive rc_run :: "('e, 'v) read_cache \<Rightarrow> ('e, 'v) read_event list \<Rightarrow> ('e, 'v) read_cache \<Rightarrow> bool" for s where
  start: "rc_run s [] s"
| snoc: "rc_run s evs t \<Longrightarrow> rc_step t ev u \<Longrightarrow> rc_run s (evs @ [ev]) u"

section \<open>Flights: the invariant\<close>

definition sf_ok :: "'r single_flight \<Rightarrow> bool" where
  "sf_ok s \<longleftrightarrow> jm_ok (sf_flights s) \<and> length (sf_flights s) \<le> sf_max_fills s \<and>
    (\<forall>k i. jm_get (sf_flights s) k = Some i \<longrightarrow> i < length (sf_store s) \<and> fl_key (sf_store s ! i) = k) \<and>
    (\<forall>i < length (sf_store s). fl_waiters (sf_store s ! i) \<le> sf_max_waiters s \<and>
      ((\<forall>r. fl_phase (sf_store s ! i) \<noteq> Filled r) \<longrightarrow> jm_get (sf_flights s) (fl_key (sf_store s ! i)) = Some i))"

lemma sf_okD:
  assumes "sf_ok s"
  shows "jm_ok (sf_flights s)" "length (sf_flights s) \<le> sf_max_fills s"
    "\<And>k i. jm_get (sf_flights s) k = Some i \<Longrightarrow> i < length (sf_store s) \<and> fl_key (sf_store s ! i) = k"
    "\<And>i. i < length (sf_store s) \<Longrightarrow> fl_waiters (sf_store s ! i) \<le> sf_max_waiters s"
    "\<And>i. i < length (sf_store s) \<Longrightarrow> (\<And>r. fl_phase (sf_store s ! i) \<noteq> Filled r) \<Longrightarrow> jm_get (sf_flights s) (fl_key (sf_store s ! i)) = Some i"
  using assms unfolding sf_ok_def by blast+

lemma sf_update_simps [simp]:
  "sf_flights (sf_update i f s) = sf_flights s" "sf_max_fills (sf_update i f s) = sf_max_fills s"
  "sf_max_waiters (sf_update i f s) = sf_max_waiters s" "sf_response_ms (sf_update i f s) = sf_response_ms s"
  "length (sf_store (sf_update i f s)) = length (sf_store s)"
  "j < length (sf_store s) \<Longrightarrow> sf_store (sf_update i f s) ! j = (if j = i then f (sf_store s ! i) else sf_store s ! j)"
  by (simp_all add: sf_update_def)

lemma sf_update_ok:
  assumes "sf_ok s" "fl_key (f (sf_store s ! i)) = fl_key (sf_store s ! i)"
    "i < length (sf_store s) \<Longrightarrow> fl_waiters (f (sf_store s ! i)) \<le> sf_max_waiters s"
    "\<And>r. fl_phase (sf_store s ! i) = Filled r \<Longrightarrow> \<exists>r. fl_phase (f (sf_store s ! i)) = Filled r"
  shows "sf_ok (sf_update i f s)"
  using assms unfolding sf_ok_def by (auto split: if_splits)

lemma sf_begin_ok: "sf_ok s \<Longrightarrow> fl_phase (sf_store s ! i) = Queued \<Longrightarrow> sf_ok (sf_begin i s)"
  unfolding sf_begin_def by (rule sf_update_ok) (auto simp: sf_ok_def)

lemma sf_settle_ok: "sf_ok s \<Longrightarrow> sf_ok (sf_settle i r s)"
  unfolding sf_settle_def by (rule sf_update_ok) (auto simp: sf_ok_def)

lemma sf_resume_ok: "sf_ok s \<Longrightarrow> sf_ok (snd (sf_resume i timer now s))"
  unfolding sf_resume_def Let_def snd_conv by (rule sf_update_ok) (auto simp: sf_ok_def intro: le_trans [OF diff_le_self])

lemma sf_finish_ok:
  assumes "sf_ok s" "fl_phase (sf_store s ! i) = Filled r"
  shows "sf_ok (sf_finish i s)"
proof (cases "jm_get (sf_flights s) (fl_key (sf_store s ! i)) = Some i")
  case True
  have keep: "jm_get (jm_delete (sf_flights s) (fl_key (sf_store s ! i))) (fl_key (sf_store s ! j)) = Some j"
    if "j < length (sf_store s)" "\<forall>r. fl_phase (sf_store s ! j) \<noteq> Filled r" for j
  proof -
    have j: "jm_get (sf_flights s) (fl_key (sf_store s ! j)) = Some j" by (rule sf_okD(5) [OF assms(1) that(1)]) (use that(2) in blast)
    have "fl_key (sf_store s ! j) \<noteq> fl_key (sf_store s ! i)"
    proof
      assume "fl_key (sf_store s ! j) = fl_key (sf_store s ! i)"
      then have "i = j" using j True by (metis option.inject)
      then show False using assms(2) that(2) by blast
    qed
    then show ?thesis using j unfolding jm_get_delete [OF sf_okD(1) [OF assms(1)]] by simp
  qed
  let ?t = "sf_finish i s"
  have t: "sf_flights ?t = jm_delete (sf_flights s) (fl_key (sf_store s ! i))" "sf_store ?t = sf_store s"
      "sf_max_fills ?t = sf_max_fills s" "sf_max_waiters ?t = sf_max_waiters s"
    using True by (simp_all add: sf_finish_def)
  have get: "jm_get (sf_flights s) k = Some j" if "jm_get (sf_flights ?t) k = Some j" for k j
    using that unfolding t(1) jm_get_delete [OF sf_okD(1) [OF assms(1)]] by (simp split: if_splits)
  show ?thesis unfolding sf_ok_def
  proof (intro conjI allI impI)
    show "jm_ok (sf_flights ?t)" unfolding t by (rule jm_ok_delete [OF sf_okD(1) [OF assms(1)]])
    show "length (sf_flights ?t) \<le> sf_max_fills ?t"
      unfolding t by (rule le_trans [OF length_jm_delete_le sf_okD(2) [OF assms(1)]])
    fix j
    show "j < length (sf_store ?t)" "fl_key (sf_store ?t ! j) = k" if "jm_get (sf_flights ?t) k = Some j" for k
      using sf_okD(3) [OF assms(1) get [OF that]] unfolding t by blast+
    assume "j < length (sf_store ?t)"
    then have j: "j < length (sf_store s)" unfolding t .
    show "fl_waiters (sf_store ?t ! j) \<le> sf_max_waiters ?t" unfolding t by (rule sf_okD(4) [OF assms(1) j])
    show "jm_get (sf_flights ?t) (fl_key (sf_store ?t ! j)) = Some j" if "\<forall>r. fl_phase (sf_store ?t ! j) \<noteq> Filled r"
      using keep [OF j] that unfolding t .
  qed
qed (use assms(1) in \<open>simp add: sf_finish_def\<close>)

definition flagged :: "string option \<Rightarrow> nat list \<Rightarrow> 'r single_flight \<Rightarrow> 'r single_flight" where
  "flagged scope ids s = foldl (\<lambda>s i. if scope = None \<or> scope = Some (fl_scope (sf_store s ! i))
      then sf_update i (\<lambda>fl. fl\<lparr>fl_current := False\<rparr>) s else s) s ids"

lemma flagged_store:
  "sf_flights (flagged scope ids s) = sf_flights s \<and> sf_max_fills (flagged scope ids s) = sf_max_fills s \<and>
   sf_max_waiters (flagged scope ids s) = sf_max_waiters s \<and> sf_response_ms (flagged scope ids s) = sf_response_ms s \<and>
   length (sf_store (flagged scope ids s)) = length (sf_store s) \<and>
   (\<forall>i < length (sf_store s). sf_store (flagged scope ids s) ! i =
     (if i \<in> set ids \<and> (scope = None \<or> scope = Some (fl_scope (sf_store s ! i))) then (sf_store s ! i)\<lparr>fl_current := False\<rparr> else sf_store s ! i))"
proof (induction ids arbitrary: s)
  case (Cons j ids)
  define t where "t = (if scope = None \<or> scope = Some (fl_scope (sf_store s ! j)) then sf_update j (\<lambda>fl. fl\<lparr>fl_current := False\<rparr>) s else s)"
  have "flagged scope (j # ids) s = flagged scope ids t" by (simp add: flagged_def t_def)
  then show ?case using Cons.IH [of t] by (auto simp: t_def)
qed (simp add: flagged_def)

lemma sf_invalidate_flagged: "sf_invalidate scope s = flagged scope (jm_values (sf_flights s)) s"
  by (simp add: sf_invalidate_def flagged_def)

lemma flagged_ok: "sf_ok s \<Longrightarrow> sf_ok (flagged scope ids s)"
  using flagged_store [of scope ids s] unfolding sf_ok_def by (auto split: if_splits)

lemma sf_invalidate_ok: "sf_ok s \<Longrightarrow> sf_ok (sf_invalidate scope s)"
  by (simp add: sf_invalidate_flagged flagged_ok)

lemma sf_invalidate_current:
  assumes "sf_ok s" "i < length (sf_store s)" "\<forall>r. fl_phase (sf_store s ! i) \<noteq> Filled r"
  shows "\<not> fl_current (sf_store (sf_invalidate None s) ! i)"
proof -
  have "jm_get (sf_flights s) (fl_key (sf_store s ! i)) = Some i" using assms by (simp add: sf_ok_def)
  then have "i \<in> set (jm_values (sf_flights s))" using jm_get_in by (force simp: jm_values_def)
  then show ?thesis using flagged_store [of None "jm_values (sf_flights s)" s] assms(2) by (simp add: sf_invalidate_flagged)
qed

lemma sf_open_simps [simp]:
  "sf_flights (sf_open key scope now s) = jm_set (sf_flights s) key (length (sf_store s))"
  "length (sf_store (sf_open key scope now s)) = Suc (length (sf_store s))"
  "sf_max_fills (sf_open key scope now s) = sf_max_fills s" "sf_max_waiters (sf_open key scope now s) = sf_max_waiters s"
  "sf_response_ms (sf_open key scope now s) = sf_response_ms s"
  "i < length (sf_store s) \<Longrightarrow> sf_store (sf_open key scope now s) ! i = sf_store s ! i"
  "sf_store (sf_open key scope now s) ! length (sf_store s) =
     \<lparr>fl_key = key, fl_scope = scope, fl_current = True, fl_started_at = now, fl_waiters = 0, fl_phase = Queued\<rparr>"
  by (simp_all add: sf_open_def nth_append)

lemma sf_open_ok:
  assumes ok: "sf_ok s" and new: "jm_get (sf_flights s) key = None" "\<not> sf_max_fills s \<le> length (sf_flights s)"
  shows "sf_ok (sf_open key scope now s)"
  unfolding sf_ok_def
proof (intro conjI allI impI)
  let ?t = "sf_open key scope now s"
  show "jm_ok (sf_flights ?t)" "length (sf_flights ?t) \<le> sf_max_fills ?t"
    using sf_okD(1) [OF ok] new by (auto simp: length_jm_set)
  fix i
  have "i < length (sf_store ?t) \<and> fl_key (sf_store ?t ! i) = k" if at: "jm_get (sf_flights ?t) k = Some i" for k
  proof (cases "k = key")
    case True
    then have "i = length (sf_store s)" using at by simp
    then show ?thesis using True by simp
  next
    case False
    then have "jm_get (sf_flights s) k = Some i" using at by simp
    from sf_okD(3) [OF ok this] show ?thesis by simp
  qed
  then show "i < length (sf_store ?t)" "fl_key (sf_store ?t ! i) = k" if "jm_get (sf_flights ?t) k = Some i" for k
    using that by blast+
  assume i: "i < length (sf_store ?t)"
  show "fl_waiters (sf_store ?t ! i) \<le> sf_max_waiters ?t"
    using i sf_okD(4) [OF ok, of i] by (cases "i = length (sf_store s)") simp_all
  assume open_fill: "\<forall>r. fl_phase (sf_store ?t ! i) \<noteq> Filled r"
  show "jm_get (sf_flights ?t) (fl_key (sf_store ?t ! i)) = Some i"
  proof (cases "i = length (sf_store s)")
    case False
    then have "i < length (sf_store s)" using i by simp
    moreover from this have j: "jm_get (sf_flights s) (fl_key (sf_store s ! i)) = Some i"
      using sf_okD(5) [OF ok] open_fill by simp
    ultimately have "fl_key (sf_store s ! i) \<noteq> key" using new(1) by auto
    then show ?thesis using j \<open>i < length (sf_store s)\<close> by simp
  qed simp
qed

text \<open>A call of \<open>run\<close> adds at most one flight, queued, and changes only the number of waiters of the others.\<close>

definition sf_grows :: "'r single_flight \<Rightarrow> 'r single_flight \<Rightarrow> bool" where
  "sf_grows s t \<longleftrightarrow> sf_max_fills t = sf_max_fills s \<and> sf_max_waiters t = sf_max_waiters s \<and> sf_response_ms t = sf_response_ms s \<and>
    length (sf_store s) \<le> length (sf_store t) \<and>
    (\<forall>i < length (sf_store s). \<exists>w. sf_store t ! i = (sf_store s ! i)\<lparr>fl_waiters := w\<rparr>) \<and>
    (\<forall>i. length (sf_store s) \<le> i \<and> i < length (sf_store t) \<longrightarrow> fl_phase (sf_store t ! i) = Queued)"

lemma same_waiters: "\<exists>w. fl = fl\<lparr>fl_waiters := w\<rparr>"
  by (rule exI [of _ "fl_waiters fl"]) simp

lemma sf_grows_refl: "sf_grows s s"
  by (auto simp: sf_grows_def same_waiters)

lemma sf_join_spec:
  assumes "sf_ok s" "sf_join i now s = (r, t)"
  shows "sf_ok t" "sf_grows s t"
proof -
  have "sf_ok (sf_update i (\<lambda>fl. fl\<lparr>fl_waiters := fl_waiters fl + 1\<rparr>) s)" if "\<not> sf_max_waiters s \<le> fl_waiters (sf_store s ! i)"
    using assms(1) that by (intro sf_update_ok) auto
  then show "sf_ok t" using assms by (auto simp: sf_join_def Let_def split: if_splits)
  show "sf_grows s t" using assms(2) by (auto simp: sf_join_def Let_def sf_grows_def same_waiters split: if_splits)
qed

lemma sf_run_spec:
  assumes "sf_ok s" "sf_run key scope now s = (r, t)"
  shows "sf_ok t" "sf_grows s t"
proof -
  have "sf_ok t \<and> sf_grows s t"
  proof (cases "jm_get (sf_flights s) key")
    case None
    show ?thesis
    proof (cases "sf_max_fills s \<le> length (sf_flights s)")
      case True
      then show ?thesis using None assms by (auto simp: sf_run_def sf_grows_def same_waiters)
    next
      case False
      let ?o = "sf_open key scope now s"
      have j: "sf_join (length (sf_store s)) now ?o = (r, t)" using None False assms(2) by (simp add: sf_run_def)
      note t = sf_join_spec [OF sf_open_ok [OF assms(1) None False] j]
      have "\<exists>w. sf_store t ! i = (sf_store s ! i)\<lparr>fl_waiters := w\<rparr>" if "i < length (sf_store s)" for i
        using t(2) that unfolding sf_grows_def by (metis less_SucI sf_open_simps(2,6))
      moreover have "fl_phase (sf_store t ! i) = Queued" if "length (sf_store s) \<le> i" "i < length (sf_store t)" for i
      proof (cases "i = length (sf_store s)")
        case True
        then obtain w where "sf_store t ! i = (sf_store ?o ! i)\<lparr>fl_waiters := w\<rparr>"
          using t(2) unfolding sf_grows_def by (metis lessI sf_open_simps(2))
        then show ?thesis using True by simp
      qed (use t(2) that in \<open>auto simp: sf_grows_def\<close>)
      ultimately show ?thesis using t by (auto simp: sf_grows_def)
    qed
  next
    case (Some i)
    then show ?thesis using sf_join_spec [OF assms(1), of i now r t] assms(2) by (simp add: sf_run_def)
  qed
  then show "sf_ok t" "sf_grows s t" by blast+
qed

section \<open>Freshness: the invariant\<close>

definition begun :: "('e, 'v) read_event list \<Rightarrow> string \<Rightarrow> nat \<Rightarrow> bool" where
  "begun evs key i \<longleftrightarrow> (\<exists>before during. evs = before @ Start key i # during \<and> Invalidate \<notin> set during)"

text \<open>Flight \<open>i\<close> of the key loaded the value with no invalidation while it did.\<close>

definition load_of :: "('e, 'v) read_event list \<Rightarrow> string \<Rightarrow> nat \<Rightarrow> 'v \<Rightarrow> ('e, 'v) read_event list \<Rightarrow> bool" where
  "load_of evs key i v after \<longleftrightarrow> (\<exists>before during now small. evs = before @ Start key i # during @ Loaded i (Inr v) now small # after \<and>
     Invalidate \<notin> set during)"

definition loaded_after_invalidations :: "('e, 'v) read_event list \<Rightarrow> string \<Rightarrow> 'v \<Rightarrow> bool" where
  "loaded_after_invalidations evs key v \<longleftrightarrow> (\<exists>i after. load_of evs key i v after \<and> Invalidate \<notin> set after)"

definition rc_inv :: "('e, 'v) read_event list \<Rightarrow> ('e, 'v) read_cache \<Rightarrow> bool" where
  "rc_inv evs s \<longleftrightarrow> sf_ok (rc_flights s) \<and> sf_max_fills (rc_flights s) = 8 \<and> sf_max_waiters (rc_flights s) = 32 \<and> lru_ok (rc_cache s) \<and>
    (\<forall>k v e. lru_peek (rc_cache s) k = Some (v, e) \<longrightarrow> loaded_after_invalidations evs k v) \<and>
    (\<forall>i < length (sf_store (rc_flights s)). let fl = sf_store (rc_flights s) ! i in
      (fl_phase fl = Filling \<and> fl_current fl \<longrightarrow> begun evs (fl_key fl) i) \<and>
      (\<forall>v. fl_phase fl = Filled (Inr v) \<longrightarrow> (\<exists>after. load_of evs (fl_key fl) i v after)))"

lemma begun_snoc: "begun evs k i \<Longrightarrow> ev \<noteq> Invalidate \<Longrightarrow> begun (evs @ [ev]) k i"
  unfolding begun_def by (metis Un_iff append.assoc append_Cons empty_iff list.set(1) set_ConsD set_append)

lemma load_of_snoc: "load_of evs k i v after \<Longrightarrow> load_of (evs @ [ev]) k i v (after @ [ev])"
  unfolding load_of_def by fastforce

lemma loaded_snoc: "loaded_after_invalidations evs k v \<Longrightarrow> ev \<noteq> Invalidate \<Longrightarrow> loaded_after_invalidations (evs @ [ev]) k v"
  unfolding loaded_after_invalidations_def by (metis Un_iff empty_iff list.set(1) load_of_snoc set_ConsD set_append)

lemma load_of_begun: "begun evs k i \<Longrightarrow> load_of (evs @ [Loaded i (Inr v) now small]) k i v []"
  unfolding begun_def load_of_def by fastforce

lemma rc_invD:
  assumes "rc_inv evs s"
  shows "sf_ok (rc_flights s)" "sf_max_fills (rc_flights s) = 8" "sf_max_waiters (rc_flights s) = 32" "lru_ok (rc_cache s)"
    "\<And>k v e. lru_peek (rc_cache s) k = Some (v, e) \<Longrightarrow> loaded_after_invalidations evs k v"
    "\<And>i. i < length (sf_store (rc_flights s)) \<Longrightarrow> fl_phase (sf_store (rc_flights s) ! i) = Filling \<Longrightarrow>
      fl_current (sf_store (rc_flights s) ! i) \<Longrightarrow> begun evs (fl_key (sf_store (rc_flights s) ! i)) i"
    "\<And>i v. i < length (sf_store (rc_flights s)) \<Longrightarrow> fl_phase (sf_store (rc_flights s) ! i) = Filled (Inr v) \<Longrightarrow>
      \<exists>after. load_of evs (fl_key (sf_store (rc_flights s) ! i)) i v after"
  using assms unfolding rc_inv_def Let_def by blast+

text \<open>A step that does not invalidate keeps the invariant when each flight keeps its phase or has a reason
  for the new one, and the cache keeps its entries.\<close>

lemma rc_inv_step:
  assumes "rc_inv evs s" "ev \<noteq> Invalidate"
    "sf_ok f" "sf_max_fills f = sf_max_fills (rc_flights s)" "sf_max_waiters f = sf_max_waiters (rc_flights s)"
    "rc_flights t = f" "lru_ok (rc_cache t)"
    "\<And>k v e. lru_peek (rc_cache t) k = Some (v, e) \<Longrightarrow>
       lru_peek (rc_cache s) k = Some (v, e) \<or> loaded_after_invalidations (evs @ [ev]) k v"
    "\<And>i. i < length (sf_store f) \<Longrightarrow>
       (i < length (sf_store (rc_flights s)) \<and> fl_phase (sf_store f ! i) = fl_phase (sf_store (rc_flights s) ! i) \<and>
         fl_key (sf_store f ! i) = fl_key (sf_store (rc_flights s) ! i) \<and> fl_current (sf_store f ! i) = fl_current (sf_store (rc_flights s) ! i)) \<or>
       fl_phase (sf_store f ! i) = Queued \<or> (\<exists>x. fl_phase (sf_store f ! i) = Filled (Inl x)) \<or>
       fl_phase (sf_store f ! i) = Filling \<and> begun (evs @ [ev]) (fl_key (sf_store f ! i)) i \<or>
       (\<exists>v. fl_phase (sf_store f ! i) = Filled (Inr v) \<and> load_of (evs @ [ev]) (fl_key (sf_store f ! i)) i v [])"
  shows "rc_inv (evs @ [ev]) t"
proof -
  note old = rc_invD [OF assms(1)]
  have "loaded_after_invalidations (evs @ [ev]) k v" if "lru_peek (rc_cache t) k = Some (v, e)" for k v e
    using assms(8) [OF that] old(5) [of k v e] loaded_snoc [OF _ assms(2), of evs k v] by blast
  moreover have "begun (evs @ [ev]) (fl_key (sf_store f ! i)) i"
    if "i < length (sf_store f)" "fl_phase (sf_store f ! i) = Filling" "fl_current (sf_store f ! i)" for i
    using assms(9) [OF that(1)] that(2,3) old(6) [of i] begun_snoc [OF _ assms(2)] by auto
  moreover have "\<exists>after. load_of (evs @ [ev]) (fl_key (sf_store f ! i)) i v after"
    if "i < length (sf_store f)" "fl_phase (sf_store f ! i) = Filled (Inr v)" for i v
    using assms(9) [OF that(1)] that(2) old(7) [of i v] load_of_snoc by fastforce
  ultimately show ?thesis using assms(3-7) old(2,3) unfolding rc_inv_def Let_def by auto
qed

lemma rc_step_inv:
  assumes "rc_inv evs s" "rc_step s ev t"
  shows "rc_inv (evs @ [ev]) t"
  using assms(2)
proof (cases rule: rc_step.cases)
  case (read key now r)
  note old = rc_invD [OF assms(1)]
  obtain hit c where get: "lru_get (rc_cache s) key = (hit, c)" by fastforce
  have c: "lru_ok c" "\<And>j. lru_peek c j = lru_peek (rc_cache s) j"
    using old(4) get lruc.inv_fetch lruc.fetch_peek by (metis snd_conv)+
  have "rc_cache t = c \<and> (rc_flights t = rc_flights s \<or> (\<exists>q. sf_run key (rc_name s) now (rc_flights s) = (q, rc_flights t)))"
    using read(2) get by (auto simp: rc_read_def split: option.splits prod.splits if_splits)
  then have t: "rc_cache t = c" "sf_ok (rc_flights t)" "sf_grows (rc_flights s) (rc_flights t)"
    using old(1) sf_run_spec [OF old(1)] sf_grows_refl by (blast, metis, metis)
  show ?thesis
  proof (rule rc_inv_step [OF assms(1) _ t(2) _ _ refl])
    fix i
    assume i: "i < length (sf_store (rc_flights t))"
    show "(i < length (sf_store (rc_flights s)) \<and> fl_phase (sf_store (rc_flights t) ! i) = fl_phase (sf_store (rc_flights s) ! i) \<and>
        fl_key (sf_store (rc_flights t) ! i) = fl_key (sf_store (rc_flights s) ! i) \<and>
        fl_current (sf_store (rc_flights t) ! i) = fl_current (sf_store (rc_flights s) ! i)) \<or>
      fl_phase (sf_store (rc_flights t) ! i) = Queued \<or> (\<exists>x. fl_phase (sf_store (rc_flights t) ! i) = Filled (Inl x)) \<or>
      fl_phase (sf_store (rc_flights t) ! i) = Filling \<and> begun (evs @ [ev]) (fl_key (sf_store (rc_flights t) ! i)) i \<or>
      (\<exists>v. fl_phase (sf_store (rc_flights t) ! i) = Filled (Inr v) \<and> load_of (evs @ [ev]) (fl_key (sf_store (rc_flights t) ! i)) i v [])"
    proof (cases "i < length (sf_store (rc_flights s))")
      case True
      then obtain w where "sf_store (rc_flights t) ! i = (sf_store (rc_flights s) ! i)\<lparr>fl_waiters := w\<rparr>"
        using t(3) unfolding sf_grows_def by blast
      then show ?thesis using True by simp
    next
      case False
      then show ?thesis using t(3) i unfolding sf_grows_def by auto
    qed
  qed (use read(1) t c in \<open>auto simp: sf_grows_def\<close>)
next
  case (begun i)
  note old = rc_invD [OF assms(1)]
  have "begun (evs @ [ev]) (fl_key (sf_store (rc_flights s) ! i)) i"
    unfolding begun_def begun(1) by (rule exI [of _ evs], rule exI [of _ "[]"]) simp
  then show ?thesis
    by (intro rc_inv_step [OF assms(1) _ sf_begin_ok [OF old(1) begun(4)]])
      (use begun old(4) in \<open>auto simp: rc_start_def sf_begin_def\<close>)
next
  case (loaded i outcome now small)
  note old = rc_invD [OF assms(1)]
  let ?k = "fl_key (sf_store (rc_flights s) ! i)"
  show ?thesis
  proof (cases "\<exists>v. outcome = Inr v \<and> sf_is_current i now (rc_flights s)")
    case False
    then obtain x where t: "rc_flights t = sf_settle i (Inl x) (rc_flights s)" "rc_cache t = rc_cache s"
      using loaded(2) by (cases outcome) (auto simp: rc_loaded_def)
    show ?thesis
      by (rule rc_inv_step [OF assms(1) _ sf_settle_ok [OF old(1), of i "Inl x"] _ _ t(1)])
        (use loaded(1) t(2) old(4) in \<open>auto simp: sf_settle_def\<close>)
  next
    case True
    then obtain v where v: "outcome = Inr v" "sf_is_current i now (rc_flights s)" by blast
    have "begun evs ?k i" using old(6) loaded(3,4) v(2) by (simp add: sf_is_current_def)
    then have l: "load_of (evs @ [ev]) ?k i v []" unfolding loaded(1) v(1) by (rule load_of_begun)
    then have fresh: "loaded_after_invalidations (evs @ [ev]) ?k v" unfolding loaded_after_invalidations_def by fastforce
    have t: "rc_flights t = sf_settle i (Inr v) (rc_flights s)"
        "rc_cache t = rc_cache s \<or> rc_cache t = snd (lru_set (rc_cache s) ?k (v, now + rc_ttl_ms s))"
      using loaded(2) v by (auto simp: rc_loaded_def Let_def)
    have "lru_peek (rc_cache s) k = Some (w, e) \<or> loaded_after_invalidations (evs @ [ev]) k w"
      if "lru_peek (rc_cache t) k = Some (w, e)" for k w e
      using that t(2) lruc.put_preserves [OF old(4), of "\<lambda>k p. lru_peek (rc_cache s) k = Some p \<or> loaded_after_invalidations (evs @ [ev]) k (fst p)"] fresh
      by (metis fst_conv)
    moreover have "lru_ok (rc_cache t)" using t(2) old(4) lruc.inv_put by metis
    ultimately show ?thesis
      by (intro rc_inv_step [OF assms(1) _ sf_settle_ok [OF old(1), of i "Inr v"] _ _ t(1)])
        (use loaded(1,3) l in \<open>auto simp: sf_settle_def\<close>)
  qed
next
  case (finish i r)
  note old = rc_invD [OF assms(1)]
  have "sf_store (sf_finish i (rc_flights s)) = sf_store (rc_flights s)" "sf_max_fills (sf_finish i (rc_flights s)) = 8"
      "sf_max_waiters (sf_finish i (rc_flights s)) = 32"
    using old(2,3) by (simp_all add: sf_finish_def Let_def)
  then show ?thesis
    by (intro rc_inv_step [OF assms(1) _ sf_finish_ok [OF old(1) finish(4)]])
      (use finish old(2,3,4) in \<open>auto simp: rc_finish_def\<close>)
next
  case (resume i timer now answer)
  note old = rc_invD [OF assms(1)]
  have t: "rc_flights t = snd (sf_resume i timer now (rc_flights s))" "rc_cache t = rc_cache s"
    using resume(5) by (auto simp: rc_resume_def split: prod.splits)
  show ?thesis
    by (rule rc_inv_step [OF assms(1) _ sf_resume_ok [OF old(1)] _ _ t(1)])
      (use resume t(2) old(4) in \<open>auto simp: sf_resume_def Let_def\<close>)
next
  case invalidate
  note old = rc_invD [OF assms(1)]
  let ?f = "sf_invalidate None (rc_flights s)"
  have f: "sf_max_fills ?f = 8" "sf_max_waiters ?f = 32" "length (sf_store ?f) = length (sf_store (rc_flights s))"
      "\<And>i. i < length (sf_store (rc_flights s)) \<Longrightarrow> fl_phase (sf_store ?f ! i) = fl_phase (sf_store (rc_flights s) ! i) \<and>
        fl_key (sf_store ?f ! i) = fl_key (sf_store (rc_flights s) ! i)"
    using flagged_store [of None "jm_values (sf_flights (rc_flights s))" "rc_flights s"] old(2,3) by (auto simp: sf_invalidate_flagged)
  have "\<not> (fl_phase (sf_store ?f ! i) = Filling \<and> fl_current (sf_store ?f ! i))" if "i < length (sf_store (rc_flights s))" for i
    using sf_invalidate_current [OF old(1) that] f(4) [OF that] by auto
  moreover have "\<exists>after. load_of (evs @ [ev]) (fl_key (sf_store ?f ! i)) i v after"
    if "i < length (sf_store (rc_flights s))" "fl_phase (sf_store ?f ! i) = Filled (Inr v)" for i v
    using old(7) [OF that(1), of v] f(4) [OF that(1)] that(2) load_of_snoc by fastforce
  moreover have "lru_peek (lru_clear (rc_cache s)) k = None" for k by (simp add: lru_peek_def lru_clear_def)
  ultimately show ?thesis
    using f(1-3) sf_invalidate_ok [OF old(1)] lru_ok_clear [OF old(4)] unfolding invalidate(2) rc_inv_def Let_def rc_invalidate_def by auto
qed

lemma sf_new_reads: "sf_new 8 32 3000 = Inr \<lparr>sf_flights = [], sf_store = [], sf_max_fills = 8, sf_max_waiters = 32, sf_response_ms = 3000\<rparr>"
  by (simp add: sf_new_def max_safe_def)

lemma rc_inv_new:
  assumes "rc_new name ttl_ms entries = Inr s"
  shows "rc_inv [] s"
proof -
  obtain c where c: "lru_new entries = Inr c" "rc_cache s = c"
      "rc_flights s = \<lparr>sf_flights = [], sf_store = [], sf_max_fills = 8, sf_max_waiters = 32, sf_response_ms = 3000\<rparr>"
    using assms unfolding rc_new_def sf_new_reads by (auto split: sum.splits)
  moreover have "lru_entries c = []" using c(1) by (auto simp: lru_new_def split: if_splits)
  ultimately show ?thesis using lru_ok_new [OF c(1)] by (simp add: rc_inv_def sf_ok_def lru_peek_def)
qed

lemma rc_run_inv: "rc_run s evs t \<Longrightarrow> rc_inv [] s \<Longrightarrow> rc_inv evs t"
proof (induction rule: rc_run.induct)
  case (snoc evs t ev u)
  then show ?case using rc_step_inv by blast
qed simp

section \<open>Properties\<close>

text \<open>C25. A cached read is never stale. In every run, whatever the interleaving of reads, slow loads,
  expiries, evictions and invalidations, a value served from the cache was loaded for that key by a load
  that began after the last invalidation, and a value handed to a waiting caller came from a load that no
  invalidation interrupted.\<close>

theorem read_cache_fresh:
  assumes "rc_new name ttl_ms entries = Inr s0" "rc_run s0 evs s"
  shows "(\<forall>key now v t. rc_read key now s = (Served v, t) \<longrightarrow> loaded_after_invalidations evs key v) \<and>
    (\<forall>i timer now v t. i < length (sf_store (rc_flights s)) \<longrightarrow> rc_resume i timer now s = (Inr v, t) \<longrightarrow>
      (\<exists>after. load_of evs (fl_key (sf_store (rc_flights s) ! i)) i v after))"
proof (intro conjI allI impI)
  note inv = rc_invD [OF rc_run_inv [OF assms(2) rc_inv_new [OF assms(1)]]]
  fix key now v t
  assume r: "rc_read key now s = (Served v, t)"
  obtain hit c where get: "lru_get (rc_cache s) key = (hit, c)" by fastforce
  have "\<exists>e. hit = Some (v, e)" using r get by (auto simp: rc_read_def split: option.splits prod.splits if_splits sum.splits)
  then show "loaded_after_invalidations evs key v" using inv(4,5) get lruc.fetch_result by (metis fst_conv)
next
  note inv = rc_invD [OF rc_run_inv [OF assms(2) rc_inv_new [OF assms(1)]]]
  fix i timer now v t
  assume i: "i < length (sf_store (rc_flights s))" and r: "rc_resume i timer now s = (Inr v, t)"
  have "fl_phase (sf_store (rc_flights s) ! i) = Filled (Inr v)"
    using r by (auto simp: rc_resume_def sf_resume_def Let_def split: prod.splits fill_phase.splits sum.splits bool.splits if_splits)
  then show "\<exists>after. load_of evs (fl_key (sf_store (rc_flights s) ! i)) i v after" by (rule inv(7) [OF i])
qed

text \<open>Reads are bounded even when the database hangs: in every run at most eight fills are in flight and
  at most 32 callers wait for each, and a key has at most one unsettled fill, which keeps its slot until it
  really settles, whatever callers timed out meanwhile.\<close>

theorem single_flight_bounded:
  assumes "rc_new name ttl_ms entries = Inr s0" "rc_run s0 evs s"
  shows "sf_active_fills (rc_flights s) \<le> 8 \<and> (\<forall>i < length (sf_store (rc_flights s)). fl_waiters (sf_store (rc_flights s) ! i) \<le> 32) \<and>
    (\<forall>i < length (sf_store (rc_flights s)). (\<forall>r. fl_phase (sf_store (rc_flights s) ! i) \<noteq> Filled r) \<longrightarrow>
      jm_get (sf_flights (rc_flights s)) (fl_key (sf_store (rc_flights s) ! i)) = Some i \<and>
      (\<forall>j < length (sf_store (rc_flights s)). j \<noteq> i \<and> fl_key (sf_store (rc_flights s) ! j) = fl_key (sf_store (rc_flights s) ! i) \<longrightarrow>
        (\<exists>r. fl_phase (sf_store (rc_flights s) ! j) = Filled r)))"
proof -
  note inv = rc_invD [OF rc_run_inv [OF assms(2) rc_inv_new [OF assms(1)]]]
  note ok = sf_okD [OF inv(1)]
  have "sf_active_fills (rc_flights s) \<le> 8" using ok(2) inv(2) by (simp add: sf_active_fills_def)
  moreover have "fl_waiters (sf_store (rc_flights s) ! i) \<le> 32" if "i < length (sf_store (rc_flights s))" for i
    using ok(4) [OF that] inv(3) by simp
  ultimately show ?thesis using ok(5) by (metis option.inject)
qed

text \<open>The steps as a function, to run examples.\<close>

fun rc_do :: "('e, 'v) read_cache \<Rightarrow> ('e, 'v) read_event \<Rightarrow> ('e, 'v) read_cache option" where
  "rc_do s (Read key now r) = (case rc_read key now s of (q, t) \<Rightarrow> if q = r then Some t else None)"
| "rc_do s (Start key i) = (if i < length (sf_store (rc_flights s)) \<and> fl_phase (sf_store (rc_flights s) ! i) = Queued \<and>
      fl_key (sf_store (rc_flights s) ! i) = key then Some (rc_start i s) else None)"
| "rc_do s (Loaded i outcome now small) = (if i < length (sf_store (rc_flights s)) \<and> fl_phase (sf_store (rc_flights s) ! i) = Filling
      then Some (rc_loaded i outcome now small s) else None)"
| "rc_do s (Finish i) = (if i < length (sf_store (rc_flights s)) then case fl_phase (sf_store (rc_flights s) ! i) of
      Filled r \<Rightarrow> Some (rc_finish i s) | _ \<Rightarrow> None else None)"
| "rc_do s (Resume i timer now answer) = (if i < length (sf_store (rc_flights s)) \<and> 0 < fl_waiters (sf_store (rc_flights s) ! i) \<and>
      (timer \<or> (case fl_phase (sf_store (rc_flights s) ! i) of Filled r \<Rightarrow> True | _ \<Rightarrow> False))
      then case rc_resume i timer now s of (r, t) \<Rightarrow> if r = answer then Some t else None else None)"
| "rc_do s Invalidate = Some (rc_invalidate s)"

lemma rc_do_step: "rc_do s ev = Some t \<Longrightarrow> rc_step s ev t"
  by (cases ev) (auto intro: rc_step.intros split: if_splits fill_phase.splits prod.splits)

fun rc_exec :: "('e, 'v) read_event list \<Rightarrow> ('e, 'v) read_cache \<Rightarrow> ('e, 'v) read_cache option" where
  "rc_exec [] s = Some s"
| "rc_exec (ev # evs) s = Option.bind (rc_do s ev) (rc_exec evs)"

lemma rc_exec_append: "rc_exec (xs @ ys) s = Option.bind (rc_exec xs s) (rc_exec ys)"
proof (induction xs arbitrary: s)
  case (Cons ev xs)
  then show ?case by (cases "rc_do s ev") simp_all
qed simp

lemma rc_exec_run: "rc_exec evs s = Some t \<Longrightarrow> rc_run s evs t"
proof (induction evs arbitrary: t rule: rev_induct)
  case Nil
  then show ?case by (simp add: rc_run.start)
next
  case (snoc ev evs)
  then obtain u where "rc_exec evs s = Some u" "rc_do u ev = Some t" by (auto simp: rc_exec_append bind_eq_Some_conv)
  then show ?case using snoc.IH rc_run.snoc rc_do_step by blast
qed

definition demo_cache :: "(unit, nat) read_cache" where
  "demo_cache = projr (rc_new ''routeCatalog'' 5000 16)"

lemma demo_cache_new: "rc_new ''routeCatalog'' 5000 16 = Inr demo_cache"
  by (simp add: demo_cache_def rc_new_def lru_new_def max_safe_def)

text \<open>A load that an invalidation interrupts answers with the deadline error; the next one is cached.\<close>

definition demo_reads :: "(unit, nat) read_event list" where
  "demo_reads = [Read ''r'' 0 (Waits 0), Start ''r'' 0, Invalidate, Loaded 0 (Inr 1) 5 True,
     Resume 0 False 6 (Inl (Inr (Read_Flight Flight_Deadline))), Finish 0,
     Read ''r'' 10 (Waits 1), Start ''r'' 1, Loaded 1 (Inr 2) 20 True]"

lemmas rc_eval = rc_read_def rc_start_def rc_loaded_def rc_finish_def rc_resume_def rc_invalidate_def sf_run_def sf_join_def sf_open_def
  sf_update_def sf_begin_def sf_settle_def sf_finish_def sf_resume_def sf_invalidate_def sf_is_current_def jm_values_def
  lru_get_def lru_set_def lru_clear_def jm_has_def

lemma demo_cache_run:
  "\<exists>s. rc_exec demo_reads demo_cache = Some s \<and> (\<exists>t. rc_read ''r'' 30 s = (Served 2, t)) \<and> (\<exists>t. rc_resume 1 False 21 s = (Inr 2, t)) \<and>
     length (sf_store (rc_flights s)) = 2"
  by (simp add: demo_reads_def demo_cache_def rc_new_def lru_new_def sf_new_reads [simplified] max_safe_def rc_eval)

theorem read_cache_fresh_witness: "loaded_after_invalidations demo_reads ''r'' 2"
proof -
  obtain s t where "rc_exec demo_reads demo_cache = Some s" "rc_read ''r'' 30 s = (Served 2, t)" using demo_cache_run by blast
  then show ?thesis using read_cache_fresh [OF demo_cache_new rc_exec_run] by blast
qed

theorem single_flight_bounded_witness:
  "\<exists>s. rc_exec demo_reads demo_cache = Some s \<and> sf_active_fills (rc_flights s) \<le> 8"
  using single_flight_bounded [OF demo_cache_new rc_exec_run] demo_cache_run by blast

end
