(* ===== verification/Reroute_Circuit.thy ===== *)
theory Reroute_Circuit imports Js_Value begin

text \<open>
  Retrying the route provider (\<open>services/rerouteRetry.ts\<close>): the jittered backoff of one ride, the
  stored retry record, and the circuit breaker that all rides of a process share. The random draw and
  the monotonic clock are arguments; a permit is the closure that \<open>acquire\<close> returns, so the permits
  in flight are part of the state of the step relation.
\<close>

section \<open>Backoff\<close>

definition max_reroute_backoff_ms :: real where "max_reroute_backoff_ms = 300000"
definition base_reroute_backoff_ms :: real where "base_reroute_backoff_ms = 10000"

definition backoff_ceiling :: "int \<Rightarrow> real" where
  "backoff_ceiling failures = min max_reroute_backoff_ms (base_reroute_backoff_ms * 2 ^ nat (min 30 (max 0 (failures - 1))))"

definition reroute_backoff_ms :: "int \<Rightarrow> real \<Rightarrow> int" where
  "reroute_backoff_ms failures random = \<lceil>backoff_ceiling failures * (1 / 2 + max 0 (min 1 random) * (1 / 2))\<rceil>"

record reroute_retry =
  rr_context :: string
  rr_failures :: jsnum
  rr_next_attempt_at :: jsnum

definition read_reroute_retry :: "jsval \<Rightarrow> string \<Rightarrow> reroute_retry option" where
  "read_reroute_retry value ctx = (case (js_prop value ''context'', js_prop value ''failures'', js_prop value ''nextAttemptAt'') of
      (JStr c, JNum failures, JNum next_attempt) \<Rightarrow>
        (if c = ctx \<and> is_integer failures \<and> failures > 0 \<and> failures \<le> 32 \<and> is_safe_integer next_attempt \<and> next_attempt \<ge> 0
         then Some \<lparr>rr_context = c, rr_failures = failures, rr_next_attempt_at = next_attempt\<rparr> else None)
    | _ \<Rightarrow> None)"

lemma backoff_ceiling_bounds: "10000 \<le> backoff_ceiling n" "backoff_ceiling n \<le> 300000"
proof -
  have "(1 :: real) \<le> 2 ^ nat (min 30 (max 0 (n - 1)))" by (rule one_le_power) simp
  then show "10000 \<le> backoff_ceiling n" "backoff_ceiling n \<le> 300000"
    by (simp_all add: backoff_ceiling_def max_reroute_backoff_ms_def base_reroute_backoff_ms_def)
qed

text \<open>Half of the ceiling is kept whatever the draw, and five minutes are never passed.\<close>

lemma reroute_backoff_bounds: "5000 \<le> reroute_backoff_ms n r" "reroute_backoff_ms n r \<le> 300000"
proof -
  define j where "j = 1 / 2 + max 0 (min 1 r) * (1 / 2)"
  have j: "1 / 2 \<le> j" "j \<le> 1" by (auto simp: j_def)
  have "10000 * (1 / 2) \<le> backoff_ceiling n * j" using backoff_ceiling_bounds [of n] j by (intro mult_mono) auto
  moreover have "backoff_ceiling n * j \<le> 300000 * 1" using backoff_ceiling_bounds [of n] j by (intro mult_mono) auto
  ultimately show "5000 \<le> reroute_backoff_ms n r" "reroute_backoff_ms n r \<le> 300000"
    unfolding reroute_backoff_ms_def j_def [symmetric] by linarith+
qed

lemma backoff_ceiling_mono: "m \<le> n \<Longrightarrow> backoff_ceiling m \<le> backoff_ceiling n"
proof -
  assume "m \<le> n"
  then have "(2 :: real) ^ nat (min 30 (max 0 (m - 1))) \<le> 2 ^ nat (min 30 (max 0 (n - 1)))" by (intro power_increasing) auto
  then show ?thesis unfolding backoff_ceiling_def base_reroute_backoff_ms_def by (intro min.mono mult_left_mono) auto
qed

section \<open>The circuit\<close>

record circuit =
  ci_failures :: nat
  ci_openings :: nat
  ci_generation :: nat
  ci_open_until :: real
  ci_probing :: bool
  ci_rejected :: nat

record permit =
  pe_probe :: bool
  pe_generation :: nat

definition circuit_new :: circuit where
  "circuit_new = \<lparr>ci_failures = 0, ci_openings = 0, ci_generation = 0, ci_open_until = 0, ci_probing = False, ci_rejected = 0\<rparr>"

definition circuit_acquire :: "real \<Rightarrow> circuit \<Rightarrow> circuit \<times> permit option" where
  "circuit_acquire now c =
    (if ci_probing c \<or> now < ci_open_until c then (c\<lparr>ci_rejected := ci_rejected c + 1\<rparr>, None)
     else (let probe = ci_open_until c > 0; c' = (if probe then c\<lparr>ci_probing := True\<rparr> else c) in
       (c', Some \<lparr>pe_probe = probe, pe_generation = ci_generation c\<rparr>)))"

text \<open>The closure, called once: \<open>None\<close> is a release without an outcome.\<close>

definition circuit_release :: "real \<Rightarrow> real \<Rightarrow> permit \<Rightarrow> bool option \<Rightarrow> circuit \<Rightarrow> circuit" where
  "circuit_release now random p success c =
    (if pe_generation p \<noteq> ci_generation c then c
     else (let c = (if pe_probe p then c\<lparr>ci_probing := False\<rparr> else c) in
      (case success of
        None \<Rightarrow> c
      | Some True \<Rightarrow> c\<lparr>ci_failures := 0, ci_openings := 0, ci_open_until := 0\<rparr>
      | Some False \<Rightarrow> (let c = c\<lparr>ci_failures := ci_failures c + 1\<rparr> in
          if pe_probe p \<or> ci_failures c \<ge> 5
          then (let openings = ci_openings c + 1; ceiling = min 300000 (60000 * 2 ^ min 10 (openings - 1)) in
            c\<lparr>ci_openings := openings, ci_open_until := now + ceiling * (1 / 2 + random * (1 / 2)), ci_generation := ci_generation c + 1\<rparr>)
          else c))))"

definition retry_after_ms :: "real \<Rightarrow> circuit \<Rightarrow> int" where
  "retry_after_ms now c = max 0 \<lceil>ci_open_until c - now\<rceil>"

record circuit_system =
  cs_circuit :: circuit
  cs_held :: "permit list"
  cs_now :: real

inductive circuit_step :: "circuit_system \<Rightarrow> circuit_system \<Rightarrow> bool" where
  pass: "cs_now s \<le> t \<Longrightarrow> circuit_step s (s\<lparr>cs_now := t\<rparr>)"
| refuse: "circuit_acquire (cs_now s) (cs_circuit s) = (c, None) \<Longrightarrow> circuit_step s (s\<lparr>cs_circuit := c\<rparr>)"
| acquire: "circuit_acquire (cs_now s) (cs_circuit s) = (c, Some p) \<Longrightarrow> circuit_step s (s\<lparr>cs_circuit := c, cs_held := p # cs_held s\<rparr>)"
| release: "cs_held s = us @ p # vs \<Longrightarrow> 0 \<le> r \<Longrightarrow> r < 1 \<Longrightarrow>
    circuit_step s (s\<lparr>cs_circuit := circuit_release (cs_now s) r p success (cs_circuit s), cs_held := us @ vs\<rparr>)"

inductive circuit_run :: "circuit_system \<Rightarrow> bool" where
  start: "0 \<le> t \<Longrightarrow> circuit_run \<lparr>cs_circuit = circuit_new, cs_held = [], cs_now = t\<rparr>"
| step: "circuit_run s \<Longrightarrow> circuit_step s s' \<Longrightarrow> circuit_run s'"

text \<open>The permits that still count: those of the current generation.\<close>

definition current :: "circuit_system \<Rightarrow> permit list" where
  "current s = filter (\<lambda>p. pe_generation p = ci_generation (cs_circuit s)) (cs_held s)"

definition circuit_inv :: "circuit_system \<Rightarrow> bool" where
  "circuit_inv s \<longleftrightarrow> 0 \<le> cs_now s \<and> 0 \<le> ci_open_until (cs_circuit s) \<and>
     (\<forall>p\<in>set (cs_held s). pe_generation p \<le> ci_generation (cs_circuit s)) \<and>
     (if ci_open_until (cs_circuit s) > 0
      then (if ci_probing (cs_circuit s) then length (current s) = 1 \<and> pe_probe (hd (current s)) else current s = [])
      else \<not> ci_probing (cs_circuit s) \<and> (\<forall>p\<in>set (current s). \<not> pe_probe p) \<and> ci_openings (cs_circuit s) = 0 \<and> ci_failures (cs_circuit s) < 5)"

lemma circuit_release_stale: "pe_generation p \<noteq> ci_generation c \<Longrightarrow> circuit_release now r p success c = c"
  by (simp add: circuit_release_def)

lemma current_release:
  "cs_held s = us @ p # vs \<Longrightarrow> pe_generation p \<noteq> ci_generation (cs_circuit s) \<Longrightarrow> current (s\<lparr>cs_held := us @ vs\<rparr>) = current s"
  by (simp add: current_def)

lemma opened_positive: "0 \<le> now \<Longrightarrow> 0 \<le> r \<Longrightarrow> 0 < now + min 300000 (60000 * 2 ^ k) * (1 / 2 + r * (1 / 2 :: real))"
proof -
  assume a: "0 \<le> now" "0 \<le> r"
  have "0 < min 300000 (60000 * 2 ^ k :: real)" by simp
  then have "0 < min 300000 (60000 * 2 ^ k :: real) * (1 / 2 + r * (1 / 2))" using a(2) by (intro mult_pos_pos) linarith+
  then show ?thesis using a(1) by linarith
qed

lemma circuit_inv_step: "circuit_step s s' \<Longrightarrow> circuit_inv s \<Longrightarrow> circuit_inv s'"
proof (induction rule: circuit_step.induct)
  case (pass s t)
  then show ?case by (auto simp: circuit_inv_def current_def)
next
  case (refuse s c)
  then have "c = (cs_circuit s)\<lparr>ci_rejected := ci_rejected (cs_circuit s) + 1\<rparr>" by (auto simp: circuit_acquire_def Let_def split: if_splits)
  with refuse(2) show ?case by (auto simp: circuit_inv_def current_def split: if_splits)
next
  case (acquire s c p)
  then have "\<not> ci_probing (cs_circuit s)" "p = \<lparr>pe_probe = ci_open_until (cs_circuit s) > 0, pe_generation = ci_generation (cs_circuit s)\<rparr>"
    "c = (if ci_open_until (cs_circuit s) > 0 then (cs_circuit s)\<lparr>ci_probing := True\<rparr> else cs_circuit s)"
    by (auto simp: circuit_acquire_def Let_def split: if_splits)
  with acquire(2) show ?case by (auto simp: circuit_inv_def current_def)
next
  case (release s us p vs r success)
  show ?case
  proof (cases "pe_generation p = ci_generation (cs_circuit s)")
    case False
    then have "current (s\<lparr>cs_held := us @ vs\<rparr>) = current s" using current_release release(1) by blast
    with False release show ?thesis by (auto simp: circuit_inv_def circuit_release_stale current_def)
  next
    case True
    define c where "c = cs_circuit s"
    have cur: "current s = filter (\<lambda>p. pe_generation p = ci_generation c) us @ p # filter (\<lambda>p. pe_generation p = ci_generation c) vs"
      using release(1) True by (simp add: current_def c_def)
    have old: "\<forall>p\<in>set (us @ vs). pe_generation p \<le> ci_generation c" using release(1,4) by (auto simp: circuit_inv_def c_def)
    show ?thesis
    proof (cases "ci_open_until c > 0")
      case o: True
      have pr: "ci_probing c" using release(4) cur o by (auto simp: circuit_inv_def c_def split: if_splits)
      then have e: "pe_probe p" "filter (\<lambda>p. pe_generation p = ci_generation c) (us @ vs) = []"
        using release(4) cur o by (auto simp: circuit_inv_def c_def)
      have e': "\<forall>x\<in>set us \<union> set vs. pe_generation x \<noteq> ci_generation c" using e(2) by (auto simp: filter_empty_conv)
      have n: "filter (\<lambda>p. pe_generation p = Suc (ci_generation c)) (us @ vs) = []" unfolding filter_empty_conv using old Suc_n_not_le_n by metis
      show ?thesis
        using release(2,4) o e e' n old opened_positive [of "cs_now s" r "min 10 (ci_openings c)"] True
        by (cases success) (auto simp: circuit_inv_def circuit_release_def current_def c_def [symmetric] Let_def le_Suc_eq split: bool.splits)
    next
      case o: False
      have e: "\<not> ci_probing c" "\<not> pe_probe p" "ci_openings c = 0" "ci_failures c < 5" "\<forall>p\<in>set (current s). \<not> pe_probe p"
        using release(4) o cur by (auto simp: circuit_inv_def c_def)
      have n: "filter (\<lambda>p. pe_generation p = Suc (ci_generation c)) (us @ vs) = []" unfolding filter_empty_conv using old Suc_n_not_le_n by metis
      have e': "\<forall>x\<in>set us \<union> set vs. pe_generation x = ci_generation c \<longrightarrow> \<not> pe_probe x"
        using e(5) release(1) by (auto simp: current_def c_def)
      show ?thesis
        using release(2,4) o e e' n old opened_positive [of "cs_now s" r 0] True
        by (cases success) (auto simp: circuit_inv_def circuit_release_def current_def c_def [symmetric] Let_def le_Suc_eq split: bool.splits)
    qed
  qed
qed

lemma circuit_inv_run: "circuit_run s \<Longrightarrow> circuit_inv s"
proof (induction rule: circuit_run.induct)
  case (start t)
  then show ?case by (simp add: circuit_inv_def circuit_new_def current_def)
qed (rule circuit_inv_step)

definition demo_permit :: permit where
  "demo_permit = \<lparr>pe_probe = False, pe_generation = 0\<rparr>"

definition demo_closed :: "nat \<Rightarrow> nat \<Rightarrow> circuit_system" where
  "demo_closed failures n = \<lparr>cs_circuit = circuit_new\<lparr>ci_failures := failures\<rparr>, cs_held = replicate n demo_permit, cs_now = 0\<rparr>"

definition demo_open :: "real \<Rightarrow> circuit_system" where
  "demo_open t = \<lparr>cs_circuit = \<lparr>ci_failures = 5, ci_openings = 1, ci_generation = 1, ci_open_until = 30000,
     ci_probing = False, ci_rejected = 0\<rparr>, cs_held = [demo_permit], cs_now = t\<rparr>"

definition demo_probing :: circuit_system where
  "demo_probing = (demo_open 30000)\<lparr>cs_circuit := (cs_circuit (demo_open 0))\<lparr>ci_probing := True\<rparr>,
     cs_held := [\<lparr>pe_probe = True, pe_generation = 1\<rparr>, demo_permit]\<rparr>"

lemmas demo_defs = demo_permit_def demo_closed_def demo_open_def demo_probing_def circuit_new_def

lemma demo_acquire: "circuit_run (demo_closed f n) \<Longrightarrow> circuit_run (demo_closed f (Suc n))"
  using circuit_step.acquire [of "demo_closed f n" "cs_circuit (demo_closed f n)" demo_permit]
  by (auto intro: circuit_run.step simp: demo_defs circuit_acquire_def)

lemma demo_fail: "circuit_run (demo_closed f (Suc n)) \<Longrightarrow> f < 4 \<Longrightarrow> circuit_run (demo_closed (Suc f) n)"
  using circuit_step.release [of "demo_closed f (Suc n)" "[]" demo_permit "replicate n demo_permit" 0 "Some False"]
  by (auto intro: circuit_run.step simp: demo_defs circuit_release_def Let_def)

lemma demo_open_run: "0 \<le> t \<Longrightarrow> circuit_run (demo_open t)"
proof -
  assume t: "0 \<le> t"
  have "circuit_run (demo_closed 0 0)" using circuit_run.start [of 0] by (simp add: demo_defs)
  then have "circuit_run (demo_closed 0 6)" by (simp add: eval_nat_numeral demo_acquire)
  then have "circuit_run (demo_closed 4 2)" by (simp add: eval_nat_numeral demo_fail)
  moreover have "circuit_step (demo_closed 4 2) (demo_open 0)"
    using circuit_step.release [of "demo_closed 4 2" "[]" demo_permit "[demo_permit]" 0 "Some False"]
    by (simp add: demo_defs circuit_release_def Let_def eval_nat_numeral)
  ultimately have "circuit_run (demo_open 0)" by (rule circuit_run.step)
  moreover have "circuit_step (demo_open 0) (demo_open t)"
    using circuit_step.pass [of "demo_open 0" t] t by (simp add: demo_defs)
  ultimately show ?thesis by (rule circuit_run.step)
qed

lemma demo_probing_run: "circuit_run demo_probing"
  using circuit_step.acquire [of "demo_open 30000" "cs_circuit demo_probing" "\<lparr>pe_probe = True, pe_generation = 1\<rparr>"]
    demo_open_run [of 30000]
  by (auto intro: circuit_run.step simp: demo_defs circuit_acquire_def)

text \<open>C20. An open circuit spares the provider: in every run, while the circuit is open at most one
  request that still counts is in flight and it is the probe, every further request is refused until
  the opening has passed and the probe has answered, and a release from before the last opening
  changes nothing. A closed circuit has seen fewer than five failures in a row.\<close>

theorem circuit_single_probe:
  assumes "circuit_run s"
  shows "(ci_open_until (cs_circuit s) > 0 \<longrightarrow> length (current s) \<le> 1 \<and> (\<forall>p\<in>set (current s). pe_probe p)) \<and>
    (cs_now s < ci_open_until (cs_circuit s) \<or> ci_open_until (cs_circuit s) > 0 \<and> current s \<noteq> [] \<longleftrightarrow>
      snd (circuit_acquire (cs_now s) (cs_circuit s)) = None) \<and>
    (\<forall>p\<in>set (cs_held s). pe_generation p < ci_generation (cs_circuit s) \<longrightarrow>
      (\<forall>r success. circuit_release (cs_now s) r p success (cs_circuit s) = cs_circuit s)) \<and>
    (ci_open_until (cs_circuit s) = 0 \<longrightarrow> ci_failures (cs_circuit s) < 5)"
proof -
  have i: "circuit_inv s" using assms by (rule circuit_inv_run)
  have "ci_probing (cs_circuit s) \<longleftrightarrow> ci_open_until (cs_circuit s) > 0 \<and> current s \<noteq> []"
    using i by (cases "current s") (auto simp: circuit_inv_def split: if_splits)
  moreover have "length (current s) \<le> 1 \<and> (\<forall>p\<in>set (current s). pe_probe p)" if "ci_open_until (cs_circuit s) > 0"
    using i that by (cases "current s") (auto simp: circuit_inv_def split: if_splits)
  ultimately show ?thesis using i
    by (auto simp: circuit_acquire_def circuit_release_stale circuit_inv_def Let_def)
qed

text \<open>Five of six requests started together fail, and half a minute later, when the opening has passed,
  the probe is out: a further request is refused, in the opening and while the probe is out, and the
  sixth request, answered only now, changes nothing.\<close>

theorem circuit_single_probe_witness:
  "circuit_run (demo_open 10000) \<and> snd (circuit_acquire 10000 (cs_circuit (demo_open 10000))) = None \<and>
   circuit_run demo_probing \<and> length (current demo_probing) \<le> 1 \<and> list_all pe_probe (current demo_probing) \<and>
   current demo_probing \<noteq> [] \<and> snd (circuit_acquire 30000 (cs_circuit demo_probing)) = None \<and>
   circuit_release 30000 0 demo_permit (Some True) (cs_circuit demo_probing) = cs_circuit demo_probing"
proof -
  have o: "cs_now (demo_open 10000) = 10000" "ci_open_until (cs_circuit (demo_open 10000)) = 30000"
    by (simp_all add: demo_open_def)
  have p: "cs_now demo_probing = 30000" "ci_open_until (cs_circuit demo_probing) = 30000"
    "demo_permit \<in> set (cs_held demo_probing)" "pe_generation demo_permit < ci_generation (cs_circuit demo_probing)"
    "current demo_probing \<noteq> []"
    by (simp_all add: demo_defs current_def)
  have run: "circuit_run (demo_open 10000)" by (rule demo_open_run) simp
  have "snd (circuit_acquire 10000 (cs_circuit (demo_open 10000))) = None"
    using circuit_single_probe [OF run, THEN conjunct2, THEN conjunct1] unfolding o by simp
  moreover have "length (current demo_probing) \<le> 1 \<and> list_all pe_probe (current demo_probing)"
    using circuit_single_probe [OF demo_probing_run, THEN conjunct1] unfolding p(2) by (simp add: list_all_iff)
  moreover have "snd (circuit_acquire 30000 (cs_circuit demo_probing)) = None"
    using circuit_single_probe [OF demo_probing_run, THEN conjunct2, THEN conjunct1] p(5) unfolding p(1,2) by simp
  moreover have "circuit_release 30000 0 demo_permit (Some True) (cs_circuit demo_probing) = cs_circuit demo_probing"
    using circuit_single_probe [OF demo_probing_run, THEN conjunct2, THEN conjunct2, THEN conjunct1] p(3,4) unfolding p(1) by blast
  ultimately show ?thesis using run demo_probing_run p(5) by blast
qed

end
