(* ===== verification/Ride_Recovery.thy ===== *)
theory Ride_Recovery imports Live_Records begin

text \<open>
  Rides that nobody finished and rides that a restart interrupted
  (\<open>services/abandonedRideReconciliationLogic.ts\<close>, \<open>services/durableRideRecoveryPolicy.ts\<close>): when a ride may
  be retired for inactivity, and what a live node is restored to from the durable records. The
  parameter \<open>sdk_millis\<close> reads a \<open>Date\<close> or a timestamp object of the database client.
\<close>

section \<open>Activity\<close>

definition default_abandoned_ride_threshold_ms :: jsnum where "default_abandoned_ride_threshold_ms = 43200000"
definition automatic_return_retention_ms :: jsnum where "automatic_return_retention_ms = 86400000"

definition reconcilable_ride_statuses :: "jsval list" where
  "reconcilable_ride_statuses = [JStr ''pending'', JStr ''armed'', JStr ''active'']"

definition seconds_to_milliseconds_cutoff :: jsnum where "seconds_to_milliseconds_cutoff = 100000000000"

definition finite_or_none :: "jsnum \<Rightarrow> jsnum option" where
  "finite_or_none x = (if is_finite x then Some x else None)"

fun timestamp_millis :: "(jsval \<Rightarrow> jsnum option) \<Rightarrow> jsval \<Rightarrow> jsnum option" where
  "timestamp_millis sdk_millis v = (case sdk_millis v of
      Some millis \<Rightarrow> finite_or_none millis
    | None \<Rightarrow> (case v of
        JNum x \<Rightarrow> (if \<not> is_finite x then None else if js_abs x < seconds_to_milliseconds_cutoff then Some (x * 1000) else Some x)
      | JObj fs \<Rightarrow> (case (nullish (obj_get fs ''seconds'') (obj_get fs ''_seconds''),
            nullish (obj_get fs ''nanoseconds'') (nullish (obj_get fs ''_nanoseconds'') (JNum 0))) of
          (JNum s, JNum n) \<Rightarrow> (if is_finite s \<and> is_finite n then Some (s * 1000 + n / 1000000) else None)
        | _ \<Rightarrow> None)
      | _ \<Rightarrow> None))"

declare timestamp_millis.simps [simp del]

fun is_object :: "jsval \<Rightarrow> bool" where
  "is_object (JObj _) = True"
| "is_object (JArr _) = True"
| "is_object _ = False"

definition record_values :: "jsval \<Rightarrow> jsval list" where
  "record_values v = filter is_object (case v of JArr vs \<Rightarrow> vs | JObj fs \<Rightarrow> map snd fs | _ \<Rightarrow> [])"

definition activity_values :: "jsval \<Rightarrow> jsval list" where
  "activity_values r = map (js_prop r) [''createdAt'', ''armedAt'', ''startTime'', ''activatedAt'', ''updatedAt''] @
     map (\<lambda>s. js_prop s ''timestamp'') (record_values (js_prop r ''stopsReached'')) @
     map (\<lambda>p. js_prop p ''timestamp'') (record_values (js_prop r ''path'')) @
     map (\<lambda>p. js_prop p ''joinedAt'') (record_values (js_prop r ''passengers''))"

definition latest_of :: "(jsval \<Rightarrow> jsnum option) \<Rightarrow> jsval list \<Rightarrow> jsnum option" where
  "latest_of sdk_millis vs = (let times = List.map_filter (timestamp_millis sdk_millis) vs in
     if times = [] then None else Some (js_max_list times))"

definition latest_session_activity :: "(jsval \<Rightarrow> jsnum option) \<Rightarrow> jsval \<Rightarrow> jsnum option" where
  "latest_session_activity sdk_millis r = latest_of sdk_millis (activity_values r)"

definition latest_active_ride_activity :: "(jsval \<Rightarrow> jsnum option) \<Rightarrow> jsval \<Rightarrow> jsnum option" where
  "latest_active_ride_activity sdk_millis r = latest_of sdk_millis [js_prop r ''updatedAt'', js_prop r ''createdAt'']"

definition latest_live_bus_activity :: "(jsval \<Rightarrow> jsnum option) \<Rightarrow> jsval \<Rightarrow> jsnum option" where
  "latest_live_bus_activity sdk_millis r =
     latest_of sdk_millis [js_prop r ''timestamp'', js_prop r ''receivedAt'', js_prop r ''lifecycleUpdatedAt'']"

definition matching_session :: "jsval \<Rightarrow> string \<Rightarrow> bool" where
  "matching_session r session_id \<longleftrightarrow> js_prop r ''sessionId'' = JStr session_id"

section \<open>The decision\<close>

datatype reconciliation_reason = Stale | Terminal | Recent | Unknown_Activity | Ready

record reconciliation_decision =
  rd_stale :: bool
  rd_last_activity :: "jsnum option"
  rd_reason :: reconciliation_reason

definition unused_automatic_return :: "string \<Rightarrow> jsval \<Rightarrow> jsval \<Rightarrow> jsval \<Rightarrow> bool" where
  "unused_automatic_return session_id session active_ride live_bus \<longleftrightarrow>
     js_prop session ''status'' = JStr ''armed'' \<and> js_prop session ''automaticTurnaround'' = JBool True \<and>
     js_prop session ''startTime'' \<in> {JUndef, JNull} \<and> matching_session active_ride session_id \<and>
     js_prop active_ride ''tripState'' = JStr ''pre_departure'' \<and> js_prop active_ride ''hasDepartedOrigin'' = JBool False \<and>
     (\<not> matching_session live_bus session_id \<or> js_prop live_bus ''tripState'' = JStr ''pre_departure'')"

definition reconcile :: "(jsval \<Rightarrow> jsnum option) \<Rightarrow> string \<Rightarrow> jsval \<Rightarrow> jsval \<Rightarrow> jsval \<Rightarrow> jsnum \<Rightarrow> jsnum \<Rightarrow> reconciliation_decision" where
  "reconcile sdk_millis session_id session active_ride live_bus cutoff now =
    (if js_prop session ''status'' \<notin> set reconcilable_ride_statuses
     then \<lparr>rd_stale = False, rd_last_activity = None, rd_reason = Terminal\<rparr>
     else (let unused = unused_automatic_return session_id session active_ride live_bus;
        session_activity = latest_session_activity sdk_millis session;
        ride_activity = (if matching_session active_ride session_id then latest_active_ride_activity sdk_millis active_ride else None);
        bus_activity = (if matching_session live_bus session_id then latest_live_bus_activity sdk_millis live_bus else None) in
      if matching_session active_ride session_id \<and> ride_activity = None \<or> matching_session live_bus session_id \<and> bus_activity = None
      then \<lparr>rd_stale = False, rd_last_activity = session_activity, rd_reason = Unknown_Activity\<rparr>
      else (let activities = List.map_filter id [session_activity, ride_activity, bus_activity] in
        if activities = [] then \<lparr>rd_stale = False, rd_last_activity = None, rd_reason = Unknown_Activity\<rparr>
        else (let last_activity = js_max_list activities;
            inactivity_cutoff = (if unused then js_min cutoff (now - automatic_return_retention_ms) else cutoff) in
          if last_activity \<le> inactivity_cutoff then \<lparr>rd_stale = True, rd_last_activity = Some last_activity, rd_reason = Stale\<rparr>
          else \<lparr>rd_stale = False, rd_last_activity = Some last_activity, rd_reason = (if unused then Ready else Recent)\<rparr>))))"

section \<open>Restoring a live node\<close>

record delay_preference =
  dp_minutes :: jsnum
  dp_updated_at :: jsnum

fun valid_delay_minutes :: "jsval \<Rightarrow> jsnum option" where
  "valid_delay_minutes (JNum v) = (if is_safe_integer v \<and> v \<ge> 0 \<and> v \<le> 1440 then Some v else None)"
| "valid_delay_minutes _ = None"

definition freshest_delay_minutes :: "jsval \<Rightarrow> jsval \<Rightarrow> delay_preference" where
  "freshest_delay_minutes live durable =
    (let live_minutes = valid_delay_minutes (js_prop live ''delayMinutes''); durable_minutes = valid_delay_minutes (js_prop durable ''delayMinutes'');
      live_at = delay_revision (js_prop live ''delayUpdatedAt''); durable_at = delay_revision (js_prop durable ''delayUpdatedAt'') in
     case durable_minutes of
       Some d \<Rightarrow> (case live_minutes of
           None \<Rightarrow> \<lparr>dp_minutes = d, dp_updated_at = durable_at\<rparr>
         | Some l \<Rightarrow> (if durable_at > live_at then \<lparr>dp_minutes = d, dp_updated_at = durable_at\<rparr> else \<lparr>dp_minutes = l, dp_updated_at = live_at\<rparr>))
     | None \<Rightarrow> \<lparr>dp_minutes = opt_default live_minutes 0, dp_updated_at = live_at\<rparr>)"

definition should_apply_restore_telemetry :: "(jsval \<Rightarrow> jsnum) \<Rightarrow> jsval \<Rightarrow> jsnum \<Rightarrow> bool" where
  "should_apply_restore_telemetry parse existing_timestamp candidate \<longleftrightarrow>
     (let existing = js_number parse existing_timestamp in \<not> is_finite existing \<or> existing < candidate)"

definition string_or_null :: "jsval \<Rightarrow> jsval" where
  "string_or_null v = (case v of JStr s \<Rightarrow> JStr s | _ \<Rightarrow> JNull)"

definition number_or_zero :: "jsval \<Rightarrow> jsval" where
  "number_or_zero v = (case v of JNum x \<Rightarrow> JNum x | _ \<Rightarrow> JNum 0)"

definition durable_lifecycle :: "jsval \<Rightarrow> fields option" where
  "durable_lifecycle v =
    (if js_prop v ''status'' \<noteq> JStr ''active'' \<or> str_of (js_prop v ''sessionId'') = None \<or> str_of (js_prop v ''driverId'') = None \<or>
        js_prop v ''tripState'' \<notin> {JStr ''pre_departure'', JStr ''in_service''} \<or> normalize_ride_direction (js_prop v ''direction'') = None then None
     else Some ([(''sessionId'', js_prop v ''sessionId''), (''driverId'', js_prop v ''driverId''), (''status'', JStr ''active''),
        (''direction'', js_prop v ''direction''), (''originStopId'', string_or_null (js_prop v ''originStopId'')),
        (''destinationStopId'', string_or_null (js_prop v ''destinationStopId'')),
        (''automaticTurnaround'', JBool (js_prop v ''automaticTurnaround'' = JBool True)), (''directionState'', JStr ''resolved''),
        (''directionEndpointVersion'', string_or_null (js_prop v ''directionEndpointVersion'')),
        (''directionFirestoreSynced'', JBool (js_prop v ''directionFirestoreSynced'' = JBool True)),
        (''previousSessionId'', string_or_null (js_prop v ''previousSessionId'')), (''completedAt'', JNull), (''turnaroundEligibleAt'', JNull),
        (''turnaroundSampledAt'', JNull), (''turnaroundClaimId'', JNull), (''turnaroundClaimedAt'', JNull), (''tripState'', js_prop v ''tripState''),
        (''currentStopIndex'', (case js_prop v ''currentStopIndex'' of JNum i \<Rightarrow> (if is_integer i then JNum i else JNum 0) | _ \<Rightarrow> JNum 0)),
        (''hasDepartedOrigin'', JBool (js_prop v ''hasDepartedOrigin'' = JBool True)),
        (''terminalArrival'', nullish (js_prop v ''terminalArrival'') JNull),
        (''gnssGap'', (case js_prop v ''gnssGapSince'' of
            JNum t \<Rightarrow> JObj [(''sessionId'', js_prop v ''sessionId''), (''since'', JNum t)] | _ \<Rightarrow> JNull))] @
       (case js_prop v ''lastRouteVersion'' of
          JNum n \<Rightarrow> (if is_safe_integer n \<and> n > 0 then [(''routeVersion'', JNum (n + 1))] else []) | _ \<Rightarrow> []) @
       [(''delayMinutes'', number_or_zero (js_prop v ''delayMinutes'')), (''delayUpdatedAt'', number_or_zero (js_prop v ''delayUpdatedAt''))]))"

definition durable_terminal_lifecycle :: "jsval \<Rightarrow> fields option" where
  "durable_terminal_lifecycle v = (case v of
      JObj fs \<Rightarrow>
        (if obj_get fs ''consumedBy'' \<noteq> JNull \<or> normalize_ride_direction (obj_get fs ''direction'') = None \<or>
            str_of (obj_get fs ''sessionId'') = None \<or> str_of (obj_get fs ''driverId'') = None \<or>
            str_of (obj_get fs ''directionEndpointVersion'') = None \<or> finite_num (obj_get fs ''completedAt'') = None \<or>
            finite_num (obj_get fs ''turnaroundEligibleAt'') = None \<or> finite_num (obj_get fs ''turnaroundSampledAt'') = None \<or>
            obj_get fs ''hasDepartedOrigin'' \<noteq> JBool True \<or>
            \<not> (case obj_get fs ''currentStopIndex'' of JNum i \<Rightarrow> is_integer i | _ \<Rightarrow> False) then None
         else Some (put_all fs [(''status'', JStr ''offline''), (''tripState'', JStr ''completed''), (''terminalArrival'', JNull),
           (''terminalArrivalConfirmedAt'', obj_get fs ''completedAt''), (''directionState'', JStr ''resolved''), (''turnaroundClaimId'', JNull),
           (''turnaroundClaimedAt'', JNull), (''lastCompletedSessionId'', obj_get fs ''sessionId''),
           (''lastCompletedAt'', obj_get fs ''completedAt''), (''lastCompletedRouteId'', obj_get fs ''routeId'')]))
    | _ \<Rightarrow> None)"

section \<open>Facts\<close>

lemma scaled_finite: "is_finite s \<Longrightarrow> is_finite (s * 1000)" "is_finite s \<Longrightarrow> is_finite n \<Longrightarrow> is_finite (s * 1000 + n / 1000000)"
  by (cases s; cases n; simp)+

lemma timestamp_millis_finite:
  assumes "timestamp_millis sdk v = Some t"
  shows "is_finite t"
proof (cases "sdk v")
  case (Some m)
  then show ?thesis using assms by (auto simp: timestamp_millis.simps finite_or_none_def split: if_splits)
next
  case None
  show ?thesis
  proof (cases v)
    case (JNum x)
    then show ?thesis using assms None scaled_finite(1) [of x] by (simp add: timestamp_millis.simps split: if_splits)
  next
    case (JObj fs)
    define a b where "a = nullish (obj_get fs ''seconds'') (obj_get fs ''_seconds'')"
      and "b = nullish (obj_get fs ''nanoseconds'') (nullish (obj_get fs ''_nanoseconds'') (JNum 0))"
    have e: "Some t = (case (a, b) of (JNum s, JNum n) \<Rightarrow> (if is_finite s \<and> is_finite n then Some (s * 1000 + n / 1000000) else None) | _ \<Rightarrow> None)"
      using assms unfolding JObj timestamp_millis.simps None [unfolded JObj] a_def b_def by (simp only: option.case jsval.case)
    obtain s where s: "a = JNum s" using e by (cases a) auto
    obtain n where n: "b = JNum n" using e s by (cases b) auto
    have "is_finite s \<and> is_finite n \<and> t = s * 1000 + n / 1000000"
      using e unfolding s n prod.case jsval.case by (cases "is_finite s \<and> is_finite n") (simp_all only: if_True if_False option.inject option.distinct simp_thms)
    then show ?thesis using scaled_finite(2) by blast
  qed (use assms None in \<open>simp_all add: timestamp_millis.simps\<close>)
qed

lemma max_list_in_list:
  assumes "\<forall>t\<in>set ts. is_finite t" "ts \<noteq> []"
  shows "is_finite (js_max_list ts) \<and> js_max_list ts \<in> set ts \<and> (\<forall>t\<in>set ts. t \<le> js_max_list ts)"
  using js_max_list_finite [OF assms(2,1)] assms(1) by blast

lemma latest_of_some:
  assumes "latest_of sdk vs = Some t"
  shows "is_finite t" "\<exists>v\<in>set vs. timestamp_millis sdk v = Some t" "\<And>v u. v \<in> set vs \<Longrightarrow> timestamp_millis sdk v = Some u \<Longrightarrow> u \<le> t"
proof -
  define ts where "ts = List.map_filter (timestamp_millis sdk) vs"
  have ts: "ts \<noteq> []" "t = js_max_list ts" using assms by (auto simp: latest_of_def ts_def Let_def split: if_splits)
  have mem: "u \<in> set ts \<longleftrightarrow> (\<exists>v\<in>set vs. timestamp_millis sdk v = Some u)" for u
    by (force simp: ts_def map_filter_def)
  have "\<forall>u\<in>set ts. is_finite u" using mem timestamp_millis_finite by blast
  then have m: "is_finite t" "t \<in> set ts" "\<forall>u\<in>set ts. u \<le> t" using max_list_in_list [OF _ ts(1)] ts(2) by auto
  then show "is_finite t" "\<exists>v\<in>set vs. timestamp_millis sdk v = Some t" using mem by auto
  show "\<And>v u. v \<in> set vs \<Longrightarrow> timestamp_millis sdk v = Some u \<Longrightarrow> u \<le> t" using m(3) mem by blast
qed

lemma latest_some_activity: "timestamp_millis sdk v = Some t \<Longrightarrow> v \<in> set vs \<Longrightarrow> \<exists>u. latest_of sdk vs = Some u \<and> t \<le> u"
proof -
  assume t: "timestamp_millis sdk v = Some t" "v \<in> set vs"
  then have "t \<in> set (List.map_filter (timestamp_millis sdk) vs)" by (force simp: map_filter_def)
  then have "List.map_filter (timestamp_millis sdk) vs \<noteq> []" by auto
  then obtain u where u: "latest_of sdk vs = Some u" by (simp add: latest_of_def Let_def)
  with t latest_of_some(3) show ?thesis by blast
qed

definition inactivity_limit :: "string \<Rightarrow> jsval \<Rightarrow> jsval \<Rightarrow> jsval \<Rightarrow> jsnum \<Rightarrow> jsnum \<Rightarrow> jsnum" where
  "inactivity_limit session_id session active_ride live_bus cutoff now =
    (if unused_automatic_return session_id session active_ride live_bus then js_min cutoff (now - automatic_return_retention_ms) else cutoff)"

text \<open>A ride is retired for inactivity only when it is safe: exactly when its status is open, every
  matching lifecycle record has a time that can be read, some activity is known, and every activity of
  the session, of its active ride and of its live bus is at or before the limit, which for an unused
  return trip leaves at least a day. The times are in the order of the clock, so no later activity is
  overlooked, stops, path and passengers included.\<close>

theorem stale_ride_inactive:
  assumes "is_finite cutoff" "is_finite now"
  shows "rd_stale (reconcile sdk session_id session active_ride live_bus cutoff now) \<longleftrightarrow>
    js_prop session ''status'' \<in> set reconcilable_ride_statuses \<and>
    (matching_session active_ride session_id \<longrightarrow> latest_active_ride_activity sdk active_ride \<noteq> None) \<and>
    (matching_session live_bus session_id \<longrightarrow> latest_live_bus_activity sdk live_bus \<noteq> None) \<and>
    (latest_session_activity sdk session \<noteq> None \<or> matching_session active_ride session_id \<or> matching_session live_bus session_id) \<and>
    (\<forall>v\<in>set (activity_values session). \<forall>t. timestamp_millis sdk v = Some t \<longrightarrow> t \<le> inactivity_limit session_id session active_ride live_bus cutoff now) \<and>
    (matching_session active_ride session_id \<longrightarrow> (\<forall>t. latest_active_ride_activity sdk active_ride = Some t \<longrightarrow>
      t \<le> inactivity_limit session_id session active_ride live_bus cutoff now)) \<and>
    (matching_session live_bus session_id \<longrightarrow> (\<forall>t. latest_live_bus_activity sdk live_bus = Some t \<longrightarrow>
      t \<le> inactivity_limit session_id session active_ride live_bus cutoff now))"
proof -
  define limit where "limit = inactivity_limit session_id session active_ride live_bus cutoff now"
  define sa where "sa = latest_session_activity sdk session"
  define ra where "ra = (if matching_session active_ride session_id then latest_active_ride_activity sdk active_ride else None)"
  define ba where "ba = (if matching_session live_bus session_id then latest_live_bus_activity sdk live_bus else None)"
  define acts where "acts = List.map_filter id [sa, ra, ba]"
  have acts: "t \<in> set acts \<longleftrightarrow> sa = Some t \<or> ra = Some t \<or> ba = Some t" for t
    by (auto simp: acts_def map_filter_def)
  have fin: "\<forall>t\<in>set acts. is_finite t"
  proof
    fix t
    assume "t \<in> set acts"
    then consider "sa = Some t" | "ra = Some t" | "ba = Some t" using acts by blast
    then show "is_finite t"
      by cases (auto simp: sa_def ra_def ba_def latest_session_activity_def latest_active_ride_activity_def
          latest_live_bus_activity_def intro: latest_of_some(1) split: if_splits)
  qed
  have all: "js_max_list acts \<le> limit \<longleftrightarrow> (\<forall>t\<in>set acts. t \<le> limit)" if "acts \<noteq> []"
    using max_list_in_list [OF fin that] le_trans_num by blast
  have ses: "(\<forall>t. sa = Some t \<longrightarrow> t \<le> limit) \<longleftrightarrow> (\<forall>v\<in>set (activity_values session). \<forall>t. timestamp_millis sdk v = Some t \<longrightarrow> t \<le> limit)"
  proof
    assume a: "\<forall>t. sa = Some t \<longrightarrow> t \<le> limit"
    show "\<forall>v\<in>set (activity_values session). \<forall>t. timestamp_millis sdk v = Some t \<longrightarrow> t \<le> limit"
    proof (intro ballI allI impI)
      fix v t
      assume "v \<in> set (activity_values session)" "timestamp_millis sdk v = Some t"
      then obtain u where "sa = Some u" "t \<le> u" using latest_some_activity unfolding sa_def latest_session_activity_def by blast
      then show "t \<le> limit" using a le_trans_num by blast
    qed
  next
    assume a: "\<forall>v\<in>set (activity_values session). \<forall>t. timestamp_millis sdk v = Some t \<longrightarrow> t \<le> limit"
    show "\<forall>t. sa = Some t \<longrightarrow> t \<le> limit"
    proof (intro allI impI)
      fix t
      assume "sa = Some t"
      then obtain v where "v \<in> set (activity_values session)" "timestamp_millis sdk v = Some t"
        using latest_of_some(2) unfolding sa_def latest_session_activity_def by blast
      then show "t \<le> limit" using a by blast
    qed
  qed
  have "rd_stale (reconcile sdk session_id session active_ride live_bus cutoff now) \<longleftrightarrow>
      js_prop session ''status'' \<in> set reconcilable_ride_statuses \<and>
      \<not> (matching_session active_ride session_id \<and> ra = None \<or> matching_session live_bus session_id \<and> ba = None) \<and>
      acts \<noteq> [] \<and> js_max_list acts \<le> limit"
    unfolding reconcile_def limit_def inactivity_limit_def acts_def ra_def ba_def sa_def Let_def by simp
  also have "\<dots> \<longleftrightarrow> js_prop session ''status'' \<in> set reconcilable_ride_statuses \<and>
      (matching_session active_ride session_id \<longrightarrow> ra \<noteq> None) \<and> (matching_session live_bus session_id \<longrightarrow> ba \<noteq> None) \<and>
      (sa \<noteq> None \<or> ra \<noteq> None \<or> ba \<noteq> None) \<and>
      (\<forall>t. sa = Some t \<longrightarrow> t \<le> limit) \<and> (\<forall>t. ra = Some t \<longrightarrow> t \<le> limit) \<and> (\<forall>t. ba = Some t \<longrightarrow> t \<le> limit)"
  proof -
    have "acts \<noteq> [] \<longleftrightarrow> (sa \<noteq> None \<or> ra \<noteq> None \<or> ba \<noteq> None)"
      using acts by (metis ex_in_conv not_None_eq set_empty)
    moreover have "(\<forall>t\<in>set acts. t \<le> limit) \<longleftrightarrow>
        (\<forall>t. sa = Some t \<longrightarrow> t \<le> limit) \<and> (\<forall>t. ra = Some t \<longrightarrow> t \<le> limit) \<and> (\<forall>t. ba = Some t \<longrightarrow> t \<le> limit)"
      unfolding Ball_def acts by blast
    ultimately have "(acts \<noteq> [] \<and> js_max_list acts \<le> limit) \<longleftrightarrow> (sa \<noteq> None \<or> ra \<noteq> None \<or> ba \<noteq> None) \<and>
        (\<forall>t. sa = Some t \<longrightarrow> t \<le> limit) \<and> (\<forall>t. ra = Some t \<longrightarrow> t \<le> limit) \<and> (\<forall>t. ba = Some t \<longrightarrow> t \<le> limit)"
      by (cases "acts = []") (simp_all only: all simp_thms not_True_eq_False not_False_eq_True)
    then show ?thesis by (simp only: de_Morgan_disj de_Morgan_conj imp_conv_disj not_not conj_assoc)
  qed
  also have "\<dots> \<longleftrightarrow> js_prop session ''status'' \<in> set reconcilable_ride_statuses \<and>
      (matching_session active_ride session_id \<longrightarrow> latest_active_ride_activity sdk active_ride \<noteq> None) \<and>
      (matching_session live_bus session_id \<longrightarrow> latest_live_bus_activity sdk live_bus \<noteq> None) \<and>
      (sa \<noteq> None \<or> matching_session active_ride session_id \<or> matching_session live_bus session_id) \<and>
      (\<forall>t. sa = Some t \<longrightarrow> t \<le> limit) \<and>
      (matching_session active_ride session_id \<longrightarrow> (\<forall>t. latest_active_ride_activity sdk active_ride = Some t \<longrightarrow> t \<le> limit)) \<and>
      (matching_session live_bus session_id \<longrightarrow> (\<forall>t. latest_live_bus_activity sdk live_bus = Some t \<longrightarrow> t \<le> limit))"
    unfolding ra_def ba_def by (cases "matching_session active_ride session_id"; cases "matching_session live_bus session_id") (simp_all, blast+)
  finally show ?thesis unfolding ses unfolding limit_def sa_def .
qed

theorem stale_ride_inactive_witness:
  "rd_stale (reconcile (\<lambda>_. None) ''s'' (JObj [(''status'', JStr ''armed''), (''createdAt'', JNum 5)]) JNull JNull 6000 100000000)"
  by (subst stale_ride_inactive)
    (simp_all add: reconcilable_ride_statuses_def matching_session_def activity_values_def record_values_def timestamp_millis.simps
      seconds_to_milliseconds_cutoff_def inactivity_limit_def unused_automatic_return_def latest_session_activity_def latest_of_def map_filter_def Let_def)

end
