(* ===== verification/Route_Segment.thy ===== *)
theory Route_Segment imports Polyline begin

text \<open>
  Cutting a directional polyline between two stops (\<open>lib/routeSegment.ts\<close>): the dynamic programme
  that gives each stop of the itinerary a vertex, in order and at the least total squared distance,
  and the slice between two of them.
\<close>

section \<open>Placing the stops\<close>

text \<open>A stop object; \<open>ss_ref\<close> is its identity, which \<open>indexOf\<close> compares.\<close>

record segment_stop =
  ss_ref :: nat
  ss_id :: string
  ss_at :: position
  ss_waypoint_index :: "jsnum option"

definition prefix_step :: "jsnum list option \<Rightarrow> jsnum \<times> int \<Rightarrow> nat \<Rightarrow> jsnum \<times> int" where
  "prefix_step previous_cost = (\<lambda>(prefix_cost, prefix_index) i. (case previous_cost of
      Some previous \<Rightarrow> (if previous ! i < prefix_cost then (previous ! i, int i) else (prefix_cost, prefix_index))
    | None \<Rightarrow> (prefix_cost, prefix_index)))"

fun fill_row :: "position list \<Rightarrow> position \<Rightarrow> jsnum list option \<Rightarrow> nat list \<Rightarrow> jsnum \<times> int \<Rightarrow> (jsnum \<times> int) list" where
  "fill_row coordinates stop previous_cost [] s = []"
| "fill_row coordinates stop previous_cost (i # is) s =
    (let s' = prefix_step previous_cost s i in
     (squared_distance (coordinates ! i) stop + fst s', snd s') # fill_row coordinates stop previous_cost is s')"

definition project_row :: "position list \<Rightarrow> (jsnum list option \<times> int list list) \<Rightarrow> segment_stop \<Rightarrow> (jsnum list option \<times> int list list)" where
  "project_row coordinates = (\<lambda>(previous_cost, choices) stop.
     (let row = fill_row coordinates (ss_at stop) previous_cost [0..<length coordinates]
          (if previous_cost = None then 0 else PosInf, -1) in
      (Some (map fst row), choices @ [map snd row])))"

definition cheapest_end :: "jsnum list \<Rightarrow> nat \<Rightarrow> nat" where
  "cheapest_end cost count = foldl (\<lambda>i candidate. if cost ! candidate \<le> cost ! i then candidate else i) 0 [1..<count]"

text \<open>An element of a typed array; out of range it is \<open>undefined\<close>.\<close>

definition typed_at :: "int list \<Rightarrow> int option \<Rightarrow> int option" where
  "typed_at xs i = (case i of Some k \<Rightarrow> (if 0 \<le> k \<and> k < int (length xs) then Some (xs ! nat k) else None) | None \<Rightarrow> None)"

text \<open>The backwards loop over the choices, last stop first.\<close>

fun trace_back :: "int list list \<Rightarrow> int option \<Rightarrow> int option list" where
  "trace_back [] i = []"
| "trace_back (choice # choices) i = trace_back choices (typed_at choice i) @ [i]"

definition project_stops_in_order :: "position list \<Rightarrow> segment_stop list \<Rightarrow> int option list" where
  "project_stops_in_order coordinates stops =
    (case foldl (project_row coordinates) (None, []) stops of
      (None, _) \<Rightarrow> []
    | (Some cost, choices) \<Rightarrow> trace_back (rev choices) (Some (int (cheapest_end cost (length coordinates)))))"

section \<open>The slice\<close>

datatype segment_error = Short_Polyline | Stop_Not_On_Route | Start_Not_Before_End | Via_Not_Between | Stops_Too_Close

record route_segment =
  rs_coordinates :: "position list"
  rs_stops :: "segment_stop list"

fun index_of :: "segment_stop list \<Rightarrow> segment_stop \<Rightarrow> int" where
  "index_of [] s = -1"
| "index_of (t # ts) s = (if ss_ref t = ss_ref s then 0 else (let i = index_of ts s in if i < 0 then -1 else i + 1))"

text \<open>\<open>slice(a, b)\<close>: a negative position counts from the end.\<close>

definition slice_at :: "nat \<Rightarrow> int \<Rightarrow> nat" where
  "slice_at n k = nat (if k < 0 then int n + k else k)"

definition js_slice :: "'a list \<Rightarrow> int \<Rightarrow> int \<Rightarrow> 'a list" where
  "js_slice xs a b = (let i = slice_at (length xs) a; j = slice_at (length xs) b in take (j - i) (drop i xs))"

definition build_route_segment ::
    "position list \<Rightarrow> segment_stop list \<Rightarrow> segment_stop \<Rightarrow> segment_stop \<Rightarrow> segment_stop option \<Rightarrow> segment_error + route_segment" where
  "build_route_segment full_coordinates stops start end_stop via =
    (if length full_coordinates < 2 then Inl Short_Polyline
     else (let start_position = index_of stops start; end_position = index_of stops end_stop in
       if start_position < 0 \<or> end_position < 0 then Inl Stop_Not_On_Route
       else if start_position \<ge> end_position then Inl Start_Not_Before_End
       else if (case via of Some v \<Rightarrow> index_of stops v \<le> start_position \<or> index_of stops v \<ge> end_position | None \<Rightarrow> False)
         then Inl Via_Not_Between
       else (let indices = project_stops_in_order full_coordinates stops in
         (case (indices ! nat start_position, indices ! nat end_position) of
           (Some start_index, Some end_index) \<Rightarrow>
             (if start_index \<ge> end_index then Inl Stops_Too_Close
              else Inr \<lparr>rs_coordinates = js_slice full_coordinates start_index (end_index + 1),
                rs_stops = js_slice stops start_position (end_position + 1)\<rparr>)
         | (start_index, end_index) \<Rightarrow>
             Inr \<lparr>rs_coordinates = js_slice full_coordinates (opt_default start_index 0)
                  (case end_index of Some e \<Rightarrow> e + 1 | None \<Rightarrow> 0),
                rs_stops = js_slice stops start_position (end_position + 1)\<rparr>))))"

section \<open>Order-preserving placements\<close>

text \<open>The specification: a placement gives each stop a vertex, in order; its cost is the sum of the
  squared distances.\<close>

definition is_placement :: "nat \<Rightarrow> nat \<Rightarrow> nat list \<Rightarrow> bool" where
  "is_placement count n is \<longleftrightarrow> length is = n \<and> sorted is \<and> (\<forall>i\<in>set is. i < count)"

fun placement_cost :: "position list \<Rightarrow> segment_stop list \<Rightarrow> nat list \<Rightarrow> jsnum" where
  "placement_cost cs (s # ss) (i # is) = squared_distance (cs ! i) (ss_at s) + placement_cost cs ss is"
| "placement_cost cs _ _ = 0"

definition sq :: "position \<Rightarrow> position \<Rightarrow> real" where
  "sq p q = num_real (squared_distance p q)"

definition cost_of :: "position list \<Rightarrow> segment_stop list \<Rightarrow> nat list \<Rightarrow> real" where
  "cost_of cs ss is = sum_list (map2 (\<lambda>s i. sq (cs ! i) (ss_at s)) ss is)"

definition finite_position :: "position \<Rightarrow> bool" where
  "finite_position p \<longleftrightarrow> is_finite (pos_lat p) \<and> is_finite (pos_lng p)"

lemma squared_fin: "finite_position p \<Longrightarrow> finite_position q \<Longrightarrow> squared_distance p q = Fin (sq p q) \<and> 0 \<le> sq p q"
  by (cases p; cases q) (auto simp: finite_position_def squared_distance_def sq_def elim!: is_finiteE)

lemma placement_cost_fin:
  assumes "\<forall>p\<in>set cs. finite_position p" "\<forall>s\<in>set ss. finite_position (ss_at s)" "\<forall>i\<in>set is. i < length cs"
  shows "placement_cost cs ss is = Fin (cost_of cs ss is)"
  using assms
  by (induction cs ss "is" rule: placement_cost.induct) (auto simp: cost_of_def squared_fin)

section \<open>One row of the programme\<close>

lemma fill_row_nth:
  "n < length is \<Longrightarrow> fill_row cs stop prev is s ! n =
    (let s' = foldl (prefix_step prev) s (take (Suc n) is) in (squared_distance (cs ! (is ! n)) stop + fst s', snd s'))"
proof (induction "is" arbitrary: s n)
  case (Cons i "is")
  then show ?case by (cases n) (simp_all add: Let_def)
qed simp

lemma length_fill_row [simp]: "length (fill_row cs stop prev is s) = length is"
  by (induction "is" arbitrary: s) (simp_all add: Let_def)

lemma prefix_none: "foldl (prefix_step None) s is = s"
  by (induction "is" arbitrary: s) (simp_all add: prefix_step_def split: prod.split)

lemma prefix_minimum:
  assumes "\<forall>j\<le>n. prev ! j = Fin (q j)"
  shows "\<exists>m\<le>n. foldl (prefix_step (Some prev)) (PosInf, -1) [0..<Suc n] = (Fin (q m), int m) \<and> (\<forall>j\<le>n. q m \<le> q j)"
  using assms
proof (induction n)
  case 0
  then show ?case by (simp add: prefix_step_def)
next
  case (Suc n)
  then obtain m where m: "m \<le> n" "foldl (prefix_step (Some prev)) (PosInf, -1) [0..<Suc n] = (Fin (q m), int m)" "\<forall>j\<le>n. q m \<le> q j"
    by auto
  have f: "foldl (prefix_step (Some prev)) (PosInf, -1) [0..<Suc (Suc n)] = prefix_step (Some prev) (Fin (q m), int m) (Suc n)"
    using m(2) by (simp only: upt_Suc_append [of 0 "Suc n"] foldl_append) simp
  have p: "prev ! Suc n = Fin (q (Suc n))" using Suc.prems by blast
  show ?case
  proof (cases "q (Suc n) < q m")
    case True
    have "\<forall>j\<le>Suc n. q (Suc n) \<le> q j" using True m(3) by (metis le_SucE less_eq_real_def order_less_le_trans)
    with True p f show ?thesis by (intro exI [of _ "Suc n"]) (simp add: prefix_step_def)
  next
    case False
    with m p f show ?thesis by (intro exI [of _ m]) (auto simp: prefix_step_def le_Suc_eq)
  qed
qed

section \<open>The rows are optimal\<close>

lemma cost_of_snoc: "length is = length ss \<Longrightarrow> cost_of cs (ss @ [s]) (is @ [i]) = cost_of cs ss is + sq (cs ! i) (ss_at s)"
  by (simp add: cost_of_def)

lemma placement_snoc:
  assumes "is \<noteq> []"
  shows "is_placement c (Suc n) (is @ [i]) \<longleftrightarrow> is_placement c n is \<and> last is \<le> i \<and> i < c"
proof -
  have "x \<le> last is" if "sorted is" "x \<in> set is" for x
    using that assms by (metis append_butlast_last_id sorted_append list.set_intros(1) Un_iff set_append empty_iff set_ConsD order_refl empty_set)
  then show ?thesis using assms by (fastforce simp: is_placement_def sorted_append)
qed

definition entry_ok :: "position list \<Rightarrow> segment_stop list \<Rightarrow> jsnum list \<Rightarrow> int list list \<Rightarrow> nat \<Rightarrow> nat list \<Rightarrow> bool" where
  "entry_ok cs ss cost choices i is \<longleftrightarrow> trace_back (rev choices) (Some (int i)) = map (\<lambda>k. Some (int k)) is \<and>
     is_placement (length cs) (length ss) is \<and> is \<noteq> [] \<and> last is = i \<and> cost ! i = Fin (cost_of cs ss is) \<and>
     (\<forall>js. is_placement (length cs) (length ss) js \<longrightarrow> js \<noteq> [] \<longrightarrow> last js = i \<longrightarrow> cost_of cs ss is \<le> cost_of cs ss js)"

definition rows_ok :: "position list \<Rightarrow> segment_stop list \<Rightarrow> jsnum list \<Rightarrow> int list list \<Rightarrow> bool" where
  "rows_ok cs ss cost choices \<longleftrightarrow> length cost = length cs \<and> (\<forall>i<length cs. \<exists>is. entry_ok cs ss cost choices i is)"

lemma rows_first:
  assumes "\<forall>p\<in>set cs. finite_position p" "finite_position (ss_at s)"
  shows "\<exists>cost choices. project_row cs (None, []) s = (Some cost, choices) \<and> rows_ok cs [s] cost choices"
proof -
  define row where "row = fill_row cs (ss_at s) None [0..<length cs] (0, -1)"
  have r: "project_row cs (None, []) s = (Some (map fst row), [map snd row])" by (simp add: project_row_def row_def Let_def)
  have n: "row ! i = (Fin (sq (cs ! i) (ss_at s)), -1)" if "i < length cs" for i
    using that assms squared_fin [of "cs ! i" "ss_at s"] unfolding row_def by (subst fill_row_nth) (simp_all only: prefix_none length_upt Let_def, simp_all)
  have "entry_ok cs [s] (map fst row) [map snd row] i [i]" if "i < length cs" for i
    using that n by (auto simp: entry_ok_def is_placement_def cost_of_def row_def length_Suc_conv)
  then show ?thesis using r by (auto simp: rows_ok_def row_def)
qed

lemma rows_next:
  assumes rows: "rows_ok cs ss cost choices" and fin: "\<forall>p\<in>set cs. finite_position p" "finite_position (ss_at s)" and ne: "ss \<noteq> []"
  shows "\<exists>cost' choices'. project_row cs (Some cost, choices) s = (Some cost', choices') \<and> rows_ok cs (ss @ [s]) cost' choices'"
proof -
  define row where "row = fill_row cs (ss_at s) (Some cost) [0..<length cs] (PosInf, -1)"
  have r: "project_row cs (Some cost, choices) s = (Some (map fst row), choices @ [map snd row])" by (simp add: project_row_def row_def Let_def)
  obtain place where place: "\<forall>i<length cs. entry_ok cs ss cost choices i (place i)" using rows unfolding rows_ok_def by metis
  define q where "q = (\<lambda>i. cost_of cs ss (place i))"
  have "\<exists>is. entry_ok cs (ss @ [s]) (map fst row) (choices @ [map snd row]) i is" if i: "i < length cs" for i
  proof -
    have q: "\<forall>j\<le>i. cost ! j = Fin (q j)" using place i by (auto simp: entry_ok_def q_def)
    obtain m where m: "m \<le> i" "foldl (prefix_step (Some cost)) (PosInf, -1) [0..<Suc i] = (Fin (q m), int m)" "\<forall>j\<le>i. q m \<le> q j"
      using prefix_minimum [OF q] by blast
    have row: "row ! i = (Fin (sq (cs ! i) (ss_at s) + q m), int m)"
      using i fin squared_fin [of "cs ! i" "ss_at s"] m(2) unfolding row_def by (subst fill_row_nth) (simp_all add: take_upt Let_def del: upt_Suc)
    have len: "length row = length cs" by (simp add: row_def)
    have pm: "entry_ok cs ss cost choices m (place m)" using place m(1) i by auto
    have "cost_of cs (ss @ [s]) (place m @ [i]) \<le> cost_of cs (ss @ [s]) js"
      if js: "is_placement (length cs) (length (ss @ [s])) js" "js \<noteq> []" "last js = i" for js
    proof -
      obtain us where us: "js = us @ [i]" using js(2,3) by (metis append_butlast_last_id)
      have lu: "length us = length ss" using js(1) us by (simp add: is_placement_def)
      then have une: "us \<noteq> []" using ne by auto
      then have p: "is_placement (length cs) (length ss) us" "last us \<le> i" using js(1) us by (simp_all add: placement_snoc)
      then have "last us < length cs" using i by linarith
      then have "q (last us) \<le> cost_of cs ss us" using place p(1) une by (auto simp: entry_ok_def q_def)
      moreover have "q m \<le> q (last us)" using m(3) p(2) by blast
      ultimately show ?thesis using us lu pm by (simp add: cost_of_snoc q_def entry_ok_def is_placement_def)
    qed
    moreover have "trace_back (rev (choices @ [map snd row])) (Some (int i)) = map (\<lambda>k. Some (int k)) (place m @ [i])"
      using pm row len i by (simp add: entry_ok_def typed_at_def)
    moreover have "is_placement (length cs) (length (ss @ [s])) (place m @ [i])"
      using pm m(1) i by (simp add: entry_ok_def placement_snoc)
    moreover have "map fst row ! i = Fin (cost_of cs (ss @ [s]) (place m @ [i]))"
      using pm row len i by (simp add: entry_ok_def is_placement_def cost_of_snoc q_def)
    ultimately show ?thesis by (intro exI [of _ "place m @ [i]"]) (simp add: entry_ok_def)
  qed
  then show ?thesis using r by (auto simp: rows_ok_def row_def)
qed

lemma rows_all:
  assumes "\<forall>p\<in>set cs. finite_position p" "\<forall>s\<in>set ss. finite_position (ss_at s)" "ss \<noteq> []"
  shows "\<exists>cost choices. foldl (project_row cs) (None, []) ss = (Some cost, choices) \<and> rows_ok cs ss cost choices"
  using assms(2,3)
proof (induction ss rule: rev_induct)
  case (snoc s ss)
  show ?case
  proof (cases "ss = []")
    case True
    then show ?thesis using rows_first assms(1) snoc.prems by simp
  next
    case False
    with snoc obtain cost choices where "foldl (project_row cs) (None, []) ss = (Some cost, choices)" "rows_ok cs ss cost choices" by auto
    then show ?thesis using rows_next [OF _ assms(1) _ False] snoc.prems by simp
  qed
qed simp

section \<open>The end of the itinerary\<close>

lemma cheapest_end:
  assumes "\<forall>i<n. cost ! i = Fin (c i)" "0 < n"
  shows "cheapest_end cost n < n \<and> (\<forall>i<n. c (cheapest_end cost n) \<le> c i) \<and> (\<forall>i<n. c i = c (cheapest_end cost n) \<longrightarrow> i \<le> cheapest_end cost n)"
  using assms
proof (induction n)
  case (Suc n)
  show ?case
  proof (cases "n = 0")
    case True
    then show ?thesis by (simp add: cheapest_end_def)
  next
    case False
    define e where "e = cheapest_end cost n"
    have e: "e < n" "\<forall>i<n. c e \<le> c i" "\<forall>i<n. c i = c e \<longrightarrow> i \<le> e" using Suc False by (auto simp: e_def)
    have s: "cheapest_end cost (Suc n) = (if cost ! n \<le> cost ! e then n else e)"
      using False by (simp add: cheapest_end_def e_def)
    show ?thesis
    proof (cases "c n \<le> c e")
      case True
      then have "\<forall>i<Suc n. c n \<le> c i" using e(2) by (metis less_SucE order_refl order_trans)
      then show ?thesis using s True e Suc.prems by auto
    next
      case False
      then show ?thesis using s e Suc.prems by (auto simp: less_Suc_eq)
    qed
  qed
qed simp

lemma projection_best:
  assumes "\<forall>p\<in>set cs. finite_position p" "\<forall>s\<in>set ss. finite_position (ss_at s)" "ss \<noteq> []" "cs \<noteq> []"
  shows "\<exists>is. project_stops_in_order cs ss = map (\<lambda>k. Some (int k)) is \<and> is_placement (length cs) (length ss) is \<and>
    (\<forall>js. is_placement (length cs) (length ss) js \<longrightarrow> cost_of cs ss is \<le> cost_of cs ss js \<and>
      (cost_of cs ss js = cost_of cs ss is \<longrightarrow> last js \<le> last is))"
proof -
  obtain cost choices where f: "foldl (project_row cs) (None, []) ss = (Some cost, choices)" and r: "rows_ok cs ss cost choices"
    using rows_all [OF assms(1-3)] by blast
  obtain place where place: "\<forall>i<length cs. entry_ok cs ss cost choices i (place i)" using r unfolding rows_ok_def by metis
  define c e where "c = (\<lambda>i. cost_of cs ss (place i))" and "e = cheapest_end cost (length cs)"
  have "\<forall>i<length cs. cost ! i = Fin (c i)" using place by (auto simp: entry_ok_def c_def)
  then have e: "e < length cs" "\<forall>i<length cs. c e \<le> c i" "\<forall>i<length cs. c i = c e \<longrightarrow> i \<le> e"
    using cheapest_end [of "length cs" cost c] assms(4) by (auto simp: e_def)
  then have pe: "entry_ok cs ss cost choices e (place e)" using place by blast
  have best: "c e \<le> cost_of cs ss js \<and> (cost_of cs ss js = c e \<longrightarrow> last js \<le> e)"
    if js: "is_placement (length cs) (length ss) js" for js
  proof -
    have ne: "js \<noteq> []" using js assms(3) by (auto simp: is_placement_def)
    then have l: "last js < length cs" using js by (simp add: is_placement_def)
    then have "c (last js) \<le> cost_of cs ss js" using place js ne by (auto simp: entry_ok_def c_def)
    with e(2,3) l show ?thesis by (metis order_antisym order_trans)
  qed
  then show ?thesis using pe f
    by (intro exI [of _ "place e"]) (auto simp: project_stops_in_order_def entry_ok_def e_def [symmetric] c_def)
qed

lemma projection_exists:
  assumes "\<forall>p\<in>set cs. finite_position p" "\<forall>s\<in>set ss. finite_position (ss_at s)" "ss \<noteq> []" "cs \<noteq> []"
  obtains "is" where "project_stops_in_order cs ss = map (\<lambda>k. Some (int k)) is" "is_placement (length cs) (length ss) is"
  using projection_best [OF assms] by blast

text \<open>C17. The itinerary is placed optimally: on finite coordinates the dynamic programme gives every stop
  a vertex of the polyline, in order, at a total squared distance that no order-preserving placement
  beats, and among the optimal placements none ends later. This is the brute-force specification, so
  a loop that passes a stop twice resolves it to the visit that fits the whole itinerary.\<close>

theorem projection_optimal:
  assumes "\<forall>p\<in>set cs. finite_position p" "\<forall>s\<in>set ss. finite_position (ss_at s)" "ss \<noteq> []" "cs \<noteq> []"
  shows "\<exists>is. project_stops_in_order cs ss = map (\<lambda>k. Some (int k)) is \<and> is_placement (length cs) (length ss) is \<and>
    (\<forall>js. is_placement (length cs) (length ss) js \<longrightarrow> placement_cost cs ss is \<le> placement_cost cs ss js \<and>
      (placement_cost cs ss js = placement_cost cs ss is \<longrightarrow> last js \<le> last is))"
proof -
  have "placement_cost cs ss js = Fin (cost_of cs ss js)" if "is_placement (length cs) (length ss) js" for js
    using that placement_cost_fin [OF assms(1,2)] by (simp add: is_placement_def)
  moreover obtain "is" where "project_stops_in_order cs ss = map (\<lambda>k. Some (int k)) is" "is_placement (length cs) (length ss) is"
    "\<forall>js. is_placement (length cs) (length ss) js \<longrightarrow> cost_of cs ss is \<le> cost_of cs ss js \<and> (cost_of cs ss js = cost_of cs ss is \<longrightarrow> last js \<le> last is)"
    using projection_best [OF assms] by blast
  ultimately show ?thesis by (intro exI [of _ "is"]) simp
qed

theorem projection_optimal_witness:
  "\<exists>is. project_stops_in_order [\<lparr>pos_lat = 0, pos_lng = 0\<rparr>, \<lparr>pos_lat = 1, pos_lng = 0\<rparr>, \<lparr>pos_lat = 0, pos_lng = 0\<rparr>]
      [\<lparr>ss_ref = 0, ss_id = ''a'', ss_at = \<lparr>pos_lat = 1, pos_lng = 0\<rparr>, ss_waypoint_index = None\<rparr>,
       \<lparr>ss_ref = 1, ss_id = ''b'', ss_at = \<lparr>pos_lat = 0, pos_lng = 0\<rparr>, ss_waypoint_index = None\<rparr>] = map (\<lambda>k. Some (int k)) is \<and> is_placement 3 2 is"
  using projection_optimal [of "[\<lparr>pos_lat = 0, pos_lng = 0\<rparr>, \<lparr>pos_lat = 1, pos_lng = 0\<rparr>, \<lparr>pos_lat = 0, pos_lng = 0\<rparr>]"
      "[\<lparr>ss_ref = 0, ss_id = ''a'', ss_at = \<lparr>pos_lat = 1, pos_lng = 0\<rparr>, ss_waypoint_index = None\<rparr>,
       \<lparr>ss_ref = 1, ss_id = ''b'', ss_at = \<lparr>pos_lat = 0, pos_lng = 0\<rparr>, ss_waypoint_index = None\<rparr>]"]
  by (auto simp: finite_position_def numeral_2_eq_2 numeral_3_eq_3)

lemma index_of_bounds: "0 \<le> index_of ss t \<longleftrightarrow> ss_ref t \<in> ss_ref ` set ss"
  "-1 \<le> index_of ss t" "index_of ss t < int (length ss)"
  by (induction ss) (auto simp: Let_def)

text \<open>A slice is cut exactly when the request is sound: both stops on the route, in order, the via stop
  strictly between them, and the two placed at different vertices.\<close>

lemma segment_slice:
  assumes "\<forall>p\<in>set cs. finite_position p" "\<forall>s\<in>set ss. finite_position (ss_at s)" "build_route_segment cs ss start end_stop via = Inr seg"
  obtains a b i j where "index_of ss start = int a" "index_of ss end_stop = int b" "a < b" "b < length ss"
    "project_stops_in_order cs ss ! a = Some (int i)" "project_stops_in_order cs ss ! b = Some (int j)" "i < j" "j < length cs"
    "rs_coordinates seg = take (Suc j - i) (drop i cs)" "rs_stops seg = take (Suc b - a) (drop a ss)"
    "\<forall>v. via = Some v \<longrightarrow> int a < index_of ss v \<and> index_of ss v < int b"
proof -
  define x y where "x = index_of ss start" and "y = index_of ss end_stop"
  have 1: "2 \<le> length cs" "0 \<le> x" "0 \<le> y" "x < y" "\<forall>v. via = Some v \<longrightarrow> x < index_of ss v \<and> index_of ss v < y"
    using assms(3) by (auto simp: build_route_segment_def x_def y_def Let_def split: if_splits option.splits)
  define a b where "a = nat x" and "b = nat y"
  have ab: "x = int a" "y = int b" "a < b" "b < length ss"
    using 1 index_of_bounds(3) [of ss end_stop] by (auto simp: a_def b_def y_def)
  obtain "is" where p: "project_stops_in_order cs ss = map (\<lambda>k. Some (int k)) is" "is_placement (length cs) (length ss) is"
    using projection_exists [OF assms(1,2)] ab 1(1) by force
  have at: "project_stops_in_order cs ss ! a = Some (int (is ! a))" "project_stops_in_order cs ss ! b = Some (int (is ! b))" "is ! b < length cs"
    using p ab by (auto simp: is_placement_def)
  have r: "build_route_segment cs ss start end_stop via = (if int (is ! a) \<ge> int (is ! b) then Inl Stops_Too_Close
      else Inr \<lparr>rs_coordinates = js_slice cs (int (is ! a)) (int (is ! b) + 1), rs_stops = js_slice ss x (y + 1)\<rparr>)"
    using 1 at ab unfolding build_route_segment_def x_def [symmetric] y_def [symmetric]
    by (auto simp: Let_def split: option.splits)
  show thesis
    by (rule that [of a b "is ! a" "is ! b"])
      (use r assms(3) ab at 1(5) in \<open>auto simp: js_slice_def slice_at_def Let_def x_def [symmetric] y_def [symmetric] nat_add_distrib split: if_splits\<close>)
qed

end
