(* ===== verification/Stale_Sweep.thy ===== *)
theory Stale_Sweep imports Telemetry_State begin

text \<open>
  The sweep of nodes without telemetry (\<open>services/staleBusSweeper.ts\<close>): one page of old nodes a tick, each
  removed or marked offline by a transaction that first asks whether the node is still the one the page
  showed. Times are milliseconds of \<open>Date.now()\<close>; the awaits of a tick are phases, as in the source.
\<close>

section \<open>One node\<close>

definition identity_fields :: "string list" where
  "identity_fields = [''timestamp'', ''seq'', ''backendReceivedAt'', ''busId'', ''routeId'', ''driverId'', ''sessionId'', ''status'', ''tripState'']"

text \<open>\<open>===\<close> of two values read from the database in two reads: two objects are never the same.\<close>

fun strict_equal :: "jsval \<Rightarrow> jsval \<Rightarrow> bool" where
  "strict_equal (JNum x) (JNum y) \<longleftrightarrow> num_eq x y"
| "strict_equal (JObj _) _ \<longleftrightarrow> False"
| "strict_equal (JArr _) _ \<longleftrightarrow> False"
| "strict_equal v w \<longleftrightarrow> v = w"

definition active_node :: "jsval \<Rightarrow> bool" where
  "active_node data \<longleftrightarrow> js_prop data ''status'' = JStr ''active'' \<and>
     (js_prop data ''tripState'' = JStr ''pre_departure'' \<or> js_prop data ''tripState'' = JStr ''in_service'')"

definition sweep_candidate :: "bool \<Rightarrow> real \<Rightarrow> jsval \<Rightarrow> bool" where
  "sweep_candidate stopped cutoff data \<longleftrightarrow> \<not> stopped \<and> truthy data \<and>
     (case js_prop data ''timestamp'' of JNum t \<Rightarrow> is_finite t \<and> \<not> t \<ge> Fin cutoff | _ \<Rightarrow> False) \<and>
     \<not> (active_node data \<and> js_prop data ''deviceState'' = JStr ''offline'')"

text \<open>The transaction callback: \<open>None\<close> aborts, \<open>Some JNull\<close> removes the node.\<close>

definition sweep_update :: "bool \<Rightarrow> jsval \<Rightarrow> jsval \<Rightarrow> jsval option" where
  "sweep_update stopped data current =
    (if stopped then None
     else if current = JNull then Some JNull
     else if \<not> truthy current \<or> (\<exists>field\<in>set identity_fields. \<not> strict_equal (js_prop current field) (js_prop data field)) then None
     else if active_node data then
       (if js_prop current ''deviceState'' = JStr ''offline'' then None
        else (case current of
            JObj fs \<Rightarrow> Some (JObj (put_all fs [(''deviceState'', JStr ''offline''), (''signalState'', JStr ''lost''),
               (''lifecycleUpdatedAt'', JObj [(''.sv'', JStr ''timestamp'')])]))
          | _ \<Rightarrow> Some (JObj [(''deviceState'', JStr ''offline''), (''signalState'', JStr ''lost''),
               (''lifecycleUpdatedAt'', JObj [(''.sv'', JStr ''timestamp'')])])))
     else Some JNull)"

section \<open>The sweep\<close>

datatype sweep_phase = Resting | Fetching | Writing "(string \<times> jsval) list" bool | Settling

record sweep =
  sw_stopped :: bool
  sw_phase :: sweep_phase
  sw_cursor :: "(jsnum \<times> string) option"
  sw_cutoff :: "real option"
  sw_next_sweep_at :: real
  sw_next_attempt_at :: real
  sw_consecutive_failures :: nat
  sw_page_reads :: nat
  sw_pages :: nat
  sw_examined :: nat
  sw_marked_offline :: nat
  sw_removed :: nat
  sw_aborted :: nat
  sw_failed :: nat
  sw_cycles :: nat

definition stale_sweep_page_size :: nat where "stale_sweep_page_size = 25"

definition sweep_new :: "jsnum \<Rightarrow> unit + real \<times> sweep" where
  "sweep_new stale_ms = (if \<not> is_finite stale_ms \<or> stale_ms \<le> 0 then Inl ()
     else Inr (num_real stale_ms, \<lparr>sw_stopped = False, sw_phase = Resting, sw_cursor = None, sw_cutoff = None, sw_next_sweep_at = 0,
       sw_next_attempt_at = 0, sw_consecutive_failures = 0, sw_page_reads = 0, sw_pages = 0, sw_examined = 0, sw_marked_offline = 0,
       sw_removed = 0, sw_aborted = 0, sw_failed = 0, sw_cycles = 0\<rparr>))"

definition retry_delay :: "nat \<Rightarrow> real" where
  "retry_delay failures = min 30000 (1000 * 2 ^ min 5 (failures - 1))"

definition defer_retry :: "real \<Rightarrow> sweep \<Rightarrow> sweep" where
  "defer_retry now s = s\<lparr>sw_consecutive_failures := sw_consecutive_failures s + 1,
     sw_next_attempt_at := now + retry_delay (sw_consecutive_failures s + 1)\<rparr>"

definition sweep_fail :: "real \<Rightarrow> sweep \<Rightarrow> sweep" where
  "sweep_fail now s = defer_retry now (s\<lparr>sw_failed := sw_failed s + 1, sw_phase := Settling\<rparr>)"

text \<open>No scheduled wait is longer than these bounds, so a longer one means that the clock stepped back.\<close>

definition forget_future :: "real \<Rightarrow> real \<Rightarrow> sweep \<Rightarrow> sweep" where
  "forget_future stale_ms now s =
    (let s1 = (if sw_next_attempt_at s - now > 30000 then s\<lparr>sw_next_attempt_at := 0\<rparr> else s) in
     if sw_next_sweep_at s1 - now > stale_ms then s1\<lparr>sw_next_sweep_at := 0\<rparr> else s1)"

definition sweep_tick :: "real \<Rightarrow> bool \<Rightarrow> real \<Rightarrow> sweep \<Rightarrow> sweep" where
  "sweep_tick stale_ms leading now s0 = (let s = forget_future stale_ms now s0 in
    if sw_stopped s \<or> sw_phase s \<noteq> Resting \<or> now < sw_next_attempt_at s \<or> (sw_cutoff s = None \<and> now < sw_next_sweep_at s) then s
    else if \<not> leading then sweep_fail now s
    else s\<lparr>sw_cutoff := Some (opt_default (sw_cutoff s) (now - stale_ms)), sw_page_reads := sw_page_reads s + 1, sw_phase := Fetching\<rparr>)"

text \<open>The page arrives; \<open>None\<close> is a rejected read.\<close>

definition sweep_page :: "(string \<times> jsval) list option \<Rightarrow> real \<Rightarrow> sweep \<Rightarrow> sweep" where
  "sweep_page page now s = (case page of
      None \<Rightarrow> sweep_fail now s
    | Some children \<Rightarrow> (if sw_stopped s then s\<lparr>sw_phase := Settling\<rparr>
        else if length children > stale_sweep_page_size then sweep_fail now s
        else s\<lparr>sw_pages := sw_pages s + 1, sw_examined := sw_examined s + length children, sw_phase := Writing children False\<rparr>))"

text \<open>One write of the page settles: whether the transaction committed and what it left, or \<open>None\<close> for a
  rejection. The writes of a page settle in any order.\<close>

definition sweep_written :: "jsval \<Rightarrow> (bool \<times> bool) option \<Rightarrow> sweep \<Rightarrow> sweep" where
  "sweep_written data answer s = (case sw_phase s of
      Writing children failed \<Rightarrow> (case answer of
          None \<Rightarrow> s\<lparr>sw_failed := sw_failed s + 1, sw_phase := Writing children True\<rparr>
        | Some (committed, exists_after) \<Rightarrow>
            (if \<not> committed then s\<lparr>sw_aborted := sw_aborted s + 1\<rparr>
             else if active_node data \<and> exists_after then s\<lparr>sw_marked_offline := sw_marked_offline s + 1\<rparr>
             else if active_node data then s\<lparr>sw_aborted := sw_aborted s + 1\<rparr>
             else s\<lparr>sw_removed := sw_removed s + 1\<rparr>))
    | _ \<Rightarrow> s)"

text \<open>All writes of the page settled.\<close>

definition sweep_page_done :: "real \<Rightarrow> real \<Rightarrow> sweep \<Rightarrow> sweep" where
  "sweep_page_done stale_ms now s = (case sw_phase s of
      Writing children failed \<Rightarrow>
        (if sw_stopped s then s\<lparr>sw_phase := Settling\<rparr>
         else if failed then defer_retry now (s\<lparr>sw_phase := Settling\<rparr>)
         else (let s1 = s\<lparr>sw_consecutive_failures := 0, sw_next_attempt_at := 0, sw_phase := Settling\<rparr> in
           if length children = stale_sweep_page_size
           then (case (js_prop (snd (last children)) ''timestamp'', fst (last children)) of
               (JNum t, key) \<Rightarrow> (if is_finite t \<and> key \<noteq> [] then s1\<lparr>sw_cursor := Some (t, key)\<rparr> else sweep_fail now s1)
             | _ \<Rightarrow> sweep_fail now s1)
           else s1\<lparr>sw_cutoff := None, sw_cursor := None, sw_next_sweep_at := now + stale_ms, sw_cycles := sw_cycles s1 + 1\<rparr>))
    | _ \<Rightarrow> s)"

definition sweep_settled :: "sweep \<Rightarrow> sweep" where
  "sweep_settled s = s\<lparr>sw_phase := Resting\<rparr>"

definition sweep_stop :: "sweep \<Rightarrow> sweep" where
  "sweep_stop s = s\<lparr>sw_stopped := True\<rparr>"

section \<open>Facts\<close>

lemma strict_equal_eq: "strict_equal v w \<Longrightarrow> v = w"
  by (induction v w rule: strict_equal.induct) (auto simp: num_eq_def)

text \<open>What the sweep may do to a node: mark it, keeping every other field, or remove it.\<close>

definition marked_offline :: "jsval \<Rightarrow> jsval \<Rightarrow> bool" where
  "marked_offline before after \<longleftrightarrow> js_prop after ''deviceState'' = JStr ''offline'' \<and> js_prop after ''signalState'' = JStr ''lost'' \<and>
     (\<forall>k. k \<notin> {''deviceState'', ''signalState'', ''lifecycleUpdatedAt''} \<longrightarrow> js_prop after k = js_prop before k)"

lemma sweep_retry_bounded: "0 < n \<Longrightarrow> 1000 \<le> retry_delay n \<and> retry_delay n \<le> 30000"
proof -
  have "(1::real) \<le> 2 ^ min 5 (n - 1)" by simp
  then show ?thesis unfolding retry_delay_def by linarith
qed

lemma sweep_waits_bounded:
  assumes "0 < stale_ms"
  shows "sw_next_attempt_at (forget_future stale_ms now s) - now \<le> 30000 \<or> sw_next_attempt_at (forget_future stale_ms now s) = 0"
    "sw_next_sweep_at (forget_future stale_ms now s) - now \<le> stale_ms \<or> sw_next_sweep_at (forget_future stale_ms now s) = 0"
  by (auto simp: forget_future_def Let_def)

section \<open>Properties\<close>

text \<open>C28. The sweep never takes a bus that came back. When its transaction writes to a node that exists,
  whatever happened since the page was read, the node still has the time stamp, the sequence, the ids and
  the state of the old record the page showed, older than the cutoff; the node of a ride under way is only
  marked offline, every other field kept, and only another node is removed.\<close>

theorem sweep_spares_fresh_nodes:
  assumes "sweep_candidate stopped cutoff data" "sweep_update stopped' data current = Some after" "current \<noteq> JNull"
  shows "(\<forall>field\<in>set identity_fields. js_prop current field = js_prop data field) \<and>
    (\<exists>t. js_prop current ''timestamp'' = JNum (Fin t) \<and> t < cutoff) \<and>
    (if active_node current then js_prop current ''deviceState'' \<noteq> JStr ''offline'' \<and> marked_offline current after else after = JNull)"
proof -
  have same: "js_prop current f = js_prop data f" if "f \<in> set identity_fields" for f
    using assms(2,3) that strict_equal_eq by (auto simp: sweep_update_def split: if_splits)
  have id: "''timestamp'' \<in> set identity_fields" "''status'' \<in> set identity_fields" "''tripState'' \<in> set identity_fields"
    by (simp_all add: identity_fields_def)
  have active: "active_node current = active_node data" using same id by (simp add: active_node_def)
  obtain t where t: "js_prop data ''timestamp'' = JNum (Fin t)" "t < cutoff"
  proof -
    obtain x where "js_prop data ''timestamp'' = JNum x" "is_finite x" "\<not> x \<ge> Fin cutoff"
      using assms(1) by (auto simp: sweep_candidate_def split: jsval.splits)
    then show ?thesis using that by (cases x) auto
  qed
  then have "js_prop current ''timestamp'' = JNum (Fin t)" using same id by simp
  moreover from this obtain fs where fs: "current = JObj fs" by (cases current) auto
  have "if active_node current then js_prop current ''deviceState'' \<noteq> JStr ''offline'' \<and> marked_offline current after else after = JNull"
  proof (cases "active_node current")
    case True
    then have "js_prop current ''deviceState'' \<noteq> JStr ''offline''" "after = JObj (put_all fs [(''deviceState'', JStr ''offline''), (''signalState'', JStr ''lost''),
        (''lifecycleUpdatedAt'', JObj [(''.sv'', JStr ''timestamp'')])])"
      using assms(2,3) active fs by (auto simp: sweep_update_def split: if_splits)
    then show ?thesis using True fs by (simp add: marked_offline_def obj_get_put_all opt_default_def)
  next
    case False
    then show ?thesis using assms(2,3) active by (auto simp: sweep_update_def split: if_splits)
  qed
  ultimately show ?thesis using same t(2) by blast
qed

theorem sweep_spares_fresh_nodes_witness:
  "marked_offline (JObj [(''timestamp'', JNum 5), (''status'', JStr ''active''), (''tripState'', JStr ''in_service''), (''lat'', JNum 1)])
     (the (sweep_update False (JObj [(''timestamp'', JNum 5), (''status'', JStr ''active''), (''tripState'', JStr ''in_service'')])
       (JObj [(''timestamp'', JNum 5), (''status'', JStr ''active''), (''tripState'', JStr ''in_service''), (''lat'', JNum 1)])))"
proof -
  let ?data = "JObj [(''timestamp'', JNum 5), (''status'', JStr ''active''), (''tripState'', JStr ''in_service'')]"
  let ?cur = "JObj [(''timestamp'', JNum 5), (''status'', JStr ''active''), (''tripState'', JStr ''in_service''), (''lat'', JNum 1)]"
  have c: "sweep_candidate False 100 ?data" by (simp add: sweep_candidate_def active_node_def)
  obtain after where a: "sweep_update False ?data ?cur = Some after"
    by (simp add: sweep_update_def identity_fields_def active_node_def num_eq_def)
  have "active_node ?cur" by (simp add: active_node_def)
  then show ?thesis using sweep_spares_fresh_nodes [OF c a] a by simp
qed

end
