(* ===== verification/Telemetry_Route.thy ===== *)
theory Telemetry_Route imports Route_Catalog Reroute_Circuit begin

text \<open>
  Matching telemetry to the route of a live node (\<open>services/telemetryRouteService.ts\<close>): the direction of a node
  and its projection on the session, the matched position, and the claims and publications of reroutes and
  departure routes. A callback of a database transaction is a function of the fields of the node it is applied
  to, \<open>None\<close> when it aborts; on an absent node every callback leaves it absent. What the service read before
  (its own snapshot, the geometry, the clock, the generation guard) are arguments, so they may be out of date.
  A retained sample of a departure is the record of its three numbers.
\<close>

section \<open>The sample and the node\<close>

definition moving_heading :: "telemetry_payload \<Rightarrow> jsnum option" where
  "moving_heading s = (if tp_speed s \<ge> 3 \<and> tp_motion_state s = ''moving'' \<and> is_finite (tp_heading s) then Some (tp_heading s) else None)"

fun state_name :: "adherence_state \<Rightarrow> string" where
  "state_name On_Route = ''ON_ROUTE''"
| "state_name Possible_Off_Route = ''POSSIBLE_OFF_ROUTE''"
| "state_name Off_Route = ''OFF_ROUTE''"
| "state_name Rerouting = ''REROUTING''"
| "state_name On_New_Route = ''ON_NEW_ROUTE''"

definition valid_route_state :: "jsval \<Rightarrow> adherence_state option" where
  "valid_route_state value = List.find (\<lambda>s. value = JStr (state_name s)) [On_Route, Possible_Off_Route, Off_Route, Rerouting, On_New_Route]"

definition stranded_reroute_after_ms :: jsnum where "stranded_reroute_after_ms = 60000"

definition adherence_previous_state :: "host \<Rightarrow> fields \<Rightarrow> jsnum \<Rightarrow> adherence_state option" where
  "adherence_previous_state h live now = (let state = valid_route_state (obj_get live ''routeState'') in
     if state \<noteq> Some Rerouting then state
     else (let started = js_number (h_parse h) (obj_get live ''lastRerouteAttemptAt'') in
       if is_finite started \<and> now - started \<le> stranded_reroute_after_ms then state else Some Off_Route))"

fun int_of_num :: "jsnum \<Rightarrow> int" where
  "int_of_num (Fin x) = \<lfloor>x\<rfloor>"
| "int_of_num _ = 0"

definition previous_match :: "jsval \<Rightarrow> jsnum \<Rightarrow> jsnum \<Rightarrow> previous_match option" where
  "previous_match value route_version now =
    (case (js_prop value ''segmentIndex'', js_prop value ''alongRouteDistanceM'', js_prop value ''routeVersion'', js_prop value ''sampledAt'') of
      (JNum i, JNum along, JNum v, JNum t) \<Rightarrow>
        (if is_integer i \<and> is_finite along \<and> num_eq v route_version \<and> is_finite t \<and> t \<le> now \<and> now - t \<le> telemetry_reacquire_after_ms
         then Some \<lparr>pm_segment_index = int_of_num i, pm_along_route_distance_m = along\<rparr> else None)
    | _ \<Rightarrow> None)"

definition competing_leg_extra_m :: jsnum where "competing_leg_extra_m = 10"

definition previous_match_speed_kmh :: "host \<Rightarrow> jsval \<Rightarrow> jsnum" where
  "previous_match_speed_kmh h value = (let speed = js_number (h_parse h) (js_prop value ''speed'') in
     if is_finite speed \<and> speed > 0 then speed else 0)"

definition telemetry_is_current :: "fields \<Rightarrow> telemetry_payload \<Rightarrow> bool" where
  "telemetry_is_current live s \<longleftrightarrow> (case (obj_get live ''timestamp'', obj_get live ''seq'') of
     (JNum t, JNum q) \<Rightarrow> num_eq t (tp_timestamp s) \<and> num_eq q (tp_seq s) | _ \<Rightarrow> False)"

definition next_matched_telemetry_value :: "fields \<Rightarrow> telemetry_payload \<Rightarrow> fields \<Rightarrow> fields option" where
  "next_matched_telemetry_value live s update = (if telemetry_is_current live s then Some (put_all live update) else None)"

definition live_direction :: "fields \<Rightarrow> direction option" where
  "live_direction live = normalize_ride_direction (obj_get live ''direction'')"

definition route_session_id :: "fields \<Rightarrow> string" where
  "route_session_id live = (case obj_get live ''sessionId'' of JStr s \<Rightarrow> s | _ \<Rightarrow> ''device-only'')"

definition telemetry_route_context_is_current :: "fields \<Rightarrow> telemetry_payload \<Rightarrow> direction \<Rightarrow> string \<Rightarrow> bool" where
  "telemetry_route_context_is_current live s d session \<longleftrightarrow>
     telemetry_is_current live s \<and> live_direction live = Some d \<and> route_session_id live = session"

definition is_string :: "jsval \<Rightarrow> bool" where
  "is_string v \<longleftrightarrow> (\<exists>s. v = JStr s)"

lemma is_string_code [code, simp]:
  "is_string (JStr s)" "\<not> is_string JUndef" "\<not> is_string JNull" "\<not> is_string (JBool b)" "\<not> is_string (JNum n)" "\<not> is_string (JArr vs)" "\<not> is_string (JObj fs)"
  by (simp_all add: is_string_def)

definition direction_projection_needs_sync :: "fields \<Rightarrow> bool" where
  "direction_projection_needs_sync live \<longleftrightarrow> obj_get live ''directionFirestoreSynced'' = JBool False \<and>
     is_string (obj_get live ''sessionId'') \<and> is_string (obj_get live ''driverId'')"

definition direction_resolution_is_eligible :: "fields \<Rightarrow> device_assignment \<Rightarrow> bool" where
  "direction_resolution_is_eligible live a \<longleftrightarrow>
     obj_get live ''busId'' = JStr (da_bus_id a) \<and> obj_get live ''routeId'' = JStr (da_route_id a) \<and>
     obj_get live ''tripState'' \<noteq> JStr ''completed'' \<and>
     \<not> (is_string (obj_get live ''sessionId'') \<and> live_direction live \<noteq> None) \<and>
     (\<not> is_string (obj_get live ''sessionId'') \<or>
      (obj_get live ''status'' = JStr ''active'' \<and> obj_get live ''tripState'' = JStr ''pre_departure''))"

section \<open>Resolving a direction\<close>

definition end_stop_ids :: "stored_route \<Rightarrow> direction \<Rightarrow> (string \<times> string) option" where
  "end_stop_ids route d = (let stops = stops_in_ride_direction (rt_stops route) d in
     if stops = [] then None else Some (rs_id (hd stops), rs_id (last stops)))"

definition same_route_document :: "host \<Rightarrow> fields option \<Rightarrow> stored_route \<Rightarrow> bool" where
  "same_route_document h doc route \<longleftrightarrow> doc \<noteq> None \<and> num_eq (route_document_version doc) (rt_config_version route) \<and>
     num_eq (route_geometry_version doc) (rt_geometry_version route) \<and>
     route_geometry_signature h (map rs_at (parse_stops (doc_prop doc ''stops''))) = rt_geometry_signature route"

definition direction_synchronized :: "stored_route \<Rightarrow> direction \<Rightarrow> string \<times> string \<Rightarrow> fields option \<Rightarrow> fields option \<Rightarrow> bool" where
  "direction_synchronized route d ends session lock \<longleftrightarrow>
     normalize_ride_direction (doc_prop session ''direction'') = Some d \<and> doc_prop session ''directionState'' = JStr ''resolved'' \<and>
     doc_prop session ''directionEndpointVersion'' = JStr (rt_endpoint_version route) \<and>
     doc_prop session ''originStopId'' = JStr (fst ends) \<and> doc_prop session ''destinationStopId'' = JStr (snd ends) \<and>
     doc_prop lock ''direction'' = direction_value (Some d)"

definition direction_update :: "jsval \<Rightarrow> fields \<Rightarrow> stored_route \<Rightarrow> direction \<Rightarrow> string \<times> string \<Rightarrow> fields option \<Rightarrow> fields" where
  "direction_update server_time live route d ends session =
    [(''direction'', direction_value (Some d)), (''directionState'', JStr ''resolved''),
     (''directionEndpointVersion'', JStr (rt_endpoint_version route))] @
    (if is_string (obj_get live ''directionResolutionSource'')
     then [(''directionResolutionSource'', obj_get live ''directionResolutionSource'')] else []) @
    [(''originStopId'', JStr (fst ends)), (''destinationStopId'', JStr (snd ends))] @
    (if nullish (doc_prop session ''directionResolvedAt'') JNull = JNull then [(''directionResolvedAt'', server_time)] else []) @
    [(''updatedAt'', server_time)]"

text \<open>The transaction that writes a resolved direction on the session and the lock of the bus.\<close>

definition persist_resolved_session_direction ::
    "host \<Rightarrow> jsval \<Rightarrow> bool \<Rightarrow> fields option \<Rightarrow> device_assignment \<Rightarrow> fields \<Rightarrow> stored_route \<Rightarrow> direction \<Rightarrow> store \<Rightarrow> bool \<times> store" where
  "persist_resolved_session_direction h server_time guard doc a live route d st =
    (case (obj_get live ''sessionId'', end_stop_ids route d) of
      (JStr sid, Some ends) \<Rightarrow>
        (let session = st_sessions st sid; lock = st_locks st (da_bus_id a); existing = normalize_ride_direction (doc_prop session ''direction'') in
         if \<not> is_string (obj_get live ''driverId'') then (False, st)
         else if \<not> guard \<or> \<not> same_route_document h doc route then (False, st)
         else if session = None \<or> doc_prop lock ''sessionId'' \<noteq> JStr sid \<or> doc_prop session ''busId'' \<noteq> JStr (da_bus_id a) \<or>
            doc_prop session ''routeId'' \<noteq> JStr (da_route_id a) \<or> doc_prop session ''driverId'' \<noteq> obj_get live ''driverId'' \<or>
            doc_prop session ''status'' \<notin> {JStr ''pending'', JStr ''armed'', JStr ''active''} \<or> (existing \<noteq> None \<and> existing \<noteq> Some d)
         then (False, st)
         else if direction_synchronized route d ends session lock then (True, st)
         else (True, st\<lparr>
           st_sessions := (st_sessions st)(sid := merge_doc session (direction_update server_time live route d ends session)),
           st_locks := (st_locks st)(da_bus_id a := merge_doc lock [(''direction'', direction_value (Some d)), (''updatedAt'', server_time)])\<rparr>))
    | _ \<Rightarrow> (False, st))"

definition mark_direction_projection_synchronized :: "bool \<Rightarrow> fields \<Rightarrow> stored_route \<Rightarrow> direction \<Rightarrow> fields \<Rightarrow> fields option" where
  "mark_direction_projection_synchronized guard live route d node =
    (if \<not> guard \<or> obj_get node ''sessionId'' \<noteq> obj_get live ''sessionId'' \<or> live_direction node \<noteq> Some d \<or>
        obj_get node ''directionEndpointVersion'' \<noteq> JStr (rt_endpoint_version route) \<or>
        obj_get node ''directionFirestoreSynced'' \<noteq> JBool False then None
     else Some (put_all node [(''directionFirestoreSynced'', JBool True)]))"

definition reset_refused_direction :: "fields \<Rightarrow> telemetry_payload \<Rightarrow> fields \<Rightarrow> fields option" where
  "reset_refused_direction live s node =
    (if \<not> telemetry_is_current node s \<or> obj_get node ''sessionId'' \<noteq> obj_get live ''sessionId'' \<or>
        obj_get node ''directionEndpointVersion'' \<noteq> obj_get live ''directionEndpointVersion'' \<or>
        obj_get node ''direction'' \<noteq> obj_get live ''direction'' \<or>
        obj_get node ''directionFirestoreSynced'' \<noteq> JBool False \<or> obj_get node ''tripState'' \<noteq> JStr ''pre_departure'' then None
     else Some (put_all (without_live_route_context node True)
       [(''direction'', JNull), (''directionState'', JStr ''pending''), (''directionEndpointVersion'', JNull),
        (''originStopId'', JNull), (''destinationStopId'', JNull), (''directionResolvedAt'', JNull)]))"

definition sample_value :: "departure_sample \<Rightarrow> jsval" where
  "sample_value s = JObj [(''lat'', JNum (pos_lat (ds_at s))), (''lng'', JNum (pos_lng (ds_at s))), (''timestamp'', JNum (ds_timestamp s))]"

definition node_position :: "host \<Rightarrow> fields \<Rightarrow> position" where
  "node_position h live = \<lparr>pos_lat = js_number (h_parse h) (obj_get live ''lat''), pos_lng = js_number (h_parse h) (obj_get live ''lng'')\<rparr>"

text \<open>The departure recorded so far, with this fix when it is near the road.\<close>

definition pending_departure :: "host \<Rightarrow> jsnum \<Rightarrow> device_assignment \<Rightarrow> stored_route \<Rightarrow> fields \<Rightarrow> string \<times> departure_sample list" where
  "pending_departure h now a route live =
    (let timestamp = js_number (h_parse h) (obj_get live ''timestamp''); point = node_position h live;
       reliable_moving = obj_get live ''motionState'' = JStr ''moving'' \<and> precise_hdop (obj_get live ''gpsHdop'') \<and>
         now - timestamp \<le> 60000 \<and> timestamp \<le> now + 10000;
       near_road = reliable_moving \<and> list_ex (\<lambda>path. case match_plain point path None of
           Some m \<Rightarrow> \<not> rm_is_ambiguous m \<and> rm_distance_to_route_m m \<le> 15 | None \<Rightarrow> False)
         [rt_forward_coordinates route, rt_reverse_coordinates route] in
     departure_samples (obj_get live ''pendingDeparture'')
       (h_json h (JArr [JStr (da_bus_id a), JStr (da_route_id a), nullish (obj_get live ''sessionId'') JNull,
          JNum (rt_config_version route), JStr (rt_geometry_signature route)]))
       \<lparr>ds_at = point, ds_timestamp = timestamp\<rparr> near_road)"

definition endpoint_direction :: "host \<Rightarrow> jsnum \<Rightarrow> stored_route \<Rightarrow> fields \<Rightarrow> direction option" where
  "endpoint_direction h now route live = infer_ride_direction_from_telemetry (map rs_at (rt_stops route))
     \<lparr>dt_now = now, dt_timestamp = js_number (h_parse h) (obj_get live ''timestamp''), dt_motion_state = obj_get live ''motionState'',
       dt_gps_hdop = obj_get live ''gpsHdop'', dt_position = node_position h live\<rparr> endpoint_geofence_m"

definition resolve_pending_direction ::
    "host \<Rightarrow> jsval \<Rightarrow> jsnum \<Rightarrow> bool \<Rightarrow> device_assignment \<Rightarrow> telemetry_payload \<Rightarrow> stored_route \<Rightarrow> fields \<Rightarrow> fields option" where
  "resolve_pending_direction h server_time now guard a s route live =
    (let existing = live_direction live in
     if \<not> telemetry_is_current live s \<or> \<not> guard then None
     else if existing \<noteq> None \<and> is_string (obj_get live ''sessionId'') then None
     else if \<not> direction_resolution_is_eligible live a then None
     else (case pending_departure h now a route live of (ctx, samples) \<Rightarrow>
       (let endpoint = endpoint_direction h now route live;
          inferred = (if endpoint \<noteq> None then endpoint else infer_departure_direction samples (map rs_at (rt_stops route))
            (rt_forward_coordinates route) (rt_reverse_coordinates route) now);
          pending = (if samples \<noteq> [] then JObj [(''context'', JStr ctx), (''samples'', JArr (map sample_value samples))] else JNull) in
        case inferred of
          None \<Rightarrow> (if (obj_get live ''direction'' = JNull \<or> obj_get live ''direction'' = JUndef) \<and> obj_get live ''directionState'' = JStr ''pending'' \<and>
                \<not> has_live_route_context live True \<and> h_json h (nullish (obj_get live ''pendingDeparture'') JNull) = h_json h pending
              then None
              else Some (put_all (without_live_route_context live True)
                [(''direction'', JNull), (''directionState'', JStr ''pending''), (''pendingDeparture'', pending)]))
        | Some d \<Rightarrow> (if existing = Some d \<and> obj_get live ''directionEndpointVersion'' = JStr (rt_endpoint_version route) then None
            else (case end_stop_ids route d of
                None \<Rightarrow> None
              | Some ends \<Rightarrow> Some (put_all live
                  [(''direction'', direction_value (Some d)), (''directionState'', JStr ''resolved''), (''pendingDeparture'', JNull),
                   (''directionResolutionSource'', JStr (if endpoint \<noteq> None then ''endpoint_fix'' else ''departure_trajectory'')),
                   (''directionEndpointVersion'', JStr (rt_endpoint_version route)), (''originStopId'', JStr (fst ends)),
                   (''destinationStopId'', JStr (snd ends)), (''directionResolvedAt'', server_time),
                   (''directionFirestoreSynced'', JBool (\<not> is_string (obj_get live ''sessionId'') \<or> \<not> is_string (obj_get live ''driverId'')))]))))))"

section \<open>The trajectory and the geometry\<close>

record trajectory_point =
  tr_at :: position
  tr_seq :: jsnum
  tr_sampled_at :: jsnum

definition trajectory_point :: "jsval \<Rightarrow> trajectory_point option" where
  "trajectory_point candidate = (case (valid_lat_lng candidate, js_prop candidate ''seq'', js_prop candidate ''sampledAt'') of
      (Some p, JNum q, JNum t) \<Rightarrow> (if is_safe_integer q \<and> is_finite t then Some \<lparr>tr_at = p, tr_seq = q, tr_sampled_at = t\<rparr> else None)
    | _ \<Rightarrow> None)"

definition last_three :: "'a list \<Rightarrow> 'a list" where
  "last_three xs = drop (length xs - 3) xs"

definition recent_trajectory :: "jsval \<Rightarrow> position \<Rightarrow> telemetry_payload \<Rightarrow> trajectory_point list" where
  "recent_trajectory value here s =
    (let history = (case value of JArr vs \<Rightarrow> List.map_filter trajectory_point vs | _ \<Rightarrow> []) in
     last_three (filter (\<lambda>p. tr_sampled_at p < tp_timestamp s) history) @ [\<lparr>tr_at = here, tr_seq = tp_seq s, tr_sampled_at = tp_timestamp s\<rparr>])"

definition latest_sample :: "host \<Rightarrow> jsnum \<Rightarrow> jsnum option \<Rightarrow> jsval \<Rightarrow> jsnum option" where
  "latest_sample h now latest candidate = (let t = js_number (h_parse h) (js_prop candidate ''sampledAt'') in
     if \<not> is_finite t \<or> t > now then latest
     else (case latest of None \<Rightarrow> Some t | Some l \<Rightarrow> (if t > l then Some t else Some l)))"

definition route_matching_elapsed_ms :: "host \<Rightarrow> jsval \<Rightarrow> jsnum \<Rightarrow> jsnum" where
  "route_matching_elapsed_ms h value now = (case value of
      JArr vs \<Rightarrow> (if \<not> is_finite now then 0 else (case foldl (latest_sample h now) None vs of
          None \<Rightarrow> 0 | Some t \<Rightarrow> js_max 0 (now - t)))
    | _ \<Rightarrow> 0)"

record geometry =
  ge_path :: "position list"
  ge_polyline :: string

definition encoded_geometry :: "stored_route \<Rightarrow> direction \<Rightarrow> geometry" where
  "encoded_geometry route d = (case d of
      Forward \<Rightarrow> \<lparr>ge_path = rt_forward_coordinates route, ge_polyline = rt_forward_polyline route\<rparr>
    | Reverse \<Rightarrow> \<lparr>ge_path = rt_reverse_coordinates route, ge_polyline = rt_reverse_polyline route\<rparr>)"

fun direction_name :: "direction \<Rightarrow> string" where
  "direction_name Forward = ''forward''"
| "direction_name Reverse = ''reverse''"

definition geometry_cache_max :: nat where "geometry_cache_max = 50"

definition dynamic_version :: "fields \<Rightarrow> direction \<Rightarrow> jsnum option" where
  "dynamic_version live d = (case obj_get live ''routeVersion'' of
      JNum v \<Rightarrow> (if obj_get live ''routeSource'' = JStr ''dynamic-reroute'' \<and> obj_get live ''routeDirection'' = JStr (direction_name d) \<and>
          is_safe_integer v \<and> v > 0 then Some v else None)
    | _ \<Rightarrow> None)"

text \<open>The geometry in force: a cached reroute, the stored reroute \<open>value\<close> of the version, or the configured one.
  The last component says whether it is a reroute. The key of the cache is given by \<open>key\<close>.\<close>

definition load_active_geometry ::
    "string \<Rightarrow> fields \<Rightarrow> stored_route \<Rightarrow> direction \<Rightarrow> jsval \<Rightarrow> (string, geometry) jsmap \<Rightarrow> (geometry \<times> bool) \<times> (string, geometry) jsmap" where
  "load_active_geometry key live route d value cache =
    (let configured = ((encoded_geometry route d, False), cache) in
     case dynamic_version live d of
       None \<Rightarrow> configured
     | Some v \<Rightarrow> (case jm_get cache key of
         Some g \<Rightarrow> ((g, True), cache)
       | None \<Rightarrow> (case js_prop value ''polyline'' of
           JStr poly \<Rightarrow>
             (if (js_prop value ''sessionId'' = JUndef \<or> js_prop value ''sessionId'' = obj_get live ''sessionId'') \<and>
                 (js_prop value ''direction'' = JUndef \<or> js_prop value ''direction'' = JStr (direction_name d)) \<and>
                 length poly \<le> max_encoded_polyline_length
              then (case decode_polyline (code_units poly) of
                  Inl e \<Rightarrow> configured
                | Inr path \<Rightarrow> (if length path \<ge> 2
                    then (let g = \<lparr>ge_path = path, ge_polyline = poly\<rparr>;
                        room = (if length cache \<ge> geometry_cache_max then tl cache else cache) in
                      ((g, True), jm_set room key g))
                    else configured))
              else configured)
         | _ \<Rightarrow> configured)))"

section \<open>Reroutes\<close>

definition to_fixed1 :: "jsnum \<Rightarrow> jsnum" where
  "to_fixed1 x = js_round (x * 10) / 10"

definition matched_position_confidence :: jsnum where "matched_position_confidence = 45 / 100"

definition server_now :: jsval where "server_now = JObj [(''.sv'', JStr ''timestamp'')]"

definition matched_location :: "route_match \<Rightarrow> telemetry_payload \<Rightarrow> jsnum \<Rightarrow> jsval" where
  "matched_location m s route_version = JObj
    ([(''lat'', JNum (pos_lat (rm_point m))), (''lng'', JNum (pos_lng (rm_point m))), (''segmentIndex'', JNum (Fin (of_nat (rm_segment_index m)))),
      (''segmentFraction'', JNum (rm_segment_fraction m)), (''alongRouteDistanceM'', JNum (js_round (rm_along_route_distance_m m))),
      (''distanceToRouteM'', JNum (to_fixed1 (rm_distance_to_route_m m))),
      (''headingDifference'', case rm_heading_difference m of None \<Rightarrow> JNull | Some d \<Rightarrow> JNum (to_fixed1 d)),
      (''matchConfidence'', JNum (rm_match_confidence m)), (''seq'', JNum (tp_seq s)), (''sampledAt'', JNum (tp_timestamp s)),
      (''routeVersion'', JNum route_version), (''speed'', JNum (if is_finite (tp_speed s) then js_max 0 (tp_speed s) else 0))] @
     (if tp_motion_state s = ''uncertain'' then [(''uncertain'', JBool True)] else []))"

definition trustworthy_match :: "jsval \<Rightarrow> jsval" where
  "trustworthy_match value = (if js_prop value ''uncertain'' = JBool True then JUndef else nullish value JUndef)"

text \<open>Whether a match is shown as the position on the route.\<close>

definition shown_match :: "route_match option \<Rightarrow> bool" where
  "shown_match m = (case m of None \<Rightarrow> False | Some r \<Rightarrow> \<not> rm_is_ambiguous r \<and> rm_match_confidence r \<ge> matched_position_confidence)"

fun nat_of_num :: "jsnum \<Rightarrow> nat" where
  "nat_of_num (Fin x) = nat \<lfloor>x\<rfloor>"
| "nat_of_num _ = 0"

definition remaining_reroute_stops :: "route_stop list \<Rightarrow> direction \<Rightarrow> jsnum \<Rightarrow> route_stop list" where
  "remaining_reroute_stops stops d index =
    (let ordered = stops_in_ride_direction stops d;
       safe_index = js_max 0 (js_min (js_trunc index) (Fin (of_int (int (length ordered) - 1)))) in
     drop (if num_eq safe_index 0 \<and> length ordered > 1 then 1 else nat_of_num safe_index) ordered)"

record reroute_request =
  rq_request_id :: string
  rq_route_version :: jsnum
  rq_session_id :: string
  rq_direction :: direction

definition has_version :: "fields \<Rightarrow> jsnum \<Rightarrow> bool" where
  "has_version live v = (case obj_get live ''routeVersion'' of JNum w \<Rightarrow> num_eq w v | _ \<Rightarrow> False)"

definition reroute_context_is_current :: "fields \<Rightarrow> reroute_request \<Rightarrow> bool" where
  "reroute_context_is_current live q \<longleftrightarrow>
     obj_get live ''status'' = JStr ''active'' \<and> obj_get live ''tripState'' = JStr ''in_service'' \<and>
     obj_get live ''routeState'' = JStr ''REROUTING'' \<and> obj_get live ''rerouteRequestId'' = JStr (rq_request_id q) \<and>
     has_version live (rq_route_version q) \<and> obj_get live ''sessionId'' = JStr (rq_session_id q) \<and>
     live_direction live = Some (rq_direction q)"

text \<open>A departure: the context it was planned for, and whether it is the preview of a bus that waits.\<close>

record departure =
  de_context :: string
  de_ready :: bool

definition departure_context_is_current :: "fields \<Rightarrow> reroute_request \<Rightarrow> departure \<Rightarrow> bool" where
  "departure_context_is_current live q d \<longleftrightarrow>
     obj_get live ''status'' = JStr ''active'' \<and> obj_get live ''sessionId'' = JStr (rq_session_id q) \<and>
     live_direction live = Some (rq_direction q) \<and> has_version live (rq_route_version q) \<and>
     js_prop (obj_get live ''departureRoute'') ''requestId'' = JStr (rq_request_id q) \<and>
     js_prop (obj_get live ''departureRoute'') ''context'' = JStr (de_context d) \<and>
     obj_get live ''tripState'' = JStr (if de_ready d then ''pre_departure'' else ''in_service'') \<and>
     obj_get live ''routeState'' \<notin> {JStr ''OFF_ROUTE'', JStr ''REROUTING''}"

definition geometry_publication_grace_ms :: jsnum where "geometry_publication_grace_ms = 86400000"

definition geometry_publication_is_fresh :: "jsnum \<Rightarrow> jsnum \<Rightarrow> bool" where
  "geometry_publication_is_fresh created_at now \<longleftrightarrow>
     is_safe_integer created_at \<and> now \<ge> created_at \<and> now - created_at < geometry_publication_grace_ms"

fun object_fields :: "jsval \<Rightarrow> fields" where
  "object_fields (JObj fs) = fs"
| "object_fields _ = []"

record publication =
  pu_request :: reroute_request
  pu_departure :: "departure option"
  pu_next_version :: jsnum
  pu_created_at :: jsnum
  pu_fallback :: bool
  pu_route_id :: string
  pu_sample :: telemetry_payload
  pu_match :: "route_match option"
  pu_stop_index :: "jsnum option"

text \<open>What a provider answer must be to be stored: decodable, and starting at the bus unless it is a departure route.\<close>

datatype reroute_error = Unusable_Geometry | Not_At_The_Bus

definition reroute_path :: "jsval \<Rightarrow> reroute_error + position list" where
  "reroute_path encoded = (case encoded of
      JStr s \<Rightarrow> (if length s \<le> max_encoded_polyline_length then (case decode_polyline (code_units s) of
          Inr path \<Rightarrow> (if length path < 2 then Inl Unusable_Geometry else Inr path) | Inl e \<Rightarrow> Inl Unusable_Geometry)
        else Inl Unusable_Geometry)
    | _ \<Rightarrow> Inl Unusable_Geometry)"

definition prepare_reroute ::
    "jsnum \<Rightarrow> reroute_request \<Rightarrow> departure option \<Rightarrow> string \<Rightarrow> telemetry_payload \<Rightarrow> jsval \<Rightarrow> bool \<Rightarrow> jsnum option \<Rightarrow> reroute_error + publication" where
  "prepare_reroute now q departure route_id s encoded fallback stop_index = (case reroute_path encoded of
      Inl e \<Rightarrow> Inl e
    | Inr path \<Rightarrow> (let m = match_route_position \<lparr>mq_raw_point = \<lparr>pos_lat = tp_lat s, pos_lng = tp_lng s\<rparr>, mq_path = path,
           mq_heading = (if tp_speed s \<ge> 3 then Some (tp_heading s) else None), mq_previous = None,
           mq_uncertainty_m = adaptive_gnss_error_meters (tp_gps_hdop s) (tp_speed s) (tp_speed s) 0 None,
           mq_max_change_m = None, mq_plausible_m = None\<rparr> in
       if departure = None \<and> (case m of None \<Rightarrow> True | Some r \<Rightarrow> rm_distance_to_route_m r > route_match_distance_m) then Inl Not_At_The_Bus
       else Inr \<lparr>pu_request = q, pu_departure = departure, pu_next_version = js_max (rq_route_version q + 1) now, pu_created_at = now,
         pu_fallback = fallback, pu_route_id = route_id, pu_sample = s, pu_match = m, pu_stop_index = stop_index\<rparr>))"

text \<open>The version-keyed record of the geometry, written before the node points to it.\<close>

definition stored_geometry :: "publication \<Rightarrow> jsval \<Rightarrow> fields" where
  "stored_geometry p encoded =
    [(''polyline'', encoded), (''routeId'', JStr (pu_route_id p)), (''direction'', JStr (direction_name (rq_direction (pu_request p)))),
     (''source'', JStr ''dynamic-reroute''), (''sessionId'', JStr (rq_session_id (pu_request p))), (''computedAt'', JNum (pu_created_at p)),
     (''routeVersion'', JNum (pu_next_version p)),
     (''firstStopIndex'', JNum (if (case pu_departure p of Some d \<Rightarrow> de_ready d | None \<Rightarrow> False) then 1 else js_max 1 (opt_default (pu_stop_index p) 1))),
     (''createdAt'', server_now)]"

definition publication_is_current :: "publication \<Rightarrow> fields \<Rightarrow> bool" where
  "publication_is_current p live \<longleftrightarrow>
     (case pu_departure p of Some d \<Rightarrow> departure_context_is_current live (pu_request p) d | None \<Rightarrow> reroute_context_is_current live (pu_request p)) \<and>
     (case pu_stop_index p of None \<Rightarrow> True | Some i \<Rightarrow> (case obj_get live ''currentStopIndex'' of JNum j \<Rightarrow> num_eq j i | _ \<Rightarrow> False))"

definition publish_reroute :: "host \<Rightarrow> jsnum \<Rightarrow> bool \<Rightarrow> publication \<Rightarrow> fields \<Rightarrow> fields option" where
  "publish_reroute h now guard p live =
    (if \<not> guard \<or> \<not> geometry_publication_is_fresh (pu_created_at p) now \<or> \<not> publication_is_current p live then None
     else (let v = pu_next_version p; s = pu_sample p; fresh = telemetry_is_current live s in
       Some (put_all live
        ([(''activeRouteId'', JStr (pu_route_id p @ '':reroute:'' @ h_string h v)), (''routeVersion'', JNum v),
          (''routeSource'', JStr ''dynamic-reroute''), (''routeComputedAt'', JNum (pu_created_at p)),
          (''routeTrafficState'', JStr (if pu_fallback p then ''fallback'' else ''current''))] @
         (if pu_departure p \<noteq> None then [(''departureRoute'', JObj (put_all (object_fields (obj_get live ''departureRoute''))
            [(''state'', JStr ''ready''), (''computedAt'', JNum (pu_created_at p)), (''requestId'', JNull)]))] else []) @
         [(''routeDirection'', JStr (direction_name (rq_direction (pu_request p)))), (''routeState'', JStr ''ON_NEW_ROUTE''),
          (''offRouteSampleCount'', JNum 0), (''rerouteRequestId'', JNull), (''rerouteCompletedAt'', server_now),
          (''rerouteRetry'', JNull), (''rerouteError'', JNull)] @
         (if fresh then [(''mapMatchUpdatedAt'', server_now), (''mapMatchSeq'', JNum (tp_seq s)), (''mapMatchSampledAt'', JNum (tp_timestamp s))] else []) @
         (case (if shown_match (pu_match p) \<and> fresh then pu_match p else None) of
            Some m \<Rightarrow> [(''matchedLocation'', matched_location m s v),
              (''routeMatchAnchor'', if tp_motion_state s = ''uncertain'' then JNull else matched_location m s v),
              (''matchConfidence'', JNum (rm_match_confidence m)), (''distanceToActiveRoute'', JNum (to_fixed1 (rm_distance_to_route_m m)))]
          | None \<Rightarrow> [(''matchedLocation'', JNull), (''routeMatchAnchor'', JNull), (''matchConfidence'', JNum 0), (''distanceToActiveRoute'', JNull)])))))"

section \<open>Claims\<close>

text \<open>The backoff of any stored count, which a foreign record may hold: the ceiling as a real power.\<close>

fun backoff_num :: "jsnum \<Rightarrow> real \<Rightarrow> jsnum" where
  "backoff_num (Fin x) random = Fin (of_int \<lceil>min 300000 (10000 * 2 powr (min 30 (max 0 (x - 1)))) * (1 / 2 + max 0 (min 1 random) * (1 / 2))\<rceil>)"
| "backoff_num PosInf random = Fin (of_int \<lceil>300000 * (1 / 2 + max 0 (min 1 random) * (1 / 2 :: real))\<rceil>)"
| "backoff_num NegInf random = Fin (of_int \<lceil>10000 * (1 / 2 + max 0 (min 1 random) * (1 / 2 :: real))\<rceil>)"
| "backoff_num NaN random = NaN"

record departure_plan =
  pl_context :: string
  pl_ready :: bool
  pl_due :: bool
  pl_reuse :: bool

definition departure_context :: "host \<Rightarrow> fields \<Rightarrow> stored_route \<Rightarrow> string \<Rightarrow> string" where
  "departure_context h live route phase = h_sha256 h (h_json h (JArr [obj_get live ''sessionId'', obj_get live ''direction'',
     JNum (rt_config_version route), JStr (rt_geometry_signature route), JStr phase]))"

definition departure_route_plan :: "host \<Rightarrow> bool \<Rightarrow> fields \<Rightarrow> stored_route \<Rightarrow> jsnum \<Rightarrow> departure_plan option" where
  "departure_route_plan h enabled live route now =
    (let trip = obj_get live ''tripState''; previous = obj_get live ''departureRoute'' in
     if \<not> enabled \<or> obj_get live ''status'' \<noteq> JStr ''active'' \<or> \<not> is_string (obj_get live ''sessionId'') \<or>
        live_direction live = None \<or> trip \<notin> {JStr ''pre_departure'', JStr ''in_service''} then None
     else (let ready = (trip = JStr ''pre_departure''); phase = (if ready then ''ready'' else ''departure'');
         ctx = departure_context h live route phase; ready_ctx = departure_context h live route ''ready'';
         reuse = (\<not> ready \<and> js_prop previous ''context'' = JStr ready_ctx \<and> js_prop previous ''state'' = JStr ''ready'' \<and>
           (case js_prop previous ''computedAt'' of JNum t \<Rightarrow> now \<ge> t \<and> now - t \<le> route_cache_ms | _ \<Rightarrow> False));
         same = (js_prop previous ''context'' = JStr ctx);
         ended = (same \<and> (js_prop previous ''state'' = JStr ''ready'' \<or> js_number (h_parse h) (js_prop previous ''attempts'') \<ge> 3)) in
       Some \<lparr>pl_context = ctx, pl_ready = ready,
         pl_due = (\<not> reuse \<and> \<not> ended \<and> (\<not> same \<or> now \<ge> js_number (h_parse h) (js_prop previous ''nextAttemptAt''))), pl_reuse = reuse\<rparr>))"

definition off_route_states :: "jsval set" where
  "off_route_states = {JStr ''OFF_ROUTE'', JStr ''REROUTING''}"

definition claim_departure :: "host \<Rightarrow> bool \<Rightarrow> jsnum \<Rightarrow> bool \<Rightarrow> reroute_request \<Rightarrow> stored_route \<Rightarrow> fields \<Rightarrow> fields option" where
  "claim_departure h enabled now guard q route live = (case departure_route_plan h enabled live route now of
      None \<Rightarrow> None
    | Some plan \<Rightarrow>
        (if \<not> pl_due plan \<or> obj_get live ''sessionId'' \<noteq> JStr (rq_session_id q) \<or> live_direction live \<noteq> Some (rq_direction q) \<or>
            \<not> has_version live (rq_route_version q) \<or> obj_get live ''routeState'' \<in> off_route_states \<or> \<not> guard then None
         else (let previous = obj_get live ''departureRoute'';
             attempts = (if js_prop previous ''context'' = JStr (pl_context plan)
               then js_number (h_parse h) (js_prop previous ''attempts'') + 1 else 1) in
           Some (put_all live [(''routeTrafficState'', JStr ''pending''), (''departureRoute'', JObj
             [(''context'', JStr (pl_context plan)), (''phase'', JStr (if pl_ready plan then ''ready'' else ''departure'')),
              (''state'', JStr ''pending''), (''requestId'', JStr (rq_request_id q)), (''attempts'', JNum attempts),
              (''nextAttemptAt'', JNum (now + 60000))])]))))"

definition fail_departure :: "host \<Rightarrow> jsnum \<Rightarrow> real \<Rightarrow> reroute_request \<Rightarrow> fields \<Rightarrow> fields option" where
  "fail_departure h now random q live = (let departure = obj_get live ''departureRoute'' in
     if obj_get live ''sessionId'' \<noteq> JStr (rq_session_id q) \<or> \<not> has_version live (rq_route_version q) \<or>
        js_prop departure ''requestId'' \<noteq> JStr (rq_request_id q) then None
     else Some (put_all live [(''routeTrafficState'', JStr ''fallback''), (''departureRoute'', JObj (put_all (object_fields departure)
       [(''state'', JStr ''failed''), (''requestId'', JNull),
        (''nextAttemptAt'', JNum (now + backoff_num (js_number (h_parse h) (js_prop departure ''attempts'')) random))]))]))"

definition retry_value :: "string \<Rightarrow> jsnum \<Rightarrow> jsnum \<Rightarrow> jsval" where
  "retry_value ctx failures next_attempt_at = JObj [(''context'', JStr ctx), (''failures'', JNum failures), (''nextAttemptAt'', JNum next_attempt_at)]"

definition retry_failures :: "fields \<Rightarrow> string \<Rightarrow> jsnum option" where
  "retry_failures live ctx = map_option rr_failures (read_reroute_retry (obj_get live ''rerouteRetry'') ctx)"

definition reroute_context :: "host \<Rightarrow> reroute_request \<Rightarrow> stored_route \<Rightarrow> string" where
  "reroute_context h q route = h_sha256 h (h_json h (JArr [JStr (rq_session_id q), JStr (direction_name (rq_direction q)),
     JNum (rq_route_version q), JNum (rt_config_version route), JStr (rt_geometry_signature route)]))"

definition claim_reroute :: "jsnum \<Rightarrow> real \<Rightarrow> bool \<Rightarrow> reroute_request \<Rightarrow> string \<Rightarrow> fields \<Rightarrow> fields option" where
  "claim_reroute now jitter guard q ctx live =
    (let retry = read_reroute_retry (obj_get live ''rerouteRetry'') ctx; failures = opt_default (map_option rr_failures retry) 0 + 1 in
     if \<not> guard \<or> obj_get live ''routeState'' \<noteq> JStr ''OFF_ROUTE'' \<or> \<not> has_version live (rq_route_version q) \<or>
        obj_get live ''status'' \<noteq> JStr ''active'' \<or> obj_get live ''tripState'' \<noteq> JStr ''in_service'' \<or>
        obj_get live ''sessionId'' \<noteq> JStr (rq_session_id q) \<or> live_direction live \<noteq> Some (rq_direction q) \<or>
        (\<exists>r. retry = Some r \<and> now < rr_next_attempt_at r) then None
     else Some (put_all live [(''routeState'', JStr ''REROUTING''), (''rerouteRequestId'', JStr (rq_request_id q)),
       (''lastRerouteAttemptAt'', JNum now), (''rerouteError'', JNull),
       (''rerouteRetry'', retry_value ctx (js_min 32 failures) (now + Fin (of_int (reroute_backoff_ms (int_of_num failures) jitter))))]))"

text \<open>The release of a request that failed; \<open>claimed\<close> is the node as the claim left it.\<close>

definition retry_current_request :: "jsnum \<Rightarrow> real \<Rightarrow> reroute_request \<Rightarrow> string \<Rightarrow> string \<Rightarrow> fields \<Rightarrow> fields \<Rightarrow> fields option" where
  "retry_current_request now jitter q ctx message claimed live =
    (let failures = opt_default (retry_failures claimed ctx) 1 in
     if \<not> reroute_context_is_current live q then None
     else Some (put_all live [(''routeState'', JStr ''OFF_ROUTE''), (''rerouteRequestId'', JNull), (''rerouteError'', JStr message),
       (''rerouteFailedAt'', server_now),
       (''rerouteRetry'', retry_value ctx failures (now + Fin (of_int (reroute_backoff_ms (int_of_num failures) jitter))))]))"

datatype itinerary_error = No_Session | No_Itinerary | Route_Changed_Before | Departure_Without_Itinerary

definition current_stop_index :: "fields \<Rightarrow> jsnum option" where
  "current_stop_index live = (case obj_get live ''currentStopIndex'' of JNum i \<Rightarrow> (if is_integer i then Some i else None) | _ \<Rightarrow> None)"

text \<open>The stops a reroute passes: the intermediate ones and the destination.\<close>

definition reroute_itinerary :: "stored_route \<Rightarrow> direction \<Rightarrow> bool \<Rightarrow> fields \<Rightarrow> itinerary_error + route_stop list \<times> route_stop" where
  "reroute_itinerary route d guard claimed =
    (if \<not> is_string (obj_get claimed ''sessionId'') then Inl No_Session
     else (let remaining = remaining_reroute_stops (rt_stops route) d (opt_default (current_stop_index claimed) 0) in
       if remaining = [] \<or> length remaining > 100 then Inl No_Itinerary
       else if \<not> guard then Inl Route_Changed_Before
       else Inr (butlast remaining, last remaining)))"

definition departure_itinerary ::
    "host \<Rightarrow> stored_route \<Rightarrow> direction \<Rightarrow> bool \<Rightarrow> fields \<Rightarrow> itinerary_error + position \<times> route_stop list \<times> route_stop" where
  "departure_itinerary h route d ready claimed =
    (let ordered = stops_in_ride_direction (rt_stops route) d;
       index = js_number (h_parse h) (obj_get claimed ''currentStopIndex'');
       remaining = (if ready then drop 1 ordered else remaining_reroute_stops (rt_stops route) d (if index = NaN then 0 else index));
       origin = (if ready then (if ordered = [] then None else Some (rs_at (hd ordered)))
         else valid_lat_lng (position_value (node_position h claimed))) in
     case origin of
       None \<Rightarrow> Inl Departure_Without_Itinerary
     | Some start \<Rightarrow> (if remaining = [] then Inl Departure_Without_Itinerary else Inr (start, butlast remaining, last remaining)))"

section \<open>Matching one fix\<close>

definition is_reliable_moving_sample :: "telemetry_payload \<Rightarrow> bool" where
  "is_reliable_moving_sample s \<longleftrightarrow> tp_motion_state s = ''moving'' \<and> tp_speed s \<ge> 3 \<and>
     (case tp_gps_hdop s of Some d \<Rightarrow> is_finite d \<and> d \<ge> 0 \<and> d \<le> gnss_hdop_max | None \<Rightarrow> False)"

definition context_changed :: "fields \<Rightarrow> stored_route \<Rightarrow> direction \<Rightarrow> bool" where
  "context_changed live route d \<longleftrightarrow> obj_get live ''routeDirection'' \<noteq> JStr (direction_name d) \<or>
     obj_get live ''routeSessionId'' \<noteq> JStr (route_session_id live) \<or>
     (case obj_get live ''routeGeometryVersion'' of JNum v \<Rightarrow> \<not> num_eq v (rt_geometry_version route) | _ \<Rightarrow> True)"

definition missing_dynamic_geometry :: "fields \<Rightarrow> stored_route \<Rightarrow> direction \<Rightarrow> bool \<Rightarrow> bool" where
  "missing_dynamic_geometry live route d dynamic \<longleftrightarrow>
     \<not> context_changed live route d \<and> obj_get live ''routeSource'' = JStr ''dynamic-reroute'' \<and> \<not> dynamic"

definition next_route_version :: "host \<Rightarrow> fields \<Rightarrow> stored_route \<Rightarrow> direction \<Rightarrow> bool \<Rightarrow> jsnum" where
  "next_route_version h live route d dynamic =
    (let previous = js_number (h_parse h) (obj_get live ''routeVersion'');
       v = (if is_safe_integer previous \<and> previous > 0 then previous + (if context_changed live route d then 1 else 0) else 1) in
     v + (if missing_dynamic_geometry live route d dynamic then 1 else 0))"

definition finite_or :: "jsnum \<Rightarrow> jsnum \<Rightarrow> jsnum" where
  "finite_or n d = (if is_finite n then n else d)"

definition accepted_route_sample :: "host \<Rightarrow> fields \<Rightarrow> telemetry_payload \<Rightarrow> position \<Rightarrow> telemetry_payload" where
  "accepted_route_sample h live s point = s\<lparr>tp_lat := pos_lat point, tp_lng := pos_lng point,
     tp_speed := finite_or (js_number (h_parse h) (obj_get live ''speed'')) (tp_speed s),
     tp_heading := finite_or (js_number (h_parse h) (obj_get live ''heading'')) (tp_heading s),
     tp_motion_state := (case obj_get live ''motionState'' of JStr m \<Rightarrow> (if m \<in> set motion_states then m else tp_motion_state s) | _ \<Rightarrow> tp_motion_state s)\<rparr>"

record match_work =
  mw_sample :: telemetry_payload
  mw_trajectory :: "trajectory_point list"
  mw_match :: "route_match option"
  mw_adherence :: adherence_decision
  mw_anchor :: jsval

definition progress_anchor :: "fields \<Rightarrow> jsval" where
  "progress_anchor live = nullish (obj_get live ''routeMatchAnchor'') (trustworthy_match (obj_get live ''matchedLocation''))"

text \<open>The match within the progress that a speed allows.\<close>

definition match_within ::
    "telemetry_payload \<Rightarrow> position \<Rightarrow> position list \<Rightarrow> jsnum \<Rightarrow> previous_match option \<Rightarrow> jsnum \<Rightarrow> jsnum \<Rightarrow> jsnum \<Rightarrow> route_match option" where
  "match_within s point path heading prior uncertainty elapsed speed_kmh = match_route_position
     \<lparr>mq_raw_point = point, mq_path = path,
      mq_heading = (if tp_speed s \<ge> 3 \<and> tp_motion_state s = ''moving'' then Some heading else None),
      mq_previous = prior, mq_uncertainty_m = uncertainty,
      mq_max_change_m = (if elapsed > 0 \<and> elapsed \<le> 60000 then Some ((speed_kmh + 15) / (36 / 10) * elapsed / 1000 + 2 * uncertainty) else None),
      mq_plausible_m = (if prior \<noteq> None then plausible_progress_bound elapsed speed_kmh uncertainty else None)\<rparr>"

text \<open>A match that the current speed alone would place on another leg is ambiguous.\<close>

definition competing_leg :: "route_match \<Rightarrow> route_match option \<Rightarrow> route_match" where
  "competing_leg m nearer = (case nearer of
      None \<Rightarrow> m
    | Some n \<Rightarrow> (if js_abs (rm_along_route_distance_m n - rm_along_route_distance_m m) >
          haversine_meters (rm_point n) (rm_point m) + competing_leg_extra_m
        then m\<lparr>rm_is_ambiguous := True, rm_match_confidence := to_fixed3 (rm_match_confidence m * (55 / 100))\<rparr> else m))"

definition match_fix :: "host \<Rightarrow> jsnum \<Rightarrow> fields \<Rightarrow> telemetry_payload \<Rightarrow> position list \<Rightarrow> jsnum \<Rightarrow> bool \<Rightarrow> match_work option" where
  "match_fix h now live s path route_version changed =
    (case valid_lat_lng (position_value (node_position h live)) of
      None \<Rightarrow> None
    | Some point \<Rightarrow>
      (let anchor_timestamp = js_number (h_parse h) (js_prop (obj_get live ''plausibilityAnchor'') ''timestamp'');
         reacquire = is_finite anchor_timestamp \<and> tp_timestamp s - anchor_timestamp > telemetry_reacquire_after_ms;
         anchor = progress_anchor live;
         prior = (if changed \<or> reacquire then None else previous_match anchor route_version (tp_timestamp s));
         accepted = accepted_route_sample h live s point;
         trajectory = recent_trajectory (obj_get live ''routeMatchHistory'') point accepted;
         heading = opt_default (trajectory_heading (map tr_at trajectory) 8) (tp_heading accepted);
         elapsed = route_matching_elapsed_ms h (obj_get live ''routeMatchHistory'') (tp_timestamp accepted);
         sampled_at = js_number (h_parse h) (js_prop anchor ''sampledAt'');
         progress_elapsed = (if prior \<noteq> None \<and> is_finite sampled_at then tp_timestamp s - sampled_at else elapsed);
         live_speed = js_number (h_parse h) (obj_get live ''speed'');
         uncertainty = adaptive_gnss_error_meters (tp_gps_hdop accepted) (tp_speed accepted) live_speed elapsed None;
         current_speed = js_max (tp_speed accepted) (if live_speed = NaN then 0 else live_speed);
         anchor_speed = previous_match_speed_kmh h anchor;
         bounded = match_within accepted point path heading prior uncertainty progress_elapsed;
         first = bounded (js_max current_speed anchor_speed);
         m = (case first of None \<Rightarrow> None
           | Some r \<Rightarrow> Some (if \<not> rm_is_ambiguous r \<and> prior \<noteq> None \<and> anchor_speed > current_speed \<and>
               progress_elapsed > plausible_progress_max_anchor_age_ms then competing_leg r (bounded current_speed) else r));
         samples = (case obj_get live ''offRouteSampleCount'' of JNum n \<Rightarrow> (if \<not> changed \<and> is_integer n then n else 0) | _ \<Rightarrow> 0) in
       Some \<lparr>mw_sample = accepted, mw_trajectory = trajectory, mw_match = m,
         mw_adherence = evaluate_route_adherence (if changed then None else adherence_previous_state h live now) samples m (is_reliable_moving_sample accepted),
         mw_anchor = anchor\<rparr>))"

definition trajectory_value :: "trajectory_point \<Rightarrow> jsval" where
  "trajectory_value p = JObj [(''lat'', JNum (pos_lat (tr_at p))), (''lng'', JNum (pos_lng (tr_at p))), (''seq'', JNum (tr_seq p)), (''sampledAt'', JNum (tr_sampled_at p))]"

record match_target =
  mt_route :: stored_route
  mt_route_id :: string
  mt_direction :: direction
  mt_session :: string
  mt_version :: jsnum
  mt_dynamic :: bool
  mt_changed :: bool
  mt_plan :: "departure_plan option"

text \<open>The update of the node with the match of \<open>s\<close>; \<open>live\<close> is the node that was matched, \<open>node\<close> the one found.\<close>

definition match_update :: "host \<Rightarrow> bool \<Rightarrow> fields \<Rightarrow> telemetry_payload \<Rightarrow> match_target \<Rightarrow> match_work \<Rightarrow> fields \<Rightarrow> fields option" where
  "match_update h guard live s t w node =
    (let v = mt_version t; m = mw_match w; a = mw_sample w; state = ad_route_state (mw_adherence w) in
     if \<not> guard \<or> \<not> telemetry_route_context_is_current node s (mt_direction t) (mt_session t) then None
     else if obj_get node ''routeVersion'' \<noteq> obj_get live ''routeVersion'' then None
     else next_matched_telemetry_value node s
       ([(''activeRouteId'', if \<not> mt_dynamic t then JStr (mt_route_id t @ '':configured:'' @ direction_name (mt_direction t))
           else if is_string (obj_get node ''activeRouteId'') then obj_get node ''activeRouteId'' else JStr (mt_route_id t @ '':reroute:'' @ h_string h v)),
         (''routeVersion'', JNum v), (''routeSource'', JStr (if mt_dynamic t then ''dynamic-reroute'' else ''configured'')),
         (''routeDirection'', JStr (direction_name (mt_direction t))), (''routeSessionId'', JStr (mt_session t)),
         (''routeGeometryVersion'', JNum (rt_geometry_version (mt_route t)))] @
        (if mt_changed t then [(''routeComputedAt'', JNull), (''routeTrafficState'', JStr ''fallback''), (''departureRoute'', JNull)] else []) @
        (case mt_plan t of Some p \<Rightarrow> (if pl_reuse p then [(''departureRoute'', JObj (put_all (object_fields (obj_get live ''departureRoute''))
            [(''context'', JStr (pl_context p)), (''phase'', JStr (if pl_ready p then ''ready'' else ''departure''))]))] else []) | None \<Rightarrow> []) @
        [(''routeState'', JStr (state_name state))] @
        (if mt_changed t \<or> state = On_Route \<or> state = On_New_Route
         then [(''rerouteRequestId'', JNull), (''rerouteError'', JNull), (''rerouteRetry'', JNull)] else []) @
        [(''routeMatchHistory'', JArr (map trajectory_value (mw_trajectory w))),
         (''routeMatchAnchor'', if shown_match m \<and> tp_motion_state a \<noteq> ''uncertain'' then matched_location (the m) a v
           else if mt_changed t then JNull else nullish (mw_anchor w) JNull),
         (''offRouteSampleCount'', JNum (ad_off_route_sample_count (mw_adherence w))), (''mapMatchUpdatedAt'', server_now),
         (''mapMatchSeq'', JNum (tp_seq a)), (''mapMatchSampledAt'', JNum (tp_timestamp a)),
         (''matchConfidence'', JNum (case m of Some r \<Rightarrow> rm_match_confidence r | None \<Rightarrow> 0)),
         (''distanceToActiveRoute'', case m of Some r \<Rightarrow> JNum (to_fixed1 (rm_distance_to_route_m r)) | None \<Rightarrow> JNull),
         (''matchedLocation'', if shown_match m then matched_location (the m) a v else JNull)]))"

section \<open>The transactions of the service\<close>

datatype node_tx =
    Resolve jsval jsnum bool device_assignment telemetry_payload stored_route
  | Mark bool fields stored_route direction
  | Reset fields telemetry_payload
  | Match bool fields telemetry_payload stored_route string direction bool "departure_plan option" match_work
  | Publish jsnum bool jsnum reroute_request "departure option" string telemetry_payload jsval bool "jsnum option"
  | Claim_Departure bool jsnum bool reroute_request stored_route
  | Fail_Departure jsnum real reroute_request
  | Claim_Reroute jsnum real bool reroute_request string
  | Retry_Reroute jsnum real reroute_request string string fields

definition match_target_of :: "host \<Rightarrow> fields \<Rightarrow> stored_route \<Rightarrow> string \<Rightarrow> direction \<Rightarrow> bool \<Rightarrow> departure_plan option \<Rightarrow> match_target" where
  "match_target_of h live route route_id d dynamic plan =
    (let changed = context_changed live route d \<or> missing_dynamic_geometry live route d dynamic in
     \<lparr>mt_route = route, mt_route_id = route_id, mt_direction = d, mt_session = route_session_id live,
      mt_version = next_route_version h live route d dynamic, mt_dynamic = dynamic, mt_changed = changed,
      mt_plan = (if changed then None else plan)\<rparr>)"

fun node_do :: "host \<Rightarrow> node_tx \<Rightarrow> fields \<Rightarrow> fields option" where
  "node_do h (Resolve tm now guard a s route) node = resolve_pending_direction h tm now guard a s route node"
| "node_do h (Mark guard live route d) node = mark_direction_projection_synchronized guard live route d node"
| "node_do h (Reset live s) node = reset_refused_direction live s node"
| "node_do h (Match guard live s route i d dynamic plan w) node = match_update h guard live s (match_target_of h live route i d dynamic plan) w node"
| "node_do h (Publish now guard created q dep i s encoded fallback index) node = (case prepare_reroute created q dep i s encoded fallback index of
      Inl e \<Rightarrow> None | Inr p \<Rightarrow> publish_reroute h now guard p node)"
| "node_do h (Claim_Departure enabled now guard q route) node = claim_departure h enabled now guard q route node"
| "node_do h (Fail_Departure now random q) node = fail_departure h now random q node"
| "node_do h (Claim_Reroute now jitter guard q ctx) node = claim_reroute now jitter guard q ctx node"
| "node_do h (Retry_Reroute now jitter q ctx message claimed) node = retry_current_request now jitter q ctx message claimed node"

definition lifecycle_fields :: "string list" where
  "lifecycle_fields = [''busId'', ''routeId'', ''driverId'', ''sessionId'', ''status'', ''tripState'', ''currentStopIndex'', ''timestamp'', ''seq'', ''lat'', ''lng'']"

definition direction_keys :: "string list" where
  "direction_keys = [''direction'', ''directionState'', ''directionEndpointVersion'', ''originStopId'', ''destinationStopId'',
     ''directionResolutionSource'', ''directionResolvedAt'', ''pendingDeparture'']"

definition other_keys :: "string list" where
  "other_keys = ''directionFirestoreSynced'' # live_route_context_fields"

lemma put_all_other: "k \<notin> fst ` set kvs \<Longrightarrow> obj_get (put_all fs kvs) k = obj_get fs k"
proof -
  assume "k \<notin> fst ` set kvs"
  then have "map_of (rev kvs) k = None" by (simp add: map_of_eq_None_iff)
  then show ?thesis by (simp add: obj_get_put_all opt_default_def)
qed

definition writes :: "fields \<Rightarrow> fields option \<Rightarrow> string set \<Rightarrow> bool" where
  "writes node r ks \<longleftrightarrow> (\<forall>node'. r = Some node' \<longrightarrow> (\<exists>kvs. node' = put_all node kvs \<and> fst ` set kvs \<subseteq> ks))"

lemma writes_none [simp]: "writes node None ks"
  by (simp add: writes_def)

lemma writes_put: "fst ` set kvs \<subseteq> ks \<Longrightarrow> writes node (Some (put_all node kvs)) ks"
  by (auto simp: writes_def)

lemma writes_kept: "writes node r ks \<Longrightarrow> r = Some node' \<Longrightarrow> k \<notin> ks \<Longrightarrow> obj_get node' k = obj_get node k"
  using put_all_other by (fastforce simp: writes_def)

lemma keys_sub:
  "fst ` set [] \<subseteq> K"
  "k \<in> K \<Longrightarrow> fst ` set xs \<subseteq> K \<Longrightarrow> fst ` set ((k, v) # xs) \<subseteq> K"
  "fst ` set xs \<subseteq> K \<Longrightarrow> fst ` set ys \<subseteq> K \<Longrightarrow> fst ` set (xs @ ys) \<subseteq> K"
  "fst ` set xs \<subseteq> K \<Longrightarrow> fst ` set ys \<subseteq> K \<Longrightarrow> fst ` set (if b then xs else ys) \<subseteq> K"
  "fst ` set ys \<subseteq> K \<Longrightarrow> (\<And>p. fst ` set (f p) \<subseteq> K) \<Longrightarrow> fst ` set (case q of Some p \<Rightarrow> f p | None \<Rightarrow> ys) \<subseteq> K"
  by (auto split: option.splits)

lemma writes_if: "writes node r ks \<Longrightarrow> writes node r' ks \<Longrightarrow> writes node (if b then r else r') ks"
  by simp

lemma matched_writes: "fst ` set kvs \<subseteq> ks \<Longrightarrow> writes node (next_matched_telemetry_value node s kvs) ks"
  by (simp add: next_matched_telemetry_value_def writes_put)

lemma writes_case: "writes node r ks \<Longrightarrow> (\<And>x. writes node (f x) ks) \<Longrightarrow> writes node (case q of None \<Rightarrow> r | Some x \<Rightarrow> f x) ks"
  by (simp split: option.split)

lemmas writes_intros = writes_if writes_none writes_case matched_writes writes_put keys_sub

lemma mark_writes: "writes node (mark_direction_projection_synchronized guard live route d node) (set other_keys)"
  unfolding mark_direction_projection_synchronized_def by (intro writes_intros) (simp_all add: other_keys_def)

lemma publish_writes: "writes node (publish_reroute h now guard p node) (set other_keys)"
  unfolding publish_reroute_def Let_def by (intro writes_intros) (simp_all add: other_keys_def live_route_context_fields_def)

lemma claim_departure_writes: "writes node (claim_departure h enabled now guard q route node) (set other_keys)"
  unfolding claim_departure_def Let_def by (intro writes_intros) (simp_all add: other_keys_def live_route_context_fields_def)

lemma fail_departure_writes: "writes node (fail_departure h now random q node) (set other_keys)"
  unfolding fail_departure_def Let_def by (intro writes_intros) (simp_all add: other_keys_def live_route_context_fields_def)

lemma claim_reroute_writes: "writes node (claim_reroute now jitter guard q ctx node) (set other_keys)"
  unfolding claim_reroute_def Let_def by (intro writes_intros) (simp_all add: other_keys_def live_route_context_fields_def)

lemma retry_writes: "writes node (retry_current_request now jitter q ctx message claimed node) (set other_keys)"
  unfolding retry_current_request_def Let_def by (intro writes_intros) (simp_all add: other_keys_def live_route_context_fields_def)

lemma match_writes: "writes node (match_update h guard live s t w node) (set other_keys)"
  unfolding match_update_def Let_def
  by (intro writes_intros) (simp_all add: other_keys_def live_route_context_fields_def)

text \<open>Before departure a direction may be resolved or withdrawn; the lifecycle of the node is never written.\<close>

lemma without_context_kept:
  assumes "jm_ok fs" "k \<notin> set live_route_context_fields"
  shows "obj_get (without_live_route_context fs p) k = obj_get fs k"
proof -
  have "k \<noteq> ''routeVersion''" using assms(2) by (auto simp: live_route_context_fields_def)
  then show ?thesis using assms by (simp add: without_live_route_context_def Let_def obj_get_delete_all split: jsval.split)
qed

lemma without_context_version:
  "jm_ok fs \<Longrightarrow> obj_get (without_live_route_context fs True) ''routeVersion'' =
     (case obj_get fs ''routeVersion'' of JNum v \<Rightarrow> (if is_safe_integer v \<and> v > 0 then JNum v else JUndef) | _ \<Rightarrow> JUndef)"
  by (simp add: without_live_route_context_def Let_def obj_get_delete_all live_route_context_fields_def split: jsval.split)

definition direction_write :: "fields \<Rightarrow> fields option \<Rightarrow> bool" where
  "direction_write live r \<longleftrightarrow> (\<forall>node. r = Some node \<longrightarrow> (\<exists>kvs. fst ` set kvs \<subseteq> set (''directionFirestoreSynced'' # direction_keys) \<and>
     (node = put_all live kvs \<or> node = put_all (without_live_route_context live True) kvs)))"

lemma direction_write_intros:
  "direction_write live None"
  "fst ` set kvs \<subseteq> set (''directionFirestoreSynced'' # direction_keys) \<Longrightarrow> direction_write live (Some (put_all live kvs))"
  "fst ` set kvs \<subseteq> set (''directionFirestoreSynced'' # direction_keys) \<Longrightarrow> direction_write live (Some (put_all (without_live_route_context live True) kvs))"
  "direction_write live r \<Longrightarrow> direction_write live r' \<Longrightarrow> direction_write live (if b then r else r')"
  "direction_write live r \<Longrightarrow> (\<And>x. direction_write live (f x)) \<Longrightarrow> direction_write live (case q of None \<Rightarrow> r | Some x \<Rightarrow> f x)"
  by (auto simp: direction_write_def split: option.splits)

lemma resolve_writes: "direction_write live (resolve_pending_direction h tm now guard a s route live)"
proof -
  obtain ctx samples where p: "pending_departure h now a route live = (ctx, samples)" by (metis surj_pair)
  show ?thesis unfolding resolve_pending_direction_def Let_def p prod.case
    by (intro direction_write_intros keys_sub) (simp_all add: direction_keys_def)
qed

lemma reset_writes: "direction_write node (reset_refused_direction live s node)"
  unfolding reset_refused_direction_def
  by (intro direction_write_intros keys_sub) (simp_all add: direction_keys_def)

lemma direction_write_kept:
  assumes "direction_write live (Some node)" "jm_ok live" "k \<notin> set live_route_context_fields" "k \<notin> set direction_keys" "k \<noteq> ''directionFirestoreSynced''"
  shows "obj_get node k = obj_get live k"
proof -
  obtain kvs where kvs: "fst ` set kvs \<subseteq> set (''directionFirestoreSynced'' # direction_keys)"
      "node = put_all live kvs \<or> node = put_all (without_live_route_context live True) kvs"
    using assms(1) by (auto simp: direction_write_def)
  have "k \<notin> fst ` set kvs" using kvs(1) assms(4,5) by auto
  then show ?thesis using kvs(2) put_all_other without_context_kept [OF assms(2,3)] by metis
qed

lemma direction_write_version:
  assumes "direction_write live (Some node)" "jm_ok live"
  shows "obj_get node ''routeVersion'' = obj_get live ''routeVersion'' \<or>
    obj_get node ''routeVersion'' = obj_get (without_live_route_context live True) ''routeVersion''"
proof -
  obtain kvs where kvs: "fst ` set kvs \<subseteq> set (''directionFirestoreSynced'' # direction_keys)"
      "node = put_all live kvs \<or> node = put_all (without_live_route_context live True) kvs"
    using assms(1) by (auto simp: direction_write_def)
  have "''routeVersion'' \<notin> set (''directionFirestoreSynced'' # direction_keys)" by (simp add: direction_keys_def)
  then have "''routeVersion'' \<notin> fst ` set kvs" using kvs(1) by blast
  then show ?thesis using kvs(2) put_all_other by metis
qed

lemma node_do_writes:
  assumes "node_do h tx node = Some node'"
  shows "(\<exists>kvs. node' = put_all node kvs \<and> fst ` set kvs \<subseteq> set other_keys) \<or>
    (direction_write node (Some node') \<and> (live_direction node = None \<or> \<not> is_string (obj_get node ''sessionId'') \<or> obj_get node ''tripState'' = JStr ''pre_departure''))"
proof (cases tx)
  case (Resolve tm now guard a s route)
  then have r: "resolve_pending_direction h tm now guard a s route node = Some node'" using assms by simp
  have "direction_write node (Some node')" using resolve_writes [of node h tm now guard a s route] r by simp
  moreover have "live_direction node = None \<or> \<not> is_string (obj_get node ''sessionId'')"
    using r by (auto simp: resolve_pending_direction_def Let_def split: if_splits)
  ultimately show ?thesis by blast
next
  case (Reset live s)
  then have r: "reset_refused_direction live s node = Some node'" using assms by simp
  have "direction_write node (Some node')" using reset_writes [of node live s] r by simp
  moreover have "obj_get node ''tripState'' = JStr ''pre_departure''" using r by (auto simp: reset_refused_direction_def split: if_splits)
  ultimately show ?thesis by blast
next
  case (Publish now guard created q dep i s encoded fallback index)
  then obtain p where "publish_reroute h now guard p node = Some node'" using assms by (auto split: sum.splits)
  then show ?thesis using publish_writes [of node h now guard p] by (auto simp: writes_def)
next
  case (Mark guard live route dir)
  then show ?thesis using assms mark_writes [of node guard live route dir] by (simp add: writes_def)
next
  case (Match guard live s route i dir dynamic plan w)
  then show ?thesis
    using assms match_writes [of node h guard live s "match_target_of h live route i dir dynamic plan" w] by (simp add: writes_def)
next
  case (Claim_Departure enabled now guard q route)
  then show ?thesis using assms claim_departure_writes [of node h enabled now guard q route] by (simp add: writes_def)
next
  case (Fail_Departure now random q)
  then show ?thesis using assms fail_departure_writes [of node h now random q] by (simp add: writes_def)
next
  case (Claim_Reroute now jitter guard q ctx)
  then show ?thesis using assms claim_reroute_writes [of node now jitter guard q ctx] by (simp add: writes_def)
next
  case (Retry_Reroute now jitter q ctx message claimed)
  then show ?thesis using assms retry_writes [of node now jitter q ctx message claimed] by (simp add: writes_def)
qed

lemma keys_apart: "set lifecycle_fields \<inter> set other_keys = {}" "set direction_keys \<inter> set other_keys = {}"
    "set lifecycle_fields \<inter> set direction_keys = {}"
  by (simp_all add: lifecycle_fields_def direction_keys_def other_keys_def live_route_context_fields_def)

section \<open>Directions of a ride under way\<close>

lemma lifecycle_kept:
  assumes "node_do h tx node = Some node'" "jm_ok node" "k \<in> set lifecycle_fields"
  shows "obj_get node' k = obj_get node k"
proof -
  have k: "k \<notin> set other_keys" "k \<notin> set direction_keys" using assms(3) keys_apart by auto
  then have "k \<notin> set live_route_context_fields" "k \<noteq> ''directionFirestoreSynced''" by (auto simp: other_keys_def)
  then show ?thesis using node_do_writes [OF assms(1)] direction_write_kept [OF _ assms(2)] k put_all_other by (meson subset_iff)
qed

lemma direction_kept:
  assumes "node_do h tx node = Some node'" "k \<in> set direction_keys"
    and "live_direction node \<noteq> None" "is_string (obj_get node ''sessionId'')" "obj_get node ''tripState'' \<noteq> JStr ''pre_departure''"
  shows "obj_get node' k = obj_get node k"
proof -
  obtain kvs where kvs: "node' = put_all node kvs" "fst ` set kvs \<subseteq> set other_keys"
    using node_do_writes [OF assms(1)] assms(3-5) by blast
  then have "k \<notin> fst ` set kvs" using assms(2) keys_apart(2) by blast
  then show ?thesis unfolding kvs(1) by (rule put_all_other)
qed

text \<open>C32. Whatever it read before and however old that is, no transaction of the route service changes the
  assignment, the session, the state, the stop index, the sample or the position of the node, and once a session
  under way has a direction, none changes the direction, its version or its end stops.\<close>

theorem route_work_keeps_the_ride:
  assumes "node_do h tx node = Some node'" "jm_ok node"
  shows "(k \<in> set lifecycle_fields \<longrightarrow> obj_get node' k = obj_get node k) \<and>
    (live_direction node \<noteq> None \<and> is_string (obj_get node ''sessionId'') \<and> obj_get node ''tripState'' \<noteq> JStr ''pre_departure'' \<longrightarrow>
      k \<in> set direction_keys \<longrightarrow> obj_get node' k = obj_get node k)"
  using lifecycle_kept [OF assms] direction_kept [OF assms(1)] by blast

section \<open>The version of the route\<close>

definition version_of :: "fields \<Rightarrow> real" where
  "version_of node = (case obj_get node ''routeVersion'' of
     JNum (Fin v) \<Rightarrow> (if is_safe_integer (Fin v) \<and> v > 0 then v else 0) | _ \<Rightarrow> 0)"

lemma version_of_nonneg: "0 \<le> version_of node"
  by (auto simp: version_of_def split: jsval.split jsnum.split)

lemma version_of_num: "obj_get node ''routeVersion'' = JNum (Fin v) \<Longrightarrow> is_safe_integer (Fin v) \<Longrightarrow> v > 0 \<Longrightarrow> version_of node = v"
  by (simp add: version_of_def)

lemma version_of_same: "obj_get node' ''routeVersion'' = obj_get node ''routeVersion'' \<Longrightarrow> version_of node' = version_of node"
  by (simp add: version_of_def)

lemma safe_int_num: "is_safe_integer (Fin v) \<longleftrightarrow> (\<exists>i. v = of_int i \<and> \<bar>i\<bar> \<le> 9007199254740991)"
proof
  assume "is_safe_integer (Fin v)"
  then obtain i where "Fin v = Fin (of_int i)" by (rule is_safe_integerE) auto
  then have "v = of_int i" by simp
  then show "\<exists>i. v = of_int i \<and> \<bar>i\<bar> \<le> 9007199254740991" using \<open>is_safe_integer (Fin v)\<close> by auto
qed auto

lemma safe_up: "is_safe_integer (Fin v) \<Longrightarrow> 0 \<le> v \<Longrightarrow> v < 9007199254740991 \<Longrightarrow> is_safe_integer (Fin (v + 1))"
proof -
  assume "is_safe_integer (Fin v)" "0 \<le> v" "v < 9007199254740991"
  then obtain i where i: "v = of_int i" "\<bar>i\<bar> \<le> 9007199254740991" using safe_int_num by auto
  then have "v + 1 = of_int (i + 1)" "\<bar>i + 1\<bar> \<le> 9007199254740991" using \<open>0 \<le> v\<close> \<open>v < 9007199254740991\<close> by auto
  then show ?thesis using safe_int_num by blast
qed

lemma put_all_append: "put_all fs (xs @ ys) = put_all (put_all fs xs) ys"
  by (simp add: put_all_def)

text \<open>A value written once, before keys that are other ones.\<close>

lemma put_all_written: "k \<notin> fst ` set ys \<Longrightarrow> obj_get (put_all fs (xs @ (k, v) # ys)) k = v"
  by (simp add: put_all_append [of fs xs] put_all_other put_all_append [of _ "[(k, v)]" ys, simplified])
    (simp add: put_all_def obj_get_jm opt_default_def)

definition version_apart :: "string set" where
  "version_apart = - {''routeVersion''}"

lemma version_apart_writes:
  "writes node (mark_direction_projection_synchronized guard live route d node) version_apart"
  "writes node (claim_departure h enabled now guard q route node) version_apart"
  "writes node (fail_departure h now random q node) version_apart"
  "writes node (claim_reroute now jitter guard q ctx node) version_apart"
  "writes node (retry_current_request now jitter q ctx message claimed node) version_apart"
  unfolding mark_direction_projection_synchronized_def claim_departure_def fail_departure_def claim_reroute_def retry_current_request_def Let_def
  by (intro writes_intros; simp add: version_apart_def)+

lemma apart_kept: "writes node r version_apart \<Longrightarrow> r = Some node' \<Longrightarrow> version_of node' = version_of node"
  by (rule version_of_same) (auto elim: writes_kept simp: version_apart_def)

definition leaves :: "fields option \<Rightarrow> string \<Rightarrow> jsval \<Rightarrow> bool" where
  "leaves r k v \<longleftrightarrow> (\<forall>node. r = Some node \<longrightarrow> obj_get node k = v)"

lemma leaves_intros:
  "leaves None k v"
  "leaves r k v \<Longrightarrow> leaves r' k v \<Longrightarrow> leaves (if b then r else r') k v"
  "fst ` set ys \<subseteq> - {k} \<Longrightarrow> leaves (Some (put_all node (x # (k, v) # ys))) k v"
  "fst ` set ys \<subseteq> - {k} \<Longrightarrow> leaves (next_matched_telemetry_value node s (x # (k, v) # ys)) k v"
  using put_all_written [of k ys _ "[x]" v] by (auto simp: leaves_def next_matched_telemetry_value_def)

lemma match_version:
  assumes "match_update h guard live s t w node = Some node'"
  shows "obj_get node ''routeVersion'' = obj_get live ''routeVersion'' \<and> obj_get node' ''routeVersion'' = JNum (mt_version t)"
proof -
  have "leaves (match_update h guard live s t w node) ''routeVersion'' (JNum (mt_version t))"
    unfolding match_update_def Let_def append_Cons append_Nil by (intro leaves_intros keys_sub) simp_all
  then show ?thesis using assms by (auto simp: leaves_def match_update_def Let_def split: if_splits)
qed

lemma publish_guard:
  assumes "publish_reroute h now guard p node = Some node'"
  shows "publication_is_current p node \<and> geometry_publication_is_fresh (pu_created_at p) now"
proof -
  show ?thesis using assms unfolding publish_reroute_def by (cases "\<not> guard \<or> \<not> geometry_publication_is_fresh (pu_created_at p) now \<or> \<not> publication_is_current p node") simp_all
qed

lemma publish_version:
  assumes "publish_reroute h now guard p node = Some node'"
  shows "has_version node (rq_route_version (pu_request p)) \<and> is_safe_integer (pu_created_at p) \<and>
    obj_get node' ''routeVersion'' = JNum (pu_next_version p)"
proof -
  have "leaves (publish_reroute h now guard p node) ''routeVersion'' (JNum (pu_next_version p))"
    unfolding publish_reroute_def Let_def append_Cons append_Nil by (intro leaves_intros keys_sub) simp_all
  moreover have "has_version node (rq_route_version (pu_request p))" "is_safe_integer (pu_created_at p)"
    using publish_guard [OF assms] by (auto simp: publication_is_current_def reroute_context_is_current_def
        departure_context_is_current_def geometry_publication_is_fresh_def split: option.splits)
  ultimately show ?thesis using assms by (simp add: leaves_def)
qed

lemma prepared_version:
  "prepare_reroute created q dep i s encoded fallback index = Inr p \<Longrightarrow>
   pu_next_version p = js_max (rq_route_version q + 1) created \<and> pu_created_at p = created \<and> pu_request p = q \<and> pu_departure p = dep"
  by (auto simp: prepare_reroute_def Let_def split: sum.splits if_splits)

lemma version_of_pos: "0 < version_of node \<Longrightarrow> obj_get node ''routeVersion'' = JNum (Fin (version_of node)) \<and> is_safe_integer (Fin (version_of node))"
  by (cases "obj_get node ''routeVersion''") (auto simp: version_of_def simp del: is_safe_integer.simps split: jsnum.splits if_splits)

lemma next_version:
  assumes v: "0 < version_of live" "version_of live < 9007199254740991"
  shows "\<exists>w \<ge> version_of live. next_route_version h live route d dynamic = Fin w \<and> is_safe_integer (Fin w)"
proof -
  have p: "obj_get live ''routeVersion'' = JNum (Fin (version_of live))" "is_safe_integer (Fin (version_of live))"
    using version_of_pos [OF v(1)] by simp_all
  have up: "is_safe_integer (Fin (version_of live + 1))" using safe_up [OF p(2)] v by simp
  have "\<not> (context_changed live route d \<and> missing_dynamic_geometry live route d dynamic)" by (simp add: missing_dynamic_geometry_def)
  then have "next_route_version h live route d dynamic = Fin (version_of live) \<or> next_route_version h live route d dynamic = Fin (version_of live + 1)"
    using p v(1) by (auto simp: next_route_version_def Let_def simp del: is_safe_integer.simps)
  then show ?thesis using up p(2) by (metis add.commute add_increasing order_refl zero_le_one)
qed

lemma publication_advances:
  assumes p: "prepare_reroute created q dep i s encoded fallback index = Inr p" "publish_reroute h now guard p node = Some node'"
    and v: "0 < version_of node" "version_of node < 9007199254740991"
  shows "version_of node < version_of node'"
proof -
  note f = publish_version [OF p(2)] prepared_version [OF p(1)]
  have q: "rq_route_version q = Fin (version_of node)"
    using f version_of_pos [OF v(1)] by (cases "rq_route_version q") (auto simp: has_version_def num_eq_def)
  obtain c where c: "created = Fin c" "is_safe_integer (Fin c)"
    using f by (cases created) auto
  define w where "w = max (version_of node + 1) c"
  have "is_safe_integer (Fin (version_of node + 1))" using safe_up v version_of_pos [OF v(1)] by simp
  then have w: "is_safe_integer (Fin w)" "version_of node < w" using c(2) unfolding w_def by (auto simp: max_def)
  have "obj_get node' ''routeVersion'' = JNum (Fin w)" using f q c(1) by (simp add: w_def)
  then show ?thesis using version_of_num w v(1) by simp
qed

lemma direction_write_version_of:
  assumes "direction_write node (Some node')" "jm_ok node"
  shows "version_of node \<le> version_of node'"
proof (cases "0 < version_of node")
  case True
  obtain x where x: "x = Fin (version_of node)" "obj_get node ''routeVersion'' = JNum x" "is_safe_integer x" "x > 0"
    using version_of_pos [OF True] True by simp
  have "obj_get (without_live_route_context node True) ''routeVersion'' = JNum x"
    using without_context_version [OF assms(2)] x(3,4) unfolding x(2) by (simp only: jsval.case if_True conj_absorb simp_thms)
  then have "obj_get node' ''routeVersion'' = JNum x" using direction_write_version [OF assms] x(2) by metis
  then have "version_of node' = version_of node" using version_of_same x(2) by metis
  then show ?thesis by simp
next
  case False
  then show ?thesis using version_of_nonneg [of node'] by linarith
qed

text \<open>C33. The version of a node's route never falls, whichever transaction of the service commits and however old its
  reads are, and every publication of a new geometry raises it: no geometry is published under a version that was in use.\<close>

theorem route_version_never_falls:
  assumes d: "node_do h tx node = Some node'" and ok: "jm_ok node" and v: "version_of node < 9007199254740991"
  shows "version_of node \<le> version_of node' \<and>
    (0 < version_of node \<and> (\<exists>now guard created q dep i s e f x. tx = Publish now guard created q dep i s e f x) \<longrightarrow> version_of node < version_of node')"
proof (cases tx)
  case (Resolve tm now guard a s route)
  then have "direction_write node (Some node')" using resolve_writes [of node h tm now guard a s route] d by simp
  then show ?thesis using direction_write_version_of ok Resolve by simp
next
  case (Reset live s)
  then have "direction_write node (Some node')" using reset_writes [of node live s] d by simp
  then show ?thesis using direction_write_version_of ok Reset by simp
next
  case (Match guard live s route i dir dynamic plan w)
  note m = match_version [of h guard live s "match_target_of h live route i dir dynamic plan" w node node']
  have e: "version_of live = version_of node" "obj_get node' ''routeVersion'' = JNum (next_route_version h live route dir dynamic)"
    using m d Match by (auto simp: match_target_of_def Let_def intro: version_of_same)
  show ?thesis
  proof (cases "0 < version_of node")
    case True
    then obtain w where w: "w \<ge> version_of node" "next_route_version h live route dir dynamic = Fin w" "is_safe_integer (Fin w)"
      using next_version [of live h route dir dynamic] v e(1) by auto
    then have "version_of node' = w" using version_of_num [of node' w] e(2) True by simp
    then show ?thesis using w Match by simp
  qed (use version_of_nonneg [of node'] Match in simp)
next
  case (Publish now guard created q dep i s encoded fallback index)
  then obtain p where p: "prepare_reroute created q dep i s encoded fallback index = Inr p" "publish_reroute h now guard p node = Some node'"
    using d by (auto split: sum.splits)
  show ?thesis
  proof (cases "0 < version_of node")
    case True
    then show ?thesis using publication_advances [OF p True v] by simp
  qed (use version_of_nonneg [of node'] in simp)
next
  case (Mark guard live route dir)
  then show ?thesis using apart_kept [OF version_apart_writes(1)] d by simp
next
  case (Claim_Departure enabled now guard q route)
  then show ?thesis using apart_kept [OF version_apart_writes(2)] d by simp
next
  case (Fail_Departure now random q)
  then show ?thesis using apart_kept [OF version_apart_writes(3)] d by simp
next
  case (Claim_Reroute now jitter guard q ctx)
  then show ?thesis using apart_kept [OF version_apart_writes(4)] d by simp
next
  case (Retry_Reroute now jitter q ctx message claimed)
  then show ?thesis using apart_kept [OF version_apart_writes(5)] d by simp
qed

section \<open>One publication for one claim\<close>

text \<open>The service among other writers, which keep or drop the request of a node but never invent one.\<close>

datatype node_event = Tx node_tx | Foreign fields

definition request_of :: "fields \<Rightarrow> jsval" where
  "request_of node = obj_get node ''rerouteRequestId''"

fun event_do :: "host \<Rightarrow> node_event \<Rightarrow> fields \<Rightarrow> fields option" where
  "event_do h (Tx tx) node = node_do h tx node"
| "event_do h (Foreign new) node = (if jm_ok new \<and> (request_of new = request_of node \<or> \<not> is_string (request_of new)) then Some new else None)"

fun committed :: "host \<Rightarrow> node_event list \<Rightarrow> fields \<Rightarrow> node_event list" where
  "committed h [] node = []"
| "committed h (e # es) node = (case event_do h e node of None \<Rightarrow> committed h es node | Some node' \<Rightarrow> e # committed h es node')"

fun claims_request :: "string \<Rightarrow> node_event \<Rightarrow> bool" where
  "claims_request r (Tx (Claim_Reroute now jitter guard q ctx)) \<longleftrightarrow> rq_request_id q = r"
| "claims_request r _ \<longleftrightarrow> False"

fun publishes_request :: "string \<Rightarrow> node_event \<Rightarrow> bool" where
  "publishes_request r (Tx (Publish now guard created q None i s encoded fallback index)) \<longleftrightarrow> rq_request_id q = r"
| "publishes_request r _ \<longleftrightarrow> False"

definition nulls :: "fields \<Rightarrow> bool" where
  "nulls kvs \<longleftrightarrow> (\<forall>v. (''rerouteRequestId'', v) \<in> set kvs \<longrightarrow> v = JNull)"

lemma nulls_intros:
  "nulls []"
  "k \<noteq> ''rerouteRequestId'' \<or> v = JNull \<Longrightarrow> nulls kvs \<Longrightarrow> nulls ((k, v) # kvs)"
  "nulls xs \<Longrightarrow> nulls ys \<Longrightarrow> nulls (xs @ ys)"
  "nulls xs \<Longrightarrow> nulls ys \<Longrightarrow> nulls (if b then xs else ys)"
  "nulls ys \<Longrightarrow> (\<And>p. nulls (f p)) \<Longrightarrow> nulls (case q of Some p \<Rightarrow> f p | None \<Rightarrow> ys)"
  by (auto simp: nulls_def split: option.splits)

lemma nulls_put: "nulls kvs \<Longrightarrow> request_of (put_all fs kvs) = request_of fs \<or> request_of (put_all fs kvs) = JNull"
proof -
  assume n: "nulls kvs"
  have "v = JNull" if "map_of (rev kvs) ''rerouteRequestId'' = Some v" for v
    using n map_of_SomeD [OF that] by (simp add: nulls_def)
  then show ?thesis by (auto simp: request_of_def obj_get_put_all opt_default_def split: option.splits)
qed

text \<open>A transaction that keeps or drops the request.\<close>

definition drops :: "fields \<Rightarrow> fields option \<Rightarrow> bool" where
  "drops node r \<longleftrightarrow> (\<forall>node'. r = Some node' \<longrightarrow> request_of node' = request_of node \<or> \<not> is_string (request_of node'))"

lemma drops_intros:
  "drops node None"
  "drops node r \<Longrightarrow> drops node r' \<Longrightarrow> drops node (if b then r else r')"
  "nulls kvs \<Longrightarrow> drops node (Some (put_all node kvs))"
  "nulls kvs \<Longrightarrow> drops node (next_matched_telemetry_value node s kvs)"
  "drops node r \<Longrightarrow> (\<And>x. drops node (f x)) \<Longrightarrow> drops node (case q of None \<Rightarrow> r | Some x \<Rightarrow> f x)"
  using nulls_put [of kvs node] by (auto simp: drops_def next_matched_telemetry_value_def split: option.splits)

lemma drops_simple:
  "drops node (mark_direction_projection_synchronized guard live route d node)"
  "drops node (claim_departure h enabled now guard q route node)"
  "drops node (fail_departure h now random q node)"
  "drops node (retry_current_request now jitter q ctx message claimed node)"
  "drops node (match_update h guard live s t w node)"
  "drops node (publish_reroute h now guard p node)"
  unfolding mark_direction_projection_synchronized_def claim_departure_def fail_departure_def retry_current_request_def
    match_update_def publish_reroute_def Let_def
  by (intro drops_intros nulls_intros; simp)+

lemma nulls_absent: "''rerouteRequestId'' \<notin> fst ` set kvs \<Longrightarrow> nulls kvs"
  by (force simp: nulls_def)

lemma direction_write_drops: "direction_write node (Some node') \<Longrightarrow> jm_ok node \<Longrightarrow> drops node (Some node')"
proof -
  assume d: "direction_write node (Some node')" and ok: "jm_ok node"
  obtain kvs where kvs: "fst ` set kvs \<subseteq> set (''directionFirestoreSynced'' # direction_keys)"
      "node' = put_all node kvs \<or> node' = put_all (without_live_route_context node True) kvs"
    using d by (auto simp: direction_write_def)
  have "''rerouteRequestId'' \<notin> set (''directionFirestoreSynced'' # direction_keys)" by (simp add: direction_keys_def)
  then have k: "''rerouteRequestId'' \<notin> fst ` set kvs" using kvs(1) by blast
  have "request_of (without_live_route_context node True) = JUndef"
    using ok by (simp add: request_of_def without_live_route_context_def Let_def obj_get_delete_all live_route_context_fields_def split: jsval.split)
  then show ?thesis using kvs(2) put_all_other [OF k] by (auto simp: drops_def request_of_def)
qed

lemma node_do_ok: "node_do h tx node = Some node' \<Longrightarrow> jm_ok node \<Longrightarrow> jm_ok node'"
proof -
  assume d: "node_do h tx node = Some node'" and ok: "jm_ok node"
  have "jm_ok (without_live_route_context node True)"
    using ok by (simp add: without_live_route_context_def Let_def delete_all_ok split: jsval.split)
  moreover obtain kvs where "node' = put_all node kvs \<or> node' = put_all (without_live_route_context node True) kvs"
    using node_do_writes [OF d] unfolding direction_write_def by blast
  ultimately show ?thesis using ok put_all_ok by metis
qed

lemma claimed_request: "claim_reroute now jitter guard q ctx node = Some node' \<Longrightarrow> request_of node' = JStr (rq_request_id q)"
  by (auto simp: claim_reroute_def Let_def request_of_def obj_get_put_all opt_default_def split: if_splits)

definition voids :: "fields option \<Rightarrow> bool" where
  "voids r \<longleftrightarrow> (\<forall>node. r = Some node \<longrightarrow> request_of node = JNull)"

lemma voids_intros:
  "voids None"
  "voids r \<Longrightarrow> voids r' \<Longrightarrow> voids (if b then r else r')"
  "(''rerouteRequestId'', JNull) \<in> set kvs \<Longrightarrow> nulls kvs \<Longrightarrow> voids (Some (put_all node kvs))"
proof -
  assume a: "(''rerouteRequestId'', JNull) \<in> set kvs" "nulls kvs"
  then have "''rerouteRequestId'' \<in> fst ` set (rev kvs)" by force
  then obtain v where v: "map_of (rev kvs) ''rerouteRequestId'' = Some v"
    using map_of_eq_None_iff [of "rev kvs" "''rerouteRequestId''"] by blast
  then have "v = JNull" using a(2) map_of_SomeD [OF v] by (simp add: nulls_def)
  then show "voids (Some (put_all node kvs))" using v by (simp add: voids_def request_of_def obj_get_put_all opt_default_def)
qed (auto simp: voids_def)

lemma published_request:
  assumes "publish_reroute h now guard p node = Some node'"
  shows "request_of node' = JNull" and "pu_departure p = None \<Longrightarrow> request_of node = JStr (rq_request_id (pu_request p))"
proof -
  have "voids (publish_reroute h now guard p node)"
    unfolding publish_reroute_def Let_def by (intro voids_intros nulls_intros) simp_all
  then show "request_of node' = JNull" using assms by (simp add: voids_def)
  show "pu_departure p = None \<Longrightarrow> request_of node = JStr (rq_request_id (pu_request p))"
    using publish_guard [OF assms] by (simp add: publication_is_current_def reroute_context_is_current_def request_of_def)
qed

lemma request_step:
  assumes e: "event_do h e node = Some node'" and ok: "jm_ok node"
  shows "jm_ok node' \<and> of_bool (publishes_request r e) + of_bool (request_of node' = JStr r) \<le>
    of_bool (claims_request r e) + (of_bool (request_of node = JStr r) :: nat)"
proof (cases e)
  case (Foreign new)
  then show ?thesis using e ok by (auto simp: of_bool_def split: if_splits)
next
  case (Tx tx)
  then have d: "node_do h tx node = Some node'" using e by simp
  have quiet: ?thesis if "drops node (Some node')" "\<not> publishes_request r e"
    using that node_do_ok [OF d ok] by (auto simp: drops_def of_bool_def)
  have dw: ?thesis if "direction_write node (Some node')" "\<not> publishes_request r e"
    using quiet direction_write_drops [OF that(1) ok] that(2) by blast
  show ?thesis
  proof (cases tx)
    case (Resolve tm now guard a s route)
    then show ?thesis using dw resolve_writes [of node h tm now guard a s route] d Tx by simp
  next
    case (Reset live s)
    then show ?thesis using dw reset_writes [of node live s] d Tx by simp
  next
    case (Publish now guard created q dep i s encoded fallback index)
    then obtain p where p: "prepare_reroute created q dep i s encoded fallback index = Inr p" "publish_reroute h now guard p node = Some node'"
      using d by (auto split: sum.splits)
    then show ?thesis
      using published_request [OF p(2)] prepared_version [OF p(1)] node_do_ok [OF d ok] Tx Publish by (cases dep) (auto simp: of_bool_def)
  next
    case (Claim_Reroute now jitter guard q ctx)
    then show ?thesis using claimed_request [of now jitter guard q ctx node node'] d Tx node_do_ok [OF d ok] by (auto simp: of_bool_def)
  next
    case (Mark guard live route dir)
    show ?thesis by (rule quiet) (use drops_simple(1) [of node guard live route dir] d Tx Mark in simp_all)
  next
    case (Match guard live s route i dir dynamic plan w)
    show ?thesis
      by (rule quiet) (use drops_simple(5) [of node h guard live s "match_target_of h live route i dir dynamic plan" w] d Tx Match in simp_all)
  next
    case (Claim_Departure enabled now guard q route)
    show ?thesis by (rule quiet) (use drops_simple(2) [of node h enabled now guard q route] d Tx Claim_Departure in simp_all)
  next
    case (Fail_Departure now random q)
    show ?thesis by (rule quiet) (use drops_simple(3) [of node h now random q] d Tx Fail_Departure in simp_all)
  next
    case (Retry_Reroute now jitter q ctx message claimed)
    show ?thesis by (rule quiet) (use drops_simple(4) [of node now jitter q ctx message claimed] d Tx Retry_Reroute in simp_all)
  qed
qed

lemma request_count:
  "jm_ok node \<Longrightarrow> length (filter (publishes_request r) (committed h es node)) \<le>
   length (filter (claims_request r) (committed h es node)) + (of_bool (request_of node = JStr r) :: nat)"
proof (induction es arbitrary: node)
  case (Cons e es)
  show ?case
  proof (cases "event_do h e node")
    case None
    then show ?thesis using Cons by simp
  next
    case (Some node')
    note st = request_step [OF Some Cons.prems, of r]
    then show ?thesis using Cons.IH [of node'] Some by (auto simp: of_bool_def split: if_splits)
  qed
qed simp

text \<open>C34. A request that was claimed once is published at most once: among any transactions of the service and any
  writers that keep or drop the request of a node, the committed publications of a reroute never outnumber the
  committed claims of its request, so a late or repeated answer of the provider changes nothing.\<close>

theorem reroute_published_per_claim:
  assumes "jm_ok node" "request_of node \<noteq> JStr r"
  shows "length (filter (publishes_request r) (committed h es node)) \<le> length (filter (claims_request r) (committed h es node))"
  using request_count [OF assms(1), of r h es] assms(2) by simp

section \<open>The projection of a direction\<close>

text \<open>When the transaction on the session and the lock agrees, both belong to the session of the node, the session
  had this direction or none and had not ended, afterwards both hold the direction, and no other document changed;
  when it refuses, nothing changed.\<close>

theorem direction_projection_agrees:
  assumes p: "persist_resolved_session_direction h tm guard doc a live route d st = (agreed, st')"
  shows "if agreed then \<exists>s session. obj_get live ''sessionId'' = JStr s \<and> st_sessions st s = Some session \<and>
        normalize_ride_direction (obj_get session ''direction'') \<in> {None, Some d} \<and> \<not> terminal_status (obj_get session ''status'') \<and>
        doc_prop (st_locks st (da_bus_id a)) ''sessionId'' = JStr s \<and>
        doc_prop (st_sessions st' s) ''direction'' = direction_value (Some d) \<and>
        doc_prop (st_locks st' (da_bus_id a)) ''direction'' = direction_value (Some d) \<and>
        doc_prop (st_locks st' (da_bus_id a)) ''sessionId'' = JStr s \<and>
        (\<forall>k. k \<noteq> s \<longrightarrow> st_sessions st' k = st_sessions st k) \<and> (\<forall>k. k \<noteq> da_bus_id a \<longrightarrow> st_locks st' k = st_locks st k)
      else st' = st"
proof -
  have norm: "v = direction_value (Some d)" if "normalize_ride_direction v = Some d" for v d
    using that by (cases v rule: normalize_ride_direction.cases) (auto simp: direction_value_def split: if_splits)
  have merged: "doc_prop (merge_doc doc kvs) k = opt_default (map_of (rev kvs) k) (doc_prop doc k)" for doc kvs k
    by (cases doc) (simp_all add: merge_doc_def doc_prop_def obj_get_put_all opt_default_def)
  have upd: "map_of (rev (direction_update tm live route d ends session)) ''direction'' = Some (direction_value (Some d))" for ends session
    by (simp add: direction_update_def)
  show ?thesis
  proof (cases agreed)
    case False
    then show ?thesis using p by (auto simp: persist_resolved_session_direction_def Let_def split: jsval.splits option.splits if_splits)
  next
    case True
    obtain s ends where se: "obj_get live ''sessionId'' = JStr s" "end_stop_ids route d = Some ends"
      using p True by (auto simp: persist_resolved_session_direction_def split: jsval.splits option.splits)
    let ?lock = "st_locks st (da_bus_id a)"
    have g: "st_sessions st s \<noteq> None" "doc_prop ?lock ''sessionId'' = JStr s"
        "doc_prop (st_sessions st s) ''status'' \<in> {JStr ''pending'', JStr ''armed'', JStr ''active''}"
        "normalize_ride_direction (doc_prop (st_sessions st s) ''direction'') \<in> {None, Some d}"
        "direction_synchronized route d ends (st_sessions st s) ?lock \<and> st' = st \<or>
          st' = st\<lparr>st_sessions := (st_sessions st)(s := merge_doc (st_sessions st s) (direction_update tm live route d ends (st_sessions st s))),
            st_locks := (st_locks st)(da_bus_id a := merge_doc ?lock [(''direction'', direction_value (Some d)), (''updatedAt'', tm)])\<rparr>"
      using p True unfolding persist_resolved_session_direction_def se Let_def by (auto simp del: not_None_eq split: if_split_asm)
    obtain session where session: "st_sessions st s = Some session" using g(1) by blast
    have t: "\<not> terminal_status (obj_get session ''status'')" using g(3) session by (auto simp: terminal_status_def doc_prop_def)
    have n: "normalize_ride_direction (obj_get session ''direction'') \<in> {None, Some d}" using g(4) session by (simp add: doc_prop_def)
    have d: "doc_prop (st_sessions st' s) ''direction'' = direction_value (Some d) \<and>
        doc_prop (st_locks st' (da_bus_id a)) ''direction'' = direction_value (Some d) \<and>
        doc_prop (st_locks st' (da_bus_id a)) ''sessionId'' = JStr s \<and>
        (\<forall>k. k \<noteq> s \<longrightarrow> st_sessions st' k = st_sessions st k) \<and> (\<forall>k. k \<noteq> da_bus_id a \<longrightarrow> st_locks st' k = st_locks st k)"
      using g(5)
    proof
      assume "direction_synchronized route d ends (st_sessions st s) ?lock \<and> st' = st"
      then show ?thesis using norm g(2) by (simp add: direction_synchronized_def)
    next
      assume st': "st' = st\<lparr>st_sessions := (st_sessions st)(s := merge_doc (st_sessions st s) (direction_update tm live route d ends (st_sessions st s))),
            st_locks := (st_locks st)(da_bus_id a := merge_doc ?lock [(''direction'', direction_value (Some d)), (''updatedAt'', tm)])\<rparr>"
      show ?thesis using g(2) by (simp add: st' merged upd opt_default_def)
    qed
    then show ?thesis using True se(1) session t n g(2) by auto
  qed
qed

section \<open>Concrete transactions\<close>

definition demo_node :: fields where
  "demo_node = [(''busId'', JStr ''b''), (''routeId'', JStr ''r''), (''driverId'', JStr ''d''), (''sessionId'', JStr ''s1''), (''status'', JStr ''active''),
     (''tripState'', JStr ''in_service''), (''direction'', JStr ''forward''), (''routeVersion'', JNum (Fin 7)), (''routeState'', JStr ''OFF_ROUTE'')]"

definition demo_request :: reroute_request where
  "demo_request = \<lparr>rq_request_id = ''q'', rq_route_version = Fin 7, rq_session_id = ''s1'', rq_direction = Forward\<rparr>"

lemma demo_node_ok: "jm_ok demo_node"
  by (simp add: demo_node_def jm_ok_def)

lemma demo_claim: "\<exists>node'. claim_reroute (Fin 5) 0 True demo_request ''c'' demo_node = Some node' \<and> obj_get node' ''routeState'' = JStr ''REROUTING''"
  by (simp add: claim_reroute_def demo_node_def demo_request_def has_version_def live_direction_def read_reroute_retry_def put_all_def Let_def)

theorem route_work_keeps_the_ride_witness:
  "\<exists>node'. node_do demo_host (Claim_Reroute (Fin 5) 0 True demo_request ''c'') demo_node = Some node' \<and>
     obj_get node' ''routeState'' = JStr ''REROUTING'' \<and> obj_get node' ''tripState'' = JStr ''in_service'' \<and> obj_get node' ''direction'' = JStr ''forward''"
proof -
  obtain node' where n: "claim_reroute (Fin 5) 0 True demo_request ''c'' demo_node = Some node'" "obj_get node' ''routeState'' = JStr ''REROUTING''"
    using demo_claim by blast
  then have d: "node_do demo_host (Claim_Reroute (Fin 5) 0 True demo_request ''c'') demo_node = Some node'" by simp
  note t = route_work_keeps_the_ride [OF d demo_node_ok]
  have "obj_get node' ''tripState'' = JStr ''in_service''"
    using t [of "''tripState''"] by (simp add: lifecycle_fields_def demo_node_def)
  moreover have "obj_get node' ''direction'' = JStr ''forward''"
    using t [of "''direction''"] by (simp add: direction_keys_def demo_node_def live_direction_def)
  ultimately show ?thesis using d n(2) by blast
qed

definition demo_waiting :: fields where
  "demo_waiting = [(''sessionId'', JStr ''s1''), (''status'', JStr ''active''), (''tripState'', JStr ''pre_departure''), (''direction'', JStr ''forward''),
     (''routeVersion'', JNum (Fin 7)), (''departureRoute'', JObj [(''requestId'', JStr ''q''), (''context'', JStr ''c'')])]"

definition demo_sample :: telemetry_payload where
  "demo_sample = \<lparr>tp_lat = Fin 0, tp_lng = Fin 0, tp_speed = Fin 0, tp_heading = Fin 0, tp_gps_hdop = Some (Fin 1), tp_motion_state = ''stopped'',
     tp_seq = Fin 1, tp_device_sent_at = Fin 1, tp_timestamp = Fin 1, tp_device_timestamp = None\<rparr>"

definition demo_publish :: node_tx where
  "demo_publish = Publish (Fin 9) True (Fin 9) demo_request (Some \<lparr>de_context = ''c'', de_ready = True\<rparr>) ''r'' demo_sample (JStr ''????'') False None"

lemma demo_reroute_path: "\<exists>path. reroute_path (JStr ''????'') = Inr path"
  using demo_path by (auto simp: reroute_path_def decode_stored_polyline_def max_encoded_polyline_length_def split: sum.splits if_splits)

lemma demo_published: "\<exists>node'. node_do demo_host demo_publish demo_waiting = Some node'"
  using demo_reroute_path
  by (auto simp: demo_publish_def prepare_reroute_def publish_reroute_def publication_is_current_def departure_context_is_current_def
      geometry_publication_is_fresh_def geometry_publication_grace_ms_def demo_waiting_def demo_request_def has_version_def live_direction_def Let_def)

theorem route_version_never_falls_witness:
  "\<exists>node'. node_do demo_host demo_publish demo_waiting = Some node' \<and> version_of demo_waiting = 7 \<and> 7 < version_of node'"
proof -
  obtain node' where n: "node_do demo_host demo_publish demo_waiting = Some node'" using demo_published ..
  have v: "version_of demo_waiting = 7" by (simp add: version_of_def demo_waiting_def)
  have ok: "jm_ok demo_waiting" by (simp add: demo_waiting_def jm_ok_def)
  have "version_of demo_waiting < version_of node'"
  proof -
    have "\<exists>now guard created q dep i s e f x. demo_publish = Publish now guard created q dep i s e f x" unfolding demo_publish_def by blast
    then show ?thesis using route_version_never_falls [OF n ok] v by simp
  qed
  then show ?thesis using n v by auto
qed

definition demo_events :: "node_event list" where
  "demo_events = (let answer = Publish (Fin 9) True (Fin 9) demo_request None ''r'' demo_sample (JStr ''????'') False None in
     [Tx (Claim_Reroute (Fin 5) 0 True demo_request ''c''), Tx answer, Tx answer])"

theorem reroute_published_per_claim_witness:
  "length (filter (claims_request ''q'') (committed demo_host demo_events demo_node)) = 1 \<and>
   length (filter (publishes_request ''q'') (committed demo_host demo_events demo_node)) \<le> 1"
proof -
  obtain node' where n: "claim_reroute (Fin 5) 0 True demo_request ''c'' demo_node = Some node'" using demo_claim by blast
  have c: "length (filter (claims_request ''q'') (committed demo_host demo_events demo_node)) = 1"
    using n by (simp add: demo_events_def demo_request_def Let_def split: option.splits)
  have "length (filter (publishes_request ''q'') (committed demo_host demo_events demo_node)) \<le>
      length (filter (claims_request ''q'') (committed demo_host demo_events demo_node))"
    by (rule reroute_published_per_claim [OF demo_node_ok]) (simp add: request_of_def demo_node_def)
  then show ?thesis using c by simp
qed

definition demo_store :: store where
  "demo_store = \<lparr>st_keys = (\<lambda>_. None), st_locks = (\<lambda>_. None)(''b'' := Some [(''sessionId'', JStr ''s1'')]),
     st_sessions = (\<lambda>_. None)(''s1'' := Some [(''busId'', JStr ''b''), (''routeId'', JStr ''r''), (''driverId'', JStr ''d''), (''status'', JStr ''pending'')]),
     st_rides = (\<lambda>_. None), st_locations = (\<lambda>_. None)\<rparr>"

definition demo_assignment :: device_assignment where
  "demo_assignment = \<lparr>da_bus_id = ''b'', da_route_id = ''r'', da_device_id = None, da_revision = None\<rparr>"

theorem direction_projection_agrees_witness:
  "\<exists>st'. persist_resolved_session_direction demo_host JNull True (Some demo_route) demo_assignment demo_node demo_value Forward demo_store = (True, st') \<and>
     doc_prop (st_sessions st' ''s1'') ''direction'' = JStr ''forward'' \<and> doc_prop (st_locks st' ''b'') ''direction'' = JStr ''forward''"
proof -
  obtain b st' where p: "persist_resolved_session_direction demo_host JNull True (Some demo_route) demo_assignment demo_node demo_value Forward demo_store = (b, st')"
    by (metis surj_pair)
  have same: "same_route_document demo_host (Some demo_route) demo_value"
    by (simp add: same_route_document_def demo_route_def demo_value_def route_document_version_def route_geometry_version_def doc_prop_def
        route_geometry_signature_def demo_host_def)
  have stops: "rt_stops demo_value \<noteq> []" by (simp add: demo_value_def)
  have b: "b"
    using p same stops by (auto simp: persist_resolved_session_direction_def demo_node_def demo_store_def demo_assignment_def end_stop_ids_def
        stops_in_ride_direction_def doc_prop_def Let_def split: if_splits)
  have "if b then \<exists>s session. obj_get demo_node ''sessionId'' = JStr s \<and> st_sessions demo_store s = Some session \<and>
        normalize_ride_direction (obj_get session ''direction'') \<in> {None, Some Forward} \<and> \<not> terminal_status (obj_get session ''status'') \<and>
        doc_prop (st_locks demo_store (da_bus_id demo_assignment)) ''sessionId'' = JStr s \<and>
        doc_prop (st_sessions st' s) ''direction'' = direction_value (Some Forward) \<and>
        doc_prop (st_locks st' (da_bus_id demo_assignment)) ''direction'' = direction_value (Some Forward) \<and>
        doc_prop (st_locks st' (da_bus_id demo_assignment)) ''sessionId'' = JStr s \<and>
        (\<forall>k. k \<noteq> s \<longrightarrow> st_sessions st' k = st_sessions demo_store k) \<and>
        (\<forall>k. k \<noteq> da_bus_id demo_assignment \<longrightarrow> st_locks st' k = st_locks demo_store k)
      else st' = demo_store"
    by (rule direction_projection_agrees [OF p])
  then show ?thesis using p b by (auto simp: demo_node_def demo_assignment_def direction_value_def)
qed

end
