(* ===== verification/Trip_Reducer.thy ===== *)
theory Trip_Reducer imports Geo begin

text \<open>
  The trip lifecycle decision (\<open>services/tripStateReducer.ts\<close>). \<open>reduce_trip_state\<close> is
  \<open>reduceTripState\<close> with its closures as definitions over the values they capture (\<open>drive\<close>), its
  \<open>for\<close> loops as recursions over the indices they visit and its \<open>while\<close> loop as \<open>walk_stops\<close>.
  \<open>currentStopIndex\<close> is an integer, as the only caller passes it; an optional field is an option,
  with \<open>null\<close> and \<open>undefined\<close> as \<open>None\<close>.
\<close>

section \<open>Data\<close>

datatype motion_state = Moving | Stopped | Uncertain

datatype trip_state = Pre_Departure | In_Service | Completed | Maintenance

record terminal_evidence =
  te_started_at :: jsnum
  te_last_sampled_at :: jsnum

record trip_position =
  tp_at :: position
  tp_motion :: "motion_state option"
  tp_hdop :: "jsnum option"
  tp_time :: "jsnum option"

record trip_input =
  ti_at :: position
  ti_previous :: "trip_position option"
  ti_motion :: motion_state
  ti_state :: trip_state
  ti_index :: int
  ti_stops :: "position list"
  ti_departed :: bool
  ti_time :: "jsnum option"
  ti_now :: "jsnum option"
  ti_hdop :: "jsnum option"
  ti_speed :: "jsnum option"
  ti_heading :: "jsnum option"
  ti_arrival :: "terminal_evidence option"
  ti_gap_since :: "jsnum option"

record trip_result =
  tr_state :: trip_state
  tr_index :: int
  tr_departed :: bool
  tr_arrival :: "terminal_evidence option"
  tr_gap :: "jsnum option"
  tr_skipped :: "nat list option"
  tr_unobserved :: "nat list option"

definition stop_geofence_m :: jsnum where "stop_geofence_m = 15"
definition shared_stop_location_m :: jsnum where "shared_stop_location_m = 2 * stop_geofence_m"
definition same_pin_m :: jsnum where "same_pin_m = 5 / 2"
definition origin_departure_m :: jsnum where "origin_departure_m = 50"
definition min_origin_departure_m :: jsnum where "min_origin_departure_m = 10"
definition max_unobserved_recovery_stops :: nat where "max_unobserved_recovery_stops = 2"
definition min_direction_evidence_m :: jsnum where "min_direction_evidence_m = 3"
definition max_recovery_heading_difference_deg :: jsnum where "max_recovery_heading_difference_deg = 70"
definition min_recovery_travel_m :: jsnum where "min_recovery_travel_m = 4"
definition shared_pass_clearance_m :: jsnum where "shared_pass_clearance_m = stop_geofence_m"
definition shared_pass_side_margin_m :: jsnum where "shared_pass_side_margin_m = 5"
definition strict_arrival_m :: jsnum where "strict_arrival_m = 8"
definition max_offside_arrival_m :: jsnum where "max_offside_arrival_m = 6"
definition min_offside_travel_m :: jsnum where "min_offside_travel_m = 2"
definition min_heading_speed_kmh :: jsnum where "min_heading_speed_kmh = 5"
definition max_telemetry_segment_m :: jsnum where "max_telemetry_segment_m = 250"
definition gnss_gap_ms :: jsnum where "gnss_gap_ms = 10000"
definition max_revisit_speed_mps :: jsnum where "max_revisit_speed_mps = 25"

lemmas trip_constants = stop_geofence_m_def shared_stop_location_m_def same_pin_m_def origin_departure_m_def
  min_origin_departure_m_def max_unobserved_recovery_stops_def min_direction_evidence_m_def
  max_recovery_heading_difference_deg_def min_recovery_travel_m_def shared_pass_clearance_m_def
  shared_pass_side_margin_m_def strict_arrival_m_def max_offside_arrival_m_def min_offside_travel_m_def
  min_heading_speed_kmh_def max_telemetry_segment_m_def gnss_gap_ms_def max_revisit_speed_mps_def

text \<open>\<open>TERMINAL_ARRIVAL_CONFIRMATION_MS\<close>, from the number read from the environment.\<close>

definition terminal_arrival_confirmation_ms :: "jsnum \<Rightarrow> jsnum" where
  "terminal_arrival_confirmation_ms configured =
    (if is_finite configured \<and> configured \<ge> 1000 then js_floor configured else 2000)"

section \<open>Geometry\<close>

definition unreliable_trip_fix :: "motion_state option \<Rightarrow> jsnum option \<Rightarrow> bool" where
  "unreliable_trip_fix motion hdop \<longleftrightarrow> motion = Some Uncertain \<or>
    (case hdop of None \<Rightarrow> False | Some h \<Rightarrow> \<not> is_finite h \<or> h < 0 \<or> h > gnss_hdop_max)"

definition unreliable_position :: "trip_position \<Rightarrow> bool" where
  "unreliable_position p = unreliable_trip_fix (tp_motion p) (tp_hdop p)"

definition distance_to_segment_meters :: "position \<Rightarrow> position \<Rightarrow> position \<Rightarrow> jsnum" where
  "distance_to_segment_meters point start end' =
    (let per_lat = 111320; per_lng = per_lat * js_cos ((pos_lat point * js_pi) / 180);
      start_x = (pos_lng start - pos_lng point) * per_lng; start_y = (pos_lat start - pos_lat point) * per_lat;
      end_x = (pos_lng end' - pos_lng point) * per_lng; end_y = (pos_lat end' - pos_lat point) * per_lat;
      delta_x = end_x - start_x; delta_y = end_y - start_y; length2 = delta_x * delta_x + delta_y * delta_y in
    if num_eq length2 0 then js_hypot start_x start_y
    else (let projection = js_min 1 (js_max 0 (- (start_x * delta_x + start_y * delta_y) / length2)) in
      js_hypot (start_x + projection * delta_x) (start_y + projection * delta_y)))"

definition local_vector :: "position \<Rightarrow> position \<Rightarrow> jsnum \<times> jsnum" where
  "local_vector a b = ((pos_lng b - pos_lng a) * 111320 * js_cos ((pos_lat a * js_pi) / 180), (pos_lat b - pos_lat a) * 111320)"

definition vec_length :: "jsnum \<times> jsnum \<Rightarrow> jsnum" where
  "vec_length v = js_hypot (fst v) (snd v)"

definition travels_route_way_through :: "position list \<Rightarrow> nat \<Rightarrow> position \<Rightarrow> position \<Rightarrow> bool" where
  "travels_route_way_through stops i from to =
    (let travel = local_vector from to; travelled = vec_length travel in
    if travelled < min_direction_evidence_m then False
    else (let legs = (if i > 0 then [local_vector (stops ! (i - 1)) (stops ! i)] else []) @
        (if i < length stops - 1 then [local_vector (stops ! i) (stops ! (i + 1))] else []) in
      \<exists>leg\<in>set legs. \<not> num_eq (vec_length leg) 0 \<and>
        (fst travel * fst leg + snd travel * snd leg) / (travelled * vec_length leg)
          \<ge> js_cos ((max_recovery_heading_difference_deg * js_pi) / 180)))"

definition offside_meters :: "position \<Rightarrow> position \<Rightarrow> position option \<Rightarrow> jsnum option \<Rightarrow> jsnum option" where
  "offside_meters stop at' from heading =
    (let measured = (case from of None \<Rightarrow> None
        | Some f \<Rightarrow> if vec_length (local_vector f at') < min_offside_travel_m then None else Some (local_vector f at'));
      travel = (case measured of Some t \<Rightarrow> Some t
        | None \<Rightarrow> (case heading of None \<Rightarrow> None
          | Some h \<Rightarrow> if \<not> is_finite h then None
              else Some (js_sin ((h * js_pi) / 180), js_cos ((h * js_pi) / 180)))) in
    case travel of None \<Rightarrow> None
    | Some t \<Rightarrow> (let to_stop = local_vector at' stop; left = (fst t * snd to_stop - snd t * fst to_stop) / vec_length t in
        Some (- left)))"

definition reverses_between :: "position list \<Rightarrow> nat \<Rightarrow> bool" where
  "reverses_between stops i = (if i < 2 then False
    else (let arriving = local_vector (stops ! (i - 2)) (stops ! (i - 1));
        next' = (if i < length stops - 1 then local_vector (stops ! i) (stops ! (i + 1)) else local_vector (stops ! (i - 1)) (stops ! i));
        lengths = vec_length arriving * vec_length next' in
      if num_eq lengths 0 then False
      else (let cosine = (fst arriving * fst next' + snd arriving * snd next') / lengths in
        if i < length stops - 1 then cosine < - (1 / 2) else js_abs cosine < 1 / 2 \<or> cosine < - (1 / 2))))"

definition origin_departure_radius :: "position list \<Rightarrow> jsnum" where
  "origin_departure_radius stops = (if length stops > 1
    then js_min origin_departure_m (js_max min_origin_departure_m (haversine_meters (stops ! 0) (stops ! 1) / 2))
    else origin_departure_m)"

definition was_stop_reached :: "position \<Rightarrow> position \<Rightarrow> trip_position option \<Rightarrow> bool" where
  "was_stop_reached stop at' previous = (if haversine_meters at' stop \<le> stop_geofence_m then True
    else case previous of None \<Rightarrow> False
    | Some p \<Rightarrow> if unreliable_position p \<or> haversine_meters (tp_at p) at' > max_telemetry_segment_m then False
        else distance_to_segment_meters stop (tp_at p) at' \<le> stop_geofence_m)"

datatype pass = Earlier | Later

definition leg_distance :: "position list \<Rightarrow> position \<Rightarrow> bool \<Rightarrow> nat \<Rightarrow> jsnum" where
  "leg_distance stops point arriving i = (if arriving then distance_to_segment_meters point (stops ! (i - 1)) (stops ! i)
    else if i < length stops - 1 then distance_to_segment_meters point (stops ! i) (stops ! (i + 1)) else PosInf)"

definition side_of :: "position list \<Rightarrow> nat \<Rightarrow> nat \<Rightarrow> position \<times> bool \<Rightarrow> pass option" where
  "side_of stops earlier later pt = (let to_earlier = leg_distance stops (fst pt) (snd pt) earlier;
      to_later = leg_distance stops (fst pt) (snd pt) later in
    if to_earlier + shared_pass_side_margin_m < to_later then Some Earlier
    else if to_later + shared_pass_side_margin_m < to_earlier then Some Later else None)"

fun first_some :: "('a \<Rightarrow> 'b option) \<Rightarrow> 'a list \<Rightarrow> 'b option" where
  "first_some f [] = None"
| "first_some f (x # xs) = (case f x of None \<Rightarrow> first_some f xs | Some y \<Rightarrow> Some y)"

text \<open>The two pieces of evidence, the one farther from the shared stop first.\<close>

definition pass_evidence :: "position \<Rightarrow> position \<Rightarrow> position option \<Rightarrow> (position \<times> bool) list" where
  "pass_evidence shared at' start = (let all = (case start of None \<Rightarrow> [] | Some s \<Rightarrow> [(s, True)]) @ [(at', False)];
      clear = filter (\<lambda>pt. haversine_meters (fst pt) shared > shared_pass_clearance_m) all in
    case clear of
      [a, b] \<Rightarrow> if haversine_meters (fst b) shared - haversine_meters (fst a) shared > 0 then [b, a] else [a, b]
    | _ \<Rightarrow> clear)"

definition shared_stop_pass :: "position list \<Rightarrow> nat \<Rightarrow> nat \<Rightarrow> position \<Rightarrow> trip_position option \<Rightarrow> pass option" where
  "shared_stop_pass stops earlier later at' segment_start =
    (let start = (case segment_start of None \<Rightarrow> None | Some s \<Rightarrow> if unreliable_position s then None else Some (tp_at s));
      fits = (case start of None \<Rightarrow> None | Some s \<Rightarrow>
        (let fits_earlier = travels_route_way_through stops earlier s at'; fits_later = travels_route_way_through stops later s at' in
          if fits_earlier \<noteq> fits_later then Some (if fits_earlier then Earlier else Later) else None)) in
    case fits of Some p \<Rightarrow> Some p
    | None \<Rightarrow> first_some (side_of stops earlier later) (pass_evidence (stops ! earlier) at' start))"

section \<open>GNSS gaps\<close>

definition finite_opt :: "jsnum option \<Rightarrow> bool" where
  "finite_opt x = (case x of None \<Rightarrow> False | Some v \<Rightarrow> is_finite v)"

definition num_opt :: "jsnum option \<Rightarrow> jsnum" where
  "num_opt x = opt_default x NaN"

text \<open>\<open>Number.isFinite(a) && Number.isFinite(b) && b - a > GNSS_GAP_MS\<close>.\<close>

definition heartbeat_missed :: "jsnum option \<Rightarrow> jsnum option \<Rightarrow> bool" where
  "heartbeat_missed a b \<longleftrightarrow> finite_opt a \<and> finite_opt b \<and> num_opt b - num_opt a > gnss_gap_ms"

definition detected_gnss_gap :: "trip_input \<Rightarrow> jsnum option" where
  "detected_gnss_gap x = (let missed = unreliable_trip_fix (Some (ti_motion x)) (ti_hdop x) \<or>
      (case ti_previous x of None \<Rightarrow> False
      | Some p \<Rightarrow> unreliable_position p \<or> haversine_meters (tp_at p) (ti_at x) > max_telemetry_segment_m \<or>
          heartbeat_missed (tp_time p) (ti_time x)) in
    if \<not> missed then None
    else (let since = (case ti_previous x of None \<Rightarrow> ti_time x
        | Some p \<Rightarrow> (case tp_time p of None \<Rightarrow> ti_time x | Some t \<Rightarrow> Some t)) in
      Some (if finite_opt since then num_opt since else 0)))"

definition stale_fix :: "trip_input \<Rightarrow> bool" where
  "stale_fix x = (case ti_now x of None \<Rightarrow> False
    | Some now \<Rightarrow> \<not> finite_opt (ti_time x) \<or> now - num_opt (ti_time x) > 60000 \<or> num_opt (ti_time x) > now + 10000)"

definition prior_gap :: "trip_input \<Rightarrow> jsnum option" where
  "prior_gap x = (if finite_opt (ti_gap_since x) then ti_gap_since x else None)"

definition gnss_gap :: "trip_input \<Rightarrow> jsnum option" where
  "gnss_gap x = (case prior_gap x of Some g \<Rightarrow> Some g | None \<Rightarrow> if stale_fix x then None else detected_gnss_gap x)"

section \<open>Credit and arrival\<close>

text \<open>The values captured by the closures of the in-service branch.\<close>

record drive =
  dr_stops :: "position list"
  dr_at :: position
  dr_segment :: "trip_position option"
  dr_moving :: bool
  dr_heading :: "jsnum option"
  dr_gap :: "jsnum option"
  dr_elapsed :: jsnum
  dr_leaving :: bool

definition dr_last :: "drive \<Rightarrow> nat" where
  "dr_last d = length (dr_stops d) - 1"

definition dr_stop :: "drive \<Rightarrow> nat \<Rightarrow> position" where
  "dr_stop d i = dr_stops d ! i"

definition dr_reliable :: "drive \<Rightarrow> trip_position option" where
  "dr_reliable d = (case dr_segment d of None \<Rightarrow> None | Some s \<Rightarrow> if unreliable_position s then None else Some s)"

definition last_skippable :: "drive \<Rightarrow> nat" where
  "last_skippable d = (if dr_leaving d then dr_last d - 1 else dr_last d)"

definition at_passed_stop_location :: "drive \<Rightarrow> nat \<Rightarrow> position \<Rightarrow> bool" where
  "at_passed_stop_location d n point \<longleftrightarrow>
    (\<exists>stop\<in>set (take n (dr_stops d)). haversine_meters point stop \<le> shared_stop_location_m)"

fun route_meters :: "jsnum \<Rightarrow> position list \<Rightarrow> jsnum list" where
  "route_meters m (a # b # ps) = m # route_meters (m + haversine_meters a b) (b # ps)"
| "route_meters m _ = [m]"

definition path_meters :: "drive \<Rightarrow> nat \<Rightarrow> nat \<Rightarrow> jsnum" where
  "path_meters d from to = (let rm = route_meters 0 (dr_stops d) in rm ! to - rm ! from)"

definition reached_stop :: "drive \<Rightarrow> nat \<Rightarrow> bool" where
  "reached_stop d i = (if \<not> was_stop_reached (dr_stop d i) (dr_at d) (dr_segment d) then False
    else if \<not> dr_moving d then True
    else case offside_meters (dr_stop d i) (dr_at d) (map_option tp_at (dr_reliable d)) (dr_heading d) of
      None \<Rightarrow> True | Some off \<Rightarrow> off \<le> max_offside_arrival_m)"

definition travelled_through :: "drive \<Rightarrow> nat \<Rightarrow> bool" where
  "travelled_through d i = (case dr_reliable d of None \<Rightarrow> False
    | Some s \<Rightarrow> dr_moving d \<and> tp_motion s = Some Moving \<and> haversine_meters (tp_at s) (dr_at d) \<ge> min_recovery_travel_m \<and>
        travels_route_way_through (dr_stops d) i (tp_at s) (dr_at d))"

definition observed_later_stop :: "drive \<Rightarrow> nat \<Rightarrow> bool" where
  "observed_later_stop d i \<longleftrightarrow> reached_stop d i \<and>
    (travelled_through d i \<or> haversine_meters (dr_at d) (dr_stop d i) \<le> strict_arrival_m)"

definition reachable_in_gap :: "drive \<Rightarrow> nat \<Rightarrow> nat \<Rightarrow> bool" where
  "reachable_in_gap d n i \<longleftrightarrow> js_max 0 (path_meters d n i - stop_geofence_m) \<le> dr_elapsed d / 1000 * max_revisit_speed_mps"

definition revisit_minimum_ms :: "drive \<Rightarrow> nat \<Rightarrow> nat \<Rightarrow> jsnum" where
  "revisit_minimum_ms d n i = js_max gnss_gap_ms (path_meters d (n - 1) i / max_revisit_speed_mps * 1000)"

text \<open>\<open>resolveSharedStop\<close>: the copy of stop \<open>i\<close> the bus is at, \<open>None\<close> while no fix shows which.\<close>

fun resolve_copies :: "drive \<Rightarrow> nat \<Rightarrow> nat list \<Rightarrow> nat option" where
  "resolve_copies d i [] = Some i"
| "resolve_copies d i (copy # cs) = (let apart = haversine_meters (dr_stop d copy) (dr_stop d i);
      to_index = haversine_meters (dr_at d) (dr_stop d i); to_copy = haversine_meters (dr_at d) (dr_stop d copy) in
    if apart > shared_stop_location_m then resolve_copies d i cs
    else if dr_elapsed d < js_max gnss_gap_ms (path_meters d i copy / max_revisit_speed_mps * 1000) then Some i
    else if apart > strict_arrival_m \<and> to_index \<le> strict_arrival_m \<and> to_copy > strict_arrival_m then Some i
    else if apart > strict_arrival_m \<and> to_copy \<le> strict_arrival_m \<and> to_index > strict_arrival_m then Some copy
    else case shared_stop_pass (dr_stops d) i copy (dr_at d) (dr_segment d) of
      Some Later \<Rightarrow> Some copy
    | Some Earlier \<Rightarrow> Some i
    | None \<Rightarrow> if copy = dr_last d then Some copy else None)"

definition resolve_shared_stop :: "drive \<Rightarrow> nat \<Rightarrow> nat option" where
  "resolve_shared_stop d i = resolve_copies d i [i + 2..<last_skippable d + 1]"

text \<open>Whether the re-anchoring loop finds a stop at which the bus still is.\<close>

definition still_there :: "drive \<Rightarrow> nat \<Rightarrow> nat \<Rightarrow> bool" where
  "still_there d n i = (if haversine_meters (dr_at d) (dr_stop d i) \<le> stop_geofence_m
    then at_passed_stop_location d n (dr_stop d i)
    else (\<exists>stop\<in>set (take n (dr_stops d)). haversine_meters (dr_at d) stop \<le> stop_geofence_m \<and>
        haversine_meters stop (dr_stop d i) \<le> shared_stop_location_m))"

definition reanchors :: "drive \<Rightarrow> nat \<Rightarrow> bool" where
  "reanchors d n \<longleftrightarrow> dr_gap d \<noteq> None \<and> n > 0 \<and>
    (\<exists>i\<in>set [n + 1..<last_skippable d + 1]. still_there d n i \<and>
      dr_elapsed d \<ge> revisit_minimum_ms d n i / 2 \<and> dr_elapsed d < revisit_minimum_ms d n i)"

text \<open>The loop that looks for a later stop after a gap: \<open>None\<close> when no stop is credited, otherwise the
  answer of \<open>resolveSharedStop\<close>.\<close>

fun gap_credit :: "drive \<Rightarrow> nat \<Rightarrow> nat list \<Rightarrow> nat option option" where
  "gap_credit d n [] = None"
| "gap_credit d n (i # is) = (if \<not> reachable_in_gap d n i then None
    else if \<not> observed_later_stop d i then gap_credit d n is
    else if at_passed_stop_location d n (dr_stop d i) \<and> dr_elapsed d < revisit_minimum_ms d n i then gap_credit d n is
    else Some (resolve_shared_stop d i))"

definition credited :: "drive \<Rightarrow> nat \<Rightarrow> nat option option" where
  "credited d n = (if dr_gap d = None \<or> n = 0 then None
    else if \<not> reached_stop d n then gap_credit d n [n + 1..<last_skippable d + 1]
    else Some (resolve_shared_stop d n))"

fun unobserved_target :: "drive \<Rightarrow> nat \<Rightarrow> nat list \<Rightarrow> nat option" where
  "unobserved_target d n [] = None"
| "unobserved_target d n (i # is) = (if \<not> reached_stop d i \<or> \<not> travelled_through d i then unobserved_target d n is
    else if at_passed_stop_location d n (dr_stop d i) then None
    else Some i)"

definition unobserved :: "drive \<Rightarrow> nat \<Rightarrow> nat option" where
  "unobserved d n = (if dr_gap d = None \<and> n > 0 \<and> \<not> reached_stop d n
    then unobserved_target d n [n + 1..<min (n + max_unobserved_recovery_stops) (last_skippable d) + 1]
    else None)"

definition distinguishable :: "drive \<Rightarrow> nat \<Rightarrow> bool" where
  "distinguishable d i = (let apart = haversine_meters (dr_stop d i) (dr_stop d (i - 1)) in
    if apart \<le> same_pin_m \<or> apart > shared_stop_location_m \<or> \<not> reverses_between (dr_stops d) i then True
    else if i = dr_last d then haversine_meters (dr_at d) (dr_stop d i) \<le> strict_arrival_m
    else case dr_reliable d of None \<Rightarrow> False
      | Some s \<Rightarrow> dr_moving d \<and> tp_motion s = Some Moving \<and> haversine_meters (tp_at s) (dr_at d) \<ge> min_direction_evidence_m \<and>
          travels_route_way_through [dr_stop d i, dr_stop d (i + 1)] 0 (tp_at s) (dr_at d))"

definition crossing_of :: "drive \<Rightarrow> nat \<Rightarrow> jsnum" where
  "crossing_of d i = (case dr_segment d of None \<Rightarrow> 1
    | Some s \<Rightarrow> (let dx = pos_lng (dr_at d) - pos_lng (tp_at s); dy = pos_lat (dr_at d) - pos_lat (tp_at s);
          length2 = dx * dx + dy * dy in
        if length2 > 0 then ((pos_lng (dr_stop d i) - pos_lng (tp_at s)) * dx + (pos_lat (dr_stop d i) - pos_lat (tp_at s)) * dy) / length2
        else 1))"

text \<open>The \<open>while\<close> loop from stop \<open>n\<close>: the stop it ends at, whether a stop was observed, and whether it
  ended at the terminal. \<open>n\<close> never leaves the list of stops, which the first test states.\<close>

function walk_stops :: "drive \<Rightarrow> nat \<Rightarrow> jsnum \<Rightarrow> bool \<Rightarrow> nat \<times> bool \<times> bool" where
  "walk_stops d n last_crossing observed =
    (if n < length (dr_stops d) \<and> n > 0 \<and> \<not> (dr_leaving d \<and> n = dr_last d) \<and> reached_stop d n \<and> distinguishable d n \<and>
        haversine_meters (dr_at d) (dr_stop d n) \<le> haversine_meters (dr_at d) (dr_stop d (n - 1))
     then (if crossing_of d n < last_crossing then (n, True, False)
       else if n = dr_last d then (n, True, True)
       else walk_stops d (n + 1) (crossing_of d n) True)
     else (n, observed, False))"
  by pat_completeness auto
termination
  by (relation "measure (\<lambda>(d, n, _). length (dr_stops d) - n)") auto

declare walk_stops.simps [simp del]

section \<open>The reducer\<close>

definition unchanged_state :: "trip_state \<Rightarrow> trip_state" where
  "unchanged_state s = (if s = Maintenance then In_Service else s)"

definition usable_prior :: "terminal_evidence option \<Rightarrow> jsnum \<Rightarrow> terminal_evidence option" where
  "usable_prior prior timestamp = (case prior of None \<Rightarrow> None
    | Some e \<Rightarrow> if is_safe_integer (te_started_at e) \<and> is_safe_integer (te_last_sampled_at e) \<and>
          te_started_at e \<le> te_last_sampled_at e \<and> te_last_sampled_at e \<le> timestamp \<and> timestamp - te_last_sampled_at e \<le> 60000
        then Some e else None)"

definition reliable_arrival :: "trip_input \<Rightarrow> drive \<Rightarrow> bool \<Rightarrow> bool" where
  "reliable_arrival x d departed \<longleftrightarrow> departed \<and> ti_motion x = Stopped \<and>
    (case ti_hdop x of None \<Rightarrow> False | Some h \<Rightarrow> is_finite h \<and> h \<ge> 0 \<and> h \<le> gnss_hdop_max) \<and>
    (case ti_speed x of None \<Rightarrow> False | Some v \<Rightarrow> v \<ge> 0 \<and> v \<le> gnss_stationary_speed_kmh) \<and>
    (case ti_time x of None \<Rightarrow> False | Some t \<Rightarrow> is_safe_integer t) \<and>
    haversine_meters (dr_at d) (dr_stop d (dr_last d)) \<le> stop_geofence_m"

text \<open>The end of the loop at the terminal.\<close>

definition terminal_result :: "jsnum \<Rightarrow> trip_input \<Rightarrow> drive \<Rightarrow> bool \<Rightarrow> nat \<Rightarrow> nat list option \<Rightarrow> nat list option \<Rightarrow> trip_result" where
  "terminal_result confirmation_ms x d departed n skipped unobs = (if \<not> reliable_arrival x d departed
    then \<lparr>tr_state = In_Service, tr_index = int n, tr_departed = departed, tr_arrival = None, tr_gap = None,
      tr_skipped = skipped, tr_unobserved = unobs\<rparr>
    else (let timestamp = num_opt (ti_time x); prior = usable_prior (ti_arrival x) timestamp;
        evidence = (case prior of Some e \<Rightarrow> e\<lparr>te_last_sampled_at := timestamp\<rparr>
          | None \<Rightarrow> \<lparr>te_started_at = timestamp, te_last_sampled_at = timestamp\<rparr>);
        confirmed = (case prior of None \<Rightarrow> False
          | Some e \<Rightarrow> timestamp > te_last_sampled_at e \<and> timestamp - te_started_at e \<ge> confirmation_ms) in
      \<lparr>tr_state = (if confirmed then Completed else In_Service), tr_index = int n, tr_departed = departed,
        tr_arrival = (if confirmed then None else Some evidence), tr_gap = None, tr_skipped = skipped, tr_unobserved = unobs\<rparr>))"

text \<open>From line 511 on: the stops up to \<open>target\<close> are credited, the unobserved ones and the walk follow.\<close>

definition after_credit :: "jsnum \<Rightarrow> trip_input \<Rightarrow> drive \<Rightarrow> bool \<Rightarrow> jsnum option \<Rightarrow> nat \<Rightarrow> nat list option \<Rightarrow> trip_result" where
  "after_credit confirmation_ms x d departed reanchored target skipped =
    (let missed = unobserved d target;
      n = opt_default missed target;
      unobs = map_option (\<lambda>i. [target..<i]) missed in
    case walk_stops d n NegInf False of (k, observed, terminal) \<Rightarrow>
      (if terminal then terminal_result confirmation_ms x d departed k skipped unobs
       else (let open_gap = (if skipped = None \<and> reanchored \<noteq> None then reanchored else dr_gap d) in
         \<lparr>tr_state = In_Service, tr_index = int k, tr_departed = departed \<or> dr_leaving d, tr_arrival = None,
           tr_gap = (if observed then None else open_gap), tr_skipped = skipped, tr_unobserved = unobs\<rparr>)))"

definition in_service_result :: "jsnum \<Rightarrow> trip_input \<Rightarrow> drive \<Rightarrow> bool \<Rightarrow> nat \<Rightarrow> trip_result" where
  "in_service_result confirmation_ms x d departed safe =
    (let reanchored = (if reanchors d safe then ti_time x else None) in
    case credited d safe of
      Some None \<Rightarrow> \<lparr>tr_state = In_Service, tr_index = int safe, tr_departed = departed \<or> dr_leaving d, tr_arrival = None,
        tr_gap = (case reanchored of Some g \<Rightarrow> Some g | None \<Rightarrow> dr_gap d), tr_skipped = None, tr_unobserved = None\<rparr>
    | Some (Some i) \<Rightarrow> after_credit confirmation_ms x d departed reanchored i (if i = safe then None else Some [safe..<i])
    | None \<Rightarrow> after_credit confirmation_ms x d departed reanchored safe None)"

definition segment_start :: "trip_input \<Rightarrow> trip_position option" where
  "segment_start x = (case ti_previous x of None \<Rightarrow> None
    | Some p \<Rightarrow> if heartbeat_missed (tp_time p) (ti_time x) then None else Some p)"

definition crossed_first_stop :: "trip_input \<Rightarrow> bool" where
  "crossed_first_stop x \<longleftrightarrow> ti_motion x = Moving \<and> length (ti_stops x) > 1 \<and>
    was_stop_reached (ti_stops x ! 1) (ti_at x) (segment_start x) \<and>
    haversine_meters (ti_at x) (ti_stops x ! 0) > haversine_meters (ti_stops x ! 1) (ti_stops x ! 0)"

definition left_origin :: "trip_input \<Rightarrow> bool" where
  "left_origin x \<longleftrightarrow> haversine_meters (ti_at x) (ti_stops x ! 0) \<ge> origin_departure_radius (ti_stops x) \<or> crossed_first_stop x"

definition has_departed :: "trip_input \<Rightarrow> bool" where
  "has_departed x \<longleftrightarrow> ti_departed x \<or> (ti_state x = In_Service \<and> left_origin x)"

definition trip_drive :: "trip_input \<Rightarrow> bool \<Rightarrow> drive" where
  "trip_drive x leaving = \<lparr>dr_stops = ti_stops x, dr_at = ti_at x, dr_segment = segment_start x,
    dr_moving = (ti_motion x = Moving),
    dr_heading = (if ti_motion x = Moving \<and> (case ti_speed x of None \<Rightarrow> False | Some v \<Rightarrow> v \<ge> min_heading_speed_kmh)
      then ti_heading x else None),
    dr_gap = gnss_gap x,
    dr_elapsed = (case gnss_gap x of None \<Rightarrow> 0 | Some g \<Rightarrow> if finite_opt (ti_time x) then num_opt (ti_time x) - g else 0),
    dr_leaving = leaving\<rparr>"

definition reduce_trip_state :: "jsnum \<Rightarrow> trip_input \<Rightarrow> trip_result" where
  "reduce_trip_state confirmation_ms x =
    (let still = (\<lambda>st departed gap. \<lparr>tr_state = st, tr_index = ti_index x, tr_departed = departed, tr_arrival = None,
        tr_gap = gap, tr_skipped = None, tr_unobserved = None\<rparr>) in
    if ti_stops x = [] then (still (unchanged_state (ti_state x)) (ti_departed x) None)\<lparr>tr_index := 0\<rparr>
    else if unreliable_trip_fix (Some (ti_motion x)) (ti_hdop x) \<or> stale_fix x
    then still (unchanged_state (ti_state x)) (ti_departed x) (gnss_gap x)
    else (let departed = ti_motion x = Moving \<and> left_origin x; pre = (ti_state x = Pre_Departure) in
      if pre \<and> (\<not> departed \<or> length (ti_stops x) < 2)
      then still (if departed then In_Service else Pre_Departure) (has_departed x \<or> departed) (gnss_gap x)
      else if pre \<or> ti_state x = In_Service
      then (let last = length (ti_stops x) - 1; clamped = nat (min (max (ti_index x) 0) (int last));
          leaving = pre \<or> (clamped = 0 \<and> has_departed x \<and> last > 0);
          safe = (if leaving then max 1 clamped else clamped) in
        in_service_result confirmation_ms x (trip_drive x leaving) (has_departed x) safe)
      else still (unchanged_state (ti_state x)) (has_departed x) (gnss_gap x)))"

section \<open>Stop visits\<close>

datatype visit_state = Visit_Completed | Visit_Pre_Departure | Visit_In_Service | Visit_Other

record visit_input =
  vi_at :: position
  vi_motion :: "motion_state option"
  vi_hdop :: "jsnum option"
  vi_stops :: "position list"
  vi_state :: visit_state
  vi_index :: jsnum
  vi_departed :: bool
  vi_unobserved :: "jsnum list option"

definition observed_at :: "visit_input \<Rightarrow> nat \<Rightarrow> bool" where
  "observed_at v i \<longleftrightarrow> \<not> (case vi_unobserved v of None \<Rightarrow> False | Some us \<Rightarrow> \<exists>u\<in>set us. num_eq u (Fin (real i))) \<and>
    haversine_meters (vi_at v) (vi_stops v ! i) \<le> stop_geofence_m"

definition visited_stop_index :: "visit_input \<Rightarrow> nat option" where
  "visited_stop_index v = (let stops = vi_stops v; last = length stops - 1 in
    if stops = [] \<or> \<not> is_safe_integer (vi_index v) then None
    else if vi_state v = Visit_Completed then Some last
    else if vi_state v \<noteq> Visit_Pre_Departure \<and> vi_state v \<noteq> Visit_In_Service then None
    else if \<not> is_finite (pos_lat (vi_at v)) \<or> \<not> is_finite (pos_lng (vi_at v)) \<or> unreliable_trip_fix (vi_motion v) (vi_hdop v) then None
    else (let index = nat (min (max (num_floor (vi_index v)) 0) (int last)) in
      if index = 0 then (if \<not> vi_departed v \<and> haversine_meters (vi_at v) (stops ! 0) \<le> stop_geofence_m then Some 0 else None)
      else if index = last \<and> vi_departed v \<and> observed_at v last then Some last
      else if observed_at v (index - 1) then Some (index - 1) else None))"

section \<open>Lemmas\<close>

lemma reached_was_reached: "reached_stop d i \<Longrightarrow> was_stop_reached (dr_stop d i) (dr_at d) (dr_segment d)"
  by (simp add: reached_stop_def split: if_splits)

lemma last_skippable_le: "last_skippable d \<le> dr_last d"
  by (simp add: last_skippable_def)

lemma walk_stops_facts:
  assumes "walk_stops d n c obs = (k, o', t)" "n < length (dr_stops d)"
  shows "n \<le> k \<and> k < length (dr_stops d) \<and> (\<forall>j. n \<le> j \<and> j < k \<longrightarrow> reached_stop d j) \<and>
    (t \<longrightarrow> k = dr_last d \<and> \<not> dr_leaving d \<and> reached_stop d k) \<and> (o' \<longrightarrow> obs \<or> reached_stop d n)"
  using assms
proof (induction d n c obs rule: walk_stops.induct)
  case (1 d n c obs)
  show ?case
  proof (cases "n > 0 \<and> \<not> (dr_leaving d \<and> n = dr_last d) \<and> reached_stop d n \<and> distinguishable d n \<and>
      haversine_meters (dr_at d) (dr_stop d n) \<le> haversine_meters (dr_at d) (dr_stop d (n - 1))
      \<and> \<not> crossing_of d n < c \<and> n \<noteq> dr_last d")
    case True
    then have w: "walk_stops d (n + 1) (crossing_of d n) True = (k, o', t)"
      using 1(2,3) by (simp add: walk_stops.simps [of d n])
    have l: "n + 1 < length (dr_stops d)" using True 1(3) by (auto simp: dr_last_def)
    have ih: "n + 1 \<le> k \<and> k < length (dr_stops d) \<and> (\<forall>j. n + 1 \<le> j \<and> j < k \<longrightarrow> reached_stop d j) \<and>
        (t \<longrightarrow> k = dr_last d \<and> \<not> dr_leaving d \<and> reached_stop d k)"
      using 1(1) [OF _ _ _ w l] True 1(3) by blast
    have "reached_stop d j" if "n \<le> j \<and> j < k" for j
      using ih True that by (cases "j = n") auto
    with ih True show ?thesis by auto
  next
    case False
    with 1(2,3) show ?thesis by (subst (asm) walk_stops.simps) (auto split: if_splits)
  qed
qed

lemma resolve_copies_in: "resolve_copies d i cs = Some k \<Longrightarrow> k = i \<or> k \<in> set cs"
  by (induction cs) (auto simp: Let_def split: if_splits option.splits pass.splits)

lemma resolve_shared_in: "resolve_shared_stop d i = Some k \<Longrightarrow> k = i \<or> i + 2 \<le> k \<and> k \<le> last_skippable d"
  by (auto simp: resolve_shared_stop_def dest!: resolve_copies_in)

lemma gap_credit_in: "gap_credit d n is = Some (Some k) \<Longrightarrow>
    \<exists>i\<in>set is. observed_later_stop d i \<and> reachable_in_gap d n i \<and> resolve_shared_stop d i = Some k"
  by (induction "is") (auto split: if_splits)

lemma credited_in:
  assumes "credited d n = Some (Some k)" "n \<le> dr_last d"
  shows "dr_gap d \<noteq> None \<and> n > 0 \<and> n \<le> k \<and> k \<le> dr_last d \<and>
    (\<exists>i. n \<le> i \<and> i \<le> k \<and> reached_stop d i \<and> resolve_shared_stop d i = Some k)"
proof -
  have gap: "dr_gap d \<noteq> None" "n > 0" using assms(1) by (auto simp: credited_def split: if_splits)
  show ?thesis
  proof (cases "reached_stop d n")
    case True
    with assms(1) gap have "resolve_shared_stop d n = Some k" by (simp add: credited_def)
    with True gap assms(2) resolve_shared_in [OF this] last_skippable_le [of d] show ?thesis by auto
  next
    case False
    with assms(1) gap have "gap_credit d n [n + 1..<last_skippable d + 1] = Some (Some k)" by (simp add: credited_def)
    from gap_credit_in [OF this] obtain i where i: "n + 1 \<le> i" "i \<le> last_skippable d" "observed_later_stop d i"
      "resolve_shared_stop d i = Some k" by auto
    have "i \<le> k \<and> k \<le> dr_last d" using i resolve_shared_in [OF i(4)] last_skippable_le [of d] by auto
    moreover have "reached_stop d i" using i(3) by (simp add: observed_later_stop_def)
    ultimately show ?thesis using gap i by (intro conjI exI [of _ i]) auto
  qed
qed

lemma unobserved_target_in: "unobserved_target d n is = Some k \<Longrightarrow>
    k \<in> set is \<and> reached_stop d k \<and> travelled_through d k \<and> \<not> at_passed_stop_location d n (dr_stop d k)"
  by (induction "is") (auto split: if_splits)

lemma unobserved_in:
  assumes "unobserved d n = Some k"
  shows "dr_gap d = None \<and> n < k \<and> k \<le> n + 2 \<and> k \<le> dr_last d \<and> reached_stop d k \<and> travelled_through d k"
proof -
  from assms have g: "dr_gap d = None" and "unobserved_target d n [n + 1..<min (n + max_unobserved_recovery_stops) (last_skippable d) + 1] = Some k"
    by (auto simp: unobserved_def split: if_splits)
  from unobserved_target_in [OF this(2)] g last_skippable_le [of d] show ?thesis
    by (auto simp: max_unobserved_recovery_stops_def)
qed

text \<open>Everything the in-service branch decides.\<close>

lemma in_service_facts:
  assumes "safe \<le> dr_last d" "dr_stops d \<noteq> []" "r = in_service_result cm x d departed safe"
  obtains k where "tr_index r = int k" "safe \<le> k" "k \<le> dr_last d"
    "\<And>j. safe \<le> j \<Longrightarrow> j < k \<Longrightarrow> reached_stop d j \<or> j \<in> set (opt_default (tr_skipped r) []) \<or> j \<in> set (opt_default (tr_unobserved r) [])"
    "departed \<Longrightarrow> tr_departed r"
    "tr_skipped r \<noteq> None \<Longrightarrow> dr_gap d \<noteq> None \<and> (\<exists>m. m \<le> k \<and> tr_skipped r = Some [safe..<m] \<and> safe < m)"
    "tr_unobserved r \<noteq> None \<Longrightarrow> dr_gap d = None \<and>
       (\<exists>m. m \<le> k \<and> tr_unobserved r = Some [safe..<m] \<and> safe < m \<and> m \<le> safe + 2 \<and> reached_stop d m \<and> travelled_through d m)"
    "tr_state r = Completed \<or> tr_arrival r \<noteq> None \<Longrightarrow> k = dr_last d \<and> reached_stop d k \<and> \<not> dr_leaving d \<and>
       (\<exists>sk un. r = terminal_result cm x d departed k sk un)"
    "tr_state r \<in> {In_Service, Completed}"
proof (cases "credited d safe = Some None")
  case True
  then have "r = \<lparr>tr_state = In_Service, tr_index = int safe, tr_departed = departed \<or> dr_leaving d, tr_arrival = None,
        tr_gap = (case if reanchors d safe then ti_time x else None of Some g \<Rightarrow> Some g | None \<Rightarrow> dr_gap d),
        tr_skipped = None, tr_unobserved = None\<rparr>"
    by (simp add: assms(3) in_service_result_def Let_def)
  with assms(1) show ?thesis by (intro that [of safe]) auto
next
  case False
  define target where "target = (case credited d safe of Some (Some i) \<Rightarrow> i | _ \<Rightarrow> safe)"
  define skipped where "skipped = (if target = safe then None else Some [safe..<target])"
  define re where "re = (if reanchors d safe then ti_time x else None)"
  define missed where "missed = unobserved d target"
  define n where "n = opt_default missed target"
  define unobs where "unobs = map_option (\<lambda>i. [target..<i]) missed"
  obtain k o' t where w: "walk_stops d n NegInf False = (k, o', t)" by (metis surj_pair)
  have "r = after_credit cm x d departed re target skipped"
    using False by (auto simp: assms(3) in_service_result_def target_def skipped_def re_def split: option.splits)
  then have r: "r = (if t then terminal_result cm x d departed k skipped unobs
      else \<lparr>tr_state = In_Service, tr_index = int k, tr_departed = departed \<or> dr_leaving d, tr_arrival = None,
             tr_gap = (if o' then None else if skipped = None \<and> re \<noteq> None then re else dr_gap d),
             tr_skipped = skipped, tr_unobserved = unobs\<rparr>)"
    using w by (simp add: after_credit_def missed_def n_def unobs_def Let_def)
  have target: "safe \<le> target" "target \<le> dr_last d" "target \<noteq> safe \<Longrightarrow> dr_gap d \<noteq> None"
    using credited_in [of d safe target] assms(1) by (auto simp: target_def split: option.splits)
  have miss: "missed = Some i \<Longrightarrow> dr_gap d = None \<and> target = safe \<and> target < i \<and> i \<le> target + 2 \<and> i \<le> dr_last d \<and>
      reached_stop d i \<and> travelled_through d i" for i
    using unobserved_in [of d target i] target(3) by (auto simp: missed_def)
  have n: "target \<le> n" "n \<le> dr_last d" using miss target(2) by (auto simp: n_def opt_default_def split: option.splits)
  then have "n < length (dr_stops d)" using assms(2) by (cases "dr_stops d") (auto simp: dr_last_def)
  note walk = walk_stops_facts [OF w this]
  have fields: "tr_index r = int k" "tr_skipped r = skipped" "tr_unobserved r = unobs"
    "tr_departed r = (departed \<or> (\<not> t \<and> dr_leaving d))" "tr_state r \<in> {In_Service, Completed}"
    "tr_state r = Completed \<or> tr_arrival r \<noteq> None \<Longrightarrow> t"
    by (auto simp: r terminal_result_def Let_def split: if_splits)
  show ?thesis
  proof (rule that [of k])
    show "safe \<le> k" "k \<le> dr_last d" using walk target n by (auto simp: dr_last_def)
    show "reached_stop d j \<or> j \<in> set (opt_default (tr_skipped r) []) \<or> j \<in> set (opt_default (tr_unobserved r) [])"
      if "safe \<le> j" "j < k" for j
    proof (cases "n \<le> j")
      case True
      with walk that show ?thesis by blast
    next
      case False
      with that show ?thesis
        by (cases missed) (auto simp: fields skipped_def unobs_def n_def opt_default_def)
    qed
    show "tr_skipped r \<noteq> None \<Longrightarrow> dr_gap d \<noteq> None \<and> (\<exists>m. m \<le> k \<and> tr_skipped r = Some [safe..<m] \<and> safe < m)"
      using target n walk by (auto simp: fields skipped_def intro!: exI [of _ target])
    show "tr_unobserved r \<noteq> None \<Longrightarrow> dr_gap d = None \<and>
       (\<exists>m. m \<le> k \<and> tr_unobserved r = Some [safe..<m] \<and> safe < m \<and> m \<le> safe + 2 \<and> reached_stop d m \<and> travelled_through d m)"
      using miss n walk by (cases missed) (auto simp: fields unobs_def n_def opt_default_def)
    show "tr_state r = Completed \<or> tr_arrival r \<noteq> None \<Longrightarrow> k = dr_last d \<and> reached_stop d k \<and> \<not> dr_leaving d \<and>
       (\<exists>sk un. r = terminal_result cm x d departed k sk un)"
    proof -
      assume "tr_state r = Completed \<or> tr_arrival r \<noteq> None"
      then have t: t by (rule fields(6))
      then have "r = terminal_result cm x d departed k skipped unobs" unfolding r by (rule if_P)
      with walk t show ?thesis by blast
    qed
  qed (use fields in auto)
qed

definition trusted :: "trip_input \<Rightarrow> bool" where
  "trusted x \<longleftrightarrow> \<not> unreliable_trip_fix (Some (ti_motion x)) (ti_hdop x) \<and> \<not> stale_fix x"

definition stop_bound :: "trip_input \<Rightarrow> nat" where
  "stop_bound x = length (ti_stops x) - 1"

text \<open>A sample either leaves the stop index alone or goes through the in-service branch.\<close>

definition still_result :: "trip_input \<Rightarrow> trip_result \<Rightarrow> bool" where
  "still_result x r \<longleftrightarrow> tr_arrival r = None \<and> tr_skipped r = None \<and> tr_unobserved r = None \<and> (ti_departed x \<longrightarrow> tr_departed r) \<and>
    (ti_stops x \<noteq> [] \<longrightarrow> tr_index r = ti_index x) \<and> (tr_state r = Completed \<longleftrightarrow> ti_state x = Completed)"

lemma reduce_no_stops: "ti_stops x = [] \<Longrightarrow> still_result x (reduce_trip_state cm x)"
  by (simp add: reduce_trip_state_def if_P still_result_def unchanged_state_def cong: if_weak_cong)

lemma reduce_untrusted:
  assumes "ti_stops x \<noteq> []" "\<not> trusted x"
  shows "reduce_trip_state cm x = \<lparr>tr_state = unchanged_state (ti_state x), tr_index = ti_index x, tr_departed = ti_departed x,
    tr_arrival = None, tr_gap = gnss_gap x, tr_skipped = None, tr_unobserved = None\<rparr>"
proof -
  have bad: "unreliable_trip_fix (Some (ti_motion x)) (ti_hdop x) \<or> stale_fix x" using assms(2) by (auto simp: trusted_def)
  show ?thesis unfolding reduce_trip_state_def Let_def if_not_P [OF assms(1)] if_P [OF bad] by (rule refl)
qed

lemma reduce_parked:
  assumes "ti_stops x \<noteq> []" "trusted x"
    "ti_state x = Pre_Departure \<and> (\<not> (ti_motion x = Moving \<and> left_origin x) \<or> length (ti_stops x) < 2) \<or>
      ti_state x \<noteq> Pre_Departure \<and> ti_state x \<noteq> In_Service"
  shows "still_result x (reduce_trip_state cm x)"
proof -
  have ok: "\<not> (unreliable_trip_fix (Some (ti_motion x)) (ti_hdop x) \<or> stale_fix x)" using assms(2) by (simp add: trusted_def)
  let ?park = "ti_state x = Pre_Departure \<and> (\<not> (ti_motion x = Moving \<and> left_origin x) \<or> length (ti_stops x) < 2)"
  show ?thesis
  proof (cases ?park)
    case True
    show ?thesis unfolding reduce_trip_state_def Let_def if_not_P [OF assms(1)] if_not_P [OF ok] if_P [OF True]
      using True by (simp add: still_result_def has_departed_def)
  next
    case False
    with assms(3) have go: "\<not> (ti_state x = Pre_Departure \<or> ti_state x = In_Service)" by blast
    show ?thesis unfolding reduce_trip_state_def Let_def if_not_P [OF assms(1)] if_not_P [OF ok] if_not_P [OF False] if_not_P [OF go]
      by (simp add: still_result_def has_departed_def unchanged_state_def)
  qed
qed

lemma reduce_cases:
  assumes "r = reduce_trip_state cm x"
  obtains "still_result x r"
  | leaving safe where "trusted x" "ti_stops x \<noteq> []" "ti_state x = Pre_Departure \<or> ti_state x = In_Service"
    "r = in_service_result cm x (trip_drive x leaving) (has_departed x) safe" "safe \<le> stop_bound x"
    "leaving \<longleftrightarrow> ti_state x = Pre_Departure \<or> nat (min (max (ti_index x) 0) (int (stop_bound x))) = 0 \<and> has_departed x \<and> stop_bound x > 0"
    "safe = (if leaving then max 1 (nat (min (max (ti_index x) 0) (int (stop_bound x)))) else nat (min (max (ti_index x) 0) (int (stop_bound x))))"
proof -
  let ?pre = "ti_state x = Pre_Departure" and ?dep = "ti_motion x = Moving \<and> left_origin x"
  let ?clamped = "nat (min (max (ti_index x) 0) (int (stop_bound x)))"
  consider (none) "ti_stops x = []" | (bad) "ti_stops x \<noteq> []" "\<not> trusted x"
    | (parked) "ti_stops x \<noteq> []" "trusted x" "?pre \<and> (\<not> ?dep \<or> length (ti_stops x) < 2) \<or> \<not> ?pre \<and> ti_state x \<noteq> In_Service"
    | (go) "ti_stops x \<noteq> []" "trusted x" "\<not> (?pre \<and> (\<not> ?dep \<or> length (ti_stops x) < 2))" "?pre \<or> ti_state x = In_Service"
    by blast
  then show thesis
  proof cases
    case none
    then show ?thesis using that(1) reduce_no_stops assms by blast
  next
    case bad
    have "still_result x r" unfolding assms reduce_untrusted [OF bad] by (simp add: still_result_def unchanged_state_def)
    then show ?thesis by (rule that(1))
  next
    case parked
    then show ?thesis using that(1) reduce_parked assms by blast
  next
    case go
    let ?leaving = "?pre \<or> ?clamped = 0 \<and> has_departed x \<and> stop_bound x > 0"
    have ok: "\<not> (unreliable_trip_fix (Some (ti_motion x)) (ti_hdop x) \<or> stale_fix x)" using go(2) by (simp add: trusted_def)
    have r: "r = in_service_result cm x (trip_drive x ?leaving) (has_departed x) (if ?leaving then max 1 ?clamped else ?clamped)"
      unfolding assms reduce_trip_state_def Let_def stop_bound_def if_not_P [OF go(1)] if_not_P [OF ok]
        if_not_P [OF go(3)] if_P [OF go(4)] by (rule refl)
    have "?leaving \<Longrightarrow> stop_bound x > 0" using go(3,4) by (auto simp: stop_bound_def)
    then have "(if ?leaving then max 1 ?clamped else ?clamped) \<le> stop_bound x" by auto
    then show ?thesis using that(2) [OF go(2,1,4) r _ refl refl] by blast
  qed
qed

lemma drive_simps [simp]:
  "dr_stops (trip_drive x l) = ti_stops x" "dr_at (trip_drive x l) = ti_at x" "dr_segment (trip_drive x l) = segment_start x"
  "dr_gap (trip_drive x l) = gnss_gap x" "dr_leaving (trip_drive x l) = l" "dr_last (trip_drive x l) = stop_bound x"
  "dr_stop (trip_drive x l) i = ti_stops x ! i"
  by (simp_all add: trip_drive_def dr_last_def stop_bound_def dr_stop_def)

definition at_terminal :: "trip_input \<Rightarrow> bool" where
  "at_terminal x \<longleftrightarrow> trusted x \<and> ti_stops x \<noteq> [] \<and> ti_motion x = Stopped \<and>
    (case ti_hdop x of None \<Rightarrow> False | Some h \<Rightarrow> 0 \<le> h \<and> h \<le> gnss_hdop_max) \<and>
    (case ti_speed x of None \<Rightarrow> False | Some v \<Rightarrow> 0 \<le> v \<and> v \<le> gnss_stationary_speed_kmh) \<and>
    (\<exists>t. ti_time x = Some (Fin t)) \<and> haversine_meters (ti_at x) (ti_stops x ! stop_bound x) \<le> stop_geofence_m"

lemma reliable_arrival_at_terminal:
  "trusted x \<Longrightarrow> ti_stops x \<noteq> [] \<Longrightarrow> reliable_arrival x (trip_drive x l) departed \<Longrightarrow> at_terminal x \<and> departed"
  by (auto simp: reliable_arrival_def at_terminal_def elim!: is_safe_integerE split: option.splits)

text \<open>Arrival evidence and completion.\<close>

lemma reduce_arrival:
  assumes "r = reduce_trip_state cm x" "ti_state x \<noteq> Completed" "tr_state r = Completed \<or> tr_arrival r \<noteq> None"
  shows "at_terminal x \<and> has_departed x \<and> tr_index r = int (stop_bound x) \<and>
    (case tr_arrival r of
      Some e \<Rightarrow> tr_state r = In_Service \<and> (te_started_at e = num_opt (ti_time x) \<or>
        (\<exists>e'. ti_arrival x = Some e' \<and> te_started_at e = te_started_at e')) \<and> te_last_sampled_at e = num_opt (ti_time x)
    | None \<Rightarrow> tr_state r = Completed \<and> (\<exists>e. ti_arrival x = Some e \<and> te_started_at e \<le> te_last_sampled_at e \<and>
        te_last_sampled_at e < num_opt (ti_time x) \<and> num_opt (ti_time x) - te_last_sampled_at e \<le> 60000 \<and>
        num_opt (ti_time x) - te_started_at e \<ge> cm))"
proof (cases rule: reduce_cases [OF assms(1)])
  case 1
  with assms(2,3) show ?thesis by (simp add: still_result_def)
next
  case (2 leaving safe)
  from 2(5) have s: "safe \<le> dr_last (trip_drive x leaving)" by simp
  from 2(2) have ne: "dr_stops (trip_drive x leaving) \<noteq> []" by simp
  obtain k sk un where k: "k = stop_bound x"
    and r: "r = terminal_result cm x (trip_drive x leaving) (has_departed x) k sk un"
    by (rule in_service_facts [OF s ne 2(4)]) (use assms(3) in auto)
  show ?thesis
  proof (cases "reliable_arrival x (trip_drive x leaving) (has_departed x)")
    case False
    with r assms(3) show ?thesis by (simp add: terminal_result_def)
  next
    case True
    note at_end = reliable_arrival_at_terminal [OF 2(1,2) True]
    show ?thesis
    proof (cases "usable_prior (ti_arrival x) (num_opt (ti_time x))")
      case None
      with at_end r k True show ?thesis by (simp add: terminal_result_def Let_def)
    next
      case (Some e)
      then have "ti_arrival x = Some e" "te_started_at e \<le> te_last_sampled_at e" "num_opt (ti_time x) - te_last_sampled_at e \<le> 60000"
        by (auto simp: usable_prior_def split: option.splits if_splits)
      with at_end r k True Some show ?thesis by (auto simp: terminal_result_def Let_def)
    qed
  qed
qed

text \<open>A ride: the engine stores the result with the live record and passes it back with the next fix.\<close>

definition thread_result :: "trip_result \<Rightarrow> trip_input \<Rightarrow> trip_input" where
  "thread_result r x = x\<lparr>ti_state := tr_state r, ti_index := tr_index r, ti_departed := tr_departed r,
     ti_arrival := tr_arrival r, ti_gap_since := tr_gap r\<rparr>"

definition ride_run :: "jsnum \<Rightarrow> trip_result \<Rightarrow> trip_input list \<Rightarrow> trip_result" where
  "ride_run cm r xs = foldl (\<lambda>r x. reduce_trip_state cm (thread_result r x)) r xs"

lemma thread_stale [simp]: "stale_fix (thread_result r x) = stale_fix x"
  by (cases "ti_now x") (simp_all add: thread_result_def stale_fix_def)

lemma thread_simps [simp]:
  "at_terminal (thread_result r x) = at_terminal x" "ti_time (thread_result r x) = ti_time x"
  "ti_state (thread_result r x) = tr_state r" "ti_arrival (thread_result r x) = tr_arrival r"
  "ti_index (thread_result r x) = tr_index r" "ti_stops (thread_result r x) = ti_stops x"
  by (simp_all add: at_terminal_def trusted_def) (simp_all add: thread_result_def stop_bound_def)

definition dwell :: "trip_input list \<Rightarrow> nat \<Rightarrow> nat \<Rightarrow> bool" where
  "dwell xs i n \<longleftrightarrow> (\<forall>m. i \<le> m \<and> m < n \<longrightarrow> at_terminal (xs ! m))"

lemma dwell_append: "n \<le> length xs \<Longrightarrow> dwell (xs @ ys) i n = dwell xs i n"
  by (auto simp: dwell_def nth_append)

lemma dwell_snoc: "dwell xs i (length xs) \<Longrightarrow> at_terminal x \<Longrightarrow> dwell (xs @ [x]) i (Suc (length xs))"
  by (auto simp: dwell_def nth_append less_Suc_eq)

lemma ride_run_inv:
  assumes "tr_state r0 \<noteq> Completed" "tr_arrival r0 = None"
  shows "(tr_state (ride_run cm r0 xs) = Completed \<longrightarrow> (\<exists>i j. i < j \<and> j < length xs \<and> dwell xs i (Suc j) \<and>
      num_opt (ti_time (xs ! j)) - num_opt (ti_time (xs ! i)) \<ge> cm)) \<and>
    (\<forall>e. tr_state (ride_run cm r0 xs) \<noteq> Completed \<longrightarrow> tr_arrival (ride_run cm r0 xs) = Some e \<longrightarrow>
      (\<exists>i<length xs. dwell xs i (length xs) \<and> num_opt (ti_time (xs ! i)) = te_started_at e))"
proof (induction xs rule: rev_induct)
  case Nil
  with assms show ?case by (simp add: ride_run_def)
next
  case (snoc x xs)
  define r where "r = ride_run cm r0 xs"
  define r' where "r' = ride_run cm r0 (xs @ [x])"
  have r': "r' = reduce_trip_state cm (thread_result r x)" by (simp add: r'_def r_def ride_run_def)
  show ?case
  proof (cases "tr_state r = Completed")
    case True
    have "tr_state r' = Completed"
      by (rule reduce_cases [OF r']) (use True in \<open>simp_all add: still_result_def\<close>)
    moreover from True snoc obtain i j where "i < j" "j < length xs" "dwell xs i (Suc j)"
      "num_opt (ti_time (xs ! j)) - num_opt (ti_time (xs ! i)) \<ge> cm" by (auto simp: r_def)
    ultimately show ?thesis unfolding r'_def [symmetric]
      by (intro conjI impI exI [of _ i] exI [of _ j]) (simp_all add: dwell_append nth_append)
  next
    case False
    have old: "\<exists>i<length xs. dwell xs i (length xs) \<and> num_opt (ti_time (xs ! i)) = te_started_at e" if "tr_arrival r = Some e" for e
      using snoc False that by (auto simp: r_def)
    show ?thesis
    proof (cases "tr_state r' = Completed \<or> tr_arrival r' \<noteq> None")
      case none: False
      then show ?thesis by (auto simp: r'_def)
    next
      case True
      have "ti_state (thread_result r x) \<noteq> Completed" using False by simp
      note arr = reduce_arrival [OF r' this True, simplified]
      show ?thesis
      proof (cases "tr_arrival r'")
        case None
        then obtain e where e: "tr_arrival r = Some e" "num_opt (ti_time x) - te_started_at e \<ge> cm" and fin: "tr_state r' = Completed"
          using arr by auto
        from old [OF e(1)] obtain i where "i < length xs" "dwell xs i (length xs)" "num_opt (ti_time (xs ! i)) = te_started_at e" by blast
        with e(2) arr fin show ?thesis unfolding r'_def [symmetric]
          by (intro conjI impI exI [of _ i] exI [of _ "length xs"]) (simp_all add: dwell_snoc nth_append)
      next
        case (Some e)
        with arr have st: "tr_state r' = In_Service" and at: "at_terminal x"
          and start: "te_started_at e = num_opt (ti_time x) \<or> (\<exists>e'. tr_arrival r = Some e' \<and> te_started_at e = te_started_at e')" by auto
        have "\<exists>i<length (xs @ [x]). dwell (xs @ [x]) i (length (xs @ [x])) \<and> num_opt (ti_time ((xs @ [x]) ! i)) = te_started_at e"
        proof (cases "te_started_at e = num_opt (ti_time x)")
          case True
          with at show ?thesis by (intro exI [of _ "length xs"]) (auto simp: dwell_def nth_append)
        next
          case False
          with start obtain e' where "tr_arrival r = Some e'" "te_started_at e = te_started_at e'" by blast
          with old obtain i where "i < length xs" "dwell xs i (length xs)" "num_opt (ti_time (xs ! i)) = te_started_at e" by auto
          with at show ?thesis by (intro exI [of _ i]) (simp add: dwell_snoc nth_append)
        qed
        with st Some show ?thesis unfolding r'_def [symmetric] by simp
      qed
    qed
  qed
qed

section \<open>Properties\<close>

definition demo_terminal :: position where
  "demo_terminal = \<lparr>pos_lat = 0, pos_lng = 1\<rparr>"

definition demo_arrival :: "real \<Rightarrow> trip_input" where
  "demo_arrival t = \<lparr>ti_at = demo_terminal, ti_previous = None, ti_motion = Stopped, ti_state = In_Service, ti_index = 1,
    ti_stops = [null_island, demo_terminal], ti_departed = True, ti_time = Some (Fin t), ti_now = None, ti_hdop = Some 1,
    ti_speed = Some 0, ti_heading = None, ti_arrival = None, ti_gap_since = None\<rparr>"

definition demo_ride :: trip_result where
  "demo_ride = \<lparr>tr_state = In_Service, tr_index = 1, tr_departed = True, tr_arrival = None, tr_gap = None,
     tr_skipped = None, tr_unobserved = None\<rparr>"

lemma demo_near: "haversine_meters demo_terminal demo_terminal = Fin 0"
  using hav.dist_self [of demo_terminal] by (simp add: demo_terminal_def valid_position_def)

text \<open>The reducer on the demonstration fixes: it reaches the terminal branch.\<close>

lemma demo_reduce:
  assumes "tr_state r = In_Service" "tr_index r = 1" "tr_departed r" "tr_gap r = None"
  shows "reduce_trip_state cm (thread_result r (demo_arrival t)) =
    terminal_result cm (thread_result r (demo_arrival t)) (trip_drive (thread_result r (demo_arrival t)) False) True 1 None None"
proof -
  let ?x = "thread_result r (demo_arrival t)" and ?d = "trip_drive (thread_result r (demo_arrival t)) False"
  have far: "haversine_meters demo_terminal demo_terminal \<le> haversine_meters demo_terminal null_island"
    using demo_near by (intro hav.dist_zero_le) simp
  have ok: "\<not> (unreliable_trip_fix (Some (ti_motion ?x)) (ti_hdop ?x) \<or> stale_fix ?x)"
    by (simp add: thread_result_def demo_arrival_def unreliable_trip_fix_def motion_constants stale_fix_def)
  have gap: "gnss_gap ?x = None"
    using ok assms(4) by (auto simp: gnss_gap_def prior_gap_def finite_opt_def detected_gnss_gap_def thread_result_def demo_arrival_def)
  have reach: "reached_stop ?d 1"
    by (simp add: reached_stop_def was_stop_reached_def thread_result_def demo_arrival_def demo_near trip_constants)
      (simp add: trip_drive_def)
  have dist: "distinguishable ?d 1"
    by (simp add: distinguishable_def Let_def reverses_between_def)
  have stops: "ti_stops ?x = [null_island, demo_terminal]" "ti_at ?x = demo_terminal" "stop_bound ?x = 1" "segment_start ?x = None"
    by (simp_all add: thread_result_def demo_arrival_def stop_bound_def segment_start_def)
  have walk: "walk_stops ?d 1 NegInf False = (1, True, True)"
    using reach dist far stops by (simp add: walk_stops.simps crossing_of_def)
  have "credited ?d 1 = None" "unobserved ?d 1 = None" using gap reach by (simp_all add: credited_def unobserved_def)
  then have serv: "in_service_result cm ?x ?d True 1 = terminal_result cm ?x ?d True 1 None None"
    using walk by (simp add: in_service_result_def after_credit_def opt_default_def)
  have dep: "has_departed ?x" using assms(3) by (simp add: has_departed_def thread_result_def)
  show ?thesis
  proof (cases rule: reduce_cases [OF refl, where cm = cm and x = ?x])
    case 1
    have "ti_stops ?x \<noteq> []" using stops by simp
    have a: "\<not> (ti_state ?x = Pre_Departure \<and> (\<not> (ti_motion ?x = Moving \<and> left_origin ?x) \<or> length (ti_stops ?x) < 2))"
      "ti_state ?x = Pre_Departure \<or> ti_state ?x = In_Service" using assms(1) by simp_all
    show ?thesis
      unfolding reduce_trip_state_def Let_def if_not_P [OF \<open>ti_stops ?x \<noteq> []\<close>] if_not_P [OF ok] if_not_P [OF a(1)] if_P [OF a(2)]
      using assms(1,2) dep stops serv by simp
  next
    case (2 leaving safe)
    with assms(1,2) dep stops have "\<not> leaving" "safe = 1" by auto
    with 2(4) dep serv show ?thesis by simp
  qed
qed

text \<open>C11. No stop is passed silently: between the index a sample found and the index it leaves, every
  stop after the origin was reached on this segment, or is listed as skipped in a GNSS gap, or is
  listed as unobserved; the index never moves back or past the last stop, and departure is not undone.\<close>

theorem reduce_passes_no_stop_silently:
  assumes "ti_stops x \<noteq> []" "0 \<le> ti_index x" "ti_index x \<le> int (stop_bound x)" "r = reduce_trip_state cm x"
  shows "ti_index x \<le> tr_index r \<and> tr_index r \<le> int (stop_bound x) \<and> (ti_departed x \<longrightarrow> tr_departed r) \<and>
    (\<forall>j. ti_index x \<le> int j \<and> int j < tr_index r \<longrightarrow> j = 0 \<or>
      was_stop_reached (ti_stops x ! j) (ti_at x) (segment_start x) \<or>
      j \<in> set (opt_default (tr_skipped r) []) \<or> j \<in> set (opt_default (tr_unobserved r) []))"
proof (cases rule: reduce_cases [OF assms(4)])
  case 1
  with assms(1-3) show ?thesis by (auto simp: still_result_def)
next
  case (2 leaving safe)
  let ?d = "trip_drive x leaving"
  from 2(5) have s: "safe \<le> dr_last ?d" by simp
  from 2(2) have ne: "dr_stops ?d \<noteq> []" by simp
  obtain k where k: "tr_index r = int k" "safe \<le> k" "k \<le> dr_last ?d"
    and pass: "\<And>j. safe \<le> j \<Longrightarrow> j < k \<Longrightarrow> reached_stop ?d j \<or> j \<in> set (opt_default (tr_skipped r) []) \<or> j \<in> set (opt_default (tr_unobserved r) [])"
    and dep: "has_departed x \<Longrightarrow> tr_departed r"
    by (rule in_service_facts [OF s ne 2(4)]) blast
  have safe: "safe = nat (ti_index x) \<or> ti_index x = 0 \<and> safe = 1" "ti_index x \<le> int safe"
    using 2(7) assms(2,3) by auto
  have "j = 0 \<or> was_stop_reached (ti_stops x ! j) (ti_at x) (segment_start x) \<or>
      j \<in> set (opt_default (tr_skipped r) []) \<or> j \<in> set (opt_default (tr_unobserved r) [])"
    if "ti_index x \<le> int j" "int j < tr_index r" for j
  proof (cases "j = 0")
    case False
    then have "safe \<le> j" "j < k" using that k(1) safe by auto
    from pass [OF this] show ?thesis using reached_was_reached [of ?d j] by auto
  qed simp
  with k safe(2) dep show ?thesis by (auto simp: has_departed_def)
qed

theorem reduce_passes_no_stop_silently_witness:
  "0 \<le> tr_index (reduce_trip_state 2000 (demo_arrival 1000)) \<and> tr_index (reduce_trip_state 2000 (demo_arrival 1000)) \<le> 1"
  using reduce_passes_no_stop_silently [of "demo_arrival 1000" "reduce_trip_state 2000 (demo_arrival 1000)" 2000]
  by (simp add: demo_arrival_def stop_bound_def)

text \<open>C10. A ride that was not completed and had no arrival evidence completes only after a dwell at the
  terminal: two fixes of the run at least the confirmation time apart, such that they and every fix
  between them are trusted, stopped, precise and within the arrival corridor of the last stop.\<close>

theorem ride_completion_confirmed:
  assumes "tr_state r0 \<noteq> Completed" "tr_arrival r0 = None" "tr_state (ride_run cm r0 xs) = Completed"
  shows "\<exists>i j. i < j \<and> j < length xs \<and> (\<forall>m. i \<le> m \<and> m \<le> j \<longrightarrow> at_terminal (xs ! m)) \<and>
    num_opt (ti_time (xs ! j)) - num_opt (ti_time (xs ! i)) \<ge> cm"
proof -
  from ride_run_inv [OF assms(1,2), of cm xs] assms(3) obtain i j where
    "i < j" "j < length xs" "dwell xs i (Suc j)" "num_opt (ti_time (xs ! j)) - num_opt (ti_time (xs ! i)) \<ge> cm" by blast
  then show ?thesis by (auto simp: dwell_def less_Suc_eq_le)
qed

theorem ride_completion_confirmed_witness:
  "at_terminal (demo_arrival 1000) \<and> at_terminal (demo_arrival 4000)"
proof -
  let ?e = "\<lparr>te_started_at = Fin 1000, te_last_sampled_at = Fin 1000\<rparr>"
  have arrive: "reliable_arrival (thread_result r (demo_arrival t)) (trip_drive (thread_result r (demo_arrival t)) False) True"
    if "is_safe_integer (Fin t)" for r t
    using that by (simp add: reliable_arrival_def stop_bound_def) (simp add: thread_result_def demo_arrival_def motion_constants trip_constants demo_near)
  have safe: "is_safe_integer (Fin 1000)" "is_safe_integer (Fin 4000)" by simp_all
  have first: "ride_run 2000 demo_ride [demo_arrival 1000] = demo_ride\<lparr>tr_arrival := Some ?e\<rparr>"
    using arrive [OF safe(1), of demo_ride] by (simp add: ride_run_def demo_reduce demo_ride_def terminal_result_def usable_prior_def Let_def)
      (simp add: num_opt_def opt_default_def demo_arrival_def)
  have "tr_state (reduce_trip_state 2000 (thread_result (demo_ride\<lparr>tr_arrival := Some ?e\<rparr>) (demo_arrival 4000))) = Completed"
    using arrive [OF safe(2), of "demo_ride\<lparr>tr_arrival := Some ?e\<rparr>"] safe
    by (simp add: demo_reduce demo_ride_def terminal_result_def usable_prior_def Let_def)
      (simp add: num_opt_def opt_default_def demo_arrival_def)
  with first have "tr_state (ride_run 2000 demo_ride [demo_arrival 1000, demo_arrival 4000]) = Completed"
    by (simp add: ride_run_def)
  from ride_completion_confirmed [OF _ _ this] obtain i j where ij: "i < j" "j < 2"
    "\<forall>m. i \<le> m \<and> m \<le> j \<longrightarrow> at_terminal ([demo_arrival 1000, demo_arrival 4000] ! m)"
    by (auto simp: demo_ride_def)
  then have "i = 0" "j = 1" by auto
  with ij(3) [rule_format, of 0] ij(3) [rule_format, of 1] show ?thesis by simp
qed

text \<open>A fix the receiver marks uncertain, with bad precision, or outside the freshness window decides
  nothing: index, departure and state stay (a legacy maintenance record reads as in service), no stop
  is credited and arrival evidence is dropped; an open gap stays open, and only an untrusted fix that
  is not stale opens one.\<close>

theorem untrusted_fix_is_inert:
  assumes "ti_stops x \<noteq> []" "\<not> trusted x" "r = reduce_trip_state cm x"
  shows "tr_index r = ti_index x \<and> tr_departed r = ti_departed x \<and> tr_state r = unchanged_state (ti_state x) \<and>
    tr_arrival r = None \<and> tr_skipped r = None \<and> tr_unobserved r = None \<and>
    (finite_opt (ti_gap_since x) \<longrightarrow> tr_gap r = ti_gap_since x) \<and>
    (\<not> finite_opt (ti_gap_since x) \<longrightarrow> tr_gap r = None \<longleftrightarrow> stale_fix x)"
proof -
  have "\<not> stale_fix x \<Longrightarrow> detected_gnss_gap x \<noteq> None"
    using assms(2) by (auto simp: trusted_def detected_gnss_gap_def Let_def)
  then show ?thesis
    by (auto simp: assms(3) reduce_untrusted [OF assms(1,2)] gnss_gap_def prior_gap_def finite_opt_def split: option.splits)
qed

theorem untrusted_fix_is_inert_witness:
  "tr_index (reduce_trip_state 2000 ((demo_arrival 1000)\<lparr>ti_motion := Uncertain\<rparr>)) = 1 \<and>
   tr_gap (reduce_trip_state 2000 ((demo_arrival 1000)\<lparr>ti_motion := Uncertain\<rparr>)) \<noteq> None"
  using untrusted_fix_is_inert [OF _ _ refl, where x = "(demo_arrival 1000)\<lparr>ti_motion := Uncertain\<rparr>" and cm = 2000]
  by (simp add: demo_arrival_def trusted_def unreliable_trip_fix_def finite_opt_def stale_fix_def)

text \<open>Credit without observation is bounded: stops are skipped only while a GNSS gap is open, stops
  are credited as unobserved only with continuous telemetry, at most two at a time and only when the
  bus is moving through the next stop after them; never both, and each list runs from the index
  the sample found.\<close>

theorem credit_is_bounded:
  assumes "r = reduce_trip_state cm x"
  shows "(\<forall>js. tr_skipped r = Some js \<longrightarrow> gnss_gap x \<noteq> None \<and> (\<exists>a b. js = [a..<b] \<and> a < b \<and> int b \<le> tr_index r)) \<and>
    (\<forall>js. tr_unobserved r = Some js \<longrightarrow> gnss_gap x = None \<and> ti_motion x = Moving \<and>
      (\<exists>a b. js = [a..<b] \<and> a < b \<and> b \<le> a + 2 \<and> int b \<le> tr_index r \<and>
        was_stop_reached (ti_stops x ! b) (ti_at x) (segment_start x)))"
proof (cases rule: reduce_cases [OF assms])
  case 1
  then show ?thesis by (simp add: still_result_def)
next
  case (2 leaving safe)
  let ?d = "trip_drive x leaving"
  from 2(5) have s: "safe \<le> dr_last ?d" by simp
  from 2(2) have ne: "dr_stops ?d \<noteq> []" by simp
  obtain k where k: "tr_index r = int k"
    and sk: "tr_skipped r \<noteq> None \<Longrightarrow> dr_gap ?d \<noteq> None \<and> (\<exists>m. m \<le> k \<and> tr_skipped r = Some [safe..<m] \<and> safe < m)"
    and un: "tr_unobserved r \<noteq> None \<Longrightarrow> dr_gap ?d = None \<and>
       (\<exists>m. m \<le> k \<and> tr_unobserved r = Some [safe..<m] \<and> safe < m \<and> m \<le> safe + 2 \<and> reached_stop ?d m \<and> travelled_through ?d m)"
    by (rule in_service_facts [OF s ne 2(4)]) blast
  have "ti_motion x = Moving" if "travelled_through ?d m" for m
    using that by (auto simp: travelled_through_def trip_drive_def split: option.splits)
  with un k reached_was_reached [of ?d] have "\<forall>js. tr_unobserved r = Some js \<longrightarrow> gnss_gap x = None \<and> ti_motion x = Moving \<and>
      (\<exists>a b. js = [a..<b] \<and> a < b \<and> b \<le> a + 2 \<and> int b \<le> tr_index r \<and>
        was_stop_reached (ti_stops x ! b) (ti_at x) (segment_start x))" by fastforce
  moreover have "\<forall>js. tr_skipped r = Some js \<longrightarrow> gnss_gap x \<noteq> None \<and> (\<exists>a b. js = [a..<b] \<and> a < b \<and> int b \<le> tr_index r)"
    using sk k by fastforce
  ultimately show ?thesis by blast
qed

theorem credit_is_bounded_witness:
  "tr_skipped (reduce_trip_state 2000 (demo_arrival 1000)) = None \<and> tr_unobserved (reduce_trip_state 2000 (demo_arrival 1000)) = None"
proof -
  have "gnss_gap (demo_arrival 1000) = None" "ti_motion (demo_arrival 1000) \<noteq> Moving"
    by (simp_all add: gnss_gap_def prior_gap_def finite_opt_def detected_gnss_gap_def demo_arrival_def unreliable_trip_fix_def
        motion_constants stale_fix_def)
  with credit_is_bounded [OF refl, where x = "demo_arrival 1000" and cm = 2000] show ?thesis
    by (cases "tr_skipped (reduce_trip_state 2000 (demo_arrival 1000))";
        cases "tr_unobserved (reduce_trip_state 2000 (demo_arrival 1000))") simp_all
qed

text \<open>A stop reported as visited is a stop of the route that was not credited unobserved, and the fix
  that reports it is trusted and inside its corridor, unless the ride is completed.\<close>

theorem visited_stop_observed:
  assumes "visited_stop_index v = Some i"
  shows "i < length (vi_stops v) \<and> (vi_state v = Visit_Completed \<and> i = length (vi_stops v) - 1 \<or>
    vi_state v \<in> {Visit_Pre_Departure, Visit_In_Service} \<and> \<not> unreliable_trip_fix (vi_motion v) (vi_hdop v) \<and>
    haversine_meters (vi_at v) (vi_stops v ! i) \<le> stop_geofence_m \<and>
    (i > 0 \<or> vi_departed v \<longrightarrow> (\<forall>us. vi_unobserved v = Some us \<longrightarrow> Fin (real i) \<notin> set us)))"
proof -
  have len: "vi_stops v \<noteq> []" using assms by (auto simp: visited_stop_index_def Let_def split: if_splits)
  show ?thesis
  proof (cases "vi_state v = Visit_Completed")
    case True
    with assms len show ?thesis by (auto simp: visited_stop_index_def Let_def split: if_splits)
  next
    case False
    define index where "index = nat (min (max (num_floor (vi_index v)) 0) (int (length (vi_stops v) - 1)))"
    have idx: "index \<le> length (vi_stops v) - 1" by (auto simp: index_def)
    have st: "vi_state v \<in> {Visit_Pre_Departure, Visit_In_Service}" "\<not> unreliable_trip_fix (vi_motion v) (vi_hdop v)"
      and body: "(if index = 0 then if \<not> vi_departed v \<and> haversine_meters (vi_at v) (vi_stops v ! 0) \<le> stop_geofence_m then Some 0 else None
        else if index = length (vi_stops v) - 1 \<and> vi_departed v \<and> observed_at v (length (vi_stops v) - 1)
          then Some (length (vi_stops v) - 1)
        else if observed_at v (index - 1) then Some (index - 1) else None) = Some i"
      using assms False by (auto simp: visited_stop_index_def Let_def index_def split: if_splits)
    have obs: "haversine_meters (vi_at v) (vi_stops v ! j) \<le> stop_geofence_m \<and>
        (\<forall>us. vi_unobserved v = Some us \<longrightarrow> Fin (real j) \<notin> set us)" if "observed_at v j" for j
      using that by (auto simp: observed_at_def) (metis num_eq_fin)
    have "i < length (vi_stops v)" using body idx len by (cases "vi_stops v") (auto split: if_splits)
    moreover have "observed_at v i \<or> i = 0 \<and> \<not> vi_departed v \<and> haversine_meters (vi_at v) (vi_stops v ! i) \<le> stop_geofence_m"
      using body by (auto split: if_splits)
    ultimately show ?thesis using st obs [of i] by blast
  qed
qed

theorem visited_stop_observed_witness:
  "haversine_meters null_island ([null_island, demo_terminal] ! 0) \<le> stop_geofence_m"
proof -
  let ?v = "\<lparr>vi_at = null_island, vi_motion = Some Stopped, vi_hdop = None, vi_stops = [null_island, demo_terminal],
    vi_state = Visit_Pre_Departure, vi_index = 0, vi_departed = False, vi_unobserved = None\<rparr>"
  have "haversine_meters null_island null_island = Fin 0"
    using hav.dist_self [of null_island] by (simp add: null_island_def valid_position_def)
  then have "visited_stop_index ?v = Some 0"
    using is_safe_of_int [of 0] by (simp add: visited_stop_index_def null_island_def unreliable_trip_fix_def trip_constants)
  from visited_stop_observed [OF this] show ?thesis by simp
qed

end
