(* ===== verification/Worker_Lease.thy ===== *)
theory Worker_Lease imports Js_Value Js_Map begin

text \<open>
  The lease that makes one process the leader of the background work (\<open>lib/workerFence.ts\<close>,
  \<open>services/workerCoordinator.ts\<close>). Every process has its own wall clock, \<open>clock w\<close> milliseconds ahead
  of the time of the system; \<open>performance.now()\<close> differences are differences of that time. A process
  is a record, its renewal a state machine with a step per await, and the lease document is changed
  by serialisable transactions. The clock reads of one synchronous block are one instant.
\<close>

section \<open>The lease document\<close>

definition worker_clock_skew_ms :: real where
  "worker_clock_skew_ms = 2000"

definition lease_duration_ms :: real where
  "lease_duration_ms = 45000"

record lease =
  le_owner :: "string option"
  le_generation :: "int option"
  le_expires_at :: "real option"

definition expires_at :: "lease \<Rightarrow> real" where
  "expires_at l = opt_default (le_expires_at l) 0"

definition stored_generation :: "lease \<Rightarrow> int" where
  "stored_generation l = (case le_generation l of Some g \<Rightarrow> (if \<bar>g\<bar> \<le> 9007199254740991 then g else 0) | None \<Rightarrow> 0)"

text \<open>The transaction of \<open>renew\<close>: the new document, and the generation and expiry acquired.\<close>

definition lease_transaction :: "string \<Rightarrow> real \<Rightarrow> lease \<Rightarrow> (lease \<times> int \<times> real) option" where
  "lease_transaction owner now l =
    (if le_owner l \<noteq> Some owner \<and> expires_at l + worker_clock_skew_ms > now then None
     else (let generation = (if le_owner l = Some owner \<and> expires_at l > now then stored_generation l else stored_generation l + 1) in
       Some (\<lparr>le_owner = Some owner, le_generation = Some generation, le_expires_at = Some (now + lease_duration_ms)\<rparr>,
         generation, now + lease_duration_ms)))"

definition release_transaction :: "string \<Rightarrow> lease \<Rightarrow> lease" where
  "release_transaction owner l = (if le_owner l = Some owner then l\<lparr>le_owner := None, le_expires_at := Some 0\<rparr> else l)"

section \<open>The fence\<close>

record fence =
  fe_generation :: int
  fe_deadline :: real

definition fence_assert :: "fence \<Rightarrow> real \<Rightarrow> bool" where
  "fence_assert f t \<longleftrightarrow> t < fe_deadline f"

text \<open>\<open>workerTransaction\<close>: the lease is in the read set of the transaction that writes.\<close>

definition worker_transaction_allowed :: "string \<Rightarrow> fence \<Rightarrow> real \<Rightarrow> real \<Rightarrow> lease \<Rightarrow> bool" where
  "worker_transaction_allowed owner f t wall l \<longleftrightarrow> fence_assert f t \<and> le_owner l = Some owner \<and>
     le_generation l = Some (fe_generation f) \<and> \<not> expires_at l \<le> wall + worker_clock_skew_ms"

text \<open>\<open>workerRtdbTransaction\<close>: \<open>None\<close> is an aborted transaction; the update is the caller's.\<close>

definition worker_rtdb_transaction ::
    "(jsval \<Rightarrow> jsnum) \<Rightarrow> (nat \<Rightarrow> string) \<Rightarrow> fence option \<Rightarrow> real \<Rightarrow> (jsval \<Rightarrow> jsval option) \<Rightarrow> jsval \<Rightarrow> jsval option" where
  "worker_rtdb_transaction parse index_key f t update current = (case f of
      None \<Rightarrow> update current
    | Some f \<Rightarrow>
        (if \<not> fence_assert f t then None
         else if js_number parse (nullish (js_prop current ''_workerGeneration'') (JNum 0)) > Fin (of_int (fe_generation f)) then None
         else (let stamp = (\<lambda>fs. JObj (jm_set fs ''_workerGeneration'' (JNum (Fin (of_int (fe_generation f)))))) in
           (case update current of
             Some (JObj fs) \<Rightarrow> Some (stamp fs)
           | Some (JArr vs) \<Rightarrow> Some (stamp (zip (map index_key [0..<length vs]) vs))
           | next \<Rightarrow> next))))"

section \<open>A coordinator\<close>

datatype renewal =
    Idle
  | Running nat real
  | Committed nat real "(int \<times> real) option"
  | Activating nat int real
  | Ending

record coordinator =
  co_stopped :: bool
  co_active :: bool
  co_fence :: "fence option"
  co_transition :: nat
  co_renewal :: renewal
  co_release :: bool

definition co_new :: coordinator where
  "co_new = \<lparr>co_stopped = False, co_active = False, co_fence = None, co_transition = 0, co_renewal = Idle, co_release = False\<rparr>"

definition stop_work :: "coordinator \<Rightarrow> coordinator" where
  "stop_work c = c\<lparr>co_fence := None, co_active := False\<rparr>"

definition give_up :: "coordinator \<Rightarrow> coordinator" where
  "give_up c = stop_work (c\<lparr>co_transition := co_transition c + 1\<rparr>)"

definition remaining_ms :: "(int \<times> real) option \<Rightarrow> real \<Rightarrow> real \<Rightarrow> real \<Rightarrow> real" where
  "remaining_ms acquired started t wall = (case acquired of
      Some (_, expiry) \<Rightarrow> min (lease_duration_ms - 2 * worker_clock_skew_ms - (t - started)) (expiry - wall - worker_clock_skew_ms)
    | None \<Rightarrow> 0)"

text \<open>What follows the await of the transaction.\<close>

definition renew_finish :: "nat \<Rightarrow> real \<Rightarrow> (int \<times> real) option \<Rightarrow> real \<Rightarrow> real \<Rightarrow> coordinator \<Rightarrow> coordinator" where
  "renew_finish attempt started acquired t wall c =
    (let remaining = remaining_ms acquired started t wall in
     if co_stopped c \<or> attempt \<noteq> co_transition c then c\<lparr>co_renewal := Idle\<rparr>
     else (case acquired of
       None \<Rightarrow> (give_up c)\<lparr>co_renewal := Ending\<rparr>
     | Some (generation, _) \<Rightarrow>
        (if remaining \<le> 0 then (give_up c)\<lparr>co_renewal := Ending\<rparr>
         else (let deadline = t + remaining in
          if co_active c \<and> map_option fe_generation (co_fence c) \<noteq> Some generation
            then (stop_work c)\<lparr>co_renewal := Activating attempt generation deadline\<rparr>
          else if \<not> co_active c then c\<lparr>co_renewal := Activating attempt generation deadline\<rparr>
          else (case co_fence c of
              Some f \<Rightarrow> (if fence_assert f t then c\<lparr>co_fence := Some (f\<lparr>fe_deadline := deadline\<rparr>), co_renewal := Idle\<rparr>
                else (give_up c)\<lparr>co_renewal := Ending\<rparr>)
            | None \<Rightarrow> (give_up c)\<lparr>co_renewal := Ending\<rparr>)))))"

text \<open>What follows the await of the previous leadership's cleanup.\<close>

definition renew_activate :: "nat \<Rightarrow> int \<Rightarrow> real \<Rightarrow> real \<Rightarrow> coordinator \<Rightarrow> coordinator" where
  "renew_activate attempt generation deadline t c =
    (if co_stopped c \<or> co_active c \<or> attempt \<noteq> co_transition c \<or> t \<ge> deadline then c\<lparr>co_renewal := Idle\<rparr>
     else c\<lparr>co_fence := Some \<lparr>fe_generation = generation, fe_deadline = deadline\<rparr>, co_active := True, co_renewal := Idle\<rparr>)"

definition shut_down :: "coordinator \<Rightarrow> coordinator" where
  "shut_down c = stop_work (c\<lparr>co_release := co_active c, co_stopped := True, co_transition := co_transition c + 1\<rparr>)"

section \<open>The system\<close>

record lease_system =
  ls_time :: real
  ls_lease :: lease
  ls_workers :: "string \<Rightarrow> coordinator"

definition put_worker :: "lease_system \<Rightarrow> string \<Rightarrow> coordinator \<Rightarrow> lease_system" where
  "put_worker s w c = s\<lparr>ls_workers := (ls_workers s)(w := c)\<rparr>"

text \<open>The outcome of the transaction for a renewal that may have been overtaken.\<close>

definition commit_lease :: "lease_system \<Rightarrow> string \<Rightarrow> nat \<Rightarrow> real \<Rightarrow> lease \<times> (int \<times> real) option" where
  "commit_lease s w attempt now = (let c = ls_workers s w in
    if co_stopped c \<or> attempt \<noteq> co_transition c then (ls_lease s, None)
    else (case lease_transaction w now (ls_lease s) of None \<Rightarrow> (ls_lease s, None) | Some (l, acquired) \<Rightarrow> (l, Some acquired)))"

inductive lease_step :: "(string \<Rightarrow> real) \<Rightarrow> lease_system \<Rightarrow> lease_system \<Rightarrow> bool" for clock where
  tick: "ls_time s \<le> t \<Longrightarrow> lease_step clock s (s\<lparr>ls_time := t\<rparr>)"
| renew: "\<not> co_stopped (ls_workers s w) \<Longrightarrow> co_renewal (ls_workers s w) = Idle \<Longrightarrow>
    lease_step clock s (put_worker s w ((ls_workers s w)\<lparr>co_renewal := Running (co_transition (ls_workers s w)) (ls_time s)\<rparr>))"
| commit: "co_renewal (ls_workers s w) = Running attempt started \<Longrightarrow> started \<le> seen \<Longrightarrow> seen \<le> ls_time s \<Longrightarrow>
    commit_lease s w attempt (seen + clock w) = (l, acquired) \<Longrightarrow>
    lease_step clock s (put_worker (s\<lparr>ls_lease := l\<rparr>) w ((ls_workers s w)\<lparr>co_renewal := Committed attempt started acquired\<rparr>))"
| lost: "co_renewal (ls_workers s w) = Running attempt started \<Longrightarrow> started \<le> seen \<Longrightarrow> seen \<le> ls_time s \<Longrightarrow>
    l = ls_lease s \<or> l = fst (commit_lease s w attempt (seen + clock w)) \<Longrightarrow>
    lease_step clock s (put_worker (s\<lparr>ls_lease := l\<rparr>) w ((give_up (ls_workers s w))\<lparr>co_renewal := Ending\<rparr>))"
| finish: "co_renewal (ls_workers s w) = Committed attempt started acquired \<Longrightarrow>
    lease_step clock s (put_worker s w (renew_finish attempt started acquired (ls_time s) (ls_time s + clock w) (ls_workers s w)))"
| activate: "co_renewal (ls_workers s w) = Activating attempt generation deadline \<Longrightarrow>
    lease_step clock s (put_worker s w (renew_activate attempt generation deadline (ls_time s) (ls_workers s w)))"
| settle: "co_renewal (ls_workers s w) = Ending \<Longrightarrow>
    lease_step clock s (put_worker s w ((ls_workers s w)\<lparr>co_renewal := Idle\<rparr>))"
| expire: "co_fence (ls_workers s w) = Some f \<Longrightarrow> fe_deadline f \<le> ls_time s \<Longrightarrow>
    lease_step clock s (put_worker s w (give_up (ls_workers s w)))"
| shutdown: "lease_step clock s (put_worker s w (shut_down (ls_workers s w)))"
| release: "co_stopped (ls_workers s w) \<Longrightarrow> co_release (ls_workers s w) \<Longrightarrow> co_renewal (ls_workers s w) = Idle \<Longrightarrow>
    lease_step clock s (put_worker (s\<lparr>ls_lease := release_transaction w (ls_lease s)\<rparr>) w ((ls_workers s w)\<lparr>co_release := False\<rparr>))"

inductive lease_reach :: "(string \<Rightarrow> real) \<Rightarrow> lease_system \<Rightarrow> bool" for clock where
  start: "lease_reach clock \<lparr>ls_time = t, ls_lease = \<lparr>le_owner = None, le_generation = None, le_expires_at = None\<rparr>, ls_workers = (\<lambda>_. co_new)\<rparr>"
| step: "lease_reach clock s \<Longrightarrow> lease_step clock s s' \<Longrightarrow> lease_reach clock s'"

definition leads :: "lease_system \<Rightarrow> string \<Rightarrow> bool" where
  "leads s w \<longleftrightarrow> (case co_fence (ls_workers s w) of Some f \<Rightarrow> fence_assert f (ls_time s) | None \<Rightarrow> False)"

section \<open>Exclusion\<close>

text \<open>A deadline that a process holds or may yet hold is covered by its own lease, or past.\<close>

definition covered_until :: "(string \<Rightarrow> real) \<Rightarrow> lease_system \<Rightarrow> string \<Rightarrow> real \<Rightarrow> bool" where
  "covered_until clock s w d \<longleftrightarrow> d \<le> ls_time s \<or>
     le_owner (ls_lease s) = Some w \<and> d + clock w + worker_clock_skew_ms \<le> expires_at (ls_lease s)"

definition promised :: "(string \<Rightarrow> real) \<Rightarrow> string \<Rightarrow> coordinator \<Rightarrow> real set" where
  "promised clock w c = (case co_fence c of Some f \<Rightarrow> {fe_deadline f} | None \<Rightarrow> {}) \<union>
     (case co_renewal c of Activating _ _ d \<Rightarrow> {d}
      | Committed _ _ (Some (_, e)) \<Rightarrow> {e - clock w - worker_clock_skew_ms} | _ \<Rightarrow> {})"

definition started_before :: "(string \<Rightarrow> real) \<Rightarrow> lease_system \<Rightarrow> string \<Rightarrow> real \<Rightarrow> bool" where
  "started_before clock s w t \<longleftrightarrow> t \<le> ls_time s \<and>
     (le_owner (ls_lease s) = Some w \<longrightarrow> expires_at (ls_lease s) \<le> t + clock w + lease_duration_ms)"

definition worker_ok :: "(string \<Rightarrow> real) \<Rightarrow> lease_system \<Rightarrow> string \<Rightarrow> coordinator \<Rightarrow> bool" where
  "worker_ok clock s w c \<longleftrightarrow> (\<forall>d\<in>promised clock w c. covered_until clock s w d) \<and>
     (\<forall>a t. co_renewal c = Running a t \<longrightarrow> started_before clock s w t) \<and>
     started_before clock s w (ls_time s) \<and> (co_stopped c \<longrightarrow> co_fence c = None)"

definition lease_inv :: "(string \<Rightarrow> real) \<Rightarrow> lease_system \<Rightarrow> bool" where
  "lease_inv clock s \<longleftrightarrow> (\<forall>w. worker_ok clock s w (ls_workers s w))"

lemmas worker_ok_defs = worker_ok_def promised_def covered_until_def started_before_def

lemma worker_ok_simps [simp]:
  "worker_ok clock (put_worker s v c) w d = worker_ok clock s w d"
  "ls_workers (put_worker s v c) w = (if w = v then c else ls_workers s w)"
  "ls_time (put_worker s v c) = ls_time s" "ls_lease (put_worker s v c) = ls_lease s"
  by (simp_all add: worker_ok_defs put_worker_def)

lemma covered_put [simp]:
  "covered_until clock (put_worker s v c) w d = covered_until clock s w d"
  "started_before clock (put_worker s v c) w d = started_before clock s w d"
  by (simp_all add: covered_until_def started_before_def)

lemma lease_inv_local:
  assumes "lease_inv clock s" "worker_ok clock s w c"
  shows "lease_inv clock (put_worker s w c)"
  using assms by (simp add: lease_inv_def)

lemma lease_inv_write:
  assumes "\<And>v. v \<noteq> w \<Longrightarrow> worker_ok clock (s\<lparr>ls_lease := l\<rparr>) v (ls_workers s v)" "worker_ok clock (s\<lparr>ls_lease := l\<rparr>) w c"
  shows "lease_inv clock (put_worker (s\<lparr>ls_lease := l\<rparr>) w c)"
  using assms by (simp add: lease_inv_def)

lemma covered_take_over:
  assumes "lease_transaction v now (ls_lease s) = Some (l, acq)" "now \<le> ls_time s + clock v"
    "clock v - clock w \<le> 2 * worker_clock_skew_ms" "covered_until clock s w d"
    "v = w \<Longrightarrow> le_owner (ls_lease s) = Some w \<Longrightarrow> expires_at (ls_lease s) \<le> now + lease_duration_ms"
  shows "covered_until clock (s\<lparr>ls_lease := l\<rparr>) w d"
  using assms by (auto simp: covered_until_def lease_transaction_def expires_at_def opt_default_def Let_def split: if_splits)

lemma lease_transaction_result:
  "lease_transaction w now l = Some (l', g, e) \<Longrightarrow>
    e = now + lease_duration_ms \<and> le_owner l' = Some w \<and> expires_at l' = e \<and> le_generation l' = Some g"
  by (auto simp: lease_transaction_def expires_at_def opt_default_def Let_def split: if_splits)

lemma worker_ok_other:
  assumes "lease_transaction v now (ls_lease s) = Some (l, acq)" "now \<le> ls_time s + clock v"
    "clock v - clock w \<le> 2 * worker_clock_skew_ms" "v \<noteq> w" "worker_ok clock s w c"
  shows "worker_ok clock (s\<lparr>ls_lease := l\<rparr>) w c"
proof -
  have "le_owner l = Some v" using assms(1) lease_transaction_result [of v now "ls_lease s" l "fst acq" "snd acq"] by simp
  then show ?thesis using assms covered_take_over [OF assms(1-3)]
    by (auto simp: worker_ok_def started_before_def)
qed

lemma worker_ok_own:
  assumes "worker_ok clock s w c" "co_renewal c = Running a t" "t \<le> seen" "seen \<le> ls_time s"
    "lease_transaction w (seen + clock w) (ls_lease s) = Some (l, g, e)"
  shows "worker_ok clock (s\<lparr>ls_lease := l\<rparr>) w (c\<lparr>co_renewal := Committed a t (Some (g, e))\<rparr>)"
    "worker_ok clock (s\<lparr>ls_lease := l\<rparr>) w ((give_up c)\<lparr>co_renewal := Ending\<rparr>)"
proof -
  have r: "e = seen + clock w + lease_duration_ms" "le_owner l = Some w" "expires_at l = e"
    using lease_transaction_result [OF assms(5)] by auto
  have sb: "started_before clock s w t" using assms(1,2) by (auto simp: worker_ok_def)
  then have "covered_until clock (s\<lparr>ls_lease := l\<rparr>) w d" if "covered_until clock s w d" for d
    using that assms(3,4) by (intro covered_take_over [OF assms(5)]) (auto simp: started_before_def worker_clock_skew_ms_def)
  moreover have "started_before clock (s\<lparr>ls_lease := l\<rparr>) w (ls_time s)" using r assms(4) by (simp add: started_before_def)
  moreover have "covered_until clock (s\<lparr>ls_lease := l\<rparr>) w (e - clock w - worker_clock_skew_ms)" using r by (simp add: covered_until_def)
  ultimately show "worker_ok clock (s\<lparr>ls_lease := l\<rparr>) w (c\<lparr>co_renewal := Committed a t (Some (g, e))\<rparr>)"
    "worker_ok clock (s\<lparr>ls_lease := l\<rparr>) w ((give_up c)\<lparr>co_renewal := Ending\<rparr>)"
    using assms(1) by (auto simp: worker_ok_def promised_def give_up_def stop_work_def)
qed

lemma renew_finish_ok:
  assumes ok: "worker_ok clock s w c" and c: "co_renewal c = Committed a t acquired"
  shows "worker_ok clock s w (renew_finish a t acquired (ls_time s) (ls_time s + clock w) c)"
proof (cases "co_stopped c \<or> a \<noteq> co_transition c")
  case True
  then show ?thesis using ok by (auto simp: renew_finish_def worker_ok_def promised_def Let_def)
next
  case False
  have g: "worker_ok clock s w ((give_up c)\<lparr>co_renewal := Ending\<rparr>)"
    using ok False by (auto simp: worker_ok_def promised_def give_up_def stop_work_def)
  show ?thesis
  proof (cases "acquired = None \<or> remaining_ms acquired t (ls_time s) (ls_time s + clock w) \<le> 0")
    case True
    with False g show ?thesis by (auto simp: renew_finish_def Let_def split: option.splits)
  next
    case 2: False
    then obtain n e where acq: "acquired = Some (n, e)" by auto
    define d where "d = ls_time s + remaining_ms (Some (n, e)) t (ls_time s) (ls_time s + clock w)"
    have "d \<le> e - clock w - worker_clock_skew_ms" unfolding d_def by (simp add: remaining_ms_def)
    moreover have "covered_until clock s w (e - clock w - worker_clock_skew_ms)" using ok c acq by (auto simp: worker_ok_def promised_def)
    ultimately have "covered_until clock s w d" by (auto simp: covered_until_def)
    with 2 False ok g c show ?thesis unfolding renew_finish_def acq
      by (auto simp: Let_def d_def [symmetric] worker_ok_def promised_def stop_work_def split: option.splits)
  qed
qed

lemma lease_inv_step:
  assumes "lease_step clock s s'" "lease_inv clock s" "\<And>v w. clock v - clock w \<le> 2 * worker_clock_skew_ms"
  shows "lease_inv clock s'"
  using assms
proof (induction rule: lease_step.induct)
  case (tick s t)
  then show ?case by (fastforce simp: lease_inv_def worker_ok_def covered_until_def started_before_def)
next
  case (commit s w attempt started seen l acquired)
  then have w: "worker_ok clock s w (ls_workers s w)" by (simp add: lease_inv_def)
  from commit(4) consider "l = ls_lease s" "acquired = None"
    | g e where "lease_transaction w (seen + clock w) (ls_lease s) = Some (l, g, e)" "acquired = Some (g, e)"
    by (auto simp: commit_lease_def Let_def split: if_splits option.splits)
  then show ?case
  proof cases
    case 1
    with commit w show ?thesis by (auto intro!: lease_inv_local simp: worker_ok_def promised_def)
  next
    case 2
    have "worker_ok clock (s\<lparr>ls_lease := l\<rparr>) v (ls_workers s v)" if "v \<noteq> w" for v
      using that commit by (intro worker_ok_other [OF 2(1)]) (auto simp: lease_inv_def)
    then show ?thesis using worker_ok_own(1) [OF w commit(1-3) 2(1)] 2(2) by (auto intro: lease_inv_write)
  qed
next
  case (lost s w attempt started seen l)
  then have w: "worker_ok clock s w (ls_workers s w)" by (simp add: lease_inv_def)
  from lost(4) consider "l = ls_lease s"
    | g e where "lease_transaction w (seen + clock w) (ls_lease s) = Some (l, g, e)"
    by (auto simp: commit_lease_def Let_def split: if_splits option.splits)
  then show ?case
  proof cases
    case 1
    with lost w show ?thesis by (auto intro!: lease_inv_local simp: worker_ok_def promised_def give_up_def stop_work_def)
  next
    case 2
    have "worker_ok clock (s\<lparr>ls_lease := l\<rparr>) v (ls_workers s v)" if "v \<noteq> w" for v
      using that lost by (intro worker_ok_other [OF 2(1)]) (auto simp: lease_inv_def)
    then show ?thesis using worker_ok_own(2) [OF w lost(1-3) 2(1)] by (auto intro: lease_inv_write)
  qed
next
  case (finish s w attempt started acquired)
  then show ?case by (auto intro!: lease_inv_local renew_finish_ok simp: lease_inv_def)
next
  case (release s w)
  have "worker_ok clock (s\<lparr>ls_lease := release_transaction w (ls_lease s)\<rparr>) v c" if "v \<noteq> w" "worker_ok clock s v c" for v c
    using that by (auto simp: worker_ok_defs release_transaction_def)
  moreover have "worker_ok clock (s\<lparr>ls_lease := release_transaction w (ls_lease s)\<rparr>) w ((ls_workers s w)\<lparr>co_release := False\<rparr>)"
    using release by (auto simp: lease_inv_def worker_ok_defs release_transaction_def)
  ultimately show ?case using release by (auto intro!: lease_inv_write simp: lease_inv_def)
qed (intro lease_inv_local; force simp: lease_inv_def worker_ok_def promised_def give_up_def stop_work_def shut_down_def renew_activate_def)+

lemma lease_inv_reach:
  assumes "lease_reach clock s" "\<And>v w. clock v - clock w \<le> 2 * worker_clock_skew_ms"
  shows "lease_inv clock s"
  using assms
proof (induction rule: lease_reach.induct)
  case (start t)
  then show ?case by (simp add: lease_inv_def worker_ok_def promised_def co_new_def started_before_def)
qed (blast intro: lease_inv_step)

text \<open>Generations: a transaction never lowers the stored generation and a new owner raises it.\<close>

lemma lease_generation_grows:
  assumes "lease_transaction w now l = Some (l', g, e)"
  shows "stored_generation l \<le> g" "le_owner l \<noteq> Some w \<Longrightarrow> stored_generation l < g" "expires_at l \<le> now \<Longrightarrow> stored_generation l < g"
  using assms by (auto simp: lease_transaction_def Let_def split: if_splits)

lemma superseded_writer_refused:
  assumes "lease_transaction v now l = Some (l', g, e)" "v \<noteq> w"
  shows "\<not> worker_transaction_allowed w f t wall l'"
  using lease_transaction_result [OF assms(1)] assms(2) by (simp add: worker_transaction_allowed_def)

text \<open>A write that reaches the database keeps the newest generation on the record.\<close>

lemma rtdb_generation_monotone:
  assumes "worker_rtdb_transaction parse index_key (Some f) t update (JObj fs) = Some (JObj fs')" "obj_get fs ''_workerGeneration'' = JNum (Fin g)"
  shows "obj_get fs' ''_workerGeneration'' = JNum (Fin (of_int (fe_generation f))) \<and> g \<le> of_int (fe_generation f) \<and> fence_assert f t"
proof -
  have "obj_get (jm_set m ''_workerGeneration'' v) ''_workerGeneration'' = v" for m v
    by (induction m) auto
  then show ?thesis using assms
    by (auto simp: worker_rtdb_transaction_def nullish_def Let_def not_less split: if_splits option.splits jsval.splits)
qed

text \<open>C18. There is one leader: in every interleaving of renewals, takeovers, lost responses, expiries,
  shutdowns and releases of any number of processes whose wall clocks are at most four seconds apart,
  whoever holds a fence that still passes \<open>assert\<close> owns the lease document, which stays its own for
  more than two further seconds of its clock, so no two processes lead at once.\<close>

theorem single_leader:
  assumes "lease_reach clock s" "\<And>v w. clock v - clock w \<le> 2 * worker_clock_skew_ms" "leads s v"
  shows "le_owner (ls_lease s) = Some v \<and> ls_time s + clock v + worker_clock_skew_ms < expires_at (ls_lease s) \<and>
    (\<forall>w. leads s w \<longrightarrow> w = v)"
proof -
  have "le_owner (ls_lease s) = Some w \<and> ls_time s + clock w + worker_clock_skew_ms < expires_at (ls_lease s)"
    if l: "leads s w" for w
  proof -
    have ok: "worker_ok clock s w (ls_workers s w)" using lease_inv_reach [OF assms(1,2)] by (simp add: lease_inv_def)
    obtain f where f: "co_fence (ls_workers s w) = Some f" "ls_time s < fe_deadline f"
      using l by (auto simp: leads_def fence_assert_def split: option.splits)
    then have "covered_until clock s w (fe_deadline f)" using ok by (simp add: worker_ok_def promised_def)
    with f(2) show ?thesis by (auto simp: covered_until_def)
  qed
  with assms(3) show ?thesis by (metis option.inject)
qed

theorem single_leader_witness: "\<exists>s. lease_reach (\<lambda>_. 0) s \<and> leads s ''a'' \<and> (\<forall>w. leads s w \<longrightarrow> w = ''a'')"
proof -
  define s0 where "s0 = \<lparr>ls_time = 5000, ls_lease = \<lparr>le_owner = None, le_generation = None, le_expires_at = None\<rparr>, ls_workers = (\<lambda>_. co_new)\<rparr>"
  define s1 where "s1 = put_worker s0 ''a'' (co_new\<lparr>co_renewal := Running 0 5000\<rparr>)"
  define l where "l = \<lparr>le_owner = Some ''a'', le_generation = Some 1, le_expires_at = Some 50000\<rparr>"
  define s2 where "s2 = put_worker (s1\<lparr>ls_lease := l\<rparr>) ''a'' (co_new\<lparr>co_renewal := Committed 0 5000 (Some (1, 50000))\<rparr>)"
  define s3 where "s3 = put_worker s2 ''a'' (co_new\<lparr>co_renewal := Activating 0 1 46000\<rparr>)"
  define s4 where "s4 = put_worker s3 ''a'' (co_new\<lparr>co_fence := Some \<lparr>fe_generation = 1, fe_deadline = 46000\<rparr>, co_active := True\<rparr>)"
  have r0: "lease_reach (\<lambda>_. 0) s0" unfolding s0_def by (rule lease_reach.start)
  have w: "ls_workers s0 ''a'' = co_new" "ls_time s0 = 5000" "ls_lease s0 = \<lparr>le_owner = None, le_generation = None, le_expires_at = None\<rparr>"
    "ls_workers s1 ''a'' = co_new\<lparr>co_renewal := Running 0 5000\<rparr>" "ls_time s1 = 5000" "ls_lease s1 = ls_lease s0"
    "ls_workers s2 ''a'' = co_new\<lparr>co_renewal := Committed 0 5000 (Some (1, 50000))\<rparr>" "ls_time s2 = 5000"
    "ls_workers s3 ''a'' = co_new\<lparr>co_renewal := Activating 0 1 46000\<rparr>" "ls_time s3 = 5000"
    "ls_workers s4 ''a'' = co_new\<lparr>co_fence := Some \<lparr>fe_generation = 1, fe_deadline = 46000\<rparr>, co_active := True\<rparr>" "ls_time s4 = 5000"
    by (simp_all add: s4_def s3_def s2_def s1_def s0_def)
  have "lease_step (\<lambda>_. 0) s0 s1" using lease_step.renew [of s0 "''a''" "\<lambda>_. 0"] unfolding s1_def w by (simp add: co_new_def)
  then have r1: "lease_reach (\<lambda>_. 0) s1" by (rule lease_reach.step [OF r0])
  have "commit_lease s1 ''a'' 0 (5000 + 0) = (l, Some (1, 50000))"
    by (simp add: commit_lease_def lease_transaction_def expires_at_def opt_default_def worker_clock_skew_ms_def
        lease_duration_ms_def l_def stored_generation_def Let_def w co_new_def)
  then have "lease_step (\<lambda>_. 0) s1 s2" using lease_step.commit [of s1 "''a''" 0 5000 5000 "\<lambda>_. 0" l "Some (1, 50000)"]
    unfolding s2_def w by simp
  then have r2: "lease_reach (\<lambda>_. 0) s2" by (rule lease_reach.step [OF r1])
  have "renew_finish 0 5000 (Some (1, 50000)) 5000 5000 (co_new\<lparr>co_renewal := Committed 0 5000 (Some (1, 50000))\<rparr>) =
      co_new\<lparr>co_renewal := Activating 0 1 46000\<rparr>"
    by (simp add: renew_finish_def remaining_ms_def lease_duration_ms_def worker_clock_skew_ms_def co_new_def Let_def)
  then have "lease_step (\<lambda>_. 0) s2 s3" using lease_step.finish [of s2 "''a''" 0 5000 "Some (1, 50000)" "\<lambda>_. 0"]
    unfolding s3_def w by simp
  then have r3: "lease_reach (\<lambda>_. 0) s3" by (rule lease_reach.step [OF r2])
  have "lease_step (\<lambda>_. 0) s3 s4" using lease_step.activate [of s3 "''a''" 0 1 46000 "\<lambda>_. 0"]
    unfolding s4_def w by (simp add: renew_activate_def co_new_def)
  then have r4: "lease_reach (\<lambda>_. 0) s4" by (rule lease_reach.step [OF r3])
  have "leads s4 ''a''" by (simp add: leads_def fence_assert_def w)
  then have "\<forall>w. leads s4 w \<longrightarrow> w = ''a''" using single_leader [OF r4, of "''a''"] by (simp add: worker_clock_skew_ms_def)
  with r4 show ?thesis using \<open>leads s4 ''a''\<close> by blast
qed

end
