(* ===== verification/Spec2Isabelle.thy ===== *)
theory Spec2Isabelle imports Boarding Chat Http_Operations Keyed_Executor Live_Projection Lru_Cache Ordered_Geometry Paged_Reconciliation
    Rate_Limiting Read_Cache Reroute_Circuit
    Ride_Lifecycle Ride_Recovery Ride_Start Route_Matching Route_Save Route_Segment Stale_Sweep
    Telemetry_Route Telemetry_State Trip_Reducer Worker_Lease begin

text \<open>
  A verification library for the core of Eki, the live bus tracking system of a campus: the backend
  under \<open>src/backend/src\<close>, written in TypeScript over Express, Firestore and the Firebase realtime
  database. Trackers on the buses post telemetry once a second; ingestion authenticates, limits and
  validates it and merges it into the live node of the bus; one elected worker reduces the stream of
  live nodes to the lifecycle of a ride (departure, stops, completion, return trip) and stores the
  durable checkpoint; route services match fixes against the geometry of the route and reroute;
  passengers read routes and live nodes, board with a code and chat with the driver.

  \<^bold>\<open>Theories and sources.\<close> Names of definitions are the source's names in snake case.

  Foundations.
  \<^item> \<open>Js_Number\<close>: the numbers of the language, finite reals with the infinities and NaN; finite arithmetic
    is exact, rounding to 53 bits is not modelled. \<open>Js_Value\<close>: untrusted values (\<open>JSON.parse\<close>, database
    reads), strings, truthiness, \<open>Number(v)\<close>. \<open>Js_Map\<close>: the insertion-ordered \<open>Map\<close>, with the locale
    \<open>ordered_map\<close> that its clients use.

  Bounded machinery.
  \<^item> \<open>Lru_Cache\<close> (\<open>lib/lruCache.ts\<close>): the cache against a recency list.
  \<^item> \<open>Keyed_Executor\<close> (\<open>lib/boundedKeyedExecutor.ts\<close>, \<open>lib/concurrency.ts\<close>): admission, per-key order,
    expiry and settlement of queued work as a step relation over the events of the promises, with a
    refinement to per-key first-in first-out queues.
  \<^item> \<open>Rate_Limiting\<close> (\<open>services/deviceRateLimiter.ts\<close>, \<open>lib/rateLimitShard.ts\<close>): windows, sharded and fleet
    budgets, token reservation; the deadline and the retries of one reservation are not modelled.
  \<^item> \<open>Worker_Lease\<close> (\<open>lib/workerFence.ts\<close>, \<open>services/workerCoordinator.ts\<close>): the lease that elects the
    worker, as interleaved steps of any number of processes with skewed clocks.
  \<^item> \<open>Paged_Reconciliation\<close> (\<open>lib/reconciliationPages.ts\<close>, \<open>services/pagedLifecycleReplay.ts\<close>): paged scans
    of a collection, bounded batches, and the replay that scans its source again until a whole pass went
    through.
  \<^item> \<open>Read_Cache\<close> (\<open>lib/boundedSingleFlight.ts\<close>, \<open>services/apiReadCache.ts\<close>): callers that share one
    bounded fill per key, and the cache of API reads, with an explicit store of the shared flights.
  \<^item> \<open>Reroute_Circuit\<close> (\<open>services/rerouteRetry.ts\<close>): backoff and the circuit breaker of the route provider.

  Telemetry.
  \<^item> \<open>Telemetry_Payload\<close> (\<open>services/telemetryPayload.ts\<close>): the closed schemas and ranges of a sample.
  \<^item> \<open>Geo\<close> (\<open>lib/geo.ts\<close>, \<open>lib/telemetryMotion.ts\<close>): distances, plausible motion, and the rule on one fix
    after an outage; the locale \<open>pseudo_distance\<close> states what the policies use of the distance.
  \<^item> \<open>Telemetry_State\<close> (\<open>services/deviceTelemetryService.ts\<close>): the order of samples and the transaction
    function of ingestion on the live node, with the runs of a node on which the anchor moves.

  Rides.
  \<^item> \<open>Trip_Reducer\<close> (\<open>services/tripStateReducer.ts\<close>): one fix against the state of the ride.
  \<^item> \<open>Ride_Direction\<close> (\<open>lib/rideDirection.ts\<close>, \<open>lib/automaticRideDirection.ts\<close>,
    \<open>services/departureDirection.ts\<close>): inference of the direction and readiness for the return.
  \<^item> \<open>Live_Records\<close> (\<open>services/tripStateLifecycle.ts\<close>, \<open>services/journeyLocation.ts\<close>,
    \<open>services/rideProgressHistory.ts\<close>, \<open>lib/liveRouteContext.ts\<close>): what is read from a live node.
  \<^item> \<open>Ride_Lifecycle\<close> (\<open>services/tripStateEngine.ts\<close>): the transaction callbacks that store checkpoints,
    publish live state, complete and retire a ride and claim the return trip. A callback is a function
    of the records it reads; its retries are further applications of it. A \<open>set\<close> with \<open>merge\<close> merges the maps it
    writes into the stored ones (\<open>merge_fields\<close>).
  \<^item> \<open>Ride_Recovery\<close> (\<open>services/abandonedRideReconciliationLogic.ts\<close>,
    \<open>services/durableRideRecoveryPolicy.ts\<close>): when an unfinished ride is retired, and what a live node is
    restored to from the durable records.

  \<^item> \<open>Ride_Start\<close> (\<open>services/rideSessionStart.ts\<close>, \<open>lib/endpointSnapshotVersion.ts\<close>): the checks before a
    start, its transactions on the idempotency key, the lock of the bus and the session, the claim of the
    live node and the projections that follow. Reads outside a transaction are arguments, so that the
    theorems hold however stale they are.

  Geometry.
  \<^item> \<open>Polyline\<close> (\<open>lib/polylineUtils.ts\<close>) on 32-bit words, \<open>Route_Segment\<close> (\<open>lib/routeSegment.ts\<close>),
    \<open>Ordered_Geometry\<close> (\<open>lib/orderedRouteGeometry.ts\<close>), \<open>Route_Matching\<close> (\<open>services/routeMatching.ts\<close>).
  \<^item> \<open>Route_Catalog\<close> (\<open>services/telemetryRouteService.ts\<close>, \<open>lib/routeGeometrySignature.ts\<close>): the routes a
    replica keeps, their loads, the watcher that follows the collection, and the generations that make work on
    an edited route fail its guard. A load is two steps, before and after its read.
  \<^item> \<open>Telemetry_Route\<close> (the rest of \<open>services/telemetryRouteService.ts\<close>): the transactions that resolve a
    direction, match a fix, claim, publish and release a reroute or a departure route. What a transaction was
    prepared from is an argument, so that its theorems hold for stale reads too.


  Administration.
  \<^item> \<open>Route_Save\<close> (\<open>routes/polyline.ts\<close>, \<open>lib/routeSaveContract.ts\<close>, \<open>lib/documentId.ts\<close>): the checks of a route,
    the geometry of both directions, the claim, commit and failure of a save under an operation id, and the
    deletion of a route, interleaved on any number of replicas.
  \<^item> \<open>Http_Operations\<close> (\<open>services/httpOperations.ts\<close>): durable operations that are claimed, executed once and,
    after their executor stopped, recovered by an operator.

  Publication.
  \<^item> \<open>Live_Projection\<close> (\<open>services/liveBusProjection.ts\<close>): what of a live node is public, the availability of
    a route, and the fenced transactions that publish a view and its catalog entry.
  \<^item> \<open>Stale_Sweep\<close> (\<open>services/staleBusSweeper.ts\<close>): the paged sweep of nodes without telemetry. The generation
    that the worker's transactions stamp is in \<open>Worker_Lease\<close> and left out here.

  Passengers.
  \<^item> \<open>Boarding\<close> (\<open>services/boardingPolicy.ts\<close>), \<open>Chat\<close> (\<open>services/chatRateLimit.ts\<close> and the transaction of
    \<open>routes/sessions.ts\<close> that reserves a message; the clock of its check and the stamp of the store are two
    arguments).

  \<^bold>\<open>What is proved.\<close> Each theory ends with its properties, numbered C1, C2, ... in the text block before
  the theorem, and a witness that applies it to a concrete input. They are invariants of every run of
  a step relation (executor bounds, one leader, one probe), refinements and equivalences (queues, the
  chat window against the whole history, the dynamic programme against all placements, the narrowed scan against the full one),
  round trips (polylines, telemetry, boarding codes), safety of the ride (no silent stop, confirmed
  completion, no checkpoint that goes back, one return trip), bounds and error behaviour.

  \<^bold>\<open>Termination and fuel.\<close> The loops of the code are total functions: binary search, chunking, group
  encoding and decoding are recursive functions with a proved measure; the scan by pages, which ends only
  if the database answers as documented, is a partial function that is proved to return. The only fuel is that of the
  chat mask, the number of characters, and every step consumes one.

  \<^bold>\<open>Time and concurrency.\<close> \<open>Date.now()\<close> and \<open>performance.now()\<close> are arguments or components of a state. A
  promise callback is an event of a step relation; database transactions are atomic steps. Random
  draws, the provider of routes, \<open>JSON.parse\<close>, date parsing and the parse of numeric strings are
  parameters.

  \<^bold>\<open>Not modelled.\<close> The listeners, timers and queues of the trip engine around its callbacks, the rest of
  ingestion (credential hashing, restore scheduling), the schedulers and the
  provider call of the route service, the scheduling around the live projection, the HTTP handlers but those of routes, middleware, retention and privacy workers, metrics and
  logs; the web application, the tracker firmware (C++), security rules, deployment and scripts.
\<close>

end
